(* ===== verification/Prelude.thy ===== *)
theory Prelude
  imports Main "HOL-Library.Word"
begin

text \<open>
  Shared vocabulary of the development.  A byte of the program (\<open>uint8_t\<close>, \<open>char\<close>) is an
  \<open>8 word\<close>; the fixed-width integers of the on-disk formats are words of their own width,
  so that every shift and cast of the source keeps its wrap-around.  A \<open>std::string\<close>,
  \<open>SecureString\<close>, \<open>std::vector<uint8_t>\<close> or \<open>std::span\<close> is the list of its bytes.
  File offsets and sizes handled by the planner are naturals with the 64-bit wrap-around
  of \<open>uint64_t\<close> addition written out (\<open>add64\<close>).
\<close>

unbundle bit_operations_syntax

type_synonym byte = "8 word"
type_synonym bytes = "8 word list"
type_synonym u16 = "16 word"
type_synonym u32 = "32 word"
type_synonym u64 = "64 word"

named_theorems wire_simps \<open>size and shape of what the writers emit\<close>
named_theorems wf_intros \<open>introduction rules of the well-formedness predicates\<close>

section \<open>String literals and ASCII case folding\<close>

definition ascii :: "string \<Rightarrow> bytes" where
  "ascii s = map of_char s"

text \<open>
  The folding lambda that \<open>category_name_eq\<close> and \<open>tag_ci_equal\<close> share: only the 26 ASCII
  capitals move, every other byte (UTF-8 continuation bytes included) is left alone.
\<close>

definition lower :: "byte \<Rightarrow> byte" where
  "lower c = (if 0x41 \<le> c \<and> c \<le> 0x5A then c + 32 else c)"

text \<open>The loop of \<open>tag_ci_equal\<close> / \<open>category_name_eq\<close>: sizes first, then byte by byte.\<close>

fun ci_loop :: "bytes \<Rightarrow> bytes \<Rightarrow> bool" where
  "ci_loop (x # xs) (y # ys) = (if lower x \<noteq> lower y then False else ci_loop xs ys)"
| "ci_loop _ _ = True"

definition tag_ci_equal :: "bytes \<Rightarrow> bytes \<Rightarrow> bool" where
  "tag_ci_equal a b = (if length a \<noteq> length b then False else ci_loop a b)"

lemma ci_loop_map: "length a = length b \<Longrightarrow> ci_loop a b = (map lower a = map lower b)"
  by (induction a b rule: ci_loop.induct) auto

lemma tag_ci_equal_iff: "tag_ci_equal a b \<longleftrightarrow> map lower a = map lower b"
  by (auto simp: tag_ci_equal_def ci_loop_map dest: map_eq_imp_length_eq)

lemma tag_ci_refl [simp]: "tag_ci_equal a a"
  by (simp add: tag_ci_equal_iff)

lemma tag_ci_sym: "tag_ci_equal a b = tag_ci_equal b a"
  by (auto simp: tag_ci_equal_iff)

lemma tag_ci_trans: "tag_ci_equal a b \<Longrightarrow> tag_ci_equal b c \<Longrightarrow> tag_ci_equal a c"
  by (simp add: tag_ci_equal_iff)

lemma tag_ci_cong_left: "tag_ci_equal a b \<Longrightarrow> tag_ci_equal a c = tag_ci_equal b c"
  by (simp add: tag_ci_equal_iff)

section \<open>Lists keyed up to an equivalence\<close>

text \<open>
  \<open>distinct_by eq xs\<close>: no entry of \<open>xs\<close> is equivalent to an earlier one.  This is what the
  de-duplicating loops of the source (\<open>std::ranges::none_of(out, ...)\<close> before a
  \<open>push_back\<close>) maintain.
\<close>

fun distinct_by :: "('a \<Rightarrow> 'a \<Rightarrow> bool) \<Rightarrow> 'a list \<Rightarrow> bool" where
  "distinct_by eq [] = True"
| "distinct_by eq (x # xs) = ((\<forall>y \<in> set xs. \<not> eq x y) \<and> distinct_by eq xs)"

lemma distinct_by_append:
  "distinct_by eq (xs @ ys) \<longleftrightarrow>
     distinct_by eq xs \<and> distinct_by eq ys \<and> (\<forall>x \<in> set xs. \<forall>y \<in> set ys. \<not> eq x y)"
  by (induction xs) auto

lemma distinct_by_snoc:
  "distinct_by eq (xs @ [x]) \<longleftrightarrow> distinct_by eq xs \<and> (\<forall>y \<in> set xs. \<not> eq y x)"
  by (auto simp: distinct_by_append)

lemma distinct_by_filter: "distinct_by eq xs \<Longrightarrow> distinct_by eq (filter P xs)"
  by (induction xs) auto

lemma distinct_by_map:
  "distinct_by eq (map f xs) \<longleftrightarrow> distinct_by (\<lambda>a b. eq (f a) (f b)) xs"
  by (induction xs) auto

text \<open>A single de-duplicating push, as every loop of the source writes it.\<close>

definition push_new :: "('a \<Rightarrow> 'a \<Rightarrow> bool) \<Rightarrow> 'a list \<Rightarrow> 'a \<Rightarrow> 'a list" where
  "push_new eq xs x = (if \<exists>e \<in> set xs. eq e x then xs else xs @ [x])"

lemma distinct_by_push_new: "distinct_by eq xs \<Longrightarrow> distinct_by eq (push_new eq xs x)"
  by (auto simp: push_new_def distinct_by_snoc)

lemma length_push_new: "length (push_new eq xs x) \<le> Suc (length xs)"
  by (simp add: push_new_def)

lemma set_push_new: "set (push_new eq xs x) \<subseteq> insert x (set xs)"
  by (auto simp: push_new_def)

lemma push_new_fresh: "\<forall>e \<in> set xs. \<not> eq e x \<Longrightarrow> push_new eq xs x = xs @ [x]"
  by (auto simp: push_new_def)

section \<open>Unsigned 64-bit addition\<close>

definition add64 :: "nat \<Rightarrow> nat \<Rightarrow> nat" where
  "add64 a b = (a + b) mod 2 ^ 64"

lemma add64_no_wrap: "a + b < 2 ^ 64 \<Longrightarrow> add64 a b = a + b"
  by (simp add: add64_def)

section \<open>Byte-sized words\<close>

lemma unat_of_nat_small: "n < 2 ^ LENGTH('a::len) \<Longrightarrow> unat (of_nat n :: 'a word) = n"
  by (simp add: unat_of_nat take_bit_nat_eq_self)

lemma take_clamp [simp]: "length xs \<le> n \<Longrightarrow> take (min n (length xs)) xs = xs"
  by simp

end
