(* ===== verification/Byte_IO.thy ===== *)
theory Byte_IO
  imports Prelude
begin

text \<open>
  \<open>src/vault/byte_io.h\<close>: little-endian fixed-width byte I/O.  The appending \<open>ByteWriter\<close> is
  modelled by what each call appends (a serialiser is the concatenation of its calls); the
  fixed-offset writers update a buffer of given size in place; the \<open>ByteReader\<close> is a record
  with its cursor and its latched error flag, threaded explicitly.
\<close>

section \<open>Little-endian encoding of a word\<close>

text \<open>\<open>static_cast<uint8_t>(v >> (8 * i))\<close> for the given number of bytes.\<close>

definition le_bytes :: "nat \<Rightarrow> 'a::len word \<Rightarrow> bytes" where
  "le_bytes n v = map (\<lambda>i. ucast (drop_bit (8 * i) v)) [0..<n]"

text \<open>\<open>v |= static_cast<T>(byte) << (8 * i)\<close>, accumulated from byte 0.\<close>

fun le_accum :: "nat \<Rightarrow> 'a::len word \<Rightarrow> bytes \<Rightarrow> 'a word" where
  "le_accum i v [] = v"
| "le_accum i v (b # bs) = le_accum (Suc i) (v OR push_bit (8 * i) (ucast b)) bs"

definition le_value :: "bytes \<Rightarrow> 'a::len word" where
  "le_value bs = le_accum 0 0 bs"

lemma length_le_bytes [simp]: "length (le_bytes n v) = n"
  by (simp add: le_bytes_def)

lemma bit_le_accum:
  "bit (le_accum i v bs) k \<longleftrightarrow>
     k < LENGTH('a) \<and>
     (bit v k \<or> (8 * i \<le> k \<and> k < 8 * (i + length bs) \<and> bit (bs ! (k div 8 - i)) (k mod 8)))"
  for v :: "'a::len word"
proof (induction i v bs rule: le_accum.induct)
  case (1 i v)
  then show ?case by (auto dest: bit_imp_le_length)
next
  case (2 i v b bs)
  have byte: "bit (push_bit (8 * i) (ucast b :: 'a word)) k \<longleftrightarrow>
      k < LENGTH('a) \<and> 8 * i \<le> k \<and> k < 8 * Suc i \<and> bit b (k mod 8)"
  proof -
    consider "k < 8 * i" | "8 * i \<le> k" "k < 8 * Suc i" | "8 * Suc i \<le> k" by linarith
    then show ?thesis
    proof cases
      case 1
      then show ?thesis by (simp add: bit_push_bit_iff)
    next
      case 2
      then obtain j where j: "k = 8 * i + j" "j < 8" using le_Suc_ex by auto
      then have "k mod 8 = j" "k - 8 * i = j" by simp_all
      with 2 show ?thesis
        by (simp only: bit_push_bit_iff bit_ucast_iff possible_bit_word) auto
    next
      case 3
      then have "\<not> bit b (k - 8 * i)" by (auto dest!: bit_imp_le_length)
      with 3 show ?thesis by (simp only: bit_push_bit_iff bit_ucast_iff) simp
    qed
  qed
  have split: "8 * i \<le> k \<and> k < 8 * (i + length (b # bs)) \<and> bit ((b # bs) ! (k div 8 - i)) (k mod 8)
     \<longleftrightarrow> (8 * i \<le> k \<and> k < 8 * Suc i \<and> bit b (k mod 8)) \<or>
         (8 * Suc i \<le> k \<and> k < 8 * (Suc i + length bs) \<and> bit (bs ! (k div 8 - Suc i)) (k mod 8))"
  proof -
    consider "k < 8 * i" | "8 * i \<le> k" "k < 8 * Suc i" | "8 * Suc i \<le> k" by linarith
    then show ?thesis
    proof cases
      case 1
      then have "\<not> 8 * i \<le> k" "\<not> 8 * Suc i \<le> k" by simp_all
      then show ?thesis by blast
    next
      case 2
      then have "k div 8 - i = 0" "k < 8 * (i + length (b # bs))" "\<not> 8 * Suc i \<le> k"
        by (auto simp: div_nat_eqI)
      with 2 show ?thesis by (simp only: nth_Cons_0 simp_thms)
    next
      case 3
      then have "k div 8 - i = Suc (k div 8 - Suc i)" "8 * i \<le> k" "\<not> k < 8 * Suc i"
        by (simp_all add: less_eq_div_iff_mult_less_eq Suc_diff_Suc)
      with 3 show ?thesis by (simp only: nth_Cons_Suc length_Cons add_Suc_shift simp_thms)
    qed
  qed
  show ?case
    unfolding le_accum.simps unfolding "2.IH" split bit_or_iff byte by blast
qed

lemma le_value_le_bytes:
  "LENGTH('a::len) = 8 * n \<Longrightarrow> le_value (le_bytes n (v :: 'a word)) = v"
proof (rule bit_word_eqI)
  fix k assume n: "LENGTH('a) = 8 * n" and k: "k < LENGTH('a)"
  from n k have i: "k div 8 < n" by auto
  have "8 * (k div 8) + k mod 8 = k" by simp
  then have "bit (le_bytes n v ! (k div 8)) (k mod 8) = bit v k"
    using i by (simp add: le_bytes_def bit_ucast_iff bit_drop_bit_eq)
  then show "bit (le_value (le_bytes n v) :: 'a word) k = bit v k"
    using n k by (simp add: le_value_def bit_le_accum)
qed

abbreviation w_u8 :: "byte \<Rightarrow> bytes" where "w_u8 v \<equiv> [v]"

definition w_u16 :: "u16 \<Rightarrow> bytes" where "w_u16 v = le_bytes 2 v"

definition w_u32 :: "u32 \<Rightarrow> bytes" where "w_u32 v = le_bytes 4 v"

definition w_u64 :: "u64 \<Rightarrow> bytes" where "w_u64 v = le_bytes 8 v"

lemma length_w [simp, wire_simps]:
  "length (w_u16 a) = 2" "length (w_u32 b) = 4" "length (w_u64 c) = 8"
  by (simp_all add: w_u16_def w_u32_def w_u64_def)

section \<open>Fixed-offset writers and readers\<close>

text \<open>
  Each writes into a buffer that the caller guarantees to be large enough; a store outside
  it is undefined behaviour in the source and never happens in the callers modelled here
  (the header layouts), so the model's \<open>put_bytes_at\<close> is only used within bounds.
\<close>

definition put_bytes_at :: "bytes \<Rightarrow> nat \<Rightarrow> bytes \<Rightarrow> bytes" where
  "put_bytes_at buf off src = take off buf @ src @ drop (off + length src) buf"

definition put_u8_at :: "bytes \<Rightarrow> nat \<Rightarrow> byte \<Rightarrow> bytes" where
  "put_u8_at buf off v = buf[off := v]"

definition put_u16_at :: "bytes \<Rightarrow> nat \<Rightarrow> u16 \<Rightarrow> bytes" where
  "put_u16_at buf off v = buf[off := ucast v, off + 1 := ucast (drop_bit 8 v)]"

definition put_u32_at :: "bytes \<Rightarrow> nat \<Rightarrow> u32 \<Rightarrow> bytes" where
  "put_u32_at buf off v =
     buf[off := ucast v, off + 1 := ucast (drop_bit 8 v),
         off + 2 := ucast (drop_bit 16 v), off + 3 := ucast (drop_bit 24 v)]"

definition put_u64_at :: "bytes \<Rightarrow> nat \<Rightarrow> u64 \<Rightarrow> bytes" where
  "put_u64_at buf off v =
     fold (\<lambda>i b. b[off + i := ucast (drop_bit (8 * i) v)]) [0..<8] buf"

definition get_u16_at :: "bytes \<Rightarrow> nat \<Rightarrow> u16" where
  "get_u16_at buf off = ucast (buf ! off) OR push_bit 8 (ucast (buf ! (off + 1)))"

definition get_u32_at :: "bytes \<Rightarrow> nat \<Rightarrow> u32" where
  "get_u32_at buf off =
     ucast (buf ! off) OR push_bit 8 (ucast (buf ! (off + 1)))
       OR push_bit 16 (ucast (buf ! (off + 2))) OR push_bit 24 (ucast (buf ! (off + 3)))"

definition get_u64_at :: "bytes \<Rightarrow> nat \<Rightarrow> u64" where
  "get_u64_at buf off =
     fold (\<lambda>i v. v OR push_bit (8 * i) (ucast (buf ! (off + i)))) [0..<8] 0"

definition get_bytes_at :: "bytes \<Rightarrow> nat \<Rightarrow> nat \<Rightarrow> bytes" where
  "get_bytes_at buf off n = take n (drop off buf)"

text \<open>
  Every fixed-offset access is a slice access: a writer replaces the slice by the
  little-endian bytes, a reader decodes the slice.  These are the only facts about them
  that the header proofs use.
\<close>

lemma length_put_bytes_at [simp]:
  "off + length src \<le> length buf \<Longrightarrow> length (put_bytes_at buf off src) = length buf"
  by (simp add: put_bytes_at_def)

lemma put_u8_at_slice: "off < length buf \<Longrightarrow> put_u8_at buf off v = put_bytes_at buf off [v]"
  by (simp add: put_u8_at_def put_bytes_at_def upd_conv_take_nth_drop)

lemma nth_put_bytes_at:
  "off + length src \<le> length buf \<Longrightarrow> i < length buf \<Longrightarrow>
   put_bytes_at buf off src ! i =
     (if off \<le> i \<and> i < off + length src then src ! (i - off) else buf ! i)"
  by (auto simp: put_bytes_at_def nth_append min_def not_less)

lemma put_u16_at_slice:
  assumes "off + 2 \<le> length buf"
  shows "put_u16_at buf off v = put_bytes_at buf off (le_bytes 2 v)"
  using assms
  by (intro nth_equalityI)
     (auto simp: put_u16_at_def nth_put_bytes_at nth_list_update le_bytes_def nth_Cons'
           numeral_2_eq_2 upt_rec)

lemma put_u32_at_slice:
  assumes "off + 4 \<le> length buf"
  shows "put_u32_at buf off v = put_bytes_at buf off (le_bytes 4 v)"
proof -
  have len: "length (put_bytes_at buf off (le_bytes 4 v)) = length buf"
    using assms by simp
  have less4: "n < 4 \<longleftrightarrow> n = 0 \<or> n = 1 \<or> n = 2 \<or> n = (3::nat)" for n by auto
  show ?thesis
  proof (rule nth_equalityI)
    show "length (put_u32_at buf off v) = length (put_bytes_at buf off (le_bytes 4 v))"
      using len by (simp add: put_u32_at_def)
  next
    fix i assume "i < length (put_u32_at buf off v)"
    then have i: "i < length buf" by (simp add: put_u32_at_def)
    show "put_u32_at buf off v ! i = put_bytes_at buf off (le_bytes 4 v) ! i"
    proof (cases "off \<le> i \<and> i - off < 4")
      case True
      then consider "i = off" | "i = off + 1" | "i = off + 2" | "i = off + 3"
        unfolding less4 by fastforce
      then show ?thesis
        using assms i
        by cases (auto simp: put_u32_at_def nth_put_bytes_at nth_list_update le_bytes_def)
    next
      case False
      with assms i show ?thesis
        by (auto simp: put_u32_at_def nth_put_bytes_at nth_list_update)
    qed
  qed
qed

lemma fold_update_nth:
  "off + n \<le> length buf \<Longrightarrow> i < length buf \<Longrightarrow>
   fold (\<lambda>i b. b[off + i := f i]) [0..<n] buf ! i =
     (if off \<le> i \<and> i < off + n then f (i - off) else buf ! i)"
  and length_fold_update: "length (fold (\<lambda>i b. b[off + i := f i]) [0..<n] buf) = length buf"
proof -
  show len: "length (fold (\<lambda>i b. b[off + i := f i]) [0..<m] buf) = length buf" for m
    by (induction m) auto
  show "off + n \<le> length buf \<Longrightarrow> i < length buf \<Longrightarrow>
   fold (\<lambda>i b. b[off + i := f i]) [0..<n] buf ! i =
     (if off \<le> i \<and> i < off + n then f (i - off) else buf ! i)"
    by (induction n) (auto simp: nth_list_update len)
qed

lemma put_u64_at_slice:
  assumes "off + 8 \<le> length buf"
  shows "put_u64_at buf off v = put_bytes_at buf off (le_bytes 8 v)"
proof (rule nth_equalityI)
  show "length (put_u64_at buf off v) = length (put_bytes_at buf off (le_bytes 8 v))"
    using assms by (simp add: put_u64_at_def length_fold_update)
next
  fix i assume "i < length (put_u64_at buf off v)"
  then have i: "i < length buf" by (simp add: put_u64_at_def length_fold_update)
  show "put_u64_at buf off v ! i = put_bytes_at buf off (le_bytes 8 v) ! i"
    unfolding put_u64_at_def fold_update_nth[OF assms i]
    using assms i by (auto simp: nth_put_bytes_at le_bytes_def)
qed

lemma get_u16_at_slice:
  "off + 2 \<le> length buf \<Longrightarrow> get_u16_at buf off = le_value (get_bytes_at buf off 2)"
  by (simp add: get_u16_at_def le_value_def get_bytes_at_def numeral_2_eq_2 take_Suc_conv_app_nth)

lemma get_u32_at_slice:
  "off + 4 \<le> length buf \<Longrightarrow> get_u32_at buf off = le_value (get_bytes_at buf off 4)"
  by (simp add: get_u32_at_def le_value_def get_bytes_at_def eval_nat_numeral
        take_Suc_conv_app_nth or.assoc)

lemma get_u64_at_slice:
  "off + 8 \<le> length buf \<Longrightarrow> get_u64_at buf off = le_value (get_bytes_at buf off 8)"
  by (simp add: get_u64_at_def le_value_def get_bytes_at_def eval_nat_numeral
        take_Suc_conv_app_nth or.assoc)

lemma get_put_same [simp]:
  "off + length src \<le> length buf \<Longrightarrow> length src = n \<Longrightarrow>
   get_bytes_at (put_bytes_at buf off src) off n = src"
  by (simp add: get_bytes_at_def put_bytes_at_def min_def)

lemma get_put_other [simp]:
  "off + length src \<le> length buf \<Longrightarrow> off' + n \<le> off \<or> off + length src \<le> off' \<Longrightarrow>
   off' + n \<le> length buf \<Longrightarrow>
   get_bytes_at (put_bytes_at buf off src) off' n = get_bytes_at buf off' n"
  by (rule nth_equalityI) (auto simp: get_bytes_at_def nth_put_bytes_at)

lemma length_get_bytes_at [simp]: "off + n \<le> length buf \<Longrightarrow> length (get_bytes_at buf off n) = n"
  by (simp add: get_bytes_at_def)

section \<open>The bounds-checked reader\<close>

record reader =
  rd_in :: bytes
  rd_pos :: nat
  rd_ok :: bool

definition reader_of :: "bytes \<Rightarrow> reader" where
  "reader_of inp = \<lparr>rd_in = inp, rd_pos = 0, rd_ok = True\<rparr>"

definition rd_remaining :: "reader \<Rightarrow> nat" where
  "rd_remaining r = (if rd_ok r then length (rd_in r) - rd_pos r else 0)"

text \<open>\<open>need\<close>: latches the error flag on the first short read.\<close>

definition rd_need :: "nat \<Rightarrow> reader \<Rightarrow> bool \<times> reader" where
  "rd_need n r =
     (if \<not> rd_ok r then (False, r)
      else if length (rd_in r) - rd_pos r < n then (False, r\<lparr>rd_ok := False\<rparr>)
      else (True, r))"

definition rd_u8 :: "reader \<Rightarrow> byte \<times> reader" where
  "rd_u8 r = (case rd_need 1 r of (ok, r) \<Rightarrow>
     if ok then (rd_in r ! rd_pos r, r\<lparr>rd_pos := rd_pos r + 1\<rparr>) else (0, r))"

definition rd_get :: "nat \<Rightarrow> reader \<Rightarrow> 'a::len word \<times> reader" where
  "rd_get n r = (case rd_need n r of (ok, r) \<Rightarrow>
     if ok then (le_value (take n (drop (rd_pos r) (rd_in r))), r\<lparr>rd_pos := rd_pos r + n\<rparr>)
     else (0, r))"

definition rd_u16 :: "reader \<Rightarrow> u16 \<times> reader" where "rd_u16 r = rd_get 2 r"

definition rd_u32 :: "reader \<Rightarrow> u32 \<times> reader" where "rd_u32 r = rd_get 4 r"

definition rd_u64 :: "reader \<Rightarrow> u64 \<times> reader" where "rd_u64 r = rd_get 8 r"

text \<open>
  \<open>bytes(dst)\<close>: copies \<open>dst.size()\<close> bytes, or leaves \<open>dst\<close> untouched on a short read; the
  old contents of the destination are an argument.
\<close>

definition rd_bytes :: "bytes \<Rightarrow> reader \<Rightarrow> bytes \<times> reader" where
  "rd_bytes dst r = (case rd_need (length dst) r of (ok, r) \<Rightarrow>
     if ok then (take (length dst) (drop (rd_pos r) (rd_in r)),
                 r\<lparr>rd_pos := rd_pos r + length dst\<rparr>)
     else (dst, r))"

subsection \<open>Memory safety: the cursor never leaves the buffer\<close>

definition rd_inv :: "reader \<Rightarrow> bool" where
  "rd_inv r \<longleftrightarrow> rd_pos r \<le> length (rd_in r)"

lemma rd_inv_reader_of [simp]: "rd_inv (reader_of bs)"
  by (simp add: rd_inv_def reader_of_def)

lemma rd_inv_u8: "rd_inv r \<Longrightarrow> rd_inv (snd (rd_u8 r))"
  by (auto simp: rd_u8_def rd_need_def rd_inv_def)

lemma rd_inv_get: "rd_inv r \<Longrightarrow> rd_inv (snd (rd_get n r))"
  by (auto simp: rd_get_def rd_need_def rd_inv_def)

lemma rd_inv_bytes: "rd_inv r \<Longrightarrow> rd_inv (snd (rd_bytes d r))"
  by (auto simp: rd_bytes_def rd_need_def rd_inv_def)

lemma rd_latched:
  "\<not> rd_ok r \<Longrightarrow> rd_u8 r = (0, r) \<and> rd_get n r = (0, r) \<and> rd_bytes d r = (d, r)"
  by (simp add: rd_u8_def rd_get_def rd_bytes_def rd_need_def)

subsection \<open>A healthy reader, split at its cursor\<close>

text \<open>
  \<open>mid pre suf\<close> is the reader that has consumed \<open>pre\<close> and has \<open>suf\<close> in front of it.
  Reading back something that was written is then plain rewriting: the rules below are
  unconditional and compute the value read and the next cursor.
\<close>

definition mid :: "bytes \<Rightarrow> bytes \<Rightarrow> reader" where
  "mid pre suf = \<lparr>rd_in = pre @ suf, rd_pos = length pre, rd_ok = True\<rparr>"

lemma reader_of_mid: "reader_of bs = mid [] bs"
  by (simp add: reader_of_def mid_def)

lemma mid_sel [simp]:
  "rd_ok (mid pre suf)" "rd_in (mid pre suf) = pre @ suf" "rd_pos (mid pre suf) = length pre"
  "rd_remaining (mid pre suf) = length suf"
  by (simp_all add: mid_def rd_remaining_def)

lemma mid_eq_iff: "mid pre suf = mid pre' suf' \<longleftrightarrow> pre = pre' \<and> suf = suf'"
  by (auto simp: mid_def append_eq_append_conv)

lemma rd_u8_mid [simp]: "rd_u8 (mid pre (v # xs)) = (v, mid (pre @ [v]) xs)"
  by (simp add: rd_u8_def rd_need_def mid_def)

lemma rd_get_mid:
  "LENGTH('a::len) = 8 * n \<Longrightarrow>
   rd_get n (mid pre (le_bytes n v @ xs)) = ((v :: 'a word), mid (pre @ le_bytes n v) xs)"
  by (simp add: rd_get_def rd_need_def mid_def le_value_le_bytes)

lemma rd_u16_mid [simp]: "rd_u16 (mid pre (w_u16 v @ xs)) = (v, mid (pre @ w_u16 v) xs)"
  by (simp add: rd_u16_def w_u16_def rd_get_mid)

lemma rd_u32_mid [simp]: "rd_u32 (mid pre (w_u32 v @ xs)) = (v, mid (pre @ w_u32 v) xs)"
  by (simp add: rd_u32_def w_u32_def rd_get_mid)

lemma rd_u64_mid [simp]: "rd_u64 (mid pre (w_u64 v @ xs)) = (v, mid (pre @ w_u64 v) xs)"
  by (simp add: rd_u64_def w_u64_def rd_get_mid)

lemma rd_bytes_mid [simp]:
  "length d = length v \<Longrightarrow> rd_bytes d (mid pre (v @ xs)) = (v, mid (pre @ v) xs)"
  by (simp add: rd_bytes_def rd_need_def mid_def)

section \<open>Checked reads and counted loops\<close>

text \<open>The recurring \<open>x = r.uN(); if (!r.ok()) return false;\<close>.\<close>

definition checked :: "'a \<times> reader \<Rightarrow> ('a \<times> reader) option" where
  "checked p = (if rd_ok (snd p) then Some p else None)"

lemma checked_mid [simp]: "checked (x, mid pre suf) = Some (x, mid pre suf)"
  by (simp add: checked_def)

text \<open>
  The recurring \<open>for (i = 0; i < count; ++i) { ...; if (...) return false; ... }\<close> over
  a state that the body extends.
\<close>

fun rd_loop :: "nat \<Rightarrow> ('s \<Rightarrow> reader \<Rightarrow> ('s \<times> reader) option) \<Rightarrow> 's \<Rightarrow> reader
    \<Rightarrow> ('s \<times> reader) option" where
  "rd_loop 0 f s r = Some (s, r)"
| "rd_loop (Suc k) f s r = (case f s r of None \<Rightarrow> None | Some (s, r) \<Rightarrow> rd_loop k f s r)"

lemma rd_loop_append:
  "rd_loop (j + k) f s r =
     (case rd_loop j f s r of None \<Rightarrow> None | Some (s, r) \<Rightarrow> rd_loop k f s r)"
  by (induction j arbitrary: s r) (auto split: option.splits)

text \<open>A property of the loop state that every iteration keeps holds at the end.\<close>

lemma rd_loop_invariant:
  assumes "rd_loop k f s r = Some (s', r')" and "P s r"
    and "\<And>s r s' r'. P s r \<Longrightarrow> f s r = Some (s', r') \<Longrightarrow> P s' r'"
  shows "P s' r'"
  using assms(1,2)
  by (induction k arbitrary: s r) (auto split: option.splits intro: assms(3))

text \<open>The same with the number of completed iterations visible to the invariant.\<close>

lemma rd_loop_count:
  assumes "rd_loop k f s r = Some (s', r')" and "P 0 s r"
    and step: "\<And>i s r s' r'. P i s r \<Longrightarrow> f s r = Some (s', r') \<Longrightarrow> P (Suc i) s' r'"
  shows "P k s' r'"
proof -
  have "P i s r \<Longrightarrow> rd_loop k f s r = Some (s', r') \<Longrightarrow> P (i + k) s' r'" for i
  proof (induction k arbitrary: i s r)
    case 0
    then show ?case by simp
  next
    case (Suc k)
    then obtain t q where "f s r = Some (t, q)" "rd_loop k f t q = Some (s', r')"
      by (auto split: option.splits)
    with Suc.IH[of "Suc i" t q] step[OF Suc.prems(1)] show ?case by simp
  qed
  from this[of 0] assms(1,2) show ?thesis by simp
qed

section \<open>The wire-codec interface\<close>

text \<open>
  What a serialiser and its parser owe each other.  \<open>enc\<close> emits a value, \<open>dec\<close> consumes it
  from a reader, \<open>can\<close> is what the value looks like after a save and a load (the writers
  clamp over-long fields, so it is not always the identity), \<open>ok\<close> the values the law covers.
  The law itself is that \<open>dec\<close> reads back exactly what \<open>enc\<close> wrote, whatever surrounds it.
\<close>

locale wire_codec =
  fixes enc :: "'a \<Rightarrow> bytes"
    and dec :: "reader \<Rightarrow> ('b \<times> reader) option"
    and can :: "'a \<Rightarrow> 'b"
    and ok :: "'a \<Rightarrow> bool"
  assumes decodes: "ok x \<Longrightarrow> dec (mid pre (enc x @ rest)) = Some (can x, mid (pre @ enc x) rest)"
begin

text \<open>The encodings are self-delimiting: two emitted values at the same place agree.\<close>

lemma prefix_free:
  assumes "ok x" "ok y" "enc x @ r1 = enc y @ r2"
  shows "can x = can y \<and> enc x = enc y \<and> r1 = r2"
proof -
  have "Some (can x, mid (enc x) r1) = Some (can y, mid (enc y) r2)"
    using decodes[OF assms(1), of "[]" r1] decodes[OF assms(2), of "[]" r2] assms(3) by simp
  then show ?thesis by (simp add: mid_eq_iff)
qed

lemma enc_inj: "ok x \<Longrightarrow> ok y \<Longrightarrow> enc x = enc y \<Longrightarrow> can x = can y"
  using prefix_free[of x y "[]" "[]"] by simp

text \<open>A counted block of values, collected by any \<open>push\<close>.\<close>

lemma decodes_loop:
  "\<forall>x \<in> set xs. ok x \<Longrightarrow>
   rd_loop (length xs)
     (\<lambda>s r. case dec r of None \<Rightarrow> None | Some (y, r) \<Rightarrow> Some (push s y, r)) s
     (mid pre (concat (map enc xs) @ rest)) =
   Some (foldl push s (map can xs), mid (pre @ concat (map enc xs)) rest)"
  by (induction xs arbitrary: s pre) (simp_all add: decodes)

end

lemma foldl_snoc: "foldl (\<lambda>s y. s @ [y]) s ys = s @ ys"
  by (induction ys arbitrary: s) simp_all

text \<open>If one of the values does not decode, neither does the block.\<close>

lemma rd_loop_fails:
  assumes "wire_codec enc dec can (\<lambda>x. x \<in> set ys)"
    and "\<And>pre rest. dec (mid pre (enc z @ rest)) = None"
  shows "rd_loop (length ys + Suc k)
     (\<lambda>s r. case dec r of None \<Rightarrow> None | Some (y, r) \<Rightarrow> Some (push s y, r)) s
     (mid pre (concat (map enc ys) @ enc z @ rest)) = None"
proof -
  have "\<forall>x \<in> set ys. x \<in> set ys" by simp
  note front = wire_codec.decodes_loop[OF assms(1) this]
  show ?thesis
    unfolding rd_loop_append front by (simp add: assms(2) append_assoc[symmetric] del: append_assoc)
qed

end
