(* ===== verification/Index_Format.thy ===== *)
theory Index_Format
  imports Byte_IO
begin

text \<open>
  \<open>src/vault/index.h\<close>: the in-memory gallery tree and the vault-global metadata.  A struct is
  a record, a validated enum a datatype.  The enums whose byte is \<^emph>\<open>not\<close> validated on read
  (\<open>ImageFormat\<close>, \<open>VideoContainer\<close>, \<open>VideoCodec\<close>: newer values are kept as unnamed enum
  values) are stored as their underlying \<open>uint8_t\<close>; the named values have datatypes with
  their byte.  A \<open>std::array<uint8_t, 16>\<close> is a byte list whose length is part of the
  well-formedness of the node that holds it.
\<close>

section \<open>Constants\<close>

definition INDEX_VERSION :: byte where "INDEX_VERSION = 13"

definition MIGRATION_INDEX_VERSION :: byte where "MIGRATION_INDEX_VERSION = 7"

definition INDEX_MAX_DEPTH :: nat where "INDEX_MAX_DEPTH = 128"

definition INDEX_MAX_TAGS :: nat where "INDEX_MAX_TAGS = 4096"

definition INDEX_MAX_VIDEO_CHUNKS :: nat where "INDEX_MAX_VIDEO_CHUNKS = 1048576"

definition INDEX_MAX_SAVED_SEARCHES :: nat where "INDEX_MAX_SAVED_SEARCHES = 4096"

definition INDEX_MAX_SAVED_QUERY_BYTES :: nat where "INDEX_MAX_SAVED_QUERY_BYTES = 1048576"

definition INDEX_MAX_TAG_CATEGORIES :: nat where "INDEX_MAX_TAG_CATEGORIES = 256"

definition INDEX_MAX_CATEGORY_BYTES :: nat where "INDEX_MAX_CATEGORY_BYTES = 64"

definition INDEX_MAX_TAG_DESCRIPTIONS :: nat where "INDEX_MAX_TAG_DESCRIPTIONS = 4096"

definition INDEX_MAX_TAG_DESC_BYTES :: nat where "INDEX_MAX_TAG_DESC_BYTES = 512"

definition INDEX_MAX_TEMPLATE_FIELDS :: nat where "INDEX_MAX_TEMPLATE_FIELDS = 16"

definition INDEX_MAX_FIELD_BYTES :: nat where "INDEX_MAX_FIELD_BYTES = 64"

definition INDEX_MAX_FIELD_VALUE_BYTES :: nat where "INDEX_MAX_FIELD_VALUE_BYTES = 256"

definition INDEX_MAX_TAG_FIELD_VALUES :: nat where "INDEX_MAX_TAG_FIELD_VALUES = 16384"

definition TAG_SWATCH_COUNT :: byte where "TAG_SWATCH_COUNT = 16"

definition NODE_ID_SIZE :: nat where "NODE_ID_SIZE = 16"

lemmas index_limits =
  INDEX_VERSION_def MIGRATION_INDEX_VERSION_def INDEX_MAX_DEPTH_def INDEX_MAX_TAGS_def
  INDEX_MAX_VIDEO_CHUNKS_def INDEX_MAX_SAVED_SEARCHES_def INDEX_MAX_SAVED_QUERY_BYTES_def
  INDEX_MAX_TAG_CATEGORIES_def INDEX_MAX_CATEGORY_BYTES_def INDEX_MAX_TAG_DESCRIPTIONS_def
  INDEX_MAX_TAG_DESC_BYTES_def INDEX_MAX_TEMPLATE_FIELDS_def INDEX_MAX_FIELD_BYTES_def
  INDEX_MAX_FIELD_VALUE_BYTES_def INDEX_MAX_TAG_FIELD_VALUES_def TAG_SWATCH_COUNT_def
  NODE_ID_SIZE_def

abbreviation zero_id :: bytes where "zero_id \<equiv> replicate NODE_ID_SIZE 0"

section \<open>Enums\<close>

datatype image_format = JPEG | PNG | GIF | BMP | TGA | HDR | WebP | HEIC | AVIF | UnknownFormat

fun image_format_byte :: "image_format \<Rightarrow> byte" where
  "image_format_byte JPEG = 0" | "image_format_byte PNG = 1" | "image_format_byte GIF = 2"
| "image_format_byte BMP = 3" | "image_format_byte TGA = 4" | "image_format_byte HDR = 5"
| "image_format_byte WebP = 6" | "image_format_byte HEIC = 7" | "image_format_byte AVIF = 8"
| "image_format_byte UnknownFormat = 0xFF"

definition format_can_animate :: "byte \<Rightarrow> bool" where
  "format_can_animate f \<longleftrightarrow> f = image_format_byte GIF \<or> f = image_format_byte WebP"

datatype video_container =
  MP4 | MKV | AVI | MPEGPS | MPEGTS | ASF | FLV | OGG | RM | UnknownContainer

fun video_container_byte :: "video_container \<Rightarrow> byte" where
  "video_container_byte MP4 = 0" | "video_container_byte MKV = 1"
| "video_container_byte AVI = 2" | "video_container_byte MPEGPS = 3"
| "video_container_byte MPEGTS = 4" | "video_container_byte ASF = 5"
| "video_container_byte FLV = 6" | "video_container_byte OGG = 7"
| "video_container_byte RM = 8" | "video_container_byte UnknownContainer = 0xFF"

text \<open>\<open>VideoCodec::Unknown\<close>; the 37 named codecs are only compared with it in the vault layer.\<close>

definition codec_unknown :: byte where "codec_unknown = 0xFF"

datatype sort_key =
  SortDefault | NameAsc | NameDesc | DateAsc | DateDesc | SizeAsc | SizeDesc | Insertion

fun sort_key_byte :: "sort_key \<Rightarrow> byte" where
  "sort_key_byte SortDefault = 0" | "sort_key_byte NameAsc = 1" | "sort_key_byte NameDesc = 2"
| "sort_key_byte DateAsc = 3" | "sort_key_byte DateDesc = 4" | "sort_key_byte SizeAsc = 5"
| "sort_key_byte SizeDesc = 6" | "sort_key_byte Insertion = 7"

text \<open>\<open>static_cast<SortKey>\<close>, only ever applied to a byte already checked to be at most 7.\<close>

definition sort_key_of :: "byte \<Rightarrow> sort_key" where
  "sort_key_of b =
     (if b = 0 then SortDefault else if b = 1 then NameAsc else if b = 2 then NameDesc
      else if b = 3 then DateAsc else if b = 4 then DateDesc else if b = 5 then SizeAsc
      else if b = 6 then SizeDesc else Insertion)"

lemma sort_key_of_byte [simp]: "sort_key_of (sort_key_byte k) = k"
  by (cases k) (simp_all add: sort_key_of_def)

lemma sort_key_byte_le [simp]: "sort_key_byte k \<le> sort_key_byte Insertion"
  by (cases k) simp_all

datatype node_type = Gallery | Image | Video

fun node_type_byte :: "node_type \<Rightarrow> byte" where
  "node_type_byte Gallery = 0" | "node_type_byte Image = 1" | "node_type_byte Video = 2"

definition node_type_of :: "byte \<Rightarrow> node_type" where
  "node_type_of b = (if b = 0 then Gallery else if b = 1 then Image else Video)"

lemma node_type_of_byte [simp]: "node_type_of (node_type_byte t) = t"
  by (cases t) (simp_all add: node_type_of_def)

section \<open>Media metadata\<close>

record image_meta =
  im_format :: byte
  im_width :: u32
  im_height :: u32
  im_orig_size :: u64
  im_created_ts :: u64
  im_data_offset :: u64
  im_data_length :: u64
  im_thumb_offset :: u64
  im_thumb_length :: u64
  im_animated :: bool
  im_data_id :: bytes
  im_thumb_id :: bytes
  im_context_bound :: bool

definition default_image_meta :: image_meta where
  "default_image_meta =
     \<lparr>im_format = image_format_byte UnknownFormat, im_width = 0, im_height = 0,
      im_orig_size = 0, im_created_ts = 0, im_data_offset = 0, im_data_length = 0,
      im_thumb_offset = 0, im_thumb_length = 0, im_animated = False,
      im_data_id = zero_id, im_thumb_id = zero_id, im_context_bound = False\<rparr>"

record video_chunk =
  vc_offset :: u64
  vc_length :: u64
  vc_sequence :: u32
  vc_id :: bytes

definition default_video_chunk :: video_chunk where
  "default_video_chunk = \<lparr>vc_offset = 0, vc_length = 0, vc_sequence = 0, vc_id = zero_id\<rparr>"

record video_meta =
  vm_container :: byte
  vm_codec :: byte
  vm_width :: u32
  vm_height :: u32
  vm_duration_us :: u64
  vm_orig_size :: u64
  vm_created_ts :: u64
  vm_chunk_size :: u32
  vm_chunks :: "video_chunk list"
  vm_poster_offset :: u64
  vm_poster_length :: u64
  vm_poster_id :: bytes
  vm_context_bound :: bool

definition default_video_meta :: video_meta where
  "default_video_meta =
     \<lparr>vm_container = video_container_byte UnknownContainer, vm_codec = codec_unknown,
      vm_width = 0, vm_height = 0, vm_duration_us = 0, vm_orig_size = 0, vm_created_ts = 0,
      vm_chunk_size = 0, vm_chunks = [], vm_poster_offset = 0, vm_poster_length = 0,
      vm_poster_id = zero_id, vm_context_bound = False\<rparr>"

section \<open>The tree\<close>

text \<open>
  \<open>IndexNode\<close> is a struct that contains a vector of itself: the payload is a record, the
  recursion through \<open>children\<close> a datatype over it.
\<close>

record node_data =
  nd_type :: node_type
  nd_name :: bytes
  nd_tags :: "bytes list"
  nd_tag_provenance :: bool
  nd_explicit_tags :: "bytes list"
  nd_tag_bundles :: "bytes list"
  nd_favorite :: bool
  nd_sort_key :: sort_key
  nd_node_id :: bytes
  nd_meta :: image_meta
  nd_vmeta :: video_meta

datatype index_node = Node (ndata: node_data) (nchildren: "index_node list")

text \<open>A default-constructed \<open>IndexNode\<close>.\<close>

definition default_node_data :: node_data where
  "default_node_data =
     \<lparr>nd_type = Gallery, nd_name = [], nd_tags = [], nd_tag_provenance = False,
      nd_explicit_tags = [], nd_tag_bundles = [], nd_favorite = False,
      nd_sort_key = SortDefault, nd_node_id = zero_id, nd_meta = default_image_meta,
      nd_vmeta = default_video_meta\<rparr>"

abbreviation n_type :: "index_node \<Rightarrow> node_type" where "n_type n \<equiv> nd_type (ndata n)"
abbreviation n_name :: "index_node \<Rightarrow> bytes" where "n_name n \<equiv> nd_name (ndata n)"
abbreviation n_tags :: "index_node \<Rightarrow> bytes list" where "n_tags n \<equiv> nd_tags (ndata n)"

definition is_gallery :: "index_node \<Rightarrow> bool" where "is_gallery n \<longleftrightarrow> n_type n = Gallery"

definition is_image :: "index_node \<Rightarrow> bool" where "is_image n \<longleftrightarrow> n_type n = Image"

definition is_video :: "index_node \<Rightarrow> bool" where "is_video n \<longleftrightarrow> n_type n = Video"

definition is_media :: "index_node \<Rightarrow> bool" where "is_media n \<longleftrightarrow> is_image n \<or> is_video n"

lemma is_media_iff: "is_media n \<longleftrightarrow> \<not> is_gallery n"
  by (cases "n_type n") (simp_all add: is_media_def is_gallery_def is_image_def is_video_def)

definition gallery :: "bytes \<Rightarrow> index_node" where
  "gallery name = Node (default_node_data\<lparr>nd_type := Gallery, nd_name := name\<rparr>) []"

definition image :: "bytes \<Rightarrow> index_node" where
  "image name = Node (default_node_data\<lparr>nd_type := Image, nd_name := name\<rparr>) []"

definition video :: "bytes \<Rightarrow> index_node" where
  "video name = Node (default_node_data\<lparr>nd_type := Video, nd_name := name\<rparr>) []"

section \<open>Vault-global metadata\<close>

record saved_search =
  ss_name :: bytes
  ss_query :: bytes

record tag_category =
  tc_name :: bytes
  tc_swatch :: byte
  tc_fields :: "bytes list"

record tag_description =
  td_tag :: bytes
  td_text :: bytes

record tag_field_value =
  tf_tag :: bytes
  tf_field :: bytes
  tf_value :: bytes

record tag_bundle =
  tb_id :: bytes
  tb_name :: bytes
  tb_tags :: "bytes list"

record vault_settings =
  vs_tag_bundles :: "tag_bundle list"
  vs_default_sort :: sort_key
  vs_tiles_show_tags :: bool
  vs_categories :: "tag_category list"
  vs_tag_descriptions :: "tag_description list"
  vs_tag_field_values :: "tag_field_value list"
  vs_migrated_index_version :: byte
  vs_migrated_probe_caps :: u16
  vs_migrated_thumb_side :: u16

definition default_settings :: vault_settings where
  "default_settings =
     \<lparr>vs_tag_bundles = [], vs_default_sort = Insertion, vs_tiles_show_tags = True,
      vs_categories = [], vs_tag_descriptions = [], vs_tag_field_values = [],
      vs_migrated_index_version = 0, vs_migrated_probe_caps = 0, vs_migrated_thumb_side = 0\<rparr>"

text \<open>\<open>VaultSettings::seeded\<close>: the starting categories of a vault that never stored any.\<close>

definition seeded :: vault_settings where
  "seeded = default_settings\<lparr>vs_categories :=
     map (\<lambda>(name, swatch). \<lparr>tc_name = ascii name, tc_swatch = swatch, tc_fields = []\<rparr>)
       [(''artist'', 0), (''character'', 1), (''parody'', 2), (''group'', 3),
        (''language'', 4), (''series'', 5), (''male'', 6), (''female'', 7)]\<rparr>"

section \<open>Shape of a tree\<close>

text \<open>
  The nesting depth the reader will see: only a gallery's children are serialised.
\<close>

fun tree_depth :: "index_node \<Rightarrow> nat" where
  "tree_depth (Node d cs) =
     (if nd_type d = Gallery \<and> cs \<noteq> [] then Suc (foldr max (map tree_depth cs) 0) else 0)"

lemma foldr_max_le: "foldr max (xs :: nat list) 0 \<le> k \<longleftrightarrow> (\<forall>x \<in> set xs. x \<le> k)"
  by (induction xs) auto

lemma foldr_max_mem: "xs \<noteq> [] \<Longrightarrow> foldr max (xs :: nat list) 0 \<in> set xs"
  by (induction xs rule: induct_list012) (auto simp: max_def)

text \<open>
  What the in-memory types guarantee by themselves: identifiers are 16-byte arrays, and a
  vector of children has fewer than \<open>2^32\<close> elements (the count is cast to \<open>uint32_t\<close>).
\<close>

definition meta_ok :: "image_meta \<Rightarrow> bool" where
  "meta_ok m \<longleftrightarrow> length (im_data_id m) = NODE_ID_SIZE \<and> length (im_thumb_id m) = NODE_ID_SIZE"

definition vmeta_ok :: "video_meta \<Rightarrow> bool" where
  "vmeta_ok m \<longleftrightarrow> length (vm_poster_id m) = NODE_ID_SIZE \<and>
     (\<forall>c \<in> set (vm_chunks m). length (vc_id c) = NODE_ID_SIZE)"

fun node_ok :: "index_node \<Rightarrow> bool" where
  "node_ok (Node d cs) \<longleftrightarrow>
     length (nd_node_id d) = NODE_ID_SIZE \<and> meta_ok (nd_meta d) \<and> vmeta_ok (nd_vmeta d) \<and>
     length cs < 2 ^ 32 \<and> (\<forall>c \<in> set cs. node_ok c)"

end
