(* ===== verification/Index_Write.thy ===== *)
theory Index_Write
  imports Index_Format
begin

text \<open>
  The writers of \<open>src/vault/index.cpp\<close>.  Each definition is the bytes its function appends,
  in the order of its \<open>w.*\<close> calls, with the clamps of the source.
\<close>

text \<open>
  The length-prefixed string of every block: the size is clamped to \<open>cap\<close> (at most 0xFFFF),
  written as a \<open>u16\<close>, followed by that many bytes.
\<close>

definition clamp :: "nat \<Rightarrow> nat \<Rightarrow> nat" where
  "clamp n cap = (if n > cap then cap else n)"

definition write_str :: "nat \<Rightarrow> bytes \<Rightarrow> bytes" where
  "write_str cap s = (let len = clamp (length s) cap in w_u16 (of_nat len) @ take len s)"

definition write_bool :: "bool \<Rightarrow> bytes" where
  "write_bool b = w_u8 (if b then 1 else 0)"

definition write_tags :: "bytes list \<Rightarrow> bytes" where
  "write_tags tags = (let tag_count = clamp (length tags) INDEX_MAX_TAGS in
     w_u16 (of_nat tag_count) @ concat (map (write_str 0xFFFF) (take tag_count tags)))"

definition write_image_meta :: "image_meta \<Rightarrow> bytes" where
  "write_image_meta m =
     w_u8 (im_format m) @ w_u32 (im_width m) @ w_u32 (im_height m) @
     w_u64 (im_orig_size m) @ w_u64 (im_created_ts m) @
     w_u64 (im_data_offset m) @ w_u64 (im_data_length m) @
     w_u64 (im_thumb_offset m) @ w_u64 (im_thumb_length m) @
     write_bool (im_animated m) @ write_bool (im_context_bound m) @
     im_data_id m @ im_thumb_id m"

definition write_video_chunk :: "video_chunk \<Rightarrow> bytes" where
  "write_video_chunk c =
     w_u64 (vc_offset c) @ w_u64 (vc_length c) @ w_u32 (vc_sequence c) @ vc_id c"

definition write_video_meta :: "video_meta \<Rightarrow> bytes" where
  "write_video_meta m =
     w_u8 (vm_container m) @ w_u8 (vm_codec m) @ w_u32 (vm_width m) @ w_u32 (vm_height m) @
     w_u64 (vm_duration_us m) @ w_u64 (vm_orig_size m) @ w_u64 (vm_created_ts m) @
     w_u32 (vm_chunk_size m) @
     (let n = clamp (length (vm_chunks m)) INDEX_MAX_VIDEO_CHUNKS in
        w_u32 (of_nat n) @ concat (map write_video_chunk (take n (vm_chunks m)))) @
     w_u64 (vm_poster_offset m) @ w_u64 (vm_poster_length m) @
     write_bool (vm_context_bound m) @ vm_poster_id m"

fun write_node :: "index_node \<Rightarrow> bytes" where
  "write_node (Node d cs) =
     w_u8 (node_type_byte (nd_type d)) @
     write_str 0xFFFF (nd_name d) @
     write_tags (nd_tags d) @
     write_bool (nd_favorite d) @
     w_u8 (sort_key_byte (nd_sort_key d)) @
     nd_node_id d @
     (case nd_type d of
        Gallery \<Rightarrow> w_u32 (of_nat (length cs)) @ concat (map write_node cs)
      | Image \<Rightarrow> write_image_meta (nd_meta d)
      | Video \<Rightarrow> write_video_meta (nd_vmeta d))"

definition write_saved_search :: "saved_search \<Rightarrow> bytes" where
  "write_saved_search s =
     write_str 0xFFFF (ss_name s) @
     (let q_len = clamp (length (ss_query s)) INDEX_MAX_SAVED_QUERY_BYTES in
        w_u32 (of_nat q_len) @ take q_len (ss_query s))"

definition write_saved_searches :: "saved_search list \<Rightarrow> bytes" where
  "write_saved_searches searches =
     (let count = clamp (length searches) INDEX_MAX_SAVED_SEARCHES in
        w_u16 (of_nat count) @ concat (map write_saved_search (take count searches)))"

definition write_category :: "tag_category \<Rightarrow> bytes" where
  "write_category c =
     write_str INDEX_MAX_CATEGORY_BYTES (tc_name c) @
     w_u8 (if tc_swatch c < TAG_SWATCH_COUNT then tc_swatch c else 0) @
     (let field_count = clamp (length (tc_fields c)) INDEX_MAX_TEMPLATE_FIELDS in
        w_u8 (of_nat field_count) @
        concat (map (write_str INDEX_MAX_FIELD_BYTES) (take field_count (tc_fields c))))"

definition write_categories_block :: "tag_category list \<Rightarrow> bytes" where
  "write_categories_block categories =
     (let count = clamp (length categories) INDEX_MAX_TAG_CATEGORIES in
        w_u16 (of_nat count) @ concat (map write_category (take count categories)))"

definition write_description :: "tag_description \<Rightarrow> bytes" where
  "write_description d =
     write_str 0xFFFF (td_tag d) @ write_str INDEX_MAX_TAG_DESC_BYTES (td_text d)"

definition write_descriptions_block :: "tag_description list \<Rightarrow> bytes" where
  "write_descriptions_block descriptions =
     (let desc_count = clamp (length descriptions) INDEX_MAX_TAG_DESCRIPTIONS in
        w_u16 (of_nat desc_count) @ concat (map write_description (take desc_count descriptions)))"

definition write_field_value :: "tag_field_value \<Rightarrow> bytes" where
  "write_field_value e =
     write_str 0xFFFF (tf_tag e) @ write_str INDEX_MAX_FIELD_BYTES (tf_field e) @
     write_str INDEX_MAX_FIELD_VALUE_BYTES (tf_value e)"

definition write_field_values_block :: "tag_field_value list \<Rightarrow> bytes" where
  "write_field_values_block values =
     (let val_count = clamp (length values) INDEX_MAX_TAG_FIELD_VALUES in
        w_u16 (of_nat val_count) @ concat (map write_field_value (take val_count values)))"

definition write_settings :: "vault_settings \<Rightarrow> bytes" where
  "write_settings s =
     w_u8 (sort_key_byte (vs_default_sort s)) @
     write_bool (vs_tiles_show_tags s) @
     write_categories_block (vs_categories s) @
     write_descriptions_block (vs_tag_descriptions s) @
     w_u8 (if vs_migrated_index_version s > INDEX_VERSION then 0
           else vs_migrated_index_version s) @
     w_u16 (vs_migrated_probe_caps s) @
     write_field_values_block (vs_tag_field_values s) @
     w_u16 (vs_migrated_thumb_side s)"

definition serialize_index :: "index_node \<Rightarrow> saved_search list \<Rightarrow> vault_settings \<Rightarrow> bytes" where
  "serialize_index root searches settings =
     w_u8 INDEX_VERSION @ write_node root @ write_saved_searches searches @
     write_settings settings"

end
