(* ===== verification/Index_Read.thy ===== *)
theory Index_Read
  imports Index_Format "HOL-Library.Monad_Syntax"
begin

text \<open>
  The bounds-checked, version-aware readers of \<open>src/vault/index.cpp\<close>.  A function that
  returns \<open>false\<close> returns \<open>None\<close> here (its outputs are unspecified for the caller then); the
  reader with its latched error flag is threaded through, and every \<open>r.ok()\<close> test stands
  where the source has it.  Allocation failure (\<open>SecureString::resize\<close> returning \<open>false\<close>) is
  not modelled.
\<close>

text \<open>\<open>read_string\<close>.\<close>

definition read_string :: "reader \<Rightarrow> (bytes \<times> reader) option" where
  "read_string r = do {
     (len, r) \<leftarrow> checked (rd_u16 r);
     let out = replicate (unat len) 0;
     if len > 0 then checked (rd_bytes out r) else Some (out, r)
   }"

text \<open>\<open>read_field_str\<close>: the cap is tested before anything is allocated.\<close>

definition read_field_str :: "nat \<Rightarrow> reader \<Rightarrow> (bytes \<times> reader) option" where
  "read_field_str cap r = (let (len, r) = rd_u16 r in
     if \<not> rd_ok r \<or> unat len > cap then None
     else let out = replicate (unat len) 0 in
       if len > 0 then checked (rd_bytes out r) else Some (out, r))"

definition read_tags :: "reader \<Rightarrow> (bytes list \<times> reader) option" where
  "read_tags r = (let (tag_count, r) = rd_u16 r in
     if \<not> rd_ok r \<or> unat tag_count > INDEX_MAX_TAGS then None
     else rd_loop (unat tag_count)
       (\<lambda>tags r. case read_string r of None \<Rightarrow> None | Some (tag, r) \<Rightarrow> Some (tags @ [tag], r))
       [] r)"

text \<open>A flag byte that must be 0 or 1.\<close>

definition read_flag :: "reader \<Rightarrow> (bool \<times> reader) option" where
  "read_flag r = (let (a, r) = rd_u8 r in
     if \<not> rd_ok r \<or> a > 1 then None else Some (a = 1, r))"

definition read_image_meta :: "byte \<Rightarrow> reader \<Rightarrow> (image_meta \<times> reader) option" where
  "read_image_meta version r = (
     let (format, r) = rd_u8 r; (width, r) = rd_u32 r; (height, r) = rd_u32 r;
         (orig_size, r) = rd_u64 r; (created_ts, r) = rd_u64 r;
         (data_offset, r) = rd_u64 r; (data_length, r) = rd_u64 r;
         (thumb_offset, r) = rd_u64 r; (thumb_length, r) = rd_u64 r
     in if \<not> rd_ok r then None else do {
       (animated, r) \<leftarrow> (if version \<ge> 7 then read_flag r else Some (False, r));
       (bound, data_id, thumb_id, r) \<leftarrow>
         (if version \<ge> 13 then do {
            (cb, r) \<leftarrow> read_flag r;
            let (data_id, r) = rd_bytes zero_id r;
            let (thumb_id, r) = rd_bytes zero_id r;
            if \<not> rd_ok r then None else Some (cb, data_id, thumb_id, r)
          } else Some (False, zero_id, zero_id, r));
       Some (\<lparr>im_format = format, im_width = width, im_height = height,
              im_orig_size = orig_size, im_created_ts = created_ts,
              im_data_offset = data_offset, im_data_length = data_length,
              im_thumb_offset = thumb_offset, im_thumb_length = thumb_length,
              im_animated = animated, im_data_id = data_id, im_thumb_id = thumb_id,
              im_context_bound = bound\<rparr>, r)
     })"

definition read_video_chunk :: "byte \<Rightarrow> reader \<Rightarrow> (video_chunk \<times> reader) option" where
  "read_video_chunk version r = (
     let (offset, r) = rd_u64 r; (len, r) = rd_u64 r;
         (sequence, vid, r) =
           (if version \<ge> 13
            then let (sequence, r) = rd_u32 r; (vid, r) = rd_bytes zero_id r
                 in (sequence, vid, r)
            else (0, zero_id, r))
     in if \<not> rd_ok r then None
        else Some (\<lparr>vc_offset = offset, vc_length = len, vc_sequence = sequence,
                    vc_id = vid\<rparr>, r))"

definition read_video_meta :: "byte \<Rightarrow> reader \<Rightarrow> (video_meta \<times> reader) option" where
  "read_video_meta version r = (
     let (container, r) = rd_u8 r; (codec, r) = rd_u8 r;
         (width, r) = rd_u32 r; (height, r) = rd_u32 r; (duration_us, r) = rd_u64 r;
         (orig_size, r) = rd_u64 r; (created_ts, r) = rd_u64 r; (chunk_size, r) = rd_u32 r;
         (n, r) = rd_u32 r
     in if \<not> rd_ok r \<or> unat n > INDEX_MAX_VIDEO_CHUNKS then None else do {
       (chunks, r) \<leftarrow> rd_loop (unat n)
         (\<lambda>cs r. case read_video_chunk version r of None \<Rightarrow> None
                 | Some (c, r) \<Rightarrow> Some (cs @ [c], r)) [] r;
       let (poster_offset, r) = rd_u64 r;
       let (poster_length, r) = rd_u64 r;
       (bound, poster_id, r) \<leftarrow>
         (if version \<ge> 13 then do {
            (cb, r) \<leftarrow> read_flag r;
            let (poster_id, r) = rd_bytes zero_id r;
            if \<not> rd_ok r then None else Some (cb, poster_id, r)
          } else Some (False, zero_id, r));
       if \<not> rd_ok r then None
       else Some (\<lparr>vm_container = container, vm_codec = codec, vm_width = width,
                   vm_height = height, vm_duration_us = duration_us,
                   vm_orig_size = orig_size, vm_created_ts = created_ts,
                   vm_chunk_size = chunk_size, vm_chunks = chunks,
                   vm_poster_offset = poster_offset, vm_poster_length = poster_length,
                   vm_poster_id = poster_id, vm_context_bound = bound\<rparr>, r)
     })"

definition read_sort_key :: "byte \<Rightarrow> reader \<Rightarrow> (sort_key \<times> reader) option" where
  "read_sort_key version r =
     (if version \<ge> 6 then
        let max_sk = (if version \<ge> 8 then sort_key_byte Insertion else sort_key_byte SizeDesc);
            (sk, r) = rd_u8 r
        in if \<not> rd_ok r \<or> sk > max_sk then None else Some (sort_key_of sk, r)
      else Some (SortDefault, r))"

text \<open>
  Everything of a node before its type-dependent payload, in a node that is otherwise
  default-constructed.
\<close>

definition read_node_prefix :: "byte \<Rightarrow> reader \<Rightarrow> (node_data \<times> reader) option" where
  "read_node_prefix version r = do {
     (type, r) \<leftarrow> checked (rd_u8 r);
     if type \<noteq> node_type_byte Gallery \<and> type \<noteq> node_type_byte Image \<and>
        \<not> (type = node_type_byte Video \<and> version \<ge> 4) then None else do {
     (name, r) \<leftarrow> read_string r;
     (tags, r) \<leftarrow> (if version \<ge> 2 then read_tags r else Some ([], r));
     (fav, r) \<leftarrow> (if version \<ge> 3 then do {
                    (fav, r) \<leftarrow> checked (rd_u8 r);
                    Some (fav \<noteq> 0, r) } else Some (False, r));
     (sort_key, r) \<leftarrow> read_sort_key version r;
     (node_id, r) \<leftarrow> (if version \<ge> 13 then checked (rd_bytes zero_id r)
                      else Some (zero_id, r));
     Some (default_node_data\<lparr>nd_type := node_type_of type, nd_name := name, nd_tags := tags,
             nd_favorite := fav, nd_sort_key := sort_key, nd_node_id := node_id\<rparr>, r)
   }}"

text \<open>
  \<open>read_node\<close>: depth-limited, so the recursion ends whatever the blob says.  The children
  loop re-tests \<open>r.ok()\<close> before each child, exactly as the source bails out early.
\<close>

function read_node :: "nat \<Rightarrow> byte \<Rightarrow> reader \<Rightarrow> (index_node \<times> reader) option" where
  "read_node depth version r =
     (if depth > INDEX_MAX_DEPTH then None else
      case read_node_prefix version r of None \<Rightarrow> None | Some (d, r) \<Rightarrow>
      (case nd_type d of
         Image \<Rightarrow> (case read_image_meta version r of None \<Rightarrow> None
                    | Some (m, r) \<Rightarrow> Some (Node (d\<lparr>nd_meta := m\<rparr>) [], r))
       | Video \<Rightarrow> (case read_video_meta version r of None \<Rightarrow> None
                    | Some (m, r) \<Rightarrow> Some (Node (d\<lparr>nd_vmeta := m\<rparr>) [], r))
       | Gallery \<Rightarrow>
           (case checked (rd_u32 r) of None \<Rightarrow> None | Some (child_count, r) \<Rightarrow>
            (case rd_loop (unat child_count)
               (\<lambda>cs r. if \<not> rd_ok r then None else
                  case read_node (depth + 1) version r of None \<Rightarrow> None
                  | Some (child, r) \<Rightarrow> Some (cs @ [child], r)) [] r of
               None \<Rightarrow> None | Some (cs, r) \<Rightarrow> Some (Node d cs, r)))))"
  by pat_completeness auto
termination
  by (relation "measure (\<lambda>(depth, _, _). Suc INDEX_MAX_DEPTH - depth)") auto

declare read_node.simps [simp del]

definition read_saved_search :: "reader \<Rightarrow> (saved_search \<times> reader) option" where
  "read_saved_search r = do {
     (name, r) \<leftarrow> read_string r;
     let (q_len, r) = rd_u32 r;
     if \<not> rd_ok r \<or> unat q_len > INDEX_MAX_SAVED_QUERY_BYTES then None else do {
     (query, r) \<leftarrow> (if q_len > 0 then checked (rd_bytes (replicate (unat q_len) 0) r)
                    else Some ([], r));
     Some (\<lparr>ss_name = name, ss_query = query\<rparr>, r)
   }}"

definition read_saved_searches :: "reader \<Rightarrow> (saved_search list \<times> reader) option" where
  "read_saved_searches r = (let (count, r) = rd_u16 r in
     if \<not> rd_ok r \<or> unat count > INDEX_MAX_SAVED_SEARCHES then None
     else rd_loop (unat count)
       (\<lambda>ss r. case read_saved_search r of None \<Rightarrow> None | Some (s, r) \<Rightarrow> Some (ss @ [s], r))
       [] r)"

text \<open>\<open>category_name_eq\<close>: the same fold as \<open>tag_ci_equal\<close>.\<close>

definition category_name_eq :: "bytes \<Rightarrow> bytes \<Rightarrow> bool" where
  "category_name_eq a b = (if length a \<noteq> length b then False else ci_loop a b)"

lemma category_name_eq_tag: "category_name_eq = tag_ci_equal"
  by (intro ext) (simp add: category_name_eq_def tag_ci_equal_def)

definition read_category_fields_v11 :: "reader \<Rightarrow> (bytes list \<times> reader) option" where
  "read_category_fields_v11 r = (let (field_count, r) = rd_u8 r in
     if \<not> rd_ok r \<or> unat field_count > INDEX_MAX_TEMPLATE_FIELDS then None
     else rd_loop (unat field_count)
       (\<lambda>fs r. case read_field_str INDEX_MAX_FIELD_BYTES r of None \<Rightarrow> None
               | Some (f, r) \<Rightarrow> Some (push_new category_name_eq fs f, r)) [] r)"

definition read_category :: "byte \<Rightarrow> reader \<Rightarrow> (tag_category \<times> reader) option" where
  "read_category version r = do {
     (name, r) \<leftarrow> read_field_str INDEX_MAX_CATEGORY_BYTES r;
     let (swatch, r) = rd_u8 r;
     if \<not> rd_ok r \<or> swatch \<ge> TAG_SWATCH_COUNT then None else do {
     (fields, r) \<leftarrow> (if version \<ge> 11 then read_category_fields_v11 r else Some ([], r));
     Some (\<lparr>tc_name = name, tc_swatch = swatch, tc_fields = fields\<rparr>, r)
   }}"

abbreviation same_category :: "tag_category \<Rightarrow> tag_category \<Rightarrow> bool" where
  "same_category e c \<equiv> category_name_eq (tc_name e) (tc_name c)"

definition read_categories :: "byte \<Rightarrow> reader \<Rightarrow> (tag_category list \<times> reader) option" where
  "read_categories version r = (let (count, r) = rd_u16 r in
     if \<not> rd_ok r \<or> unat count > INDEX_MAX_TAG_CATEGORIES then None
     else rd_loop (unat count)
       (\<lambda>cs r. case read_category version r of None \<Rightarrow> None
               | Some (c, r) \<Rightarrow> Some (push_new same_category cs c, r)) [] r)"

definition read_description :: "reader \<Rightarrow> (tag_description \<times> reader) option" where
  "read_description r = do {
     (tag, r) \<leftarrow> read_string r;
     (text, r) \<leftarrow> read_field_str INDEX_MAX_TAG_DESC_BYTES r;
     Some (\<lparr>td_tag = tag, td_text = text\<rparr>, r)
   }"

abbreviation same_description :: "tag_description \<Rightarrow> tag_description \<Rightarrow> bool" where
  "same_description e d \<equiv> category_name_eq (td_tag e) (td_tag d)"

definition read_descriptions :: "reader \<Rightarrow> (tag_description list \<times> reader) option" where
  "read_descriptions r = (let (desc_count, r) = rd_u16 r in
     if \<not> rd_ok r \<or> unat desc_count > INDEX_MAX_TAG_DESCRIPTIONS then None
     else rd_loop (unat desc_count)
       (\<lambda>ds r. case read_description r of None \<Rightarrow> None
               | Some (d, r) \<Rightarrow> Some (push_new same_description ds d, r)) [] r)"

definition read_field_value :: "reader \<Rightarrow> (tag_field_value \<times> reader) option" where
  "read_field_value r = do {
     (tag, r) \<leftarrow> read_field_str 0xFFFF r;
     (field, r) \<leftarrow> read_field_str INDEX_MAX_FIELD_BYTES r;
     (value, r) \<leftarrow> read_field_str INDEX_MAX_FIELD_VALUE_BYTES r;
     Some (\<lparr>tf_tag = tag, tf_field = field, tf_value = value\<rparr>, r)
   }"

abbreviation same_field_value :: "tag_field_value \<Rightarrow> tag_field_value \<Rightarrow> bool" where
  "same_field_value x e \<equiv>
     category_name_eq (tf_tag x) (tf_tag e) \<and> category_name_eq (tf_field x) (tf_field e)"

definition read_field_values :: "reader \<Rightarrow> (tag_field_value list \<times> reader) option" where
  "read_field_values r = (let (count, r) = rd_u16 r in
     if \<not> rd_ok r \<or> unat count > INDEX_MAX_TAG_FIELD_VALUES then None
     else rd_loop (unat count)
       (\<lambda>vs r. case read_field_value r of None \<Rightarrow> None
               | Some (e, r) \<Rightarrow> Some (push_new same_field_value vs e, r)) [] r)"

text \<open>
  \<open>read_settings\<close>: each sub-block exists only from its version on, and an older blob must
  not be read past its end.  The settings start from a default-constructed value.
\<close>

definition read_settings :: "byte \<Rightarrow> reader \<Rightarrow> (vault_settings \<times> reader) option" where
  "read_settings version r = (let (sort, r) = rd_u8 r in
     if \<not> rd_ok r \<or> sort > sort_key_byte Insertion then None else do {
     (tiles, r) \<leftarrow> read_flag r;
     (cats, r) \<leftarrow> read_categories version r;
     let s = default_settings\<lparr>vs_default_sort := sort_key_of sort,
               vs_tiles_show_tags := tiles, vs_categories := cats\<rparr>;
     if version < 9 then Some (s, r) else do {
     (descs, r) \<leftarrow> read_descriptions r;
     let s = s\<lparr>vs_tag_descriptions := descs\<rparr>;
     if version < 10 then Some (s, r) else (
     let (migrated, r) = rd_u8 r in
     if \<not> rd_ok r \<or> migrated > INDEX_VERSION then None else do {
     (caps, r) \<leftarrow> checked (rd_u16 r);
     let s = s\<lparr>vs_migrated_index_version := migrated, vs_migrated_probe_caps := caps\<rparr>;
     if version < 11 then Some (s, r) else do {
     (values, r) \<leftarrow> read_field_values r;
     let s = s\<lparr>vs_tag_field_values := values\<rparr>;
     if version < 12 then Some (s, r) else do {
     (side, r) \<leftarrow> checked (rd_u16 r);
     Some (s\<lparr>vs_migrated_thumb_side := side\<rparr>, r)
   }}})}})"

text \<open>\<open>deserialize_index\<close>: the parsed tree, searches and settings, or \<open>None\<close> for \<open>false\<close>.\<close>

definition deserialize_index ::
    "bytes \<Rightarrow> (index_node \<times> saved_search list \<times> vault_settings) option" where
  "deserialize_index inp = do {
     (version, r) \<leftarrow> checked (rd_u8 (reader_of inp));
     if version < 1 \<or> version > INDEX_VERSION then None else do {
     (root, r) \<leftarrow> read_node 0 version r;
     (searches, r) \<leftarrow> (if version \<ge> 5 then read_saved_searches r else Some ([], r));
     (settings, r) \<leftarrow> (if version \<ge> 8 then read_settings version r else Some (seeded, r));
     if rd_remaining r = 0 then Some (root, searches, settings) else None
   }}"

end
