(* ===== verification/Index_Roundtrip.thy ===== *)
theory Index_Roundtrip
  imports Index_Write Index_Read
begin

text \<open>
  What a save followed by a load does to the in-memory index.  \<open>can_*\<close> is the value after the
  writers' clamps and the readers' de-duplication; the codec law is proved for every block
  through the \<open>wire_codec\<close> interface and composed up to \<open>serialize_index\<close> /
  \<open>deserialize_index\<close>.
\<close>

section \<open>Canonical values\<close>

definition can_tags :: "bytes list \<Rightarrow> bytes list" where
  "can_tags ts = map (take 0xFFFF) (take INDEX_MAX_TAGS ts)"

definition can_vmeta :: "video_meta \<Rightarrow> video_meta" where
  "can_vmeta m = m\<lparr>vm_chunks := take INDEX_MAX_VIDEO_CHUNKS (vm_chunks m)\<rparr>"

text \<open>
  The index blob has no room for tag provenance, explicit tags or bundle references, and a
  node only keeps the payload of its own type.
\<close>

definition can_prefix :: "node_data \<Rightarrow> node_data" where
  "can_prefix d = default_node_data\<lparr>nd_type := nd_type d, nd_name := take 0xFFFF (nd_name d),
     nd_tags := can_tags (nd_tags d), nd_favorite := nd_favorite d,
     nd_sort_key := nd_sort_key d, nd_node_id := nd_node_id d\<rparr>"

fun can_node :: "index_node \<Rightarrow> index_node" where
  "can_node (Node d cs) =
     (case nd_type d of
        Gallery \<Rightarrow> Node (can_prefix d) (map can_node cs)
      | Image \<Rightarrow> Node ((can_prefix d)\<lparr>nd_meta := nd_meta d\<rparr>) []
      | Video \<Rightarrow> Node ((can_prefix d)\<lparr>nd_vmeta := can_vmeta (nd_vmeta d)\<rparr>) [])"

definition can_search :: "saved_search \<Rightarrow> saved_search" where
  "can_search s = \<lparr>ss_name = take 0xFFFF (ss_name s),
     ss_query = take INDEX_MAX_SAVED_QUERY_BYTES (ss_query s)\<rparr>"

definition can_searches :: "saved_search list \<Rightarrow> saved_search list" where
  "can_searches ss = map can_search (take INDEX_MAX_SAVED_SEARCHES ss)"

text \<open>The de-duplicating collection loop of the readers.\<close>

definition dedup :: "('a \<Rightarrow> 'a \<Rightarrow> bool) \<Rightarrow> 'a list \<Rightarrow> 'a list" where
  "dedup eq xs = foldl (push_new eq) [] xs"

definition can_fields :: "bytes list \<Rightarrow> bytes list" where
  "can_fields fs = dedup category_name_eq
     (map (take INDEX_MAX_FIELD_BYTES) (take INDEX_MAX_TEMPLATE_FIELDS fs))"

definition can_category :: "tag_category \<Rightarrow> tag_category" where
  "can_category c = \<lparr>tc_name = take INDEX_MAX_CATEGORY_BYTES (tc_name c),
     tc_swatch = (if tc_swatch c < TAG_SWATCH_COUNT then tc_swatch c else 0),
     tc_fields = can_fields (tc_fields c)\<rparr>"

definition can_description :: "tag_description \<Rightarrow> tag_description" where
  "can_description d = \<lparr>td_tag = take 0xFFFF (td_tag d),
     td_text = take INDEX_MAX_TAG_DESC_BYTES (td_text d)\<rparr>"

definition can_field_value :: "tag_field_value \<Rightarrow> tag_field_value" where
  "can_field_value e = \<lparr>tf_tag = take 0xFFFF (tf_tag e),
     tf_field = take INDEX_MAX_FIELD_BYTES (tf_field e),
     tf_value = take INDEX_MAX_FIELD_VALUE_BYTES (tf_value e)\<rparr>"

definition can_settings :: "vault_settings \<Rightarrow> vault_settings" where
  "can_settings s = default_settings\<lparr>
     vs_default_sort := vs_default_sort s,
     vs_tiles_show_tags := vs_tiles_show_tags s,
     vs_categories := dedup same_category
       (map can_category (take INDEX_MAX_TAG_CATEGORIES (vs_categories s))),
     vs_tag_descriptions := dedup same_description
       (map can_description (take INDEX_MAX_TAG_DESCRIPTIONS (vs_tag_descriptions s))),
     vs_tag_field_values := dedup same_field_value
       (map can_field_value (take INDEX_MAX_TAG_FIELD_VALUES (vs_tag_field_values s))),
     vs_migrated_index_version :=
       (if vs_migrated_index_version s > INDEX_VERSION then 0 else vs_migrated_index_version s),
     vs_migrated_probe_caps := vs_migrated_probe_caps s,
     vs_migrated_thumb_side := vs_migrated_thumb_side s\<rparr>"

section \<open>Strings and counted blocks\<close>

lemma clamp_eq_min: "clamp n cap = min n cap"
  by (simp add: clamp_def)

lemma take_clamp_eq: "take (clamp (length xs) cap) xs = take cap xs"
  by (simp add: clamp_def)

lemma length_take_clamp: "length (take cap xs) = clamp (length xs) cap"
  by (simp add: clamp_def)

lemma write_str_alt: "write_str cap s = w_u16 (of_nat (length (take cap s))) @ take cap s"
  by (simp add: write_str_def Let_def take_clamp_eq length_take_clamp del: length_take)

lemma unat_u16 [simp]: "n \<le> 0xFFFF \<Longrightarrow> unat (of_nat n :: u16) = n"
  by (rule unat_of_nat_small) simp

lemma unat_u32 [simp]: "n < 0x100000000 \<Longrightarrow> unat (of_nat n :: u32) = n"
  by (rule unat_of_nat_small) simp

lemma unat_u8 [simp]: "n \<le> 0xFF \<Longrightarrow> unat (of_nat n :: byte) = n"
  by (rule unat_of_nat_small) simp

lemma of_nat_pos_u16: "n \<le> 0xFFFF \<Longrightarrow> (of_nat n :: u16) > 0 \<longleftrightarrow> n > 0"
  by (metis unat_gt_0 unat_u16 word_neq_0_conv)

lemma of_nat_pos_u32: "n < 0x100000000 \<Longrightarrow> (of_nat n :: u32) > 0 \<longleftrightarrow> n > 0"
  by (metis unat_gt_0 unat_u32 word_neq_0_conv)

lemma string_codec: "wire_codec (write_str 0xFFFF) read_string (take 0xFFFF) (\<lambda>_. True)"
  by unfold_locales (auto simp: read_string_def write_str_alt of_nat_pos_u16 Let_def)

lemma field_str_codec:
  "cap \<le> 0xFFFF \<Longrightarrow> wire_codec (write_str cap) (read_field_str cap) (take cap) (\<lambda>_. True)"
  by unfold_locales
     (auto simp: read_field_str_def write_str_alt of_nat_pos_u16 Let_def min_def)

interpretation str: wire_codec "write_str 0xFFFF" read_string "take 0xFFFF" "\<lambda>_. True"
  by (rule string_codec)

interpretation key_str: wire_codec "write_str 0xFFFF" "read_field_str 0xFFFF" "take 0xFFFF" "\<lambda>_. True"
  by (rule field_str_codec) simp

interpretation field_str: wire_codec "write_str INDEX_MAX_FIELD_BYTES"
    "read_field_str INDEX_MAX_FIELD_BYTES" "take INDEX_MAX_FIELD_BYTES" "\<lambda>_. True"
  by (rule field_str_codec) (simp add: index_limits)

interpretation cat_str: wire_codec "write_str INDEX_MAX_CATEGORY_BYTES"
    "read_field_str INDEX_MAX_CATEGORY_BYTES" "take INDEX_MAX_CATEGORY_BYTES" "\<lambda>_. True"
  by (rule field_str_codec) (simp add: index_limits)

interpretation desc_str: wire_codec "write_str INDEX_MAX_TAG_DESC_BYTES"
    "read_field_str INDEX_MAX_TAG_DESC_BYTES" "take INDEX_MAX_TAG_DESC_BYTES" "\<lambda>_. True"
  by (rule field_str_codec) (simp add: index_limits)

interpretation value_str: wire_codec "write_str INDEX_MAX_FIELD_VALUE_BYTES"
    "read_field_str INDEX_MAX_FIELD_VALUE_BYTES" "take INDEX_MAX_FIELD_VALUE_BYTES" "\<lambda>_. True"
  by (rule field_str_codec) (simp add: index_limits)

text \<open>
  A counted block: the count is written first, the reader tests it against the limit and
  runs the collection loop.
\<close>

lemma counted_block_u16:
  assumes "wire_codec enc dec can ok" and "\<forall>x \<in> set (take cap xs). ok x" and "cap \<le> 0xFFFF"
  shows "(let (count, r) = rd_u16 (mid pre (w_u16 (of_nat (clamp (length xs) cap)) @
             concat (map enc (take (clamp (length xs) cap) xs)) @ rest)) in
          if \<not> rd_ok r \<or> unat count > cap then None
          else rd_loop (unat count)
            (\<lambda>s r. case dec r of None \<Rightarrow> None | Some (y, r) \<Rightarrow> Some (push s y, r)) s r) =
     Some (foldl push s (map can (take cap xs)),
       mid (pre @ w_u16 (of_nat (clamp (length xs) cap)) @
            concat (map enc (take (clamp (length xs) cap) xs))) rest)"
proof -
  have n: "unat (of_nat (clamp (length xs) cap) :: u16) = length (take cap xs)"
    using assms(3) by (simp add: clamp_def)
  have le: "\<not> length (take cap xs) > cap" by simp
  show ?thesis
    unfolding take_clamp_eq rd_u16_mid Let_def prod.case n mid_sel simp_thms
    using wire_codec.decodes_loop[OF assms(1,2), of push s "pre @ w_u16 (of_nat (clamp (length xs) cap))" rest] le
    by simp
qed

section \<open>Nodes\<close>

lemma tags_codec: "wire_codec write_tags read_tags can_tags (\<lambda>_. True)"
proof
  fix x pre rest
  show "read_tags (mid pre (write_tags x @ rest)) = Some (can_tags x, mid (pre @ write_tags x) rest)"
    using counted_block_u16[OF string_codec, of INDEX_MAX_TAGS x pre rest "\<lambda>s y. s @ [y]" "[]"]
    by (simp add: read_tags_def write_tags_def can_tags_def foldl_snoc index_limits Let_def
        cong: option.case_cong)
qed

interpretation tags: wire_codec write_tags read_tags can_tags "\<lambda>_. True"
  by (rule tags_codec)

lemma flag_codec: "wire_codec write_bool read_flag (\<lambda>b. b) (\<lambda>_. True)"
  by unfold_locales (simp add: write_bool_def read_flag_def)

interpretation flag: wire_codec write_bool read_flag "\<lambda>b. b" "\<lambda>_. True"
  by (rule flag_codec)

lemma rd_id_mid [simp]: "length v = NODE_ID_SIZE \<Longrightarrow>
  rd_bytes zero_id (mid pre (v @ xs)) = (v, mid (pre @ v) xs)"
  by (rule rd_bytes_mid) simp

lemma rd_id_mid_end [simp]: "length v = NODE_ID_SIZE \<Longrightarrow>
  rd_bytes zero_id (mid pre v) = (v, mid (pre @ v) [])"
  using rd_id_mid[of v pre "[]"] by simp

lemma image_meta_codec:
  "wire_codec write_image_meta (read_image_meta INDEX_VERSION) (\<lambda>m. m) meta_ok"
  by unfold_locales
     (simp add: read_image_meta_def write_image_meta_def meta_ok_def INDEX_VERSION_def
        flag.decodes[simplified])

interpretation image_meta: wire_codec write_image_meta "read_image_meta INDEX_VERSION"
    "\<lambda>m. m" meta_ok
  by (rule image_meta_codec)

lemma video_chunk_codec:
  "wire_codec write_video_chunk (read_video_chunk INDEX_VERSION) (\<lambda>c. c)
     (\<lambda>c. length (vc_id c) = NODE_ID_SIZE)"
  by unfold_locales (simp add: read_video_chunk_def write_video_chunk_def INDEX_VERSION_def)

interpretation video_chunk: wire_codec write_video_chunk "read_video_chunk INDEX_VERSION"
    "\<lambda>c. c" "\<lambda>c. length (vc_id c) = NODE_ID_SIZE"
  by (rule video_chunk_codec)

lemma video_meta_codec:
  "wire_codec write_video_meta (read_video_meta INDEX_VERSION) can_vmeta vmeta_ok"
proof
  fix m pre rest assume ok: "vmeta_ok m"
  define n where "n = length (take INDEX_MAX_VIDEO_CHUNKS (vm_chunks m))"
  have n: "unat (of_nat n :: u32) = n" "\<not> INDEX_MAX_VIDEO_CHUNKS < n"
    by (simp_all add: n_def index_limits)
  have chunks: "\<forall>c \<in> set (take INDEX_MAX_VIDEO_CHUNKS (vm_chunks m)). length (vc_id c) = NODE_ID_SIZE"
    using ok by (auto simp: vmeta_ok_def dest: in_set_takeD)
  note loop = video_chunk.decodes_loop[OF chunks, where push = "\<lambda>s y. s @ [y]" and s = "[]",
      folded n_def, unfolded foldl_snoc]
  have w: "write_video_meta m = w_u8 (vm_container m) @ w_u8 (vm_codec m) @ w_u32 (vm_width m) @
     w_u32 (vm_height m) @ w_u64 (vm_duration_us m) @ w_u64 (vm_orig_size m) @
     w_u64 (vm_created_ts m) @ w_u32 (vm_chunk_size m) @ w_u32 (of_nat n) @
     concat (map write_video_chunk (take INDEX_MAX_VIDEO_CHUNKS (vm_chunks m))) @
     w_u64 (vm_poster_offset m) @ w_u64 (vm_poster_length m) @
     write_bool (vm_context_bound m) @ vm_poster_id m"
    unfolding write_video_meta_def Let_def take_clamp_eq by (simp add: n_def clamp_eq_min min.commute)
  show "read_video_meta INDEX_VERSION (mid pre (write_video_meta m @ rest)) =
      Some (can_vmeta m, mid (pre @ write_video_meta m) rest)"
    using ok unfolding w
    by (simp add: read_video_meta_def n loop INDEX_VERSION_def[symmetric] vmeta_ok_def
        flag.decodes[simplified] can_vmeta_def)
qed

interpretation video_meta: wire_codec write_video_meta "read_video_meta INDEX_VERSION"
    can_vmeta vmeta_ok
  by (rule video_meta_codec)

lemma sort_key_codec:
  "wire_codec (\<lambda>k. w_u8 (sort_key_byte k)) (read_sort_key INDEX_VERSION) (\<lambda>k. k) (\<lambda>_. True)"
  using sort_key_byte_le by unfold_locales (simp add: read_sort_key_def INDEX_VERSION_def not_less)

interpretation sort_key: wire_codec "\<lambda>k. w_u8 (sort_key_byte k)" "read_sort_key INDEX_VERSION"
    "\<lambda>k. k" "\<lambda>_. True"
  by (rule sort_key_codec)

text \<open>The part of a node before its payload.\<close>

definition write_prefix :: "node_data \<Rightarrow> bytes" where
  "write_prefix d = w_u8 (node_type_byte (nd_type d)) @ write_str 0xFFFF (nd_name d) @
     write_tags (nd_tags d) @ write_bool (nd_favorite d) @
     w_u8 (sort_key_byte (nd_sort_key d)) @ nd_node_id d"

lemma known_type:
  "node_type_byte t = node_type_byte Gallery \<or> node_type_byte t = node_type_byte Image \<or>
   node_type_byte t = node_type_byte Video"
  by (cases t) simp_all

lemma prefix_codec:
  "wire_codec write_prefix (read_node_prefix INDEX_VERSION) can_prefix
     (\<lambda>d. length (nd_node_id d) = NODE_ID_SIZE)"
proof
  fix d :: node_data and pre rest assume id: "length (nd_node_id d) = NODE_ID_SIZE"
  have fav: "checked (rd_u8 (mid p (write_bool b @ q))) =
      Some (if b then 1 else 0, mid (p @ write_bool b) q)" for p b q
    by (simp add: write_bool_def)
  show "read_node_prefix INDEX_VERSION (mid pre (write_prefix d @ rest)) =
      Some (can_prefix d, mid (pre @ write_prefix d) rest)"
    using id known_type[of "nd_type d"]
    by (simp add: read_node_prefix_def write_prefix_def INDEX_VERSION_def[symmetric] fav
        str.decodes[simplified] tags.decodes[simplified] sort_key.decodes[simplified]
        can_prefix_def)
       (simp add: INDEX_VERSION_def)
qed

interpretation prefix: wire_codec write_prefix "read_node_prefix INDEX_VERSION" can_prefix
    "\<lambda>d. length (nd_node_id d) = NODE_ID_SIZE"
  by (rule prefix_codec)

lemma write_node_prefix:
  "write_node (Node d cs) = write_prefix d @
     (case nd_type d of
        Gallery \<Rightarrow> w_u32 (of_nat (length cs)) @ concat (map write_node cs)
      | Image \<Rightarrow> write_image_meta (nd_meta d)
      | Video \<Rightarrow> write_video_meta (nd_vmeta d))"
  by (simp add: write_prefix_def)

lemma nd_type_can_prefix [simp]: "nd_type (can_prefix d) = nd_type d"
  by (simp add: can_prefix_def)

text \<open>
  The children loop.  The early bail-out on a latched error never triggers on a reader that
  the previous child left healthy, so on written data the loop is the plain collection loop.
\<close>

lemma read_node_gallery:
  assumes "nd_type d = Gallery" "length (nd_node_id d) = NODE_ID_SIZE" "length cs < 2 ^ 32"
    "depth \<le> INDEX_MAX_DEPTH"
  shows "read_node depth INDEX_VERSION (mid pre (write_node (Node d cs) @ rest)) =
     (case rd_loop (length cs)
        (\<lambda>cs r. if \<not> rd_ok r then None else
           case read_node (depth + 1) INDEX_VERSION r of None \<Rightarrow> None
           | Some (child, r) \<Rightarrow> Some (cs @ [child], r)) []
        (mid (pre @ write_prefix d @ w_u32 (of_nat (length cs)))
             (concat (map write_node cs) @ rest)) of
        None \<Rightarrow> None | Some (cs, r) \<Rightarrow> Some (Node (can_prefix d) cs, r))"
  using assms
  by (simp add: read_node.simps[of depth] write_node_prefix prefix.decodes[simplified]
      del: write_node.simps)

lemma children_loop_guard:
  "(\<lambda>cs r. if \<not> rd_ok r then None else
      case read_node k v r of None \<Rightarrow> None | Some (child, r) \<Rightarrow> Some (cs @ [child], r)) =
   (\<lambda>cs r. case (if \<not> rd_ok r then None else read_node k v r) of None \<Rightarrow> None
      | Some (child, r) \<Rightarrow> Some (cs @ [child], r))"
  by (intro ext) simp

text \<open>
  Reading back a written node succeeds exactly when no gallery below it is nested deeper
  than the reader accepts, and then yields the canonical node.
\<close>

lemma read_write_node:
  "node_ok n \<Longrightarrow>
   read_node depth INDEX_VERSION (mid pre (write_node n @ rest)) =
     (if depth + tree_depth n \<le> INDEX_MAX_DEPTH
      then Some (can_node n, mid (pre @ write_node n) rest) else None)"
proof (induction n arbitrary: depth pre rest)
  case (Node d cs)
  let ?D = "INDEX_MAX_DEPTH"
  have id: "length (nd_node_id d) = NODE_ID_SIZE" and lcs: "length cs < 2 ^ 32"
    and oks: "\<forall>c \<in> set cs. node_ok c" and m: "meta_ok (nd_meta d)" and vm: "vmeta_ok (nd_vmeta d)"
    using Node.prems by simp_all
  show ?case
  proof (cases "depth \<le> ?D \<and> nd_type d = Gallery")
    case False
    then show ?thesis
      using id m vm
      by (cases "nd_type d")
         (simp_all add: read_node.simps[of depth] write_node_prefix prefix.decodes[simplified]
            image_meta.decodes video_meta.decodes del: write_node.simps)
  next
    case True
    then have g: "nd_type d = Gallery" and dep: "depth \<le> ?D" by simp_all
    define dec where
      "dec r = (if \<not> rd_ok r then None else read_node (depth + 1) INDEX_VERSION r)" for r
    define fits where "fits c \<longleftrightarrow> depth + 1 + tree_depth c \<le> ?D" for c
    have child: "dec (mid p (write_node c @ q)) =
        (if fits c then Some (can_node c, mid (p @ write_node c) q) else None)"
      if "c \<in> set cs" for c p q
      using Node.IH[OF that] oks that by (simp add: dec_def fits_def)
    then have codec: "wire_codec write_node dec can_node (\<lambda>c. c \<in> set ys)"
      if "\<forall>c \<in> set ys. c \<in> set cs \<and> fits c" for ys
      using that by unfold_locales auto
    note unf = read_node_gallery[OF g id lcs dep] children_loop_guard dec_def[symmetric]
    show ?thesis
    proof (cases "\<forall>c \<in> set cs. fits c")
      case True
      have "depth + tree_depth (Node d cs) \<le> ?D"
        using True dep g foldr_max_mem[of "map tree_depth cs"]
        by (cases "cs = []") (auto simp: fits_def Suc_le_eq)
      moreover have "wire_codec write_node dec can_node (\<lambda>c. c \<in> set cs)"
        by (rule codec) (simp add: True)
      ultimately show ?thesis
        unfolding unf
        using g wire_codec.decodes_loop[of write_node dec can_node "\<lambda>c. c \<in> set cs" cs
          "\<lambda>s y. s @ [y]" "[]" "pre @ write_prefix d @ w_u32 (of_nat (length cs))" rest]
        by (simp add: foldl_snoc write_node_prefix del: write_node.simps)
    next
      case False
      then obtain ys z zs where cs: "cs = ys @ z # zs" and ys: "\<forall>c \<in> set ys. fits c" and z: "\<not> fits z"
        using split_list_first_prop[of cs "\<lambda>c. \<not> fits c"] by auto
      have "tree_depth z \<le> foldr max (map tree_depth cs) 0"
        using foldr_max_le[of "map tree_depth cs"] cs by auto
      then have deep: "\<not> depth + tree_depth (Node d cs) \<le> ?D"
        using z g cs by (simp add: fits_def)
      have "wire_codec write_node dec can_node (\<lambda>c. c \<in> set ys)"
        by (rule codec) (simp add: ys cs)
      moreover have "\<And>p q. dec (mid p (write_node z @ q)) = None"
        using child[of z] z cs by simp
      ultimately have "rd_loop (length cs)
          (\<lambda>s r. case dec r of None \<Rightarrow> None | Some (y, r) \<Rightarrow> Some (s @ [y], r)) []
          (mid p (concat (map write_node cs) @ rest)) = None" for p
        using rd_loop_fails[of write_node dec can_node ys z "length zs" "\<lambda>s y. s @ [y]" "[]"
          p "concat (map write_node zs) @ rest"]
        unfolding cs by (simp del: rd_loop.simps)
      then show ?thesis
        unfolding unf using deep by simp
    qed
  qed
qed

section \<open>Saved searches and settings\<close>

lemma saved_search_codec:
  "wire_codec write_saved_search read_saved_search can_search (\<lambda>_. True)"
proof
  fix s :: saved_search and pre rest
  define n where "n = length (take INDEX_MAX_SAVED_QUERY_BYTES (ss_query s))"
  have n: "unat (of_nat n :: u32) = n" "\<not> INDEX_MAX_SAVED_QUERY_BYTES < n"
    "(of_nat n :: u32) > 0 \<longleftrightarrow> n > 0"
    by (simp_all add: n_def index_limits of_nat_pos_u32)
  have w: "write_saved_search s = write_str 0xFFFF (ss_name s) @ w_u32 (of_nat n) @
      take INDEX_MAX_SAVED_QUERY_BYTES (ss_query s)"
    unfolding write_saved_search_def Let_def take_clamp_eq
    by (simp add: n_def clamp_eq_min min.commute)
  show "read_saved_search (mid pre (write_saved_search s @ rest)) =
      Some (can_search s, mid (pre @ write_saved_search s) rest)"
  proof (cases "n > 0")
    case True
    have "length (replicate n (0::byte)) = length (take INDEX_MAX_SAVED_QUERY_BYTES (ss_query s))"
      by (simp add: n_def)
    with True show ?thesis
      unfolding w by (simp add: read_saved_search_def str.decodes[simplified] n can_search_def
          del: length_replicate length_take)
  next
    case False
    then have "take INDEX_MAX_SAVED_QUERY_BYTES (ss_query s) = []" by (auto simp: n_def)
    with False show ?thesis
      unfolding w by (auto simp: read_saved_search_def str.decodes[simplified] n can_search_def)
  qed
qed

interpretation saved_search: wire_codec write_saved_search read_saved_search can_search "\<lambda>_. True"
  by (rule saved_search_codec)

lemma saved_searches_codec:
  "wire_codec write_saved_searches read_saved_searches can_searches (\<lambda>_. True)"
proof
  fix x pre rest
  show "read_saved_searches (mid pre (write_saved_searches x @ rest)) =
      Some (can_searches x, mid (pre @ write_saved_searches x) rest)"
    using counted_block_u16[OF saved_search_codec, of INDEX_MAX_SAVED_SEARCHES x pre rest
        "\<lambda>s y. s @ [y]" "[]"]
    by (simp add: read_saved_searches_def write_saved_searches_def can_searches_def foldl_snoc
        index_limits Let_def cong: option.case_cong)
qed

lemma category_fields_codec:
  "wire_codec (\<lambda>fs. w_u8 (of_nat (length (take INDEX_MAX_TEMPLATE_FIELDS fs))) @
       concat (map (write_str INDEX_MAX_FIELD_BYTES) (take INDEX_MAX_TEMPLATE_FIELDS fs)))
     read_category_fields_v11 can_fields (\<lambda>_. True)"
proof
  fix fs :: "bytes list" and pre rest
  let ?fs = "take INDEX_MAX_TEMPLATE_FIELDS fs"
  have n: "unat (of_nat (length ?fs) :: byte) = length ?fs" "\<not> INDEX_MAX_TEMPLATE_FIELDS < length ?fs"
    by (simp_all add: index_limits)
  show "read_category_fields_v11 (mid pre ((w_u8 (of_nat (length ?fs)) @
       concat (map (write_str INDEX_MAX_FIELD_BYTES) ?fs)) @ rest)) =
     Some (can_fields fs, mid (pre @ w_u8 (of_nat (length ?fs)) @
       concat (map (write_str INDEX_MAX_FIELD_BYTES) ?fs)) rest)"
    using field_str.decodes_loop[of ?fs "push_new category_name_eq" "[]"
      "pre @ w_u8 (of_nat (length ?fs))" rest]
    by (simp only: read_category_fields_v11_def append_assoc append_Cons append_Nil rd_u8_mid
        Let_def prod.case n mid_sel simp_thms if_False can_fields_def dedup_def)
       simp
qed

lemma category_codec:
  "wire_codec write_category (read_category INDEX_VERSION) can_category (\<lambda>_. True)"
proof
  fix c :: tag_category and pre rest
  have w: "write_category c = write_str INDEX_MAX_CATEGORY_BYTES (tc_name c) @
     w_u8 (if tc_swatch c < TAG_SWATCH_COUNT then tc_swatch c else 0) @
     w_u8 (of_nat (length (take INDEX_MAX_TEMPLATE_FIELDS (tc_fields c)))) @
       concat (map (write_str INDEX_MAX_FIELD_BYTES) (take INDEX_MAX_TEMPLATE_FIELDS (tc_fields c)))"
    unfolding write_category_def Let_def take_clamp_eq
    by (simp add: clamp_eq_min min.commute)
  have sw: "\<not> TAG_SWATCH_COUNT \<le> (if tc_swatch c < TAG_SWATCH_COUNT then tc_swatch c else 0)"
    by (simp add: TAG_SWATCH_COUNT_def not_le)
  show "read_category INDEX_VERSION (mid pre (write_category c @ rest)) =
      Some (can_category c, mid (pre @ write_category c) rest)"
    unfolding w
    using wire_codec.decodes[OF category_fields_codec, where x = "tc_fields c"] sw
    by (simp add: read_category_def cat_str.decodes[simplified] can_category_def INDEX_VERSION_def
        del: length_take)
qed

lemma description_codec:
  "wire_codec write_description read_description can_description (\<lambda>_. True)"
  by unfold_locales
     (simp add: write_description_def read_description_def can_description_def
        str.decodes[simplified] desc_str.decodes[simplified])

lemma field_value_codec:
  "wire_codec write_field_value read_field_value can_field_value (\<lambda>_. True)"
  by unfold_locales
     (simp add: write_field_value_def read_field_value_def can_field_value_def
        key_str.decodes[simplified] field_str.decodes[simplified] value_str.decodes[simplified])

lemma categories_codec:
  "wire_codec write_categories_block (read_categories INDEX_VERSION)
     (\<lambda>cs. dedup same_category (map can_category (take INDEX_MAX_TAG_CATEGORIES cs))) (\<lambda>_. True)"
proof
  fix x pre rest
  show "read_categories INDEX_VERSION (mid pre (write_categories_block x @ rest)) =
      Some (dedup same_category (map can_category (take INDEX_MAX_TAG_CATEGORIES x)),
        mid (pre @ write_categories_block x) rest)"
    using counted_block_u16[OF category_codec, of INDEX_MAX_TAG_CATEGORIES x pre rest
        "push_new same_category" "[]"]
    by (simp add: read_categories_def write_categories_block_def dedup_def
        INDEX_MAX_TAG_CATEGORIES_def Let_def cong: option.case_cong)
qed

lemma descriptions_codec:
  "wire_codec write_descriptions_block read_descriptions
     (\<lambda>ds. dedup same_description (map can_description (take INDEX_MAX_TAG_DESCRIPTIONS ds)))
     (\<lambda>_. True)"
proof
  fix x pre rest
  show "read_descriptions (mid pre (write_descriptions_block x @ rest)) =
      Some (dedup same_description (map can_description (take INDEX_MAX_TAG_DESCRIPTIONS x)),
        mid (pre @ write_descriptions_block x) rest)"
    using counted_block_u16[OF description_codec, of INDEX_MAX_TAG_DESCRIPTIONS x pre rest
        "push_new same_description" "[]"]
    by (simp add: read_descriptions_def write_descriptions_block_def dedup_def
        index_limits Let_def cong: option.case_cong)
qed

lemma field_values_codec:
  "wire_codec write_field_values_block read_field_values
     (\<lambda>vs. dedup same_field_value (map can_field_value (take INDEX_MAX_TAG_FIELD_VALUES vs)))
     (\<lambda>_. True)"
proof
  fix x pre rest
  show "read_field_values (mid pre (write_field_values_block x @ rest)) =
      Some (dedup same_field_value (map can_field_value (take INDEX_MAX_TAG_FIELD_VALUES x)),
        mid (pre @ write_field_values_block x) rest)"
    using counted_block_u16[OF field_value_codec, of INDEX_MAX_TAG_FIELD_VALUES x pre rest
        "push_new same_field_value" "[]"]
    by (simp add: read_field_values_def write_field_values_block_def dedup_def
        index_limits Let_def cong: option.case_cong)
qed

lemma settings_codec:
  "wire_codec write_settings (read_settings INDEX_VERSION) can_settings (\<lambda>_. True)"
proof
  fix s :: vault_settings and pre rest
  have mig: "\<not> INDEX_VERSION < (if INDEX_VERSION < vs_migrated_index_version s then 0
      else vs_migrated_index_version s)"
    by (simp add: INDEX_VERSION_def)
  have ver: "\<not> INDEX_VERSION < 9" "\<not> INDEX_VERSION < 10" "\<not> INDEX_VERSION < 11" "\<not> INDEX_VERSION < 12"
    by (simp_all add: INDEX_VERSION_def)
  have sort: "\<not> sort_key_byte Insertion < sort_key_byte (vs_default_sort s)"
    using sort_key_byte_le[of "vs_default_sort s"] by (simp only: not_less)
  show "read_settings INDEX_VERSION (mid pre (write_settings s @ rest)) =
      Some (can_settings s, mid (pre @ write_settings s) rest)"
    by (simp add: read_settings_def write_settings_def can_settings_def ver mig
        sort[simplified] flag.decodes[simplified] wire_codec.decodes[OF categories_codec, simplified]
        wire_codec.decodes[OF descriptions_codec, simplified]
        wire_codec.decodes[OF field_values_codec, simplified])
qed

section \<open>The whole blob\<close>

lemma deserialize_serialize:
  assumes "node_ok root"
  shows "deserialize_index (serialize_index root searches settings) =
     (if tree_depth root \<le> INDEX_MAX_DEPTH
      then Some (can_node root, can_searches searches, can_settings settings) else None)"
proof -
  have ver: "\<not> INDEX_VERSION < 1" "INDEX_VERSION \<noteq> 0" "5 \<le> INDEX_VERSION" "8 \<le> INDEX_VERSION"
    by (simp_all add: INDEX_VERSION_def)
  have st: "read_settings INDEX_VERSION (mid p (write_settings settings)) =
      Some (can_settings settings, mid (p @ write_settings settings) [])" for p
    using wire_codec.decodes[OF settings_codec, where x = settings and pre = p and rest = "[]"] by simp
  show ?thesis
    by (simp add: deserialize_index_def serialize_index_def reader_of_mid ver
        read_write_node[OF assms] wire_codec.decodes[OF saved_searches_codec, simplified] st)
qed

end
