(* ===== verification/Index_Accept.thy ===== *)
theory Index_Accept
  imports Index_Roundtrip
begin

text \<open>
  What \<open>deserialize_index\<close> can accept at all: whatever the bytes (any version, hostile or not),
  the result respects every limit the writers enforce, so saving and loading it again is
  the identity; and the number of nodes it builds is bounded by the size of the input.
\<close>

section \<open>What the parser accepts\<close>

lemma length_rd_bytes: "length (fst (rd_bytes d r)) = length d"
  by (auto simp: rd_bytes_def rd_need_def)

lemma rd_bytes_length: "rd_bytes d r = (v, r') \<Longrightarrow> length v = length d"
  using length_rd_bytes[of d r] by simp

lemma guard_eq_Some: "(if b then None else x) = Some y \<longleftrightarrow> \<not> b \<and> x = Some y"
  by simp

lemma then_Some_eq: "(if b then Some x else None) = Some y \<longleftrightarrow> b \<and> x = y"
  by simp

lemma checkedD: "checked p = Some q \<Longrightarrow> p = q"
  by (auto simp: checked_def split: if_splits)

lemma unat_le_u16: "unat (x :: u16) \<le> 0xFFFF"
  using unsigned_less[of x] by (simp add: less_Suc_eq_le[symmetric])

lemma read_string_post: "read_string r = Some (s, r') \<Longrightarrow> length s \<le> 0xFFFF"
  using length_rd_bytes unat_le_u16
  by (auto simp: read_string_def bind_eq_Some_conv Let_def split: if_splits dest!: checkedD)
     (metis fst_conv length_replicate)+

lemma read_field_str_post: "read_field_str cap r = Some (s, r') \<Longrightarrow> length s \<le> cap"
  by (auto simp: read_field_str_def Let_def split: if_splits prod.splits dest!: checkedD)
     (metis fst_conv length_rd_bytes length_replicate not_less)+

text \<open>What a collection loop with a push of at most one element guarantees.\<close>

lemma rd_loop_collect:
  assumes "rd_loop k (\<lambda>s r. case dec r of None \<Rightarrow> None | Some (y, r) \<Rightarrow> Some (push s y, r)) [] r
      = Some (xs, r')"
    and "\<And>r y r'. dec r = Some (y, r') \<Longrightarrow> Q y"
    and "\<And>s y. length (push s y) \<le> Suc (length s) \<and> set (push s y) \<subseteq> insert y (set s)"
  shows "length xs \<le> k \<and> (\<forall>x \<in> set xs. Q x)"
proof (rule rd_loop_count[OF assms(1), where P = "\<lambda>i s _. length s \<le> i \<and> (\<forall>x \<in> set s. Q x)"])
  fix i s r s' r'
  assume i: "length s \<le> i \<and> (\<forall>x \<in> set s. Q x)"
    and "(case dec r of None \<Rightarrow> None | Some (y, r) \<Rightarrow> Some (push s y, r)) = Some (s', r')"
  then obtain y where "dec r = Some (y, r')" "s' = push s y" by (auto split: option.splits)
  with i assms(2)[of r y r'] assms(3)[of s y]
  show "length s' \<le> Suc i \<and> (\<forall>x \<in> set s'. Q x)" by fastforce
qed simp

lemma rd_loop_distinct:
  assumes "rd_loop k (\<lambda>s r. case dec r of None \<Rightarrow> None
      | Some (y, r) \<Rightarrow> Some (push_new eq s y, r)) [] r = Some (xs, r')"
  shows "distinct_by eq xs"
  by (rule rd_loop_invariant[OF assms, where P = "\<lambda>s _. distinct_by eq s"])
     (auto split: option.splits intro: distinct_by_push_new)

lemma push_snoc_bound: "length (s @ [y]) \<le> Suc (length s) \<and> set (s @ [y]) \<subseteq> insert y (set s)"
  by auto

lemma push_new_bound: "length (push_new eq s y) \<le> Suc (length s) \<and>
    set (push_new eq s y) \<subseteq> insert y (set s)"
  using length_push_new set_push_new by metis

lemma read_tags_post:
  assumes "read_tags r = Some (ts, r')"
  shows "can_tags ts = ts"
proof -
  have "length ts \<le> INDEX_MAX_TAGS \<and> (\<forall>t \<in> set ts. length t \<le> 0xFFFF)"
    using assms rd_loop_collect[OF _ read_string_post push_snoc_bound]
    by (fastforce simp: read_tags_def split: prod.splits if_splits)
  then show ?thesis by (auto simp: can_tags_def intro: map_idI)
qed

lemma read_image_meta_post: "read_image_meta v r = Some (m, r') \<Longrightarrow> meta_ok m"
  by (auto simp: read_image_meta_def meta_ok_def bind_eq_Some_conv Let_def split_beta
        length_rd_bytes split: if_splits dest: rd_bytes_length)

lemma read_video_chunk_post: "read_video_chunk v r = Some (c, r') \<Longrightarrow> length (vc_id c) = NODE_ID_SIZE"
  by (auto simp: read_video_chunk_def Let_def split_beta length_rd_bytes split: if_splits)

lemma read_video_meta_post:
  assumes "read_video_meta v r = Some (m, r')"
  shows "vmeta_ok m \<and> can_vmeta m = m"
proof -
  let ?loop = "\<lambda>cs r. case read_video_chunk v r of None \<Rightarrow> None | Some (c, r) \<Rightarrow> Some (cs @ [c], r)"
  from assms obtain n r0 chunks r1 where
    n: "n \<le> INDEX_MAX_VIDEO_CHUNKS" and loop: "rd_loop n ?loop [] r0 = Some (chunks, r1)"
    and m: "vm_chunks m = chunks" "length (vm_poster_id m) = NODE_ID_SIZE"
    by (auto simp: read_video_meta_def bind_eq_Some_conv Let_def split_beta not_less
        split: if_splits dest: rd_bytes_length)
  have "length chunks \<le> n \<and> (\<forall>c \<in> set chunks. length (vc_id c) = NODE_ID_SIZE)"
    by (rule rd_loop_collect[OF loop read_video_chunk_post push_snoc_bound])
  with m n show ?thesis by (auto simp: vmeta_ok_def can_vmeta_def)
qed

lemma read_node_prefix_post:
  assumes "read_node_prefix v r = Some (d, r')"
  shows "can_prefix d = d \<and> length (nd_node_id d) = NODE_ID_SIZE \<and>
         nd_meta d = default_image_meta \<and> nd_vmeta d = default_video_meta"
proof -
  from assms obtain t name tags fav k id r1 r2 r3 r4 where
    d: "d = default_node_data\<lparr>nd_type := t, nd_name := name, nd_tags := tags,
          nd_favorite := fav, nd_sort_key := k, nd_node_id := id\<rparr>"
    and name: "read_string r1 = Some (name, r2)"
    and tags: "(if 2 \<le> v then read_tags r2 else Some ([], r2)) = Some (tags, r3)"
    and id: "(if 13 \<le> v then checked (rd_bytes zero_id r4) else Some (zero_id, r4)) = Some (id, r')"
    by (clarsimp simp: read_node_prefix_def bind_eq_Some_conv guard_eq_Some
          split del: if_split)
  have "length name \<le> 0xFFFF" using name by (rule read_string_post)
  moreover have "can_tags tags = tags"
    using tags read_tags_post by (auto simp: can_tags_def split: if_splits)
  moreover have "length id = NODE_ID_SIZE"
    using id length_rd_bytes[of zero_id r4] by (auto split: if_splits dest!: checkedD)
  ultimately show ?thesis by (simp add: d can_prefix_def default_node_data_def)
qed

text \<open>
  Whatever the bytes are, an accepted node is within every limit the writers enforce, is no
  deeper than the limit, and is a fixpoint of saving and loading.
\<close>

lemma guarded_children:
  assumes "rd_loop k (\<lambda>cs r. if \<not> rd_ok r then None else
      case read_node e v r of None \<Rightarrow> None | Some (child, r) \<Rightarrow> Some (cs @ [child], r)) [] r
      = Some (cs, r')"
    and "\<And>r c r'. rd_ok r \<Longrightarrow> read_node e v r = Some (c, r') \<Longrightarrow> Q c"
  shows "length cs \<le> k \<and> (\<forall>c \<in> set cs. Q c)"
  using assms(1) unfolding children_loop_guard
  by (rule rd_loop_collect[OF _ _ push_snoc_bound]) (auto split: if_splits intro: assms(2))

lemma read_node_post:
  "read_node depth v r = Some (n, r') \<Longrightarrow>
   node_ok n \<and> can_node n = n \<and> depth + tree_depth n \<le> INDEX_MAX_DEPTH"
proof (induction depth v r arbitrary: n r' rule: read_node.induct)
  case (1 depth v r)
  note IH = "1.IH" and run = "1.prems"
  from run have dep: "depth \<le> INDEX_MAX_DEPTH"
    by (auto simp: read_node.simps[of depth] split: if_splits)
  from run dep obtain d r1 where pre: "read_node_prefix v r = Some (d, r1)"
    by (auto simp: read_node.simps[of depth] split: option.splits)
  note d = read_node_prefix_post[OF pre]
  have dm: "meta_ok default_image_meta" "vmeta_ok default_video_meta"
    by (simp_all add: meta_ok_def vmeta_ok_def default_image_meta_def default_video_meta_def)
  have upd: "can_prefix (d\<lparr>nd_meta := m\<rparr>) = d" "can_prefix (d\<lparr>nd_vmeta := vm\<rparr>) = d" for m vm
    using d by (simp_all add: can_prefix_def)
  show ?case
  proof (cases "nd_type d")
    case Image
    then obtain m where "read_image_meta v r1 = Some (m, r')" "n = Node (d\<lparr>nd_meta := m\<rparr>) []"
      using run dep pre by (auto simp: read_node.simps[of depth] split: option.splits)
    with Image d dm dep upd show ?thesis by (simp add: read_image_meta_post)
  next
    case Video
    then obtain m where "read_video_meta v r1 = Some (m, r')" "n = Node (d\<lparr>nd_vmeta := m\<rparr>) []"
      using run dep pre by (auto simp: read_node.simps[of depth] split: option.splits)
    with Video d dm dep upd show ?thesis by (simp add: read_video_meta_post)
  next
    case Gallery
    then obtain cnt r2 cs where cnt: "checked (rd_u32 r1) = Some (cnt, r2)"
      and loop: "rd_loop (unat cnt) (\<lambda>cs r. if \<not> rd_ok r then None else
         case read_node (depth + 1) v r of None \<Rightarrow> None
         | Some (child, r) \<Rightarrow> Some (cs @ [child], r)) [] r2 = Some (cs, r')"
      and n: "n = Node d cs"
      using run dep pre by (auto simp: read_node.simps[of depth] split: option.splits)
    have "length cs \<le> unat cnt \<and> (\<forall>c \<in> set cs. node_ok c \<and> can_node c = c \<and>
        depth + 1 + tree_depth c \<le> INDEX_MAX_DEPTH)"
      by (rule guarded_children[OF loop])
         (use IH dep pre Gallery cnt in \<open>auto simp: not_less\<close>)
    moreover have "unat cnt < 2 ^ 32" using unsigned_less[of cnt] by simp
    moreover have "cs \<noteq> [] \<Longrightarrow> foldr max (map tree_depth cs) 0 \<in> set (map tree_depth cs)"
      using foldr_max_mem[of "map tree_depth cs"] by simp
    ultimately show ?thesis
      using d dm dep Gallery by (auto simp: n intro: map_idI)
  qed
qed

lemma dedup_distinct: "distinct_by eq xs \<Longrightarrow> foldl (push_new eq) ys xs = ys @ xs"
  if "\<forall>y \<in> set ys. \<forall>x \<in> set xs. \<not> eq y x"
  using that
proof (induction xs arbitrary: ys)
  case Nil
  then show ?case by simp
next
  case (Cons x xs)
  then have "push_new eq ys x = ys @ [x]" by (auto intro: push_new_fresh)
  with Cons.prems Cons.IH[of "ys @ [x]"] show ?case by fastforce
qed

lemma dedup_id: "distinct_by eq xs \<Longrightarrow> dedup eq xs = xs"
  using dedup_distinct[of "[]"] by (simp add: dedup_def)

lemma read_saved_search_post: "read_saved_search r = Some (s, r') \<Longrightarrow> can_search s = s"
  by (auto simp: read_saved_search_def can_search_def bind_eq_Some_conv Let_def split_beta
        not_less dest!: read_string_post checkedD dest: rd_bytes_length split: if_splits
        intro!: saved_search.equality)

lemma read_saved_searches_post:
  assumes "read_saved_searches r = Some (ss, r')"
  shows "can_searches ss = ss"
proof -
  have "length ss \<le> INDEX_MAX_SAVED_SEARCHES \<and> (\<forall>s \<in> set ss. can_search s = s)"
    using assms rd_loop_collect[OF _ read_saved_search_post push_snoc_bound]
    by (fastforce simp: read_saved_searches_def split: prod.splits if_splits)
  then show ?thesis by (auto simp: can_searches_def intro: map_idI)
qed

lemma deduped_block:
  assumes "rd_loop k (\<lambda>s r. case dec r of None \<Rightarrow> None
      | Some (y, r) \<Rightarrow> Some (push_new eq s y, r)) [] r = Some (xs, r')" "k \<le> cap"
    and "\<And>r y r'. dec r = Some (y, r') \<Longrightarrow> can y = y"
  shows "dedup eq (map can (take cap xs)) = xs"
proof -
  have "length xs \<le> k \<and> (\<forall>x \<in> set xs. can x = x)"
    by (rule rd_loop_collect[OF assms(1) assms(3) push_new_bound])
  then have "map can (take cap xs) = xs" using assms(2) by (auto intro: map_idI)
  with rd_loop_distinct[OF assms(1)] show ?thesis by (simp add: dedup_id)
qed

lemma read_category_fields_post: "read_category_fields_v11 r = Some (fs, r') \<Longrightarrow> can_fields fs = fs"
  unfolding can_fields_def
  by (rule deduped_block[where dec = "read_field_str INDEX_MAX_FIELD_BYTES"])
     (auto simp: read_category_fields_v11_def split_beta not_less split: if_splits
        dest: read_field_str_post)

lemma read_category_post: "read_category v r = Some (c, r') \<Longrightarrow> can_category c = c"
  by (auto simp: read_category_def can_category_def bind_eq_Some_conv Let_def split_beta not_le
        can_fields_def dedup_def
        dest!: read_field_str_post split: if_splits intro!: tag_category.equality
        dest: read_category_fields_post[unfolded can_fields_def dedup_def])

lemma read_categories_post:
  "read_categories v r = Some (cs, r') \<Longrightarrow>
   dedup same_category (map can_category (take INDEX_MAX_TAG_CATEGORIES cs)) = cs"
  by (rule deduped_block[where dec = "read_category v"])
     (auto simp: read_categories_def split_beta not_less split: if_splits dest: read_category_post)

lemma read_description_post: "read_description r = Some (d, r') \<Longrightarrow> can_description d = d"
  by (auto simp: read_description_def can_description_def bind_eq_Some_conv
        dest!: read_string_post read_field_str_post)

lemma read_descriptions_post:
  "read_descriptions r = Some (ds, r') \<Longrightarrow>
   dedup same_description (map can_description (take INDEX_MAX_TAG_DESCRIPTIONS ds)) = ds"
  by (rule deduped_block[where dec = read_description])
     (auto simp: read_descriptions_def split_beta not_less split: if_splits dest: read_description_post)

lemma read_field_value_post: "read_field_value r = Some (e, r') \<Longrightarrow> can_field_value e = e"
  by (auto simp: read_field_value_def can_field_value_def bind_eq_Some_conv
        dest!: read_field_str_post)

lemma read_field_values_post:
  "read_field_values r = Some (es, r') \<Longrightarrow>
   dedup same_field_value (map can_field_value (take INDEX_MAX_TAG_FIELD_VALUES es)) = es"
  by (rule deduped_block[where dec = read_field_value])
     (auto simp: read_field_values_def split_beta not_less split: if_splits dest: read_field_value_post)

lemma dedup_Nil [simp]: "dedup eq [] = []"
  by (simp add: dedup_def)

definition settings_of_parts ::
    "sort_key \<Rightarrow> bool \<Rightarrow> tag_category list \<Rightarrow> tag_description list \<Rightarrow> byte \<Rightarrow> u16 \<Rightarrow>
     tag_field_value list \<Rightarrow> u16 \<Rightarrow> vault_settings" where
  "settings_of_parts k t cs ds m c vs w =
     \<lparr>vs_tag_bundles = [], vs_default_sort = k, vs_tiles_show_tags = t, vs_categories = cs,
      vs_tag_descriptions = ds, vs_tag_field_values = vs, vs_migrated_index_version = m,
      vs_migrated_probe_caps = c, vs_migrated_thumb_side = w\<rparr>"

lemma can_settings_of_parts:
  assumes "dedup same_category (map can_category (take INDEX_MAX_TAG_CATEGORIES cs)) = cs"
    "dedup same_description (map can_description (take INDEX_MAX_TAG_DESCRIPTIONS ds)) = ds"
    "dedup same_field_value (map can_field_value (take INDEX_MAX_TAG_FIELD_VALUES vs)) = vs"
    "\<not> INDEX_VERSION < m"
  shows "can_settings (settings_of_parts k t cs ds m c vs w) = settings_of_parts k t cs ds m c vs w"
  unfolding can_settings_def settings_of_parts_def default_settings_def
  using assms by simp

lemma no_blocks:
  "dedup same_description (map can_description (take INDEX_MAX_TAG_DESCRIPTIONS [])) = []"
  "dedup same_field_value (map can_field_value (take INDEX_MAX_TAG_FIELD_VALUES [])) = []"
  "\<not> INDEX_VERSION < 0"
  by simp_all

lemma read_settings_parts:
  assumes "read_settings v r = Some (s, r')"
  obtains k t cs ds m c vs w r1 r2 where
    "s = settings_of_parts k t cs ds m c vs w" "read_categories v r1 = Some (cs, r2)"
    "ds = [] \<or> (\<exists>r3 r4. read_descriptions r3 = Some (ds, r4))"
    "vs = [] \<or> (\<exists>r3 r4. read_field_values r3 = Some (vs, r4))" "\<not> INDEX_VERSION < m"
proof -
  obtain t cs r1 r2 where cats: "read_categories v r1 = Some (cs, r2)"
    and rest: "(let s = default_settings\<lparr>vs_default_sort := sort_key_of (fst (rd_u8 r)),
               vs_tiles_show_tags := t, vs_categories := cs\<rparr> in
     if v < 9 then Some (s, r2) else do {
     (descs, r) \<leftarrow> read_descriptions r2;
     let s = s\<lparr>vs_tag_descriptions := descs\<rparr>;
     if v < 10 then Some (s, r) else (
     let (migrated, r) = rd_u8 r in
     if \<not> rd_ok r \<or> migrated > INDEX_VERSION then None else do {
     (caps, r) \<leftarrow> checked (rd_u16 r);
     let s = s\<lparr>vs_migrated_index_version := migrated, vs_migrated_probe_caps := caps\<rparr>;
     if v < 11 then Some (s, r) else do {
     (values, r) \<leftarrow> read_field_values r;
     let s = s\<lparr>vs_tag_field_values := values\<rparr>;
     if v < 12 then Some (s, r) else do {
     (side, r) \<leftarrow> checked (rd_u16 r);
     Some (s\<lparr>vs_migrated_thumb_side := side\<rparr>, r)
   }}})}) = Some (s, r')"
    using assms unfolding read_settings_def bind_eq_Some_conv
    by (cases "rd_u8 r") (force simp: guard_eq_Some bind_eq_Some_conv split del: if_split)
  let ?k = "sort_key_of (fst (rd_u8 r))"
  show thesis
  proof (cases "v < 9")
    case True
    with rest have "s = settings_of_parts ?k t cs [] 0 0 [] 0"
      by (simp add: Let_def settings_of_parts_def default_settings_def)
    from that[OF this cats] show thesis by simp
  next
    case False
    with rest obtain ds r3 where ds: "read_descriptions r2 = Some (ds, r3)"
      by (auto simp: Let_def bind_eq_Some_conv split del: if_split)
    show thesis
    proof (cases "v < 10")
      case True
      with rest False ds have "s = settings_of_parts ?k t cs ds 0 0 [] 0"
        by (simp add: Let_def settings_of_parts_def default_settings_def)
      from that[OF this cats] ds show thesis by auto
    next
      case False10: False
      obtain m r4 where m: "rd_u8 r3 = (m, r4)" by fastforce
      from rest False False10 ds m obtain c r5 where
        mv: "\<not> INDEX_VERSION < m" and c: "checked (rd_u16 r4) = Some (c, r5)"
        by (auto simp: Let_def bind_eq_Some_conv guard_eq_Some split del: if_split)
      show thesis
      proof (cases "v < 11")
        case True
        with rest False False10 ds m mv c have "s = settings_of_parts ?k t cs ds m c [] 0"
          by (simp add: Let_def guard_eq_Some settings_of_parts_def default_settings_def)
        from that[OF this cats] ds mv show thesis by auto
      next
        case False11: False
        from rest False False10 False11 ds m mv c obtain vs r6 where
          vs: "read_field_values r5 = Some (vs, r6)"
          by (auto simp: Let_def bind_eq_Some_conv guard_eq_Some split del: if_split)
        from rest False False10 False11 ds m mv c vs obtain w where
          "s = settings_of_parts ?k t cs ds m c vs w"
          by (auto simp: Let_def bind_eq_Some_conv guard_eq_Some settings_of_parts_def
              default_settings_def split: if_split_asm)
        from that[OF this cats] ds vs mv show thesis by blast
      qed
    qed
  qed
qed

lemma read_settings_post: "read_settings v r = Some (s, r') \<Longrightarrow> can_settings s = s"
  by (erule read_settings_parts)
     (auto intro!: can_settings_of_parts no_blocks
        dest: read_categories_post read_descriptions_post read_field_values_post)

lemma can_seeded: "can_settings seeded = seeded"
proof -
  have "distinct_by same_category (vs_categories seeded)"
    by (simp add: seeded_def default_settings_def ascii_def category_name_eq_def lower_def)
  moreover have "map can_category (vs_categories seeded) = vs_categories seeded"
    by (simp add: seeded_def default_settings_def ascii_def can_category_def can_fields_def index_limits)
  moreover have "length (vs_categories seeded) \<le> INDEX_MAX_TAG_CATEGORIES"
    by (simp add: seeded_def default_settings_def index_limits)
  ultimately have "dedup same_category (map can_category
      (take INDEX_MAX_TAG_CATEGORIES (vs_categories seeded))) = vs_categories seeded"
    by (simp add: dedup_id)
  then show ?thesis
    by (simp add: can_settings_def) (simp add: seeded_def default_settings_def)
qed

lemma deserialize_post:
  assumes "deserialize_index inp = Some (root, searches, settings)"
  shows "node_ok root \<and> can_node root = root \<and> tree_depth root \<le> INDEX_MAX_DEPTH \<and>
     can_searches searches = searches \<and> can_settings settings = settings"
proof -
  from assms obtain v r1 r2 r3 r4 where
    root: "read_node 0 v r1 = Some (root, r2)"
    and ss: "(if 5 \<le> v then read_saved_searches r2 else Some ([], r2)) = Some (searches, r3)"
    and st: "(if 8 \<le> v then read_settings v r3 else Some (seeded, r3)) = Some (settings, r4)"
    by (clarsimp simp: deserialize_index_def bind_eq_Some_conv guard_eq_Some then_Some_eq
          split del: if_split)
  have "can_searches searches = searches"
    using ss read_saved_searches_post by (auto simp: can_searches_def split: if_splits)
  moreover have "can_settings settings = settings"
    using st read_settings_post can_seeded by (auto split: if_splits)
  ultimately show ?thesis using read_node_post[OF root] by simp
qed

section \<open>Resource bounds\<close>

text \<open>
  \<open>adv k r r'\<close>: the reader moved forward by at least \<open>k\<close> bytes, over the same input, and
  stayed inside it.
\<close>

definition adv :: "nat \<Rightarrow> reader \<Rightarrow> reader \<Rightarrow> bool" where
  "adv k r r' \<longleftrightarrow> rd_in r' = rd_in r \<and> rd_pos r + k \<le> rd_pos r' \<and> (rd_inv r \<longrightarrow> rd_inv r')"

lemma adv_refl: "adv 0 r r"
  by (simp add: adv_def)

lemma adv_trans: "adv j r r' \<Longrightarrow> adv k r' r'' \<Longrightarrow> adv (j + k) r r''"
  by (auto simp: adv_def)

lemma adv_trans0: "adv j r r' \<Longrightarrow> adv k r' r'' \<Longrightarrow> adv 0 r r''"
  by (auto simp: adv_def)

lemma adv_weaken: "adv k r r' \<Longrightarrow> j \<le> k \<Longrightarrow> adv j r r'"
  by (auto simp: adv_def)

lemma adv_u8: "rd_u8 r = (v, r') \<Longrightarrow> adv 0 r r'"
  by (auto simp: rd_u8_def rd_need_def adv_def rd_inv_def split: if_splits)

lemma adv_get: "rd_get n r = (v, r') \<Longrightarrow> adv 0 r r'"
  by (auto simp: rd_get_def rd_need_def adv_def rd_inv_def split: if_splits)

lemma adv_uN:
  "rd_u16 r = (v, r') \<Longrightarrow> adv 0 r r'" "rd_u32 r = (w, r') \<Longrightarrow> adv 0 r r'"
  "rd_u64 r = (x, r') \<Longrightarrow> adv 0 r r'"
  unfolding rd_u16_def rd_u32_def rd_u64_def by (rule adv_get, assumption)+

lemma adv_bytes: "rd_bytes d r = (v, r') \<Longrightarrow> adv 0 r r'"
  by (auto simp: rd_bytes_def rd_need_def adv_def rd_inv_def split: if_splits)

lemma adv_checked_u8: "checked (rd_u8 r) = Some (v, r') \<Longrightarrow> adv 1 r r'"
  by (auto simp: checked_def rd_u8_def rd_need_def adv_def rd_inv_def split: if_splits)

lemma adv_loop:
  assumes "rd_loop k f s r = Some (s', r')"
    and "\<And>s r s' r'. f s r = Some (s', r') \<Longrightarrow> adv 0 r r'"
  shows "adv 0 r r'"
  by (rule rd_loop_invariant[OF assms(1), where P = "\<lambda>_ q. adv 0 r q"])
     (use adv_refl assms(2) adv_trans0 in blast)+


lemma adv_D:
  "rd_u8 r = (v, r') \<Longrightarrow> adv 0 r r'" "rd_u16 r = (a, r') \<Longrightarrow> adv 0 r r'"
  "rd_u32 r = (b, r') \<Longrightarrow> adv 0 r r'" "rd_u64 r = (c, r') \<Longrightarrow> adv 0 r r'"
  "rd_bytes d r = (e, r') \<Longrightarrow> adv 0 r r'"
  using adv_u8 adv_uN adv_bytes by blast+

lemmas adv_dests = checkedD adv_u8 adv_uN adv_bytes

lemma adv_string: "read_string r = Some (s, r') \<Longrightarrow> adv 0 r r'"
  by (auto simp: read_string_def bind_eq_Some_conv Let_def split: if_splits dest!: adv_dests
      simp: adv_def)

lemma adv_tags: "read_tags r = Some (s, r') \<Longrightarrow> adv 0 r r'"
  by (auto simp: read_tags_def split: prod.splits if_splits option.splits dest!: adv_dests
      adv_loop intro: adv_trans0 adv_string)

lemma adv_flag: "read_flag r = Some (s, r') \<Longrightarrow> adv 0 r r'"
  by (auto simp: read_flag_def split: prod.splits if_splits dest!: adv_dests)

lemma adv_snd:
  "adv 0 r q \<Longrightarrow> adv 0 r (snd (rd_u8 q))" "adv 0 r q \<Longrightarrow> adv 0 r (snd (rd_u16 q))"
  "adv 0 r q \<Longrightarrow> adv 0 r (snd (rd_u32 q))" "adv 0 r q \<Longrightarrow> adv 0 r (snd (rd_u64 q))"
  "adv 0 r q \<Longrightarrow> adv 0 r (snd (rd_bytes d q))"
  using adv_u8 adv_uN adv_bytes adv_trans0 prod.collapse by metis+

lemma adv_image_meta: "read_image_meta v r = Some (m, r') \<Longrightarrow> adv 0 r r'"
  by (auto simp: read_image_meta_def bind_eq_Some_conv Let_def split_beta guard_eq_Some
      split: if_split_asm dest!: adv_flag
      dest: adv_D intro!: adv_snd adv_refl intro: adv_trans0[rotated])

lemma adv_video_chunk: "read_video_chunk v r = Some (c, r') \<Longrightarrow> adv 0 r r'"
  by (auto simp: read_video_chunk_def Let_def 
      split: if_split_asm prod.splits dest!: adv_dests simp: adv_def)

lemma adv_chunks: "rd_loop n (\<lambda>cs r. case read_video_chunk version r of None \<Rightarrow> None
                 | Some (c, r) \<Rightarrow> Some (cs @ [c], r)) cs r = Some (x, r') \<Longrightarrow> adv 0 r r'"
  by (erule adv_loop) (auto split: option.splits intro: adv_video_chunk)

lemma adv_video_meta: "read_video_meta v r = Some (m, r') \<Longrightarrow> adv 0 r r'"
  by (auto simp: read_video_meta_def bind_eq_Some_conv Let_def split_beta guard_eq_Some
      split: if_split_asm dest!: adv_flag adv_chunks
      dest: adv_D intro!: adv_snd adv_refl intro: adv_trans0[rotated])

lemma adv_sort_key: "read_sort_key v r = Some (k, r') \<Longrightarrow> adv 0 r r'"
  by (auto simp: read_sort_key_def Let_def adv_refl
      split: if_split_asm prod.splits dest!: adv_dests)

text \<open>Every node starts with a type byte.\<close>

lemma adv_prefix:
  assumes "read_node_prefix v r = Some (d, r')"
  shows "adv 1 r r'"
proof -
  from assms obtain t r1 name r2 tags r3 fav r4 k r5 id where t: "checked (rd_u8 r) = Some (t, r1)"
    and name: "read_string r1 = Some (name, r2)"
    and tags: "(if 2 \<le> v then read_tags r2 else Some ([], r2)) = Some (tags, r3)"
    and fav: "(if 3 \<le> v then bind (checked (rd_u8 r3)) (\<lambda>(fav, r). Some (fav \<noteq> 0, r))
        else Some (False, r3)) = Some (fav, r4)"
    and k: "read_sort_key v r4 = Some (k, r5)"
    and id: "(if 13 \<le> v then checked (rd_bytes zero_id r5) else Some (zero_id, r5)) = Some (id, r')"
    by (clarsimp simp: read_node_prefix_def bind_eq_Some_conv guard_eq_Some split del: if_split)
  have "adv 0 r2 r3" using tags by (auto simp: adv_refl dest: adv_tags split: if_splits)
  moreover have "adv 0 r3 r4"
    using fav by (auto simp: adv_refl bind_eq_Some_conv dest!: adv_dests split: if_splits)
  moreover have "adv 0 r5 r'"
    using id by (auto simp: adv_refl dest!: adv_dests split: if_splits)
  ultimately show ?thesis
    using adv_checked_u8[OF t] adv_string[OF name] adv_sort_key[OF k] by (simp add: adv_def)
qed

fun node_count :: "index_node \<Rightarrow> nat" where
  "node_count (Node d cs) = Suc (sum_list (map node_count cs))"

lemma adv_children:
  assumes "rd_loop k (\<lambda>cs r. if \<not> rd_ok r then None else
      case read_node e v r of None \<Rightarrow> None | Some (child, r) \<Rightarrow> Some (cs @ [child], r)) [] r
      = Some (cs, r')"
    and "\<And>r c r'. rd_ok r \<Longrightarrow> read_node e v r = Some (c, r') \<Longrightarrow> adv (node_count c) r r'"
  shows "adv (sum_list (map node_count cs)) r r'"
  by (rule rd_loop_invariant[OF assms(1), where P = "\<lambda>cs q. adv (sum_list (map node_count cs)) r q"])
     (auto simp: adv_refl split: if_split_asm option.splits dest!: assms(2) intro: adv_trans)

lemma adv_node: "read_node depth v r = Some (n, r') \<Longrightarrow> adv (node_count n) r r'"
proof (induction depth v r arbitrary: n r' rule: read_node.induct)
  case (1 depth v r)
  note IH = "1.IH" and run = "1.prems"
  from run have dep: "depth \<le> INDEX_MAX_DEPTH"
    by (auto simp: read_node.simps[of depth] split: if_splits)
  from run dep obtain d r1 where pre: "read_node_prefix v r = Some (d, r1)"
    by (auto simp: read_node.simps[of depth] split: option.splits)
  note one = adv_prefix[OF pre]
  show ?case
  proof (cases "nd_type d")
    case Image
    with run dep pre show ?thesis
      using one by (auto simp: read_node.simps[of depth] split: option.splits
          dest!: adv_image_meta dest: adv_trans)
  next
    case Video
    with run dep pre show ?thesis
      using one by (auto simp: read_node.simps[of depth] split: option.splits
          dest!: adv_video_meta dest: adv_trans)
  next
    case Gallery
    then obtain cnt r2 cs where cnt: "checked (rd_u32 r1) = Some (cnt, r2)"
      and loop: "rd_loop (unat cnt) (\<lambda>cs r. if \<not> rd_ok r then None else
         case read_node (depth + 1) v r of None \<Rightarrow> None
         | Some (child, r) \<Rightarrow> Some (cs @ [child], r)) [] r2 = Some (cs, r')"
      and n: "n = Node d cs"
      using run dep pre by (auto simp: read_node.simps[of depth] split: option.splits)
    have "adv (sum_list (map node_count cs)) r2 r'"
      by (rule adv_children[OF loop])
         (use IH dep pre Gallery cnt in \<open>auto simp: not_less\<close>)
    moreover have "adv 0 r1 r2" using cnt by (auto dest!: adv_dests)
    ultimately show ?thesis using one by (auto simp: n adv_def)
  qed
qed

lemma accepted_size:
  assumes "deserialize_index inp = Some (root, searches, settings)"
  shows "node_count root < length inp"
proof -
  from assms obtain v r1 r2 where v: "checked (rd_u8 (reader_of inp)) = Some (v, r1)"
    and root: "read_node 0 v r1 = Some (root, r2)"
    by (clarsimp simp: deserialize_index_def bind_eq_Some_conv guard_eq_Some then_Some_eq
          split del: if_split)
  from adv_checked_u8[OF v] adv_node[OF root] show ?thesis
    by (auto simp: adv_def rd_inv_def reader_of_def)
qed

section \<open>Properties of the index format\<close>

text \<open>
  Property C1.  Saving and loading an index: the tree comes back in its canonical form
  (over-long names, tags and lists clamped exactly as the writers clamp them, tag provenance
  dropped), with its searches and settings, for every tree of any shape up to the depth
  limit; a deeper tree is written without complaint and can never be loaded.
\<close>

theorem index_roundtrip:
  assumes "node_ok root"
  shows "deserialize_index (serialize_index root searches settings) =
     (if tree_depth root \<le> INDEX_MAX_DEPTH
      then Some (can_node root, can_searches searches, can_settings settings) else None)"
  using assms by (rule deserialize_serialize)

theorem index_roundtrip_witness:
  "deserialize_index (serialize_index (gallery [0x61]) [] seeded) =
     Some (can_node (gallery [0x61]), [], seeded)"
proof -
  have "node_ok (gallery [0x61])"
    by (simp add: gallery_def default_node_data_def meta_ok_def vmeta_ok_def
        default_image_meta_def default_video_meta_def)
  from index_roundtrip[OF this, of "[]" seeded] show ?thesis
    by (simp add: can_searches_def can_seeded gallery_def)
qed

text \<open>
  Property C2.  Whatever \<open>deserialize_index\<close> accepts, from any version and from hostile bytes,
  respects every bound the writers enforce: saving it and loading it again gives the same
  tree, searches and settings, and the tree is no deeper than the limit.
\<close>

theorem accepted_index_is_stable:
  assumes "deserialize_index inp = Some (root, searches, settings)"
  shows "deserialize_index (serialize_index root searches settings) = Some (root, searches, settings)
    \<and> tree_depth root \<le> INDEX_MAX_DEPTH"
  using deserialize_post[OF assms] deserialize_serialize[of root] by simp

text \<open>A minimal version-1 blob: an empty gallery named \<open>a\<close>.\<close>

definition v1_blob :: bytes where
  "v1_blob = [1, 0, 1, 0, 0x61, 0, 0, 0, 0]"

lemma v1_blob_accepted:
  "deserialize_index v1_blob = Some (gallery [0x61], [], seeded)"
proof -
  have u32: "w_u32 0 = [0, 0, 0, 0]" by (simp add: w_u32_def le_bytes_def upt_rec)
  have nm: "write_str 0xFFFF [0x61] = [1, 0, 0x61]"
    by (simp add: write_str_def clamp_def w_u16_def le_bytes_def upt_rec)
  have r: "reader_of v1_blob = mid [] (1 # 0 # (write_str 0xFFFF [0x61] @ (w_u32 0 @ [])))"
    by (simp add: reader_of_mid v1_blob_def nm u32)
  have nt: "node_type_of 0 = Gallery" by (simp add: node_type_of_def)
  have old: "\<not> (2::byte) \<le> 1" "\<not> (3::byte) \<le> 1" "\<not> (5::byte) \<le> 1" "\<not> (6::byte) \<le> 1"
    "\<not> (8::byte) \<le> 1" "\<not> (13::byte) \<le> 1"
    by (simp_all add: word_le_nat_alt)
  have pre: "read_node_prefix 1 (mid [1] (0 # (write_str 0xFFFF [0x61] @ (w_u32 0 @ [])))) =
      Some (ndata (gallery [0x61]), mid ([1, 0] @ write_str 0xFFFF [0x61]) (w_u32 0 @ []))"
    by (simp add: read_node_prefix_def str.decodes[simplified] read_sort_key_def nt old gallery_def
        default_node_data_def)
  have "read_node 0 1 (mid [1] (0 # (write_str 0xFFFF [0x61] @ (w_u32 0 @ [])))) =
      Some (gallery [0x61], mid ([1, 0] @ write_str 0xFFFF [0x61] @ w_u32 0) [])"
    unfolding read_node.simps[of 0] pre
    using rd_u32_mid[where v = 0 and xs = "[]"] by (simp add: gallery_def default_node_data_def)
  then show ?thesis
    by (simp add: deserialize_index_def r old INDEX_VERSION_def)
qed

theorem accepted_index_is_stable_witness:
  "deserialize_index (serialize_index (gallery [0x61]) [] seeded) = Some (gallery [0x61], [], seeded)"
  using accepted_index_is_stable[OF v1_blob_accepted] by simp

text \<open>
  Parsing allocates no more nodes than the input has bytes: the number of nodes
  of an accepted tree is below the length of the blob, whatever child counts it claims.
\<close>

theorem accepted_nodes_bounded:
  assumes "deserialize_index inp = Some (root, searches, settings)"
  shows "node_count root < length inp"
  using assms by (rule accepted_size)

theorem accepted_nodes_bounded_witness: "node_count (gallery [0x61]) < length v1_blob"
  by (rule accepted_nodes_bounded[OF v1_blob_accepted])

end
