(* ===== verification/Settings_Ops.thy ===== *)
theory Settings_Ops
  imports Index_Accept
begin

text \<open>
  The operations on the vault-global settings of \<open>src/vault/index.cpp\<close>: tag descriptions,
  category templates and per-tag field values.  Both stores are association lists matched by
  an ASCII case fold; what they owe their clients is the \<open>tag_store\<close> interface.
\<close>

section \<open>Updating the first match in place\<close>

text \<open>
  The loop both setters share: skip the entries that do not match, erase or overwrite the
  first one that does, and return.  \<open>None\<close> means that the loop ran to the end.
\<close>

fun upsert_first :: "('a \<Rightarrow> bool) \<Rightarrow> ('a \<Rightarrow> 'a option) \<Rightarrow> 'a list \<Rightarrow> 'a list option" where
  "upsert_first p f [] = None"
| "upsert_first p f (x # xs) =
     (if \<not> p x then map_option ((#) x) (upsert_first p f xs)
      else (case f x of None \<Rightarrow> Some xs | Some y \<Rightarrow> Some (y # xs)))"

lemma upsert_first_None: "upsert_first p f xs = None \<longleftrightarrow> (\<forall>x \<in> set xs. \<not> p x)"
  by (induction xs) (auto split: option.splits)

lemma upsert_first_split:
  assumes "upsert_first p f xs = Some ys"
  obtains as x bs where "xs = as @ x # bs" "p x" "\<forall>a \<in> set as. \<not> p a"
    "ys = as @ (case f x of None \<Rightarrow> [] | Some y \<Rightarrow> [y]) @ bs"
  using assms
proof (induction xs arbitrary: ys thesis)
  case Nil
  then show ?case by simp
next
  case (Cons z zs)
  show ?case
  proof (cases "p z")
    case True
    then show ?thesis
      using Cons.prems(1)[of "[]" z zs] Cons.prems(2) by (auto split: option.splits)
  next
    case False
    with Cons.prems(2) obtain ws where ws: "upsert_first p f zs = Some ws" "ys = z # ws" by auto
    from Cons.IH[OF _ ws(1)] obtain as x bs where
      "zs = as @ x # bs" "p x" "\<forall>a \<in> set as. \<not> p a"
      "ws = as @ (case f x of None \<Rightarrow> [] | Some y \<Rightarrow> [y]) @ bs" by metis
    with False ws(2) Cons.prems(1)[of "z # as" x bs] show ?thesis by simp
  qed
qed

text \<open>The lookup loop: the first match decides.\<close>

definition first_match :: "('a \<Rightarrow> bool) \<Rightarrow> ('a \<Rightarrow> bytes) \<Rightarrow> 'a list \<Rightarrow> bytes" where
  "first_match p get xs = (case List.find p xs of Some x \<Rightarrow> get x | None \<Rightarrow> [])"

lemma first_match_simps [simp]:
  "first_match p get [] = []"
  "first_match p get (x # xs) = (if p x then get x else first_match p get xs)"
  by (simp_all add: first_match_def)

lemma first_match_append:
  "first_match p get (xs @ ys) = (if \<exists>x \<in> set xs. p x then first_match p get xs else first_match p get ys)"
  by (induction xs) auto

lemma first_match_none: "\<forall>x \<in> set xs. \<not> p x \<Longrightarrow> first_match p get xs = []"
  by (induction xs) auto

section \<open>Tag descriptions\<close>

definition find_tag_description :: "vault_settings \<Rightarrow> bytes \<Rightarrow> bytes" where
  "find_tag_description s tag =
     first_match (\<lambda>d. category_name_eq (td_tag d) tag) td_text (vs_tag_descriptions s)"

definition set_tag_description :: "vault_settings \<Rightarrow> bytes \<Rightarrow> bytes \<Rightarrow> vault_settings" where
  "set_tag_description s tag text =
     (case upsert_first (\<lambda>d. category_name_eq (td_tag d) tag)
             (\<lambda>d. if text = [] then None else Some (d\<lparr>td_text := text\<rparr>)) (vs_tag_descriptions s) of
        Some ds \<Rightarrow> s\<lparr>vs_tag_descriptions := ds\<rparr>
      | None \<Rightarrow>
          if text = [] then s
          else if length (vs_tag_descriptions s) \<ge> INDEX_MAX_TAG_DESCRIPTIONS then s
          else s\<lparr>vs_tag_descriptions := vs_tag_descriptions s @ [\<lparr>td_tag = tag, td_text = text\<rparr>]\<rparr>)"

section \<open>Category templates\<close>

text \<open>\<open>tag.find(':')\<close>, then the guards on both halves.\<close>

definition tag_category_prefix :: "bytes \<Rightarrow> bytes" where
  "tag_category_prefix tag = (let colon = length (takeWhile (\<lambda>c. c \<noteq> 0x3A) tag) in
     if colon = length tag \<or> colon = 0 \<or> colon + 1 \<ge> length tag then [] else take colon tag)"

definition tag_in_category :: "bytes \<Rightarrow> bytes \<Rightarrow> bool" where
  "tag_in_category tag category = category_name_eq (tag_category_prefix tag) category"

text \<open>\<open>find_category\<close> returns a pointer: the model has the index, and updates through it.\<close>

fun find_category :: "tag_category list \<Rightarrow> bytes \<Rightarrow> nat option" where
  "find_category [] category = None"
| "find_category (c # cs) category =
     (if category_name_eq (tc_name c) category then Some 0
      else map_option Suc (find_category cs category))"

definition category_template :: "vault_settings \<Rightarrow> bytes \<Rightarrow> bytes list" where
  "category_template s category =
     (case find_category (vs_categories s) category of
        Some i \<Rightarrow> tc_fields (vs_categories s ! i) | None \<Rightarrow> [])"

text \<open>The cleaning loop of \<open>set_category_template\<close>, with its \<open>break\<close>.\<close>

fun clean_fields :: "bytes list \<Rightarrow> bytes list \<Rightarrow> bytes list" where
  "clean_fields cleaned [] = cleaned"
| "clean_fields cleaned (f # fs) =
     (if f = [] then clean_fields cleaned fs
      else let f = (if length f > INDEX_MAX_FIELD_BYTES then take INDEX_MAX_FIELD_BYTES f else f);
               cleaned = push_new category_name_eq cleaned f
           in if length cleaned \<ge> INDEX_MAX_TEMPLATE_FIELDS then cleaned
              else clean_fields cleaned fs)"

definition set_category_template ::
    "vault_settings \<Rightarrow> bytes \<Rightarrow> bytes list \<Rightarrow> vault_settings \<times> bool" where
  "set_category_template s category new_fields =
     (case find_category (vs_categories s) category of
        None \<Rightarrow> (s, False)
      | Some i \<Rightarrow> (s\<lparr>vs_categories := (vs_categories s)
           [i := (vs_categories s ! i)\<lparr>tc_fields := clean_fields [] new_fields\<rparr>]\<rparr>, True))"

section \<open>Per-tag field values\<close>

definition find_tag_field_value :: "vault_settings \<Rightarrow> bytes \<Rightarrow> bytes \<Rightarrow> bytes" where
  "find_tag_field_value s tag field =
     first_match (\<lambda>e. category_name_eq (tf_tag e) tag \<and> category_name_eq (tf_field e) field)
       tf_value (vs_tag_field_values s)"

definition set_tag_field_value ::
    "vault_settings \<Rightarrow> bytes \<Rightarrow> bytes \<Rightarrow> bytes \<Rightarrow> vault_settings" where
  "set_tag_field_value s tag field v =
     (case upsert_first
             (\<lambda>e. category_name_eq (tf_tag e) tag \<and> category_name_eq (tf_field e) field)
             (\<lambda>e. if v = [] then None else Some (e\<lparr>tf_value := v\<rparr>)) (vs_tag_field_values s) of
        Some es \<Rightarrow> s\<lparr>vs_tag_field_values := es\<rparr>
      | None \<Rightarrow>
          if v = [] then s
          else if length (vs_tag_field_values s) \<ge> INDEX_MAX_TAG_FIELD_VALUES then s
          else let v = (if length v > INDEX_MAX_FIELD_VALUE_BYTES
                        then take INDEX_MAX_FIELD_VALUE_BYTES v else v)
               in s\<lparr>vs_tag_field_values :=
                    vs_tag_field_values s @ [\<lparr>tf_tag = tag, tf_field = field, tf_value = v\<rparr>]\<rparr>)"

text \<open>\<open>find_if\<close> over the fields of a template: the index of the first match.\<close>

fun find_field :: "bytes list \<Rightarrow> bytes \<Rightarrow> nat option" where
  "find_field [] field = None"
| "find_field (f # fs) field =
     (if category_name_eq f field then Some 0 else map_option Suc (find_field fs field))"

definition rename_template_field ::
    "vault_settings \<Rightarrow> bytes \<Rightarrow> bytes \<Rightarrow> bytes \<Rightarrow> vault_settings \<times> bool" where
  "rename_template_field s category old_field new_field =
     (if new_field = [] \<or> length new_field > INDEX_MAX_FIELD_BYTES then (s, False) else
      case find_category (vs_categories s) category of
        None \<Rightarrow> (s, False)
      | Some i \<Rightarrow> (let c = vs_categories s ! i in
          case find_field (tc_fields c) old_field of
            None \<Rightarrow> (s, False)
          | Some j \<Rightarrow>
              if \<exists>k < length (tc_fields c). k \<noteq> j \<and> category_name_eq (tc_fields c ! k) new_field
              then (s, False)
              else (s\<lparr>vs_categories := (vs_categories s)
                        [i := c\<lparr>tc_fields := (tc_fields c)[j := new_field]\<rparr>],
                      vs_tag_field_values := map (\<lambda>e.
                        if tag_in_category (tf_tag e) category \<and> category_name_eq (tf_field e) old_field
                        then e\<lparr>tf_field := new_field\<rparr> else e) (vs_tag_field_values s)\<rparr>, True)))"

definition remove_template_field ::
    "vault_settings \<Rightarrow> bytes \<Rightarrow> bytes \<Rightarrow> vault_settings \<times> bool" where
  "remove_template_field s category field =
     (case find_category (vs_categories s) category of
        None \<Rightarrow> (s, False)
      | Some i \<Rightarrow> (let c = vs_categories s ! i;
            kept = filter (\<lambda>f. \<not> category_name_eq f field) (tc_fields c) in
          if length kept = length (tc_fields c) then (s, False)
          else (s\<lparr>vs_categories := (vs_categories s)[i := c\<lparr>tc_fields := kept\<rparr>],
                  vs_tag_field_values := filter
                    (\<lambda>e. \<not> (tag_in_category (tf_tag e) category \<and> category_name_eq (tf_field e) field))
                    (vs_tag_field_values s)\<rparr>, True)))"


section \<open>The store interface\<close>

text \<open>
  What both stores promise: a put is seen by a later find of the same key (in the stored
  form \<open>clip\<close>), touches no other key, keeps the invariant, and does nothing when there is no
  room for a new key.  Everything a client relies on follows from these laws.
\<close>

locale tag_store =
  fixes find :: "'s \<Rightarrow> 'k \<Rightarrow> bytes"
    and put :: "'s \<Rightarrow> 'k \<Rightarrow> bytes \<Rightarrow> 's"
    and same :: "'k \<Rightarrow> 'k \<Rightarrow> bool"
    and inv :: "'s \<Rightarrow> bool"
    and room :: "'s \<Rightarrow> 'k \<Rightarrow> bool"
    and clip :: "'s \<Rightarrow> 'k \<Rightarrow> bytes \<Rightarrow> bytes"
  assumes same_refl: "same k k"
    and find_cong: "same k k' \<Longrightarrow> find s k = find s k'"
    and find_put_same: "inv s \<Longrightarrow> room s k \<Longrightarrow> find (put s k v) k = clip s k v"
    and put_full: "inv s \<Longrightarrow> \<not> room s k \<Longrightarrow> put s k v = s"
    and find_put_other: "inv s \<Longrightarrow> \<not> same k k' \<Longrightarrow> find (put s k v) k' = find s k'"
    and inv_put: "inv s \<Longrightarrow> inv (put s k v)"
    and clip_nil: "clip s k [] = []"
    and absent_full: "inv s \<Longrightarrow> \<not> room s k \<Longrightarrow> find s k = []"
begin

lemma find_put:
  "inv s \<Longrightarrow> find (put s k v) k' =
     (if same k k' then (if room s k then clip s k v else []) else find s k')"
  using find_put_same find_put_other put_full absent_full find_cong by metis

text \<open>Removing a key always works, also in a full store.\<close>

lemma find_removed: "inv s \<Longrightarrow> same k k' \<Longrightarrow> find (put s k []) k' = []"
  by (simp add: find_put clip_nil)

text \<open>A whole sequence of puts keeps the invariant and only touches its own keys.\<close>

lemma inv_puts: "inv s \<Longrightarrow> inv (foldl (\<lambda>s (k, v). put s k v) s kvs)"
  by (induction kvs arbitrary: s) (auto intro: inv_put)

lemma find_puts_other:
  "inv s \<Longrightarrow> \<forall>(k, v) \<in> set kvs. \<not> same k k' \<Longrightarrow>
   find (foldl (\<lambda>s (k, v). put s k v) s kvs) k' = find s k'"
  by (induction kvs arbitrary: s) (auto simp: find_put_other inv_put)

end

section \<open>Both stores implement it\<close>

text \<open>
  Both are lists of entries with a (case-folded) key and a value: the interface between the
  list and the entry is a key, a value and an in-place value update.
\<close>

locale keyed_list =
  fixes key :: "'a \<Rightarrow> 'key" and val :: "'a \<Rightarrow> bytes" and upd :: "'a \<Rightarrow> bytes \<Rightarrow> 'a"
  assumes key_upd [simp]: "key (upd x v) = key x"
    and val_upd [simp]: "val (upd x v) = v"
begin

lemma upsert_Some:
  assumes "upsert_first (\<lambda>x. key x = k) (\<lambda>x. if v = [] then None else Some (upd x v)) xs = Some ys"
    and "distinct (map key xs)"
  shows "first_match (\<lambda>x. key x = k) val ys = v" "distinct (map key ys)" "length ys \<le> length xs"
    "\<exists>x \<in> set xs. key x = k"
    "k \<noteq> k' \<Longrightarrow> first_match (\<lambda>x. key x = k') val ys = first_match (\<lambda>x. key x = k') val xs"
proof -
  obtain as x bs where s: "xs = as @ x # bs" "key x = k" "\<forall>a \<in> set as. key a \<noteq> k"
    "ys = as @ (case (if v = [] then None else Some (upd x v)) of None \<Rightarrow> [] | Some y \<Rightarrow> [y]) @ bs"
    using upsert_first_split[OF assms(1)] .
  have d: "distinct (map key as)" "distinct (map key bs)" "key x \<notin> key ` set as"
    "key x \<notin> key ` set bs" "key ` set as \<inter> key ` set bs = {}"
    using assms(2) by (simp_all add: s(1))
  from d(4) have "\<forall>b \<in> set bs. key b \<noteq> k" unfolding s(2)[symmetric] by (metis imageI)
  then have "first_match (\<lambda>x. key x = k) val bs = []" by (rule first_match_none)
  then show "first_match (\<lambda>x. key x = k) val ys = v"
    using s(3) by (auto simp: s(4) s(2) first_match_append)
  show "distinct (map key ys)" using d by (simp add: s(4))
  show "length ys \<le> length xs" by (simp add: s(1,4))
  show "\<exists>x \<in> set xs. key x = k" using s(1,2) by simp
  show "first_match (\<lambda>x. key x = k') val ys = first_match (\<lambda>x. key x = k') val xs" if "k \<noteq> k'"
    using that by (simp add: s(1,4) s(2) first_match_append)
qed

lemma upsert_None:
  assumes "upsert_first (\<lambda>x. key x = k) f xs = None"
  shows "\<forall>x \<in> set xs. key x \<noteq> k" "first_match (\<lambda>x. key x = k) val xs = []"
  using assms by (auto simp: upsert_first_None intro: first_match_none)

lemma append_new:
  "\<forall>x \<in> set xs. key x \<noteq> k \<Longrightarrow> distinct (map key xs) \<Longrightarrow> key y = k \<Longrightarrow>
     distinct (map key (xs @ [y])) \<and> first_match (\<lambda>x. key x = k) val (xs @ [y]) = val y \<and>
     (k \<noteq> k' \<longrightarrow> first_match (\<lambda>x. key x = k') val (xs @ [y]) = first_match (\<lambda>x. key x = k') val xs)"
  by (auto simp: first_match_append first_match_none)

end

abbreviation fold_case :: "bytes \<Rightarrow> bytes" where "fold_case \<equiv> map lower"

abbreviation desc_key :: "tag_description \<Rightarrow> bytes" where "desc_key d \<equiv> fold_case (td_tag d)"

definition value_key :: "tag_field_value \<Rightarrow> bytes \<times> bytes" where
  "value_key e = (fold_case (tf_tag e), fold_case (tf_field e))"

definition pair_key :: "bytes \<times> bytes \<Rightarrow> bytes \<times> bytes" where
  "pair_key k = (fold_case (fst k), fold_case (snd k))"

interpretation dl: keyed_list desc_key td_text "\<lambda>d v. d\<lparr>td_text := v\<rparr>"
  by unfold_locales simp_all

interpretation vl: keyed_list value_key tf_value "\<lambda>e v. e\<lparr>tf_value := v\<rparr>"
  by unfold_locales (simp_all add: value_key_def)

lemmas fold_eq = category_name_eq_tag tag_ci_equal_iff

lemma value_key_eq:
  "category_name_eq (tf_tag e) (fst k) \<and> category_name_eq (tf_field e) (snd k) \<longleftrightarrow>
     value_key e = pair_key k"
  "category_name_eq (fst k) (fst k') \<and> category_name_eq (snd k) (snd k') \<longleftrightarrow>
     pair_key k = pair_key k'"
  by (auto simp: value_key_def pair_key_def fold_eq)

lemma value_key_new [simp]: "value_key \<lparr>tf_tag = fst k, tf_field = snd k, tf_value = v\<rparr> = pair_key k"
  by (simp add: value_key_def pair_key_def)

text \<open>The case-folded keys of both stores are distinct, and the caps hold.\<close>

definition desc_inv :: "vault_settings \<Rightarrow> bool" where
  "desc_inv s \<longleftrightarrow> distinct (map desc_key (vs_tag_descriptions s)) \<and>
     length (vs_tag_descriptions s) \<le> INDEX_MAX_TAG_DESCRIPTIONS"

definition desc_room :: "vault_settings \<Rightarrow> bytes \<Rightarrow> bool" where
  "desc_room s tag \<longleftrightarrow> length (vs_tag_descriptions s) < INDEX_MAX_TAG_DESCRIPTIONS \<or>
     (\<exists>d \<in> set (vs_tag_descriptions s). desc_key d = fold_case tag)"

definition value_inv :: "vault_settings \<Rightarrow> bool" where
  "value_inv s \<longleftrightarrow> distinct (map value_key (vs_tag_field_values s)) \<and>
     length (vs_tag_field_values s) \<le> INDEX_MAX_TAG_FIELD_VALUES"

definition has_value :: "vault_settings \<Rightarrow> bytes \<times> bytes \<Rightarrow> bool" where
  "has_value s k \<longleftrightarrow> (\<exists>e \<in> set (vs_tag_field_values s). value_key e = pair_key k)"

definition value_room :: "vault_settings \<Rightarrow> bytes \<times> bytes \<Rightarrow> bool" where
  "value_room s k \<longleftrightarrow>
     length (vs_tag_field_values s) < INDEX_MAX_TAG_FIELD_VALUES \<or> has_value s k"

definition value_clip :: "vault_settings \<Rightarrow> bytes \<times> bytes \<Rightarrow> bytes \<Rightarrow> bytes" where
  "value_clip s k v = (if has_value s k then v else take INDEX_MAX_FIELD_VALUE_BYTES v)"

lemma find_description_key:
  "find_tag_description s tag =
     first_match (\<lambda>d. desc_key d = fold_case tag) td_text (vs_tag_descriptions s)"
  by (simp add: find_tag_description_def fold_eq)

lemma find_value_key:
  "find_tag_field_value s (fst k) (snd k) =
     first_match (\<lambda>e. value_key e = pair_key k) tf_value (vs_tag_field_values s)"
  by (simp add: find_tag_field_value_def value_key_eq)

text \<open>The three exits of each setter.\<close>

lemma set_tag_description_cases:
  obtains (hit) ds where
    "upsert_first (\<lambda>d. desc_key d = fold_case tag)
       (\<lambda>d. if v = [] then None else Some (d\<lparr>td_text := v\<rparr>)) (vs_tag_descriptions s) = Some ds"
    "set_tag_description s tag v = s\<lparr>vs_tag_descriptions := ds\<rparr>"
  | (miss) "\<forall>d \<in> set (vs_tag_descriptions s). desc_key d \<noteq> fold_case tag"
    "v = [] \<or> length (vs_tag_descriptions s) \<ge> INDEX_MAX_TAG_DESCRIPTIONS"
    "set_tag_description s tag v = s"
  | (new) "\<forall>d \<in> set (vs_tag_descriptions s). desc_key d \<noteq> fold_case tag"
    "v \<noteq> []" "length (vs_tag_descriptions s) < INDEX_MAX_TAG_DESCRIPTIONS"
    "set_tag_description s tag v = s\<lparr>vs_tag_descriptions :=
       vs_tag_descriptions s @ [\<lparr>td_tag = tag, td_text = v\<rparr>]\<rparr>"
proof (cases "upsert_first (\<lambda>d. desc_key d = fold_case tag)
       (\<lambda>d. if v = [] then None else Some (d\<lparr>td_text := v\<rparr>)) (vs_tag_descriptions s)")
  case None
  note none = this dl.upsert_None(1)[OF this]
  show thesis
  proof (cases "v = [] \<or> length (vs_tag_descriptions s) \<ge> INDEX_MAX_TAG_DESCRIPTIONS")
    case True
    then show thesis using none by (intro miss) (auto simp: set_tag_description_def fold_eq)
  next
    case False
    then show thesis using none by (intro new) (auto simp: set_tag_description_def fold_eq)
  qed
next
  case (Some ds)
  then show thesis by (intro hit[of ds]) (simp_all add: set_tag_description_def fold_eq)
qed

lemma set_tag_field_value_cases:
  obtains (hit) es where
    "upsert_first (\<lambda>e. value_key e = pair_key k)
       (\<lambda>e. if v = [] then None else Some (e\<lparr>tf_value := v\<rparr>)) (vs_tag_field_values s) = Some es"
    "set_tag_field_value s (fst k) (snd k) v = s\<lparr>vs_tag_field_values := es\<rparr>"
  | (miss) "\<not> has_value s k"
    "v = [] \<or> length (vs_tag_field_values s) \<ge> INDEX_MAX_TAG_FIELD_VALUES"
    "set_tag_field_value s (fst k) (snd k) v = s"
  | (new) "\<not> has_value s k"
    "v \<noteq> []" "length (vs_tag_field_values s) < INDEX_MAX_TAG_FIELD_VALUES"
    "set_tag_field_value s (fst k) (snd k) v = s\<lparr>vs_tag_field_values := vs_tag_field_values s @
       [\<lparr>tf_tag = fst k, tf_field = snd k, tf_value = take INDEX_MAX_FIELD_VALUE_BYTES v\<rparr>]\<rparr>"
proof (cases "upsert_first (\<lambda>e. value_key e = pair_key k)
       (\<lambda>e. if v = [] then None else Some (e\<lparr>tf_value := v\<rparr>)) (vs_tag_field_values s)")
  case None
  have "\<not> has_value s k" using vl.upsert_None(1)[OF None] by (simp add: has_value_def)
  note none = None this
  show thesis
  proof (cases "v = [] \<or> length (vs_tag_field_values s) \<ge> INDEX_MAX_TAG_FIELD_VALUES")
    case True
    then show thesis using none by (intro miss) (auto simp: set_tag_field_value_def value_key_eq)
  next
    case False
    then show thesis
      using none by (intro new) (auto simp: set_tag_field_value_def value_key_eq not_le Let_def)
  qed
next
  case (Some ds)
  then show thesis by (intro hit[of ds]) (simp_all add: set_tag_field_value_def value_key_eq)
qed

interpretation descriptions: tag_store find_tag_description set_tag_description
  category_name_eq desc_inv desc_room "\<lambda>s tag text. text"
proof
  fix k k' v :: bytes and s :: vault_settings
  show "category_name_eq k k" by (simp add: fold_eq)
  show "category_name_eq k k' \<Longrightarrow> find_tag_description s k = find_tag_description s k'"
    by (simp add: find_tag_description_def fold_eq)
  assume inv: "desc_inv s"
  show "\<not> desc_room s k \<Longrightarrow> find_tag_description s k = []"
    by (auto simp: find_description_key desc_room_def intro!: first_match_none)
  show "desc_room s k \<Longrightarrow> find_tag_description (set_tag_description s k v) k = v"
    using inv by (cases rule: set_tag_description_cases[of k v s])
      (auto simp: find_description_key desc_inv_def desc_room_def dl.upsert_Some dl.append_new
        intro!: first_match_none)
  show "\<not> desc_room s k \<Longrightarrow> set_tag_description s k v = s"
    using inv dl.upsert_Some(4) by (cases rule: set_tag_description_cases[of k v s])
      (fastforce simp: desc_room_def desc_inv_def)+
  show "\<not> category_name_eq k k' \<Longrightarrow>
      find_tag_description (set_tag_description s k v) k' = find_tag_description s k'"
    using inv by (cases rule: set_tag_description_cases[of k v s])
      (auto simp: find_description_key desc_inv_def fold_eq dl.upsert_Some dl.append_new)
  show "desc_inv (set_tag_description s k v)"
    using inv by (cases rule: set_tag_description_cases[of k v s])
      (auto simp: desc_inv_def dl.upsert_Some dest: dl.upsert_Some(3))
qed simp

interpretation field_values: tag_store "\<lambda>s k. find_tag_field_value s (fst k) (snd k)"
  "\<lambda>s k v. set_tag_field_value s (fst k) (snd k) v"
  "\<lambda>a b. category_name_eq (fst a) (fst b) \<and> category_name_eq (snd a) (snd b)"
  value_inv value_room value_clip
proof
  fix k k' :: "bytes \<times> bytes" and v :: bytes and s :: vault_settings
  show "category_name_eq (fst k) (fst k) \<and> category_name_eq (snd k) (snd k)"
    by (simp add: value_key_eq)
  show "category_name_eq (fst k) (fst k') \<and> category_name_eq (snd k) (snd k') \<Longrightarrow>
      find_tag_field_value s (fst k) (snd k) = find_tag_field_value s (fst k') (snd k')"
    by (simp add: find_value_key value_key_eq)
  show "value_clip s k [] = []" by (simp add: value_clip_def)
  assume inv: "value_inv s"
  show "\<not> value_room s k \<Longrightarrow> find_tag_field_value s (fst k) (snd k) = []"
    by (auto simp: find_value_key value_room_def has_value_def intro!: first_match_none)
  show "value_room s k \<Longrightarrow>
     find_tag_field_value (set_tag_field_value s (fst k) (snd k) v) (fst k) (snd k) = value_clip s k v"
  proof (cases rule: set_tag_field_value_cases[of k v s])
    case (hit es)
    then show ?thesis
      using inv vl.upsert_Some(1,4)[OF hit(1)]
      by (simp add: find_value_key value_inv_def value_clip_def has_value_def)
  next
    case miss
    then show "value_room s k \<Longrightarrow> ?thesis"
      by (auto simp: find_value_key value_room_def value_clip_def has_value_def
          intro!: first_match_none)
  next
    case new
    let ?e = "\<lparr>tf_tag = fst k, tf_field = snd k, tf_value = take INDEX_MAX_FIELD_VALUE_BYTES v\<rparr>"
    have "first_match (\<lambda>e. value_key e = pair_key k) tf_value (vs_tag_field_values s @ [?e]) =
        tf_value ?e"
      using inv new(1) vl.append_new[of "vs_tag_field_values s" "pair_key k" ?e]
      by (auto simp: value_inv_def has_value_def)
    then show ?thesis using new by (simp add: find_value_key value_clip_def)
  qed
  show "\<not> value_room s k \<Longrightarrow> set_tag_field_value s (fst k) (snd k) v = s"
  proof (cases rule: set_tag_field_value_cases[of k v s])
    case (hit es)
    have "has_value s k"
      using vl.upsert_Some(4)[OF hit(1)] inv by (simp add: value_inv_def has_value_def)
    then show "\<not> value_room s k \<Longrightarrow> ?thesis" by (simp add: value_room_def)
  qed (simp_all add: value_room_def)
  show "\<not> (category_name_eq (fst k) (fst k') \<and> category_name_eq (snd k) (snd k')) \<Longrightarrow>
      find_tag_field_value (set_tag_field_value s (fst k) (snd k) v) (fst k') (snd k') =
      find_tag_field_value s (fst k') (snd k')"
    using inv by (cases rule: set_tag_field_value_cases[of k v s])
      (simp_all add: find_value_key value_inv_def has_value_def value_key_eq
        vl.upsert_Some(5) first_match_append first_match_none)
  show "value_inv (set_tag_field_value s (fst k) (snd k) v)"
    using inv by (cases rule: set_tag_field_value_cases[of k v s])
      (auto simp: value_inv_def has_value_def vl.upsert_Some dest: vl.upsert_Some(3))
qed

section \<open>Templates\<close>

text \<open>The template invariant: at most 16 non-empty, short, pairwise different field names.\<close>

definition fields_ok :: "bytes list \<Rightarrow> bool" where
  "fields_ok fs \<longleftrightarrow> distinct_by category_name_eq fs \<and> length fs \<le> INDEX_MAX_TEMPLATE_FIELDS \<and>
     (\<forall>f \<in> set fs. f \<noteq> [] \<and> length f \<le> INDEX_MAX_FIELD_BYTES)"

definition templates_ok :: "vault_settings \<Rightarrow> bool" where
  "templates_ok s \<longleftrightarrow> (\<forall>c \<in> set (vs_categories s). fields_ok (tc_fields c))"

lemma clean_fields_ok:
  "fields_ok cleaned \<Longrightarrow> length cleaned < INDEX_MAX_TEMPLATE_FIELDS \<Longrightarrow>
   fields_ok (clean_fields cleaned fs)"
proof (induction cleaned fs rule: clean_fields.induct)
  case (2 cleaned f fs)
  have "fields_ok (push_new category_name_eq cleaned g)"
    if "g \<noteq> []" "length g \<le> INDEX_MAX_FIELD_BYTES" for g
    using 2(3,4) that distinct_by_push_new[of category_name_eq cleaned g]
      length_push_new[of category_name_eq cleaned g] set_push_new[of category_name_eq cleaned g]
    unfolding fields_ok_def by (auto simp: subset_iff)
  then show ?case using 2 by (auto simp: Let_def INDEX_MAX_FIELD_BYTES_def)
qed simp

lemma find_category_Some:
  "find_category cs n = Some i \<Longrightarrow> i < length cs \<and> category_name_eq (tc_name (cs ! i)) n \<and>
     (\<forall>j < i. \<not> category_name_eq (tc_name (cs ! j)) n)"
proof (induction cs arbitrary: i)
  case (Cons c cs)
  then show ?case by (cases i) (auto split: if_splits simp: less_Suc_eq_0_disj)
qed simp

lemma find_field_Some:
  "find_field fs f = Some i \<Longrightarrow> i < length fs \<and> category_name_eq (fs ! i) f"
proof (induction fs arbitrary: i)
  case (Cons c cs)
  then show ?case by (cases i) (auto split: if_splits)
qed simp

lemma find_category_update:
  "find_category cs n = Some i \<Longrightarrow> tc_name c = tc_name (cs ! i) \<Longrightarrow>
   find_category (cs[i := c]) n' = find_category cs n'"
proof (induction cs arbitrary: i)
  case (Cons d cs)
  then show ?case by (cases i) (auto split: if_splits)
qed simp

lemma templates_ok_update:
  "templates_ok s \<Longrightarrow> fields_ok (tc_fields c) \<Longrightarrow>
   templates_ok (s\<lparr>vs_categories := (vs_categories s)[i := c]\<rparr>)"
  by (auto simp: templates_ok_def dest: set_update_subset_insert[THEN subsetD])

lemma distinct_by_nth:
  "distinct_by eq xs \<longleftrightarrow> (\<forall>i j. i < j \<longrightarrow> j < length xs \<longrightarrow> \<not> eq (xs ! i) (xs ! j))"
proof -
  have "distinct_by eq xs = sorted_wrt (\<lambda>a b. \<not> eq a b) xs" by (induction xs) auto
  then show ?thesis by (simp add: sorted_wrt_iff_nth_less)
qed

lemma distinct_by_update:
  assumes "distinct_by eq xs" "\<forall>k < length xs. k = j \<or> \<not> eq (xs ! k) y"
    and sym: "\<And>a b. eq a b = eq b a"
  shows "distinct_by eq (xs[j := y])"
  unfolding distinct_by_nth
proof (intro allI impI notI)
  fix i k assume ik: "i < k" "k < length (xs[j := y])" and eq: "eq (xs[j := y] ! i) (xs[j := y] ! k)"
  consider "i = j" "k \<noteq> j" | "k = j" "i \<noteq> j" | "i \<noteq> j" "k \<noteq> j" using ik by blast
  then show False
  proof cases
    case 1
    with eq ik have "eq (xs ! k) y" using sym[of y] by simp
    with 1 assms(2) ik show False by auto
  next
    case 2
    with eq have "eq (xs ! i) y" using ik by simp
    moreover have "i < length xs" using ik by simp
    ultimately show False using 2 assms(2) by blast
  next
    case 3
    with eq ik assms(1) show False by (auto simp: distinct_by_nth)
  qed
qed

lemma templates_ok_set:
  "templates_ok s \<Longrightarrow> templates_ok (fst (set_category_template s c fs))"
  by (auto simp: set_category_template_def split: option.split
      intro!: templates_ok_update clean_fields_ok)
     (auto simp: fields_ok_def index_limits)

lemma rename_template_field_True:
  assumes "snd (rename_template_field s c old new)"
  obtains i j where "find_category (vs_categories s) c = Some i"
    "find_field (tc_fields (vs_categories s ! i)) old = Some j"
    "new \<noteq> []" "\<not> INDEX_MAX_FIELD_BYTES < length new"
    "\<forall>k < length (tc_fields (vs_categories s ! i)).
        k = j \<or> \<not> category_name_eq (tc_fields (vs_categories s ! i) ! k) new"
    "fst (rename_template_field s c old new) = s\<lparr>vs_categories := (vs_categories s)
        [i := (vs_categories s ! i)\<lparr>tc_fields := (tc_fields (vs_categories s ! i))[j := new]\<rparr>],
      vs_tag_field_values := map (\<lambda>e.
        if tag_in_category (tf_tag e) c \<and> category_name_eq (tf_field e) old
        then e\<lparr>tf_field := new\<rparr> else e) (vs_tag_field_values s)\<rparr>"
proof -
  from assms have g: "\<not> (new = [] \<or> INDEX_MAX_FIELD_BYTES < length new)"
    by (auto simp: rename_template_field_def split: if_splits)
  with assms obtain i where i: "find_category (vs_categories s) c = Some i"
    by (auto simp: rename_template_field_def split: option.splits)
  with g assms obtain j where j: "find_field (tc_fields (vs_categories s ! i)) old = Some j"
    by (auto simp: rename_template_field_def Let_def split: option.splits)
  with g i assms that[OF i j] show thesis
    by (simp add: rename_template_field_def Let_def split: if_splits)
qed

lemma templates_ok_rename:
  assumes "templates_ok s"
  shows "templates_ok (fst (rename_template_field s c old new))"
proof (cases "snd (rename_template_field s c old new)")
  case False
  then show ?thesis
    using assms by (auto simp: rename_template_field_def Let_def split: option.splits if_splits)
next
  case True
  obtain i j where i: "find_category (vs_categories s) c = Some i"
    and new: "new \<noteq> []" "\<not> INDEX_MAX_FIELD_BYTES < length new"
    and clash: "\<forall>k < length (tc_fields (vs_categories s ! i)).
        k = j \<or> \<not> category_name_eq (tc_fields (vs_categories s ! i) ! k) new"
    and res: "vs_categories (fst (rename_template_field s c old new)) = (vs_categories s)
        [i := (vs_categories s ! i)\<lparr>tc_fields := (tc_fields (vs_categories s ! i))[j := new]\<rparr>]"
    by (rule rename_template_field_True[OF True]) simp
  let ?fs = "tc_fields (vs_categories s ! i)"
  have "fields_ok ?fs" using assms find_category_Some[OF i] by (auto simp: templates_ok_def)
  moreover from this have "distinct_by category_name_eq (?fs[j := new])"
    by (intro distinct_by_update clash) (auto simp: fields_ok_def fold_eq)
  ultimately have "fields_ok (?fs[j := new])"
    using new by (auto simp: fields_ok_def dest!: set_update_subset_insert[THEN subsetD])
  then show ?thesis
    using assms by (auto simp: templates_ok_def res dest!: set_update_subset_insert[THEN subsetD])
qed

lemma fields_ok_filter: "fields_ok fs \<Longrightarrow> fields_ok (filter P fs)"
  by (auto simp: fields_ok_def distinct_by_filter intro: le_trans[OF length_filter_le])

lemma templates_ok_remove:
  "templates_ok s \<Longrightarrow> templates_ok (fst (remove_template_field s c f))"
  by (auto simp: remove_template_field_def Let_def templates_ok_def split: option.split
      dest!: set_update_subset_insert[THEN subsetD] find_category_Some intro!: fields_ok_filter)

section \<open>Renaming and removing a template field\<close>

lemma lower_colon: "lower c = 0x3A \<longleftrightarrow> c = 0x3A"
proof -
  have "c + 32 = 0x3A \<longleftrightarrow> c = 0x1A"
    using eq_diff_eq[of c "0x3A" 32] by simp
  then show ?thesis by (auto simp: lower_def)
qed

lemma prefix_fold: "fold_case (tag_category_prefix tag) = tag_category_prefix (fold_case tag)"
  by (simp add: tag_category_prefix_def takeWhile_map comp_def lower_colon take_map Let_def)

lemma tag_in_category_cong:
  "fold_case t = fold_case t' \<Longrightarrow> tag_in_category t c = tag_in_category t' c"
  by (simp add: tag_in_category_def fold_eq prefix_fold)

lemma first_match_map: "first_match p get (map g xs) = first_match (p \<circ> g) (get \<circ> g) xs"
  by (induction xs) simp_all

lemma first_match_cong:
  "(\<And>x. x \<in> set xs \<Longrightarrow> p x = q x) \<Longrightarrow> (\<And>x. x \<in> set xs \<Longrightarrow> q x \<Longrightarrow> f x = g x) \<Longrightarrow>
   first_match p f xs = first_match q g xs"
  by (induction xs) auto

text \<open>
  A successful \<open>rename_template_field\<close> moves the value of every tag of the
  category to the new field name, provided that no stale value of that name is left from an
  earlier template.
\<close>

lemma rename_moves:
  assumes ok: "snd (rename_template_field s c old new)" and cat: "tag_in_category tag c"
    and fresh: "\<not> has_value s (tag, new) \<or> category_name_eq old new"
  shows "find_tag_field_value (fst (rename_template_field s c old new)) tag new =
         find_tag_field_value s tag old"
proof -
  obtain i j where res: "fst (rename_template_field s c old new) = s\<lparr>vs_categories := (vs_categories s)
        [i := (vs_categories s ! i)\<lparr>tc_fields := (tc_fields (vs_categories s ! i))[j := new]\<rparr>],
      vs_tag_field_values := map (\<lambda>e.
        if tag_in_category (tf_tag e) c \<and> category_name_eq (tf_field e) old
        then e\<lparr>tf_field := new\<rparr> else e) (vs_tag_field_values s)\<rparr>"
    by (rule rename_template_field_True[OF ok]) simp
  have "tag_in_category (tf_tag e) c" if "fold_case (tf_tag e) = fold_case tag" for e
    using tag_in_category_cong[OF that] cat by simp
  moreover have "fold_case (tf_field e) \<noteq> fold_case new \<or> fold_case old = fold_case new"
    if "e \<in> set (vs_tag_field_values s)" "fold_case (tf_tag e) = fold_case tag" for e
    using fresh that by (auto simp: has_value_def value_key_def pair_key_def fold_eq)
  ultimately show ?thesis
    unfolding find_tag_field_value_def res
    by (simp add: first_match_map fold_eq del: map_map) (rule first_match_cong; force)
qed

text \<open>It touches the values of no other tag.\<close>

lemma rename_other:
  assumes ok: "snd (rename_template_field s c old new)" and cat: "\<not> tag_in_category tag c"
  shows "find_tag_field_value (fst (rename_template_field s c old new)) tag f =
         find_tag_field_value s tag f"
proof -
  obtain i j where res: "fst (rename_template_field s c old new) = s\<lparr>vs_categories := (vs_categories s)
        [i := (vs_categories s ! i)\<lparr>tc_fields := (tc_fields (vs_categories s ! i))[j := new]\<rparr>],
      vs_tag_field_values := map (\<lambda>e.
        if tag_in_category (tf_tag e) c \<and> category_name_eq (tf_field e) old
        then e\<lparr>tf_field := new\<rparr> else e) (vs_tag_field_values s)\<rparr>"
    by (rule rename_template_field_True[OF ok]) simp
  have "\<not> tag_in_category (tf_tag e) c" if "fold_case (tf_tag e) = fold_case tag" for e
    using tag_in_category_cong[OF that] cat by simp
  then show ?thesis
    unfolding find_tag_field_value_def res
    by (simp add: first_match_map fold_eq) (rule first_match_cong; force)
qed

lemma remove_template_field_True:
  assumes "snd (remove_template_field s c f)"
  obtains i where "find_category (vs_categories s) c = Some i"
    "fst (remove_template_field s c f) = s\<lparr>vs_categories := (vs_categories s)
        [i := (vs_categories s ! i)\<lparr>tc_fields :=
           filter (\<lambda>g. \<not> category_name_eq g f) (tc_fields (vs_categories s ! i))\<rparr>],
       vs_tag_field_values := filter
         (\<lambda>e. \<not> (tag_in_category (tf_tag e) c \<and> category_name_eq (tf_field e) f))
         (vs_tag_field_values s)\<rparr>"
  using assms by (auto simp: remove_template_field_def Let_def split: option.splits if_splits)

lemma first_match_filter:
  "(\<And>x. x \<in> set xs \<Longrightarrow> p x \<Longrightarrow> q x) \<Longrightarrow> first_match p f (filter q xs) = first_match p f xs"
  by (induction xs) auto

lemma remove_erases:
  assumes ok: "snd (remove_template_field s c f)"
  shows "find_tag_field_value (fst (remove_template_field s c f)) tag g =
     (if tag_in_category tag c \<and> category_name_eq g f then [] else find_tag_field_value s tag g)"
    and "\<forall>h \<in> set (category_template (fst (remove_template_field s c f)) c). \<not> category_name_eq h f"
proof -
  obtain i where i: "find_category (vs_categories s) c = Some i"
    and res: "fst (remove_template_field s c f) = s\<lparr>vs_categories := (vs_categories s)
        [i := (vs_categories s ! i)\<lparr>tc_fields :=
           filter (\<lambda>g. \<not> category_name_eq g f) (tc_fields (vs_categories s ! i))\<rparr>],
       vs_tag_field_values := filter
         (\<lambda>e. \<not> (tag_in_category (tf_tag e) c \<and> category_name_eq (tf_field e) f))
         (vs_tag_field_values s)\<rparr>"
    by (rule remove_template_field_True[OF ok])
  show "\<forall>h \<in> set (category_template (fst (remove_template_field s c f)) c). \<not> category_name_eq h f"
    using i find_category_Some[OF i] by (simp add: res category_template_def find_category_update)
  show "find_tag_field_value (fst (remove_template_field s c f)) tag g =
     (if tag_in_category tag c \<and> category_name_eq g f then [] else find_tag_field_value s tag g)"
    unfolding find_tag_field_value_def res
    by (auto simp: fold_eq intro!: first_match_filter first_match_none dest: tag_in_category_cong)
qed

text \<open>A setting followed by a look-up of the same category's template.\<close>

lemma category_template_set:
  "snd (set_category_template s c fs) \<Longrightarrow>
   category_template (fst (set_category_template s c fs)) c = clean_fields [] fs"
  by (auto simp: set_category_template_def category_template_def find_category_update
      split: option.splits dest: find_category_Some)

text \<open>A vault whose template dropped a field that still has a stored value.\<close>

definition stale_settings :: vault_settings where
  "stale_settings = (let
     s = default_settings\<lparr>vs_categories := [\<lparr>tc_name = ascii ''a'', tc_swatch = 0, tc_fields = []\<rparr>]\<rparr>;
     s = fst (set_category_template s (ascii ''a'') [ascii ''f'', ascii ''g'']);
     s = set_tag_field_value s (ascii ''a:x'') (ascii ''f'') (ascii ''1'');
     s = set_tag_field_value s (ascii ''a:x'') (ascii ''g'') (ascii ''2'')
     in fst (set_category_template s (ascii ''a'') [ascii ''g'']))"

text \<open>The state written out.\<close>

lemma stale_settings_eq:
  "stale_settings = default_settings\<lparr>
     vs_categories := [\<lparr>tc_name = [0x61], tc_swatch = 0, tc_fields = [[0x67]]\<rparr>],
     vs_tag_field_values := [\<lparr>tf_tag = [0x61, 0x3A, 0x78], tf_field = [0x66], tf_value = [0x31]\<rparr>,
        \<lparr>tf_tag = [0x61, 0x3A, 0x78], tf_field = [0x67], tf_value = [0x32]\<rparr>]\<rparr>"
  by (simp add: stale_settings_def set_category_template_def set_tag_field_value_def
      default_settings_def ascii_def category_name_eq_def lower_def index_limits push_new_def)




section \<open>Properties\<close>

text \<open>
  Looking up a field value after an update: the key just written gives the
  stored form of the value (clipped to 256 bytes only when the entry is new), a key the full
  store has no room for stays absent, every other key is untouched, and the store keeps its
  invariant (case-folded keys distinct, at most \<open>INDEX_MAX_TAG_FIELD_VALUES\<close> entries).
\<close>

theorem field_value_after_update:
  assumes "value_inv s"
  shows "find_tag_field_value (set_tag_field_value s tag field v) tag' field' =
      (if category_name_eq tag tag' \<and> category_name_eq field field'
       then (if value_room s (tag, field) then value_clip s (tag, field) v else [])
       else find_tag_field_value s tag' field')
    \<and> value_inv (set_tag_field_value s tag field v)"
  using field_values.find_put[OF assms, of "(tag, field)" v "(tag', field')"]
    field_values.inv_put[OF assms, of "(tag, field)" v] by simp

theorem field_value_after_update_witness:
  "find_tag_field_value (set_tag_field_value default_settings [0x61] [0x66] [0x31]) [0x41] [0x46] =
     [0x31]"
  using field_value_after_update[of default_settings "[0x61]" "[0x66]" "[0x31]" "[0x41]" "[0x46]"]
  by (simp add: value_inv_def default_settings_def value_room_def value_clip_def has_value_def
      category_name_eq_def lower_def INDEX_MAX_TAG_FIELD_VALUES_def INDEX_MAX_FIELD_VALUE_BYTES_def)

text \<open>
  The same for tag descriptions: an upsert is seen under every casing of the
  tag, an empty text removes the entry, a full map drops only new keys.
\<close>

theorem description_after_update:
  assumes "desc_inv s"
  shows "find_tag_description (set_tag_description s tag txt) tag' =
      (if category_name_eq tag tag' then (if desc_room s tag then txt else [])
       else find_tag_description s tag')
    \<and> desc_inv (set_tag_description s tag txt)"
  using descriptions.find_put[OF assms] descriptions.inv_put[OF assms] by blast

theorem description_after_update_witness:
  "find_tag_description (set_tag_description default_settings [0x61] [0x31]) [0x41] = [0x31]"
  using description_after_update[of default_settings "[0x61]" "[0x31]" "[0x41]"]
  by (simp add: desc_inv_def default_settings_def desc_room_def category_name_eq_def lower_def
      INDEX_MAX_TAG_DESCRIPTIONS_def)

text \<open>
  Every template operation keeps the template invariant: each category has at
  most 16 fields, non-empty, at most 64 bytes, pairwise different up to case.
\<close>

theorem template_operations_keep_invariant:
  assumes "templates_ok s"
  shows "templates_ok (fst (set_category_template s c fs)) \<and>
         templates_ok (fst (rename_template_field s c old new)) \<and>
         templates_ok (fst (remove_template_field s c f))"
  using assms by (simp add: templates_ok_set templates_ok_rename templates_ok_remove)

theorem template_operations_keep_invariant_witness:
  "templates_ok (fst (set_category_template seeded (ascii ''artist'') [[0x61], [], [0x41]]))"
  using template_operations_keep_invariant[of seeded "ascii ''artist''" "[[0x61], [], [0x41]]"]
  by (simp add: templates_ok_def seeded_def default_settings_def fields_ok_def)

text \<open>
  A successful \<open>remove_template_field\<close> erases exactly the stored values of that
  field for the tags of the category, and no field of that name is left in the template.
\<close>

theorem remove_field_erases:
  assumes "snd (remove_template_field s c f)"
  shows "find_tag_field_value (fst (remove_template_field s c f)) tag g =
     (if tag_in_category tag c \<and> category_name_eq g f then [] else find_tag_field_value s tag g)
    \<and> (\<forall>h \<in> set (category_template (fst (remove_template_field s c f)) c). \<not> category_name_eq h f)"
  using remove_erases[OF assms] by blast

theorem remove_field_erases_witness:
  "find_tag_field_value (fst (remove_template_field stale_settings [0x61] [0x67]))
     [0x61, 0x3A, 0x78] [0x67] = []"
proof -
  have "snd (remove_template_field stale_settings [0x61] [0x67])"
    by (simp add: stale_settings_eq remove_template_field_def category_name_eq_def lower_def)
  from remove_field_erases[OF this, of "[0x61, 0x3A, 0x78]" "[0x67]"] show ?thesis
    by (simp add: tag_in_category_def tag_category_prefix_def category_name_eq_def lower_def)
qed

text \<open>The rename property at a concrete vault.\<close>

theorem rename_moves_witness:
  "find_tag_field_value (fst (rename_template_field stale_settings [0x61] [0x67] [0x68]))
     [0x61, 0x3A, 0x78] [0x68] = [0x32]"
proof -
  have "snd (rename_template_field stale_settings [0x61] [0x67] [0x68])"
    by (simp add: stale_settings_eq rename_template_field_def category_name_eq_def lower_def
        INDEX_MAX_FIELD_BYTES_def)
  moreover have "tag_in_category [0x61, 0x3A, 0x78] [0x61]"
    by (simp add: tag_in_category_def tag_category_prefix_def category_name_eq_def lower_def)
  moreover have "\<not> has_value stale_settings ([0x61, 0x3A, 0x78], [0x68])"
    by (simp add: stale_settings_eq has_value_def value_key_def pair_key_def lower_def)
  moreover have "find_tag_field_value stale_settings [0x61, 0x3A, 0x78] [0x67] = [0x32]"
    by (simp add: stale_settings_eq find_tag_field_value_def category_name_eq_def lower_def)
  ultimately show ?thesis
    using rename_moves[of stale_settings "[0x61]" "[0x67]" "[0x68]" "[0x61, 0x3A, 0x78]"] by simp
qed

end
