(* ===== verification/Safe_Name.thy ===== *)
theory Safe_Name
  imports Prelude
begin

text \<open>
  \<open>src/vault/safe_name.cpp\<close>: the rules a node name obeys at the vault's ingress, and the repair
  the importers apply.  A name is one path component; the rules are what keeps an export
  inside the folder the user picked.
\<close>

definition MAX_NODE_NAME_BYTES :: nat where "MAX_NODE_NAME_BYTES = 255"

definition FALLBACK_NAME :: bytes where "FALLBACK_NAME = ascii ''unnamed''"

definition is_forbidden_byte :: "byte \<Rightarrow> bool" where
  "is_forbidden_byte c \<longleftrightarrow> c < 0x20 \<or> c = 0x7F \<or> c = 0x2F \<or> c = 0x5C \<or> c = 0x3C \<or> c = 0x3E \<or>
     c = 0x3A \<or> c = 0x22 \<or> c = 0x7C \<or> c = 0x3F \<or> c = 0x2A"

text \<open>
  The DOS device names; the stem ends at the first dot.  \<open>std::tolower\<close> on one byte is the
  ASCII fold.
\<close>

definition is_reserved_device :: "bytes \<Rightarrow> bool" where
  "is_reserved_device name = (let stem = takeWhile (\<lambda>c. c \<noteq> 0x2E) name in
     if length stem < 3 \<or> length stem > 4 then False else
     let s = map lower stem in
     if s = ascii ''con'' \<or> s = ascii ''prn'' \<or> s = ascii ''aux'' \<or> s = ascii ''nul'' then True
     else if length s = 4 \<and> (take 3 s = ascii ''com'' \<or> take 3 s = ascii ''lpt'')
     then 0x31 \<le> s ! 3 \<and> s ! 3 \<le> 0x39 else False)"

definition is_utf8_continuation :: "byte \<Rightarrow> bool" where
  "is_utf8_continuation c \<longleftrightarrow> c AND 0xC0 = 0x80"

fun utf8_floor :: "bytes \<Rightarrow> nat \<Rightarrow> nat" where
  "utf8_floor s 0 = 0"
| "utf8_floor s (Suc n) = (if is_utf8_continuation (s ! Suc n) then utf8_floor s n else Suc n)"

definition strip_trailing_dots_and_spaces :: "bytes \<Rightarrow> bytes" where
  "strip_trailing_dots_and_spaces s = rev (dropWhile (\<lambda>c. c = 0x2E \<or> c = 0x20) (rev s))"

definition is_safe_node_name :: "bytes \<Rightarrow> bool" where
  "is_safe_node_name name =
     (if name = [] \<or> length name > MAX_NODE_NAME_BYTES then False
      else if name = ascii ''.'' \<or> name = ascii ''..'' then False
      else if last name = 0x2E \<or> last name = 0x20 then False
      else if list_ex is_forbidden_byte name then False
      else \<not> is_reserved_device name)"

text \<open>\<open>sanitize_node_name\<close>, its steps in order.\<close>

definition neutralise :: "bytes \<Rightarrow> bytes" where
  "neutralise name = map (\<lambda>c. if is_forbidden_byte c then 0x5F else c) name"

definition trim_name :: "bytes \<Rightarrow> bytes" where
  "trim_name s = dropWhile (\<lambda>c. c = 0x20) (strip_trailing_dots_and_spaces s)"

definition escape_device :: "bytes \<Rightarrow> bytes" where
  "escape_device s = (if is_reserved_device s then 0x5F # s else s)"

definition fit_name :: "bytes \<Rightarrow> bytes" where
  "fit_name s = (if length s > MAX_NODE_NAME_BYTES
     then strip_trailing_dots_and_spaces (take (utf8_floor s MAX_NODE_NAME_BYTES) s) else s)"

definition sanitize_node_name :: "bytes \<Rightarrow> bytes" where
  "sanitize_node_name name =
     (let out = fit_name (escape_device (trim_name (neutralise name)))
      in if out = [] then FALLBACK_NAME else out)"

section \<open>Lemmas\<close>

lemma strip_set: "set (strip_trailing_dots_and_spaces s) \<subseteq> set s"
  using set_dropWhileD by (fastforce simp: strip_trailing_dots_and_spaces_def)

lemma strip_length: "length (strip_trailing_dots_and_spaces s) \<le> length s"
  using length_dropWhile_le[of _ "rev s"] by (simp add: strip_trailing_dots_and_spaces_def)

lemma strip_last: "strip_trailing_dots_and_spaces s \<noteq> [] \<Longrightarrow>
    last (strip_trailing_dots_and_spaces s) \<noteq> 0x2E \<and> last (strip_trailing_dots_and_spaces s) \<noteq> 0x20"
  using hd_dropWhile[of "\<lambda>c. c = 0x2E \<or> c = 0x20" "rev s"]
  by (simp add: strip_trailing_dots_and_spaces_def last_rev)

lemma strip_id: "s = [] \<or> last s \<noteq> 0x2E \<and> last s \<noteq> 0x20 \<Longrightarrow> strip_trailing_dots_and_spaces s = s"
  by (cases s rule: rev_cases) (auto simp: strip_trailing_dots_and_spaces_def)

lemma utf8_floor_le: "utf8_floor s n \<le> n"
  by (induction n) auto

lemma utf8_floor_boundary: "utf8_floor s n = 0 \<or> \<not> is_utf8_continuation (s ! utf8_floor s n)"
  by (induction n) auto

lemma underscore_ok: "\<not> is_forbidden_byte 0x5F"
  by (simp add: is_forbidden_byte_def)

lemma neutralise_ok: "\<not> list_ex is_forbidden_byte (neutralise s)"
  by (auto simp: neutralise_def list_ex_iff underscore_ok)

lemma neutralise_id: "\<not> list_ex is_forbidden_byte s \<Longrightarrow> neutralise s = s"
  by (auto simp: neutralise_def list_ex_iff intro: map_idI)

lemma reserved_length: "is_reserved_device s \<Longrightarrow> 3 \<le> length s"
  using length_takeWhile_le[of "\<lambda>c. c \<noteq> 0x2E" s]
  by (auto simp: is_reserved_device_def Let_def split: if_splits)

lemma escaped_not_reserved: "\<not> is_reserved_device (escape_device s)"
  by (auto simp: escape_device_def is_reserved_device_def Let_def ascii_def lower_def)

lemma dropWhile_last: "dropWhile P s \<noteq> [] \<Longrightarrow> last (dropWhile P s) = last s"
  by (induction s) auto

lemma trim_last: "trim_name s \<noteq> [] \<Longrightarrow> last (trim_name s) \<noteq> 0x2E \<and> last (trim_name s) \<noteq> 0x20"
  unfolding trim_name_def using dropWhile_last strip_last by (metis dropWhile.simps(1))

lemma trim_set: "set (trim_name s) \<subseteq> set s"
  unfolding trim_name_def using strip_set set_dropWhileD by fastforce

lemma trim_length: "length (trim_name s) \<le> length s"
  unfolding trim_name_def using strip_length length_dropWhile_le order_trans by blast

text \<open>What holds of every result: the part of the safety rules that contains an export.\<close>

lemma escape_last: "s \<noteq> [] \<Longrightarrow> last (escape_device s) = last s"
  by (simp add: escape_device_def)

lemma list_ex_mono: "set a \<subseteq> set b \<Longrightarrow> \<not> list_ex P b \<Longrightarrow> \<not> list_ex P a"
  by (auto simp: list_ex_iff)

lemma fit_set: "set (fit_name s) \<subseteq> set s"
  using strip_set[of "take (utf8_floor s MAX_NODE_NAME_BYTES) s"]
    set_take_subset[of "utf8_floor s MAX_NODE_NAME_BYTES" s] by (auto simp: fit_name_def)

lemma fit_length: "length (fit_name s) \<le> MAX_NODE_NAME_BYTES"
  using strip_length[of "take (utf8_floor s MAX_NODE_NAME_BYTES) s"]
    utf8_floor_le[of s MAX_NODE_NAME_BYTES] by (auto simp: fit_name_def)

lemma fit_last: "fit_name s \<noteq> [] \<Longrightarrow> last s \<noteq> 0x2E \<and> last s \<noteq> 0x20 \<Longrightarrow>
    last (fit_name s) \<noteq> 0x2E \<and> last (fit_name s) \<noteq> 0x20"
  using strip_last by (auto simp: fit_name_def)

lemma sanitize_contained:
  defines "r \<equiv> \<lambda>n. sanitize_node_name n"
  shows "r n \<noteq> [] \<and> length (r n) \<le> MAX_NODE_NAME_BYTES \<and> \<not> list_ex is_forbidden_byte (r n) \<and>
     last (r n) \<noteq> 0x2E \<and> last (r n) \<noteq> 0x20"
proof -
  let ?t = "trim_name (neutralise n)" and ?f = "fit_name (escape_device (trim_name (neutralise n)))"
  have fb: "FALLBACK_NAME \<noteq> [] \<and> length FALLBACK_NAME \<le> MAX_NODE_NAME_BYTES \<and>
      \<not> list_ex is_forbidden_byte FALLBACK_NAME \<and> last FALLBACK_NAME \<noteq> 0x2E \<and> last FALLBACK_NAME \<noteq> 0x20"
    by (simp add: FALLBACK_NAME_def MAX_NODE_NAME_BYTES_def ascii_def is_forbidden_byte_def)
  have "\<not> list_ex is_forbidden_byte ?t" by (rule list_ex_mono[OF trim_set neutralise_ok])
  then have "\<not> list_ex is_forbidden_byte (escape_device ?t)"
    by (simp add: escape_device_def underscore_ok)
  then have forb: "\<not> list_ex is_forbidden_byte ?f" by (rule list_ex_mono[OF fit_set])
  have "last ?f \<noteq> 0x2E \<and> last ?f \<noteq> 0x20" if f: "?f \<noteq> []"
  proof (rule fit_last[OF f], cases "?t = []")
    case True
    then have "?f = []" by (simp add: escape_device_def is_reserved_device_def fit_name_def)
    with f show "last (escape_device ?t) \<noteq> 0x2E \<and> last (escape_device ?t) \<noteq> 0x20" by simp
  qed (use trim_last escape_last in metis)
  with fb forb fit_length show ?thesis by (simp add: r_def sanitize_node_name_def Let_def)
qed

lemma sanitize_safe_iff: "is_safe_node_name (sanitize_node_name n) \<longleftrightarrow>
    \<not> is_reserved_device (sanitize_node_name n)"
  using sanitize_contained[of n]
  by (auto simp: is_safe_node_name_def ascii_def)

lemma fallback_not_reserved: "\<not> is_reserved_device FALLBACK_NAME"
  by (simp add: is_reserved_device_def FALLBACK_NAME_def ascii_def)

lemma sanitize_untruncated:
  assumes "length (escape_device (trim_name (neutralise n))) \<le> MAX_NODE_NAME_BYTES"
  shows "is_safe_node_name (sanitize_node_name n)"
  unfolding sanitize_safe_iff
  using assms escaped_not_reserved fallback_not_reserved
  by (simp add: sanitize_node_name_def fit_name_def Let_def)

lemma sanitize_short: "length n < MAX_NODE_NAME_BYTES \<Longrightarrow> is_safe_node_name (sanitize_node_name n)"
  using trim_length[of "neutralise n"]
  by (intro sanitize_untruncated) (simp add: escape_device_def neutralise_def)

lemma sanitize_id:
  assumes "is_safe_node_name n" "hd n \<noteq> 0x20"
  shows "sanitize_node_name n = n"
proof -
  have n: "n \<noteq> []" "length n \<le> MAX_NODE_NAME_BYTES" "last n \<noteq> 0x2E" "last n \<noteq> 0x20"
    "\<not> list_ex is_forbidden_byte n" "\<not> is_reserved_device n"
    using assms(1) by (auto simp: is_safe_node_name_def split: if_splits)
  then have "trim_name (neutralise n) = n"
    using assms(2) by (cases n) (auto simp: trim_name_def neutralise_id strip_id)
  with n show ?thesis by (simp add: sanitize_node_name_def escape_device_def fit_name_def)
qed

lemma sanitize_idem: "is_safe_node_name (sanitize_node_name n) \<Longrightarrow> hd (sanitize_node_name n) \<noteq> 0x20 \<Longrightarrow>
   sanitize_node_name (sanitize_node_name n) = sanitize_node_name n"
  by (rule sanitize_id)




section \<open>Properties\<close>

text \<open>
  Property C15.  Whatever the name, a sanitized name is a single non-empty path component of at
  most 255 bytes without separators, control bytes or reserved characters, and without a
  trailing dot or space: it can only name a file directly inside the export folder.
\<close>

theorem sanitized_name_is_contained:
  "sanitize_node_name n \<noteq> [] \<and> length (sanitize_node_name n) \<le> MAX_NODE_NAME_BYTES \<and>
   \<not> list_ex is_forbidden_byte (sanitize_node_name n) \<and>
   last (sanitize_node_name n) \<noteq> 0x2E \<and> last (sanitize_node_name n) \<noteq> 0x20"
  by (rule sanitize_contained)

text \<open>
  A name short enough that the repair never truncates it is repaired into a safe
  one, and the repair leaves a safe name that does not start with a space as it is.
\<close>

theorem sanitize_repairs:
  "(length n < MAX_NODE_NAME_BYTES \<longrightarrow> is_safe_node_name (sanitize_node_name n)) \<and>
   (is_safe_node_name n \<and> hd n \<noteq> 0x20 \<longrightarrow> sanitize_node_name n = n)"
  using sanitize_short sanitize_id by blast

theorem sanitize_repairs_witness:
  "is_safe_node_name (sanitize_node_name [0x2E, 0x2E, 0x2F, 0x61]) \<and>
   sanitize_node_name [0x61, 0x2E, 0x6A] = [0x61, 0x2E, 0x6A]"
proof -
  have "is_safe_node_name [0x61, 0x2E, 0x6A]"
    by (simp add: is_safe_node_name_def MAX_NODE_NAME_BYTES_def ascii_def is_forbidden_byte_def
        is_reserved_device_def)
  then show ?thesis
    using sanitize_repairs[of "[0x2E, 0x2E, 0x2F, 0x61]"] sanitize_repairs[of "[0x61, 0x2E, 0x6A]"]
    by (simp add: MAX_NODE_NAME_BYTES_def)
qed


end
