(* ===== verification/Compact_Plan.thy ===== *)
theory Compact_Plan
  imports Prelude "HOL-Library.Product_Lexorder" "HOL-Library.Sublist" "HOL-Library.Multiset"
begin

text \<open>
  \<open>src/vault/compact_plan.cpp\<close>: the pure planner of in-place compaction.  Offsets and lengths
  are naturals below \<open>2^64\<close>; the additions that the source performs on \<open>uint64_t\<close> keep their
  wrap-around (\<open>add64\<close>).  \<open>std::ranges::sort\<close> by offset is not stable, so the order of units
  that share an offset is unspecified; the model sorts stably, and the lemmas about the
  placement loop hold for every order of the units.
\<close>

section \<open>The planner\<close>

record unit_span =
  u_offset :: nat
  u_length :: nat
  u_id :: u32

record move =
  mv_unit_id :: u32
  mv_dest :: nat

record free_range =
  fr_start :: nat
  fr_length :: nat

text \<open>The sweep of \<open>free_ranges\<close> over the sorted live spans.\<close>

fun sweep :: "nat \<Rightarrow> (nat \<times> nat) list \<Rightarrow> free_range list" where
  "sweep cursor [] = []"
| "sweep cursor ((off, len) # live) =
     (if off > cursor then [\<lparr>fr_start = cursor, fr_length = off - cursor\<rparr>] else []) @
     sweep (max cursor (add64 off len)) live"

definition free_ranges :: "unit_span list \<Rightarrow> unit_span list \<Rightarrow> nat \<Rightarrow> free_range list" where
  "free_ranges units pinned flr =
     sweep flr (sort (map (\<lambda>u. (u_offset u, u_length u)) (units @ pinned)))"

text \<open>\<open>find_suitable_free_range\<close> returns a pointer into the list: the model returns its index.\<close>

fun find_suitable_free_range :: "unit_span \<Rightarrow> free_range list \<Rightarrow> nat option" where
  "find_suitable_free_range u [] = None"
| "find_suitable_free_range u (r # rs) =
     (if fr_start r \<ge> u_offset u then None
      else if fr_length r < u_length u then map_option Suc (find_suitable_free_range u rs)
      else Some 0)"

definition max_free :: "free_range list \<Rightarrow> nat" where
  "max_free fr = foldl (\<lambda>m r. max m (fr_length r)) 0 fr"

text \<open>
  The tail-first placement loop: \<open>n\<close> is \<open>units.size()\<close>, the moves are kept with their unit.
\<close>

definition take_range :: "free_range list \<Rightarrow> nat \<Rightarrow> nat \<Rightarrow> free_range list" where
  "take_range fr i len = fr[i := \<lparr>fr_start = add64 (fr_start (fr ! i)) len,
                                  fr_length = fr_length (fr ! i) - len\<rparr>]"

fun place :: "nat \<Rightarrow> unit_span list \<Rightarrow> nat \<Rightarrow> free_range list \<Rightarrow> (unit_span \<times> nat) list \<Rightarrow>
    (unit_span \<times> nat) list" where
  "place n [] mx fr moves = moves"
| "place n (u # us) mx fr moves =
     (if u_length u > mx then place n us mx fr moves else
      let (fr, moves) = (case find_suitable_free_range u fr of
            Some i \<Rightarrow> (take_range fr i (u_length u), moves @ [(u, fr_start (fr ! i))])
          | None \<Rightarrow> (fr, moves))
      in if length moves = n then moves else place n us (max_free fr) fr moves)"

definition plan_pairs :: "unit_span list \<Rightarrow> nat \<Rightarrow> unit_span list \<Rightarrow> (unit_span \<times> nat) list" where
  "plan_pairs units flr pinned = (let fr = free_ranges units pinned flr in
     if fr = [] then []
     else place (length units) (rev (sort_key u_offset units)) (max_free fr) fr [])"

definition plan_pass :: "unit_span list \<Rightarrow> nat \<Rightarrow> unit_span list \<Rightarrow> move list" where
  "plan_pass units flr pinned =
     map (\<lambda>(u, d). \<lparr>mv_unit_id = u_id u, mv_dest = d\<rparr>) (plan_pairs units flr pinned)"

definition live_end :: "unit_span list \<Rightarrow> nat \<Rightarrow> nat" where
  "live_end units flr = foldl (\<lambda>e u. max e (add64 (u_offset u) (u_length u))) flr units"

section \<open>Separated spans\<close>

definition sep :: "nat \<times> nat \<Rightarrow> nat \<times> nat \<Rightarrow> bool" where
  "sep a b \<longleftrightarrow> fst a + snd a \<le> fst b \<or> fst b + snd b \<le> fst a"

lemma sep_sym: "sep a b = sep b a"
  by (auto simp: sep_def)

lemma sep_sub: "sep (a, n) b \<Longrightarrow> a \<le> a' \<Longrightarrow> a' + n' \<le> a + n \<Longrightarrow> sep (a', n') b"
  by (auto simp: sep_def)

abbreviation fr_span :: "free_range \<Rightarrow> nat \<times> nat" where "fr_span r \<equiv> (fr_start r, fr_length r)"
abbreviation u_span :: "unit_span \<Rightarrow> nat \<times> nat" where "u_span u \<equiv> (u_offset u, u_length u)"

text \<open>The target span of a move.\<close>

abbreviation dest_span :: "unit_span \<times> nat \<Rightarrow> nat \<times> nat" where
  "dest_span m \<equiv> (snd m, u_length (fst m))"

text \<open>
  A frozen free list for the given live spans: separated from every live span, above the
  floor, ascending and without overlaps, and inside the 64-bit range.
\<close>

definition free_ok :: "nat \<Rightarrow> (nat \<times> nat) list \<Rightarrow> free_range list \<Rightarrow> bool" where
  "free_ok flr live fr \<longleftrightarrow>
     (\<forall>r \<in> set fr. flr \<le> fr_start r \<and> fr_start r + fr_length r < 2 ^ 64 \<and>
        (\<forall>s \<in> set live. sep (fr_span r) s)) \<and>
     sorted_wrt (\<lambda>r q. fr_start r + fr_length r \<le> fr_start q) fr"

lemma sweep_ok:
  assumes "sorted (map fst live)" "\<forall>(off, n) \<in> set live. off + n < 2 ^ 64"
  shows "free_ok c live (sweep c live)"
  using assms
proof (induction c live rule: sweep.induct)
  case (1 c)
  then show ?case by (simp add: free_ok_def)
next
  case (2 c off n live)
  let ?c = "max c (add64 off n)"
  have add: "add64 off n = off + n" using 2(3) by (simp add: add64_def)
  have later: "\<forall>s \<in> set live. off \<le> fst s" using 2(2) by simp
  have IH: "free_ok ?c live (sweep ?c live)" using 2 by simp
  then have "\<forall>r \<in> set (sweep ?c live). ?c \<le> fr_start r" by (simp add: free_ok_def)
  then have tail: "\<forall>r \<in> set (sweep ?c live). c \<le> fr_start r \<and> off + n \<le> fr_start r"
    using add by auto
  have off: "off < 2 ^ 64" using 2(3) by simp
  show ?case
    using IH tail later off unfolding free_ok_def by (auto simp: sep_def)
qed

lemma free_ranges_ok:
  assumes "\<forall>u \<in> set (units @ pinned). u_offset u + u_length u < 2 ^ 64"
  shows "free_ok flr (map u_span (units @ pinned)) (free_ranges units pinned flr)"
proof -
  let ?live = "map (\<lambda>u. (u_offset u, u_length u)) (units @ pinned)"
  have "sorted (map fst (sort ?live))"
    unfolding sorted_map
    by (rule sorted_wrt_mono_rel[OF _ sorted_sort]) (auto simp: less_eq_prod_def)
  then have "free_ok flr (sort ?live) (sweep flr (sort ?live))"
    using assms by (intro sweep_ok) auto
  then show ?thesis by (simp add: free_ranges_def free_ok_def)
qed

section \<open>Placement\<close>

lemma find_suitable:
  "find_suitable_free_range u fr = Some i \<Longrightarrow>
   i < length fr \<and> fr_start (fr ! i) < u_offset u \<and> u_length u \<le> fr_length (fr ! i)"
proof (induction fr arbitrary: i)
  case (Cons r fr)
  then show ?case by (cases i) (auto split: if_splits)
qed simp

lemma find_suitable_None:
  "find_suitable_free_range u fr = None \<Longrightarrow> sorted_wrt (\<lambda>r q. fr_start r \<le> fr_start q) fr \<Longrightarrow>
   \<forall>r \<in> set fr. fr_start r < u_offset u \<longrightarrow> fr_length r < u_length u"
  by (induction fr) (fastforce split: if_splits)+

lemma take_range_ok:
  assumes "free_ok flr live fr" "i < length fr" "len \<le> fr_length (fr ! i)"
  shows "free_ok flr (live @ [(fr_start (fr ! i), len)]) (take_range fr i len)"
proof -
  let ?r = "fr ! i" and ?new = "\<lparr>fr_start = fr_start (fr ! i) + len, fr_length = fr_length (fr ! i) - len\<rparr>"
  have r: "flr \<le> fr_start ?r" "fr_start ?r + fr_length ?r < 2 ^ 64"
    "\<forall>s \<in> set live. sep (fr_span ?r) s"
    using assms(1,2) by (auto simp: free_ok_def)
  have eq: "take_range fr i len = fr[i := ?new]"
    using r(2) assms(3) by (simp add: take_range_def add64_no_wrap)
  have asc: "\<And>j k. j < k \<Longrightarrow> k < length fr \<Longrightarrow> fr_start (fr ! j) + fr_length (fr ! j) \<le> fr_start (fr ! k)"
    using assms(1) by (simp add: free_ok_def sorted_wrt_iff_nth_less)
  have each: "flr \<le> fr_start q \<and> fr_start q + fr_length q < 2 ^ 64 \<and>
      (\<forall>s \<in> set (live @ [(fr_start ?r, len)]). sep (fr_span q) s)" if q: "q \<in> set (fr[i := ?new])" for q
  proof -
    obtain k where k: "k < length fr" "q = fr[i := ?new] ! k" 
      using q unfolding in_set_conv_nth length_list_update by blast
    show ?thesis
    proof (cases "k = i")
      case True
      then show ?thesis using k r assms(2,3) by (auto simp: sep_def)
    next
      case False
      then have qk: "q = fr ! k" "q \<in> set fr" using k by auto
      have "sep (fr_span q) (fr_start ?r, len)"
      proof (cases "k < i")
        case True
        with asc[of k i] assms(2) show ?thesis by (simp add: sep_def qk(1))
      next
        case ge: False
        then have "fr_start ?r + fr_length ?r \<le> fr_start (fr ! k)" using asc[of i k] False k(1) by simp
        with assms(3) show ?thesis by (simp add: sep_def qk(1))
      qed
      then show ?thesis using assms(1) qk(2) by (auto simp: free_ok_def)
    qed
  qed
  have "sorted_wrt (\<lambda>r q. fr_start r + fr_length r \<le> fr_start q) (fr[i := ?new])"
    unfolding sorted_wrt_iff_nth_less
  proof (intro allI impI)
    fix j k assume jk: "j < k" "k < length (fr[i := ?new])"
    then have "j < length fr" "k < length fr" by simp_all
    with jk show "fr_start (fr[i := ?new] ! j) + fr_length (fr[i := ?new] ! j) \<le> fr_start (fr[i := ?new] ! k)"
      using asc[of j k] assms(2,3) by (auto simp: nth_list_update)
  qed
  with each show ?thesis unfolding eq free_ok_def by blast
qed

text \<open>
  What the loop keeps: the planned targets lie in the frozen free space, so they are
  separated from every live span and from each other, above the floor and strictly below
  their source.
\<close>

definition moves_ok :: "nat \<Rightarrow> (nat \<times> nat) list \<Rightarrow> (unit_span \<times> nat) list \<Rightarrow> bool" where
  "moves_ok flr live ms \<longleftrightarrow>
     (\<forall>m \<in> set ms. flr \<le> snd m \<and> snd m < u_offset (fst m) \<and> (\<forall>s \<in> set live. sep (dest_span m) s)) \<and>
     sorted_wrt (\<lambda>a b. sep (dest_span a) (dest_span b)) ms"

lemma free_ok_append: "free_ok flr (a @ b) fr \<longleftrightarrow> free_ok flr a fr \<and> free_ok flr b fr"
  by (auto simp: free_ok_def)

lemma moves_ok_snoc:
  "moves_ok flr live ms \<Longrightarrow> flr \<le> d \<Longrightarrow> d < u_offset u \<Longrightarrow>
   \<forall>s \<in> set (live @ map dest_span ms). sep (d, u_length u) s \<Longrightarrow>
   moves_ok flr live (ms @ [(u, d)])"
  unfolding moves_ok_def sorted_wrt_append
  by (auto simp: sep_sym[of "(d, u_length u)"])

lemma place_ok:
  "free_ok flr (live @ map dest_span ms) fr \<Longrightarrow> moves_ok flr live ms \<Longrightarrow>
   moves_ok flr live (place n us mx fr ms)"
proof (induction n us mx fr ms rule: place.induct)
  case (2 n u us mx fr ms)
  show ?case
  proof (cases "u_length u > mx")
    case True
    with 2 show ?thesis by simp
  next
    case fits: False
    show ?thesis
    proof (cases "find_suitable_free_range u fr")
      case None
      with 2 fits show ?thesis by simp
    next
      case (Some i)
      let ?m = "(u, fr_start (fr ! i))" and ?fr = "take_range fr i (u_length u)"
      note f = find_suitable[OF Some]
      have fr: "free_ok flr (live @ map dest_span (ms @ [?m])) ?fr"
        using take_range_ok[OF 2(3)] f by simp
      have "moves_ok flr live (ms @ [?m])"
      proof (rule moves_ok_snoc[OF 2(4)])
        have "fr ! i \<in> set fr" using f by simp
        then show "flr \<le> fr_start (fr ! i)"
          and "\<forall>s \<in> set (live @ map dest_span ms). sep (fr_start (fr ! i), u_length u) s"
          using 2(3) f sep_sub[of "fr_start (fr ! i)" "fr_length (fr ! i)" _ "fr_start (fr ! i)" "u_length u"]
          by (auto simp: free_ok_def)
      qed (use f in simp)
      then show ?thesis
        using "2.IH"(2)[OF fits, of "(?fr, ms @ [?m])" ?fr "ms @ [?m]"] fr fits Some by simp
    qed
  qed
qed simp

text \<open>Each unit is moved at most once: the moves are a subsequence of the loop's units.\<close>

lemma place_subseq:
  "\<exists>vs. map fst (place n us mx fr ms) = map fst ms @ vs \<and> subseq vs us"
proof (induction n us mx fr ms rule: place.induct)
  case (1 n mx fr ms)
  then show ?case by simp
next
  case (2 n u us mx fr ms)
  show ?case
  proof (cases "u_length u > mx")
    case True
    with 2 show ?thesis by auto
  next
    case fits: False
    show ?thesis
    proof (cases "find_suitable_free_range u fr")
      case None
      then show ?thesis
        using "2.IH"(2)[OF fits, of "(fr, ms)" fr ms] fits by auto
    next
      case (Some i)
      let ?m = "(u, fr_start (fr ! i))" and ?fr = "take_range fr i (u_length u)"
      show ?thesis
        using "2.IH"(2)[OF fits, of "(?fr, ms @ [?m])" ?fr "ms @ [?m]"] fits Some
        by (auto intro: exI[of _ "[u]"])
    qed
  qed
qed

lemma plan_pairs_ok:
  assumes "\<forall>u \<in> set (units @ pinned). u_offset u + u_length u < 2 ^ 64"
  shows "moves_ok flr (map u_span (units @ pinned)) (plan_pairs units flr pinned)"
  unfolding plan_pairs_def Let_def
  using place_ok[where ms = "[]"] free_ranges_ok[OF assms, of flr]
  by (auto simp: moves_ok_def)

lemma plan_pairs_subseq: "\<exists>us. mset us = mset units \<and> subseq (map fst (plan_pairs units flr pinned)) us"
  using place_subseq[where ms = "[]" and us = "rev (sort_key u_offset units)"]
  by (auto simp: plan_pairs_def Let_def intro!: exI[of _ "rev (sort_key u_offset units)"])

text \<open>
  An empty pass is a converged layout: no unit fits into free space below it.
\<close>

lemma place_extends: "\<exists>ns. place n us mx fr ms = ms @ ns"
proof (induction n us mx fr ms rule: place.induct)
  case (2 n u us mx fr ms)
  show ?case
  proof (cases "find_suitable_free_range u fr")
    case None
    then show ?thesis using "2.IH"(1) "2.IH"(2)[of "(fr, ms)" fr ms] by auto
  next
    case (Some i)
    then show ?thesis
      using "2.IH"(1) "2.IH"(2)[of "(take_range fr i (u_length u), ms @ [(u, fr_start (fr ! i))])"
          "take_range fr i (u_length u)" "ms @ [(u, fr_start (fr ! i))]"] by auto
  qed
qed simp

lemma max_free_bound: "r \<in> set fr \<Longrightarrow> fr_length r \<le> max_free fr"
proof -
  have "m \<le> foldl (\<lambda>m r. max m (fr_length r)) m fr \<and>
     (\<forall>r \<in> set fr. fr_length r \<le> foldl (\<lambda>m r. max m (fr_length r)) m fr)" for m
    by (induction fr arbitrary: m) (auto intro: max.coboundedI1 order_trans max.cobounded1
        max.cobounded2, (meson max.cobounded2 max.cobounded1 order_trans)+)
  then show "r \<in> set fr \<Longrightarrow> ?thesis" by (simp add: max_free_def)
qed

lemma place_empty:
  "place n us mx fr [] = [] \<Longrightarrow> n > 0 \<Longrightarrow> mx = max_free fr \<Longrightarrow>
   sorted_wrt (\<lambda>r q. fr_start r \<le> fr_start q) fr \<Longrightarrow>
   \<forall>u \<in> set us. \<forall>r \<in> set fr. fr_start r < u_offset u \<longrightarrow> fr_length r < u_length u"
proof (induction us)
  case (Cons u us)
  show ?case
  proof (cases "u_length u > mx")
    case True
    then have "\<forall>r \<in> set fr. fr_length r < u_length u" using Cons.prems(3) max_free_bound by fastforce
    with True Cons show ?thesis by auto
  next
    case False
    show ?thesis
    proof (cases "find_suitable_free_range u fr")
      case None
      with False Cons find_suitable_None[OF None] show ?thesis by auto
    next
      case (Some i)
      let ?ms = "[(u, fr_start (fr ! i))]"
      from Some False Cons.prems(1) have
        "(if 1 = n then ?ms else place n us (max_free (take_range fr i (u_length u)))
          (take_range fr i (u_length u)) ?ms) = []" by simp
      with place_extends[of n us _ _ ?ms] show ?thesis by (metis append_is_Nil_conv not_Cons_self2)
    qed
  qed
qed simp


section \<open>Properties\<close>

lemma sweep_ascending: "sorted_wrt (\<lambda>r q. fr_start r \<le> fr_start q) (sweep c live)"
proof -
  have "(\<forall>r \<in> set (sweep c live). c \<le> fr_start r) \<and>
     sorted_wrt (\<lambda>r q. fr_start r \<le> fr_start q) (sweep c live)"
    by (induction c live rule: sweep.induct) auto
  then show ?thesis by simp
qed

text \<open>
  Property C11.  Every planned move is safe to execute against the last committed layout: the
  moved unit is one of the units, its destination is at or above the floor and strictly
  below its source, and it touches neither a frozen-live span (the unit's own included) nor
  a pinned span nor the destination of another move of the pass; no unit is moved twice.
\<close>

theorem plan_pass_safe:
  assumes "\<forall>u \<in> set (units @ pinned). u_offset u + u_length u < 2 ^ 64"
  shows "\<exists>ms. plan_pass units flr pinned = map (\<lambda>(u, d). \<lparr>mv_unit_id = u_id u, mv_dest = d\<rparr>) ms \<and>
     (\<exists>us. mset us = mset units \<and> subseq (map fst ms) us) \<and>
     (\<forall>(u, d) \<in> set ms. flr \<le> d \<and> d < u_offset u \<and>
        (\<forall>s \<in> set (units @ pinned). sep (d, u_length u) (u_span s))) \<and>
     sorted_wrt (\<lambda>a b. sep (dest_span a) (dest_span b)) ms"
proof (intro exI[of _ "plan_pairs units flr pinned"] conjI)
  show "\<exists>us. mset us = mset units \<and> subseq (map fst (plan_pairs units flr pinned)) us"
    by (rule plan_pairs_subseq)
qed (use plan_pairs_ok[OF assms, of flr] in \<open>auto simp: plan_pass_def moves_ok_def\<close>)

theorem plan_pass_safe_witness:
  "\<exists>ms :: (unit_span \<times> nat) list. plan_pass [\<lparr>u_offset = 10, u_length = 2, u_id = 0\<rparr>] 4 [] =
     map (\<lambda>(u, d). \<lparr>mv_unit_id = u_id u, mv_dest = d\<rparr>) ms \<and> (\<forall>(u, d) \<in> set ms. 4 \<le> d \<and> d < u_offset u)"
proof -
  have "\<forall>u \<in> set ([\<lparr>u_offset = 10, u_length = 2, u_id = 0\<rparr>] @ []). u_offset u + u_length u < 2 ^ 64"
    by simp
  from plan_pass_safe[OF this, of 4] show ?thesis by (rule ex_forward) auto
qed

text \<open>
  An empty pass means that the layout has converged: every range of dead space
  that starts below a unit is too small for that unit.
\<close>

theorem plan_pass_converged:
  assumes "plan_pass units flr pinned = []" "u \<in> set units"
    "r \<in> set (free_ranges units pinned flr)" "fr_start r < u_offset u"
  shows "fr_length r < u_length u"
proof -
  let ?fr = "free_ranges units pinned flr"
  have "?fr \<noteq> []" using assms(3) by force
  with assms(1) have "place (length units) (rev (sort_key u_offset units)) (max_free ?fr) ?fr [] = []"
    by (simp add: plan_pass_def plan_pairs_def Let_def)
  moreover have "0 < length units" using assms(2) by (auto simp: length_pos_if_in_set)
  ultimately have "\<forall>u \<in> set (rev (sort_key u_offset units)). \<forall>r \<in> set ?fr.
      fr_start r < u_offset u \<longrightarrow> fr_length r < u_length u"
    by (rule place_empty) (simp_all add: free_ranges_def sweep_ascending)
  with assms(2-4) show ?thesis by simp
qed

theorem plan_pass_converged_witness:
  "plan_pass [\<lparr>u_offset = 6, u_length = 3, u_id = 0\<rparr>] 4 [] = [] \<and> (2::nat) < 3"
proof -
  have "plan_pass [\<lparr>u_offset = 6, u_length = 3, u_id = 0\<rparr>] 4 [] = []"
    by (simp add: plan_pass_def plan_pairs_def free_ranges_def max_free_def)
  moreover have "\<lparr>fr_start = 4, fr_length = 2\<rparr> \<in> set (free_ranges [\<lparr>u_offset = 6, u_length = 3, u_id = 0\<rparr>] [] 4)"
    by (simp add: free_ranges_def)
  ultimately show ?thesis
    using plan_pass_converged[of "[\<lparr>u_offset = 6, u_length = 3, u_id = 0\<rparr>]" 4 "[]"
        "\<lparr>u_offset = 6, u_length = 3, u_id = 0\<rparr>" "\<lparr>fr_start = 4, fr_length = 2\<rparr>"] by simp
qed

end
