(* ===== verification/File_Store.thy ===== *)
theory File_Store
  imports Prelude Compact_Plan
begin

text \<open>
  The vault file and the raw operations of \<open>src/vault/chunk_store.cpp\<close> and
  \<open>src/vault/file_util.h\<close> on it.  A file is the list of its bytes; a call that fails for I/O
  reasons is a crash point, which the storage theories treat separately, so here every call
  that passes its own checks succeeds.
\<close>

type_synonym disk = bytes

definition span_in_file :: "disk \<Rightarrow> nat \<Rightarrow> nat \<Rightarrow> bool" where
  "span_in_file f off len \<longleftrightarrow> off \<le> length f \<and> len \<le> length f - off"

definition read_at :: "disk \<Rightarrow> nat \<Rightarrow> nat \<Rightarrow> bytes option" where
  "read_at f off n = (if \<not> span_in_file f off n then None else Some (take n (drop off f)))"

definition read_raw :: "disk \<Rightarrow> nat \<Rightarrow> nat \<Rightarrow> bytes option" where
  "read_raw f off len = (if \<not> span_in_file f off len then None else read_at f off len)"

definition append_at_end :: "disk \<Rightarrow> bytes \<Rightarrow> disk \<times> nat" where
  "append_at_end f bs = (f @ bs, length f)"

text \<open>
  \<open>fwrite\<close> after a seek: overwrites in place, extends the file when the write ends past it,
  and leaves a hole of zeros when it starts past it.
\<close>

definition write_raw_at :: "disk \<Rightarrow> nat \<Rightarrow> bytes \<Rightarrow> disk" where
  "write_raw_at f off bs =
     (if bs = [] then f
      else take off f @ replicate (off - length f) 0 @ bs @ drop (off + length bs) f)"

definition truncate_file :: "disk \<Rightarrow> nat \<Rightarrow> disk" where
  "truncate_file f n = take n f @ replicate (n - length f) 0"

text \<open>\<open>FALLOC_FL_PUNCH_HOLE | FALLOC_FL_KEEP_SIZE\<close>: zeros inside, size unchanged.\<close>

definition punch_hole :: "disk \<Rightarrow> nat \<Rightarrow> nat \<Rightarrow> disk" where
  "punch_hole f off len =
     take off f @ replicate (min len (length f - off)) 0 @ drop (off + len) f"

text \<open>What a span holds.\<close>

definition slice :: "disk \<Rightarrow> nat \<times> nat \<Rightarrow> bytes" where
  "slice f s = take (snd s) (drop (fst s) f)"

abbreviation in_file :: "disk \<Rightarrow> nat \<times> nat \<Rightarrow> bool" where
  "in_file f s \<equiv> fst s + snd s \<le> length f"

lemma read_raw_slice: "in_file f (off, len) \<Longrightarrow> read_raw f off len = Some (slice f (off, len))"
  by (simp add: read_raw_def read_at_def span_in_file_def slice_def)

lemma read_raw_Some: "read_raw f off len = Some bs \<longleftrightarrow>
    off + len \<le> length f \<and> bs = slice f (off, len)"
  by (auto simp: read_raw_def read_at_def span_in_file_def slice_def)

lemma length_slice: "in_file f s \<Longrightarrow> length (slice f s) = snd s"
  by (simp add: slice_def)

lemma slice_eqI:
  "in_file f s \<Longrightarrow> in_file g s \<Longrightarrow> (\<And>i. fst s \<le> i \<Longrightarrow> i < fst s + snd s \<Longrightarrow> f ! i = g ! i) \<Longrightarrow>
   slice f s = slice g s"
  by (rule nth_equalityI) (auto simp: slice_def)

lemma length_write_raw_at:
  "length (write_raw_at f off bs) = (if bs = [] then length f else max (length f) (off + length bs))"
  by (auto simp: write_raw_at_def)

lemma nth_write_raw_at:
  "off \<le> length f \<Longrightarrow> i < max (length f) (off + length bs) \<Longrightarrow>
   write_raw_at f off bs ! i =
     (if off \<le> i \<and> i < off + length bs then bs ! (i - off) else f ! i)"
  by (auto simp: write_raw_at_def nth_append min_def not_less)

lemma in_file_write: "in_file f s \<Longrightarrow> in_file (write_raw_at f off bs) s"
  by (auto simp: length_write_raw_at le_max_iff_disj)

lemma slice_write_other:
  assumes "off \<le> length f" "in_file f s" "sep (off, length bs) s"
  shows "slice (write_raw_at f off bs) s = slice f s"
  using assms by (intro slice_eqI) (auto simp: length_write_raw_at nth_write_raw_at sep_def)

lemma slice_write_same:
  "off \<le> length f \<Longrightarrow> slice (write_raw_at f off bs) (off, length bs) = bs"
  by (cases "bs = []") (simp_all add: slice_def write_raw_at_def)

lemma slice_append: "in_file f s \<Longrightarrow> slice (f @ bs) s = slice f s"
  by (simp add: slice_def)

lemma slice_appended: "slice (f @ bs) (length f, length bs) = bs"
  by (simp add: slice_def)

lemma slice_truncate: "in_file f s \<Longrightarrow> fst s + snd s \<le> n \<Longrightarrow> slice (truncate_file f n) s = slice f s"
  by (rule slice_eqI) (auto simp: truncate_file_def nth_append)

lemma length_punch_hole [simp]: "length (punch_hole f off len) = length f"
  by (auto simp: punch_hole_def min_def)

lemma nth_punch_hole:
  "i < length f \<Longrightarrow> punch_hole f off len ! i = (if off \<le> i \<and> i < off + len then 0 else f ! i)"
  by (auto simp: punch_hole_def nth_append min_def not_less)

lemma slice_punch_other:
  "in_file f s \<Longrightarrow> sep (off, len) s \<Longrightarrow> slice (punch_hole f off len) s = slice f s"
  by (rule slice_eqI) (auto simp: nth_punch_hole sep_def)

end
