(* ===== verification/Compaction.thy ===== *)
theory Compaction
  imports File_Store Index_Format
begin

text \<open>
  In-place compaction and hole punching (\<open>src/vault/vault.cpp\<close>, the planner is
  \<open>Compact_Plan\<close>): which spans are live, how one unit is streamed to its destination, how a
  planned pass is executed with its batch commits, and which gaps are punched.
\<close>

section \<open>Live spans of a tree\<close>

text \<open>\<open>vault_ops::for_each_media\<close>: the media nodes in visiting order.\<close>

fun for_each_media :: "index_node \<Rightarrow> index_node list" where
  "for_each_media (Node d cs) =
     (if nd_type d \<noteq> Gallery then [Node d cs] else concat (map for_each_media cs))"

definition span_of :: "u64 \<Rightarrow> u64 \<Rightarrow> (nat \<times> nat) list" where
  "span_of off len = (if len > 0 then [(unat off, unat len)] else [])"

definition media_spans :: "index_node \<Rightarrow> (nat \<times> nat) list" where
  "media_spans n = (let m = nd_meta (ndata n); v = nd_vmeta (ndata n) in
     if is_image n then
       span_of (im_data_offset m) (im_data_length m) @ span_of (im_thumb_offset m) (im_thumb_length m)
     else if is_video n then
       concat (map (\<lambda>c. span_of (vc_offset c) (vc_length c)) (vm_chunks v)) @
       span_of (vm_poster_offset v) (vm_poster_length v)
     else [])"

definition tree_spans :: "index_node \<Rightarrow> (nat \<times> nat) list" where
  "tree_spans root = concat (map media_spans (for_each_media root))"

text \<open>
  \<open>collect_units\<close>: the id of a unit is its index.  The parallel vector of pointers to the
  offset fields of the tree copy is not modelled separately: field \<open>i\<close> always holds the offset
  of unit \<open>i\<close>.
\<close>

definition collect_units :: "index_node \<Rightarrow> unit_span list" where
  "collect_units root = map (\<lambda>(i, off, len). \<lparr>u_offset = off, u_length = len, u_id = of_nat i\<rparr>)
     (zip [0..<length (tree_spans root)] (tree_spans root))"

section \<open>Moving one unit\<close>









section \<open>Executing a pass\<close>

record pass_state =
  ps_disk :: disk
  ps_units :: "unit_span list"
  ps_since_commit :: nat
  ps_cancelled :: bool


text \<open>
  What an index commit must not do to the data region: it appends its blob and rewrites the
  header below \<open>flr\<close>, so every span of the data region keeps its bytes.
\<close>

definition keeps_data :: "nat \<Rightarrow> (unit_span list \<Rightarrow> disk \<Rightarrow> disk option) \<Rightarrow> bool" where
  "keeps_data flr commit \<longleftrightarrow> (\<forall>us d d'. commit us d = Some d' \<longrightarrow>
     (\<forall>s. flr \<le> fst s \<and> in_file d s \<longrightarrow> in_file d' s \<and> slice d' s = slice d s))"





lemma sep_nonneg: "sep (a, n) (b, m) \<Longrightarrow> sep (b, m) (a, n)"
  by (auto simp: sep_def)








section \<open>From the plan to the executor\<close>

definition indexed :: "unit_span list \<Rightarrow> bool" where
  "indexed us \<longleftrightarrow> length us < 2 ^ 32 \<and> (\<forall>i < length us. u_id (us ! i) = of_nat i)"

lemma indexed_collect_units: "length (tree_spans root) < 2 ^ 32 \<Longrightarrow> indexed (collect_units root)"
  by (auto simp: indexed_def collect_units_def split: prod.split)

lemma spans_collect_units: "map u_span (collect_units root) = tree_spans root"
  by (rule nth_equalityI) (auto simp: collect_units_def split: prod.split)







section \<open>The packing loop of \<open>Vault::compact\<close>\<close>



text \<open>The active index blob lies in the data region of the file.\<close>

definition pins_ok :: "nat \<Rightarrow> (disk \<Rightarrow> unit_span list) \<Rightarrow> bool" where
  "pins_ok flr pinned_of \<longleftrightarrow> (\<forall>d. \<forall>p \<in> set (pinned_of d).
     flr \<le> u_offset p \<and> in_file d (u_span p) \<and> u_offset p + u_length p < 2 ^ 64)"

definition units_ok :: "nat \<Rightarrow> disk \<Rightarrow> unit_span list \<Rightarrow> bool" where
  "units_ok flr d us \<longleftrightarrow> indexed us \<and> (\<forall>u \<in> set us. flr \<le> u_offset u \<and> in_file d (u_span u) \<and>
     u_offset u + u_length u < 2 ^ 64)"

text \<open>Every unit of the second state holds the bytes of the first, at the same or a lower offset.\<close>

definition relocated :: "disk \<Rightarrow> unit_span list \<Rightarrow> disk \<Rightarrow> unit_span list \<Rightarrow> bool" where
  "relocated d us d' us' \<longleftrightarrow> length us' = length us \<and>
     (\<forall>i < length us. u_length (us' ! i) = u_length (us ! i) \<and> u_offset (us' ! i) \<le> u_offset (us ! i) \<and>
        slice d' (u_span (us' ! i)) = slice d (u_span (us ! i)))"

lemma relocated_refl [simp]: "relocated d us d us"
  by (simp add: relocated_def)







section \<open>The final blob and the gaps\<close>

text \<open>Where \<open>compact\<close> puts its final index blob: after the packed data, or after the active blob.\<close>

definition final_dest :: "unit_span list \<Rightarrow> nat \<Rightarrow> nat \<times> nat \<Rightarrow> nat \<Rightarrow> nat" where
  "final_dest units flr active sealed_len = (let dest = live_end units flr in
     if snd active > 0 \<and> dest < fst active + snd active \<and> fst active < dest + sealed_len
     then fst active + snd active else dest)"

text \<open>Punch every gap between the sorted live spans; returns the end of the last one.\<close>

fun punch_gaps :: "nat \<Rightarrow> (nat \<times> nat) list \<Rightarrow> disk \<Rightarrow> disk \<times> nat" where
  "punch_gaps cursor [] f = (f, cursor)"
| "punch_gaps cursor ((off, len) # live) f =
     punch_gaps (max cursor (add64 off len)) live
       (if off > cursor then punch_hole f cursor (off - cursor) else f)"

text \<open>
  \<open>vault_reclaim\<close>: the spans of both index slots (when they lie in the file) and of every media
  chunk are live; everything else above the header is punched, the tail included.
\<close>

definition reclaim :: "nat \<Rightarrow> (nat \<times> nat) list \<Rightarrow> index_node \<Rightarrow> disk \<Rightarrow> disk" where
  "reclaim flr slots root f = (let fsize = length f;
     live = filter (\<lambda>s. snd s > 0 \<and> fst s \<ge> flr \<and> fst s \<le> fsize \<and> snd s \<le> fsize - fst s) slots
            @ tree_spans root;
     (f, cursor) = punch_gaps flr (sort live) f
     in if cursor < fsize then punch_hole f cursor (fsize - cursor) else f)"

lemma live_end_bound:
  assumes "\<forall>u \<in> set us. u_offset u + u_length u < 2 ^ 64"
  shows "flr \<le> live_end us flr \<and> (\<forall>u \<in> set us. u_offset u + u_length u \<le> live_end us flr)"
proof -
  have "e \<le> foldl (\<lambda>e u. max e (add64 (u_offset u) (u_length u))) e us \<and>
     (\<forall>u \<in> set us. u_offset u + u_length u \<le> foldl (\<lambda>e u. max e (add64 (u_offset u) (u_length u))) e us)"
    for e
    using assms
  proof (induction us arbitrary: e)
    case (Cons u us)
    have "add64 (u_offset u) (u_length u) = u_offset u + u_length u"
      using Cons.prems by (simp add: add64_no_wrap)
    then show ?case using Cons.IH[of "max e (u_offset u + u_length u)"] Cons.prems by auto
  qed simp
  then show ?thesis by (simp add: live_end_def)
qed

lemma final_dest_apart:
  assumes "\<forall>u \<in> set us. u_offset u + u_length u < 2 ^ 64"
  shows "\<forall>u \<in> set us. u_offset u + u_length u \<le> final_dest us flr active n"
    and "snd active > 0 \<Longrightarrow> sep (final_dest us flr active n, n) active"
  using live_end_bound[OF assms, of flr] by (auto simp: final_dest_def Let_def sep_def)

lemma punch_gaps_keeps:
  "sorted (map fst live) \<Longrightarrow> \<forall>(off, n) \<in> set live. off + n < 2 ^ 64 \<Longrightarrow>
   fst s + snd s \<le> cursor \<or> s \<in> set live \<Longrightarrow> in_file f s \<Longrightarrow>
   slice (fst (punch_gaps cursor live f)) s = slice f s \<and>
   (\<forall>t \<in> set live. fst t + snd t \<le> snd (punch_gaps cursor live f)) \<and>
   cursor \<le> snd (punch_gaps cursor live f) \<and> length (fst (punch_gaps cursor live f)) = length f"
proof (induction cursor live f rule: punch_gaps.induct)
  case (1 cursor f)
  then show ?case by simp
next
  case (2 cursor off len live f)
  let ?c = "max cursor (off + len)" and ?f = "if off > cursor then punch_hole f cursor (off - cursor) else f"
  have add: "add64 off len = off + len" using 2(3) by (simp add: add64_no_wrap)
  have apart: "off > cursor \<Longrightarrow> sep (cursor, off - cursor) s"
    using 2(2,4) by (auto simp: sep_def)
  then have s: "slice ?f s = slice f s" "in_file ?f s" "length ?f = length f"
    using 2(5) by (simp_all add: slice_punch_other)
  have "slice (fst (punch_gaps ?c live ?f)) s = slice ?f s \<and>
   (\<forall>t \<in> set live. fst t + snd t \<le> snd (punch_gaps ?c live ?f)) \<and>
   ?c \<le> snd (punch_gaps ?c live ?f) \<and> length (fst (punch_gaps ?c live ?f)) = length ?f"
  proof (rule 2(1)[unfolded add])
    show "sorted (map fst live)" using 2(2) by simp
    show "\<forall>(off, n) \<in> set live. off + n < 2 ^ 64" using 2(3) by simp
    show "fst s + snd s \<le> ?c \<or> s \<in> set live" using 2(4) by auto
    show "in_file ?f s" by (rule s(2))
  qed
  then show ?case using s by (auto simp: add)
qed




section \<open>Properties\<close>



definition demo_state :: pass_state where
  "demo_state = \<lparr>ps_disk = [0, 0, 0, 0, 1, 2, 7, 8], ps_units = [\<lparr>u_offset = 6, u_length = 2, u_id = 0\<rparr>],
     ps_since_commit = 0, ps_cancelled = False\<rparr>"

lemma demo_ok:
  "keeps_data 4 (\<lambda>us d. Some d)" "pins_ok 4 (\<lambda>d. [])" "units_ok 4 (ps_disk demo_state) (ps_units demo_state)"
  by (simp_all add: keeps_data_def pins_ok_def units_ok_def indexed_def demo_state_def)





text \<open>
  Property C9.  The final commit of a compaction: the sealed blob at \<open>final_dest\<close> overlaps no
  unit and not the blob that is still active, and cutting the file right behind it keeps
  every unit and the new blob.
\<close>

theorem final_blob_is_safe:
  assumes units: "units_ok flr d us" "flr \<le> length d" and act: "in_file d active"
    and dest: "dest = final_dest us flr active (length blob)"
    and d1: "d1 = write_raw_at d dest blob" and d2: "d2 = truncate_file d1 (dest + length blob)"
  shows "(\<forall>u \<in> set us. slice d2 (u_span u) = slice d (u_span u)) \<and>
     slice d2 (dest, length blob) = blob \<and> (0 < snd active \<longrightarrow> slice d1 active = slice d active)"
proof -
  have bound: "\<forall>u \<in> set us. u_offset u + u_length u < 2 ^ 64" "\<forall>u \<in> set us. in_file d (u_span u)"
    using units by (auto simp: units_ok_def)
  note apart = final_dest_apart[OF bound(1), where flr = flr and active = active and n = "length blob"]
  have "live_end us flr \<le> length d"
  proof -
    have "e \<le> length d \<Longrightarrow>
        foldl (\<lambda>e u. max e (add64 (u_offset u) (u_length u))) e us \<le> length d" for e
      using bound by (induction us arbitrary: e) (auto simp: add64_no_wrap)
    then show ?thesis using units(2) by (simp add: live_end_def)
  qed
  then have len: "dest \<le> length d" using act by (auto simp: dest final_dest_def Let_def)
  have fits: "dest + length blob \<le> length d1" using len by (simp add: d1 length_write_raw_at)
  show ?thesis
  proof (intro conjI ballI impI)
    fix u assume u: "u \<in> set us"
    have "slice d1 (u_span u) = slice d (u_span u)" "in_file d1 (u_span u)"
      using u bound apart(1) len in_file_write slice_write_other[OF len, of "u_span u" blob]
      by (auto simp: d1 dest sep_def)
    with u apart(1) show "slice d2 (u_span u) = slice d (u_span u)"
      by (auto simp: d2 slice_truncate dest trans_le_add1)
  next
    show "slice d2 (dest, length blob) = blob"
      using fits slice_write_same[OF len, of blob] by (simp add: d2 d1 slice_truncate)
  next
    assume "0 < snd active"
    then show "slice d1 active = slice d active"
      using apart(2) act slice_write_other[OF len] by (simp add: d1 dest)
  qed
qed

theorem final_blob_is_safe_witness:
  "slice (truncate_file (write_raw_at (ps_disk demo_state) 8 [5]) 9) (6, 2) = [7, 8]"
proof -
  have "final_dest (ps_units demo_state) 4 (4, 2) (length [5 :: byte]) = 8"
    by (simp add: final_dest_def live_end_def demo_state_def add64_def)
  then show ?thesis
    using final_blob_is_safe[OF demo_ok(3), of "(4, 2)" 8 "[5]"]
    by (simp add: demo_state_def slice_def)
qed

text \<open>
  Property C10.  Hole punching touches dead space only: after \<open>vault_reclaim\<close> every media chunk of
  the tree and every index slot that lies in the file, the inactive one included, reads
  back unchanged, and the file has the same length.
\<close>

theorem reclaim_keeps_live:
  assumes "\<forall>s \<in> set (tree_spans root). fst s + snd s < 2 ^ 64" and "length f < 2 ^ 64"
    and s: "s \<in> set (tree_spans root) \<or> (s \<in> set slots \<and> 0 < snd s \<and> flr \<le> fst s)"
    and inf: "in_file f s"
  shows "slice (reclaim flr slots root f) s = slice f s \<and> length (reclaim flr slots root f) = length f"
proof -
  define live where "live = filter (\<lambda>s. snd s > 0 \<and> fst s \<ge> flr \<and> fst s \<le> length f \<and>
      snd s \<le> length f - fst s) slots @ tree_spans root"
  let ?p = "punch_gaps flr (sort live) f"
  have mem: "s \<in> set (sort live)" using s inf by (auto simp: live_def)
  have sorted: "sorted (map fst (sort live))"
    unfolding sorted_map by (rule sorted_wrt_mono_rel[OF _ sorted_sort]) (auto simp: less_eq_prod_def)
  have "\<forall>(off, n) \<in> set (sort live). off + n < 2 ^ 64"
    using assms(1,2) by (auto simp: live_def)
  then have p: "slice (fst ?p) s = slice f s" "fst s + snd s \<le> snd ?p" "length (fst ?p) = length f"
    using punch_gaps_keeps[OF sorted _ _ inf, of flr] mem by blast+
  have "reclaim flr slots root f =
      (if snd ?p < length f then punch_hole (fst ?p) (snd ?p) (length f - snd ?p) else fst ?p)"
    by (simp add: reclaim_def live_def Let_def case_prod_unfold)
  moreover have "sep (snd ?p, n) s" for n using p(2) by (simp add: sep_def)
  ultimately show ?thesis using p inf by (simp add: slice_punch_other)
qed

theorem reclaim_keeps_live_witness:
  "slice (reclaim 4 [(4, 2)] (gallery []) [0, 0, 0, 0, 1, 2, 7, 8]) (4, 2) = [1, 2]"
proof -
  have "tree_spans (gallery []) = []"
    by (simp add: tree_spans_def gallery_def default_node_data_def)
  then show ?thesis
    using reclaim_keeps_live[of "gallery []" "[0, 0, 0, 0, 1, 2, 7, 8]" "(4, 2)" "[(4, 2)]" 4]
    by (simp add: slice_def)
qed

end
