(* ===== verification/Vault_Header.thy ===== *)
theory Vault_Header
  imports Byte_IO
begin

text \<open>
  The plaintext vault header (\<open>src/vault/header.h\<close>, \<open>src/vault/header.cpp\<close>): a 4096-byte table of
  fixed offsets with the KDF parameters, the wrapped master key and the double-buffered
  index slots.
\<close>

section \<open>Sizes, flags and the header structure\<close>

definition KEY_SIZE :: nat where "KEY_SIZE = 32"
definition NONCE_SIZE :: nat where "NONCE_SIZE = 24"
definition TAG_SIZE :: nat where "TAG_SIZE = 16"
definition SALT_SIZE :: nat where "SALT_SIZE = 16"

definition MAGIC :: bytes where "MAGIC = ascii ''OSVAULT'' @ [0]"
definition FORMAT_VERSION :: u16 where "FORMAT_VERSION = 1"
definition HEADER_SIZE :: nat where "HEADER_SIZE = 4096"

definition FLAG_FRAMED_CHUNKS :: u32 where "FLAG_FRAMED_CHUNKS = 1"
definition FLAG_DOMAIN_SEPARATED_KDF :: u32 where "FLAG_DOMAIN_SEPARATED_KDF = 2"
definition FLAG_CONTEXT_BOUND_CHUNKS :: u32 where "FLAG_CONTEXT_BOUND_CHUNKS = 4"
definition FLAG_INDEX_SLOT_MODES :: u32 where "FLAG_INDEX_SLOT_MODES = 8"

record kdf_params =
  kp_t_cost :: u32
  kp_m_cost_kib :: u32
  kp_parallelism :: u32

definition MAX_KDF_T_COST :: u32 where "MAX_KDF_T_COST = 10"
definition MAX_KDF_M_COST_KIB :: u32 where "MAX_KDF_M_COST_KIB = 256 * 1024"
definition MAX_KDF_PARALLELISM :: u32 where "MAX_KDF_PARALLELISM = 16"

record index_slot =
  is_offset :: u64
  is_length :: u64
  is_nonce :: bytes
  is_context_bound :: bool

record header =
  hd_version :: u16
  hd_header_size :: u16
  hd_flags :: u32
  hd_kdf_algo :: byte
  hd_kdf :: kdf_params
  hd_salt :: bytes
  hd_keyfile_required :: byte
  hd_vault_id :: bytes
  hd_mk_nonce :: bytes
  hd_wrapped_master_key :: bytes
  hd_mk_tag :: bytes
  hd_slot_a :: index_slot
  hd_slot_b :: index_slot
  hd_active_slot :: byte

definition framed_chunks :: "header \<Rightarrow> bool" where
  "framed_chunks h \<longleftrightarrow> hd_flags h AND FLAG_FRAMED_CHUNKS \<noteq> 0"

definition domain_separated_kdf :: "header \<Rightarrow> bool" where
  "domain_separated_kdf h \<longleftrightarrow> hd_flags h AND FLAG_DOMAIN_SEPARATED_KDF \<noteq> 0"

definition context_bound_chunks :: "header \<Rightarrow> bool" where
  "context_bound_chunks h \<longleftrightarrow> hd_flags h AND FLAG_CONTEXT_BOUND_CHUNKS \<noteq> 0"

definition has_index_slot_modes :: "header \<Rightarrow> bool" where
  "has_index_slot_modes h \<longleftrightarrow> hd_flags h AND FLAG_INDEX_SLOT_MODES \<noteq> 0"

text \<open>\<open>h.slot[i]\<close> of the two-entry array.\<close>

definition hd_slot :: "header \<Rightarrow> byte \<Rightarrow> index_slot" where
  "hd_slot h i = (if i = 0 then hd_slot_a h else hd_slot_b h)"

definition index_slot_context_bound :: "header \<Rightarrow> byte \<Rightarrow> bool" where
  "index_slot_context_bound h i =
     (if has_index_slot_modes h then is_context_bound (hd_slot h i) else context_bound_chunks h)"

section \<open>Layout\<close>

definition serialize_header :: "header \<Rightarrow> bytes" where
  "serialize_header h = (
     let out = replicate HEADER_SIZE 0;
         out = put_bytes_at out 0 MAGIC;
         out = put_u16_at out 8 (hd_version h);
         out = put_u16_at out 10 (of_nat HEADER_SIZE);
         out = put_u32_at out 12 (hd_flags h);
         out = put_u8_at out 16 (hd_kdf_algo h);
         out = put_u32_at out 17 (kp_t_cost (hd_kdf h));
         out = put_u32_at out 21 (kp_m_cost_kib (hd_kdf h));
         out = put_u32_at out 25 (kp_parallelism (hd_kdf h));
         out = put_bytes_at out 29 (hd_salt h);
         out = put_u8_at out 45 (hd_keyfile_required h);
         out = put_bytes_at out 46 (hd_mk_nonce h);
         out = put_bytes_at out 70 (hd_wrapped_master_key h);
         out = put_bytes_at out 102 (hd_mk_tag h);
         out = put_u64_at out 118 (is_offset (hd_slot_a h));
         out = put_u64_at out 126 (is_length (hd_slot_a h));
         out = put_bytes_at out 134 (is_nonce (hd_slot_a h));
         out = put_u64_at out 166 (is_offset (hd_slot_b h));
         out = put_u64_at out 174 (is_length (hd_slot_b h));
         out = put_bytes_at out 182 (is_nonce (hd_slot_b h));
         out = put_u8_at out 206 (hd_active_slot h);
         out = put_bytes_at out 208 (hd_vault_id h)
     in if has_index_slot_modes h
        then put_u8_at (put_u8_at out 224 (if is_context_bound (hd_slot_a h) then 1 else 0))
               225 (if is_context_bound (hd_slot_b h) then 1 else 0)
        else out)"

definition kdf_params_sane :: "byte \<Rightarrow> kdf_params \<Rightarrow> bool" where
  "kdf_params_sane algo p \<longleftrightarrow> algo = 0 \<and> kp_t_cost p \<ge> 1 \<and> kp_t_cost p \<le> MAX_KDF_T_COST \<and>
     kp_parallelism p \<ge> 1 \<and> kp_parallelism p \<le> MAX_KDF_PARALLELISM \<and>
     kp_m_cost_kib p \<ge> 8 * kp_parallelism p \<and> kp_m_cost_kib p \<le> MAX_KDF_M_COST_KIB"

text \<open>\<open>Header::parse\<close>; the checks stand where the source returns early.\<close>

definition parse_header :: "bytes \<Rightarrow> header option" where
  "parse_header raw = (
     if length raw < HEADER_SIZE then None
     else if get_bytes_at raw 0 (length MAGIC) \<noteq> MAGIC then None
     else let version = get_u16_at raw 8 in
     if version \<noteq> FORMAT_VERSION then None
     else let flags = get_u32_at raw 12;
              algo = raw ! 16;
              kdf = \<lparr>kp_t_cost = get_u32_at raw 17, kp_m_cost_kib = get_u32_at raw 21,
                     kp_parallelism = get_u32_at raw 25\<rparr> in
     if \<not> kdf_params_sane algo kdf then None
     else if raw ! 206 > 1 then None
     else let h = \<lparr>hd_version = version, hd_header_size = get_u16_at raw 10, hd_flags = flags,
            hd_kdf_algo = algo, hd_kdf = kdf, hd_salt = get_bytes_at raw 29 SALT_SIZE,
            hd_keyfile_required = raw ! 45, hd_vault_id = get_bytes_at raw 208 SALT_SIZE,
            hd_mk_nonce = get_bytes_at raw 46 NONCE_SIZE,
            hd_wrapped_master_key = get_bytes_at raw 70 KEY_SIZE,
            hd_mk_tag = get_bytes_at raw 102 TAG_SIZE,
            hd_slot_a = \<lparr>is_offset = get_u64_at raw 118, is_length = get_u64_at raw 126,
              is_nonce = get_bytes_at raw 134 NONCE_SIZE, is_context_bound = False\<rparr>,
            hd_slot_b = \<lparr>is_offset = get_u64_at raw 166, is_length = get_u64_at raw 174,
              is_nonce = get_bytes_at raw 182 NONCE_SIZE, is_context_bound = False\<rparr>,
            hd_active_slot = raw ! 206\<rparr> in
     if has_index_slot_modes h then
       (if raw ! 224 > 1 \<or> raw ! 225 > 1 then None
        else Some (h\<lparr>hd_slot_a := (hd_slot_a h)\<lparr>is_context_bound := (raw ! 224 \<noteq> 0)\<rparr>,
                     hd_slot_b := (hd_slot_b h)\<lparr>is_context_bound := (raw ! 225 \<noteq> 0)\<rparr>\<rparr>))
     else Some (h\<lparr>hd_slot_a := (hd_slot_a h)\<lparr>is_context_bound := context_bound_chunks h\<rparr>,
                  hd_slot_b := (hd_slot_b h)\<lparr>is_context_bound := context_bound_chunks h\<rparr>\<rparr>))"

section \<open>Round trip\<close>

text \<open>A header that the program can hold: arrays of their size, sane parameters, known values.\<close>

definition header_ok :: "header \<Rightarrow> bool" where
  "header_ok h \<longleftrightarrow> hd_version h = FORMAT_VERSION \<and> kdf_params_sane (hd_kdf_algo h) (hd_kdf h) \<and>
     length (hd_salt h) = SALT_SIZE \<and> length (hd_vault_id h) = SALT_SIZE \<and>
     length (hd_mk_nonce h) = NONCE_SIZE \<and> length (hd_wrapped_master_key h) = KEY_SIZE \<and>
     length (hd_mk_tag h) = TAG_SIZE \<and> length (is_nonce (hd_slot_a h)) = NONCE_SIZE \<and>
     length (is_nonce (hd_slot_b h)) = NONCE_SIZE \<and> hd_active_slot h \<le> 1 \<and>
     (\<not> has_index_slot_modes h \<longrightarrow>
        is_context_bound (hd_slot_a h) = context_bound_chunks h \<and>
        is_context_bound (hd_slot_b h) = context_bound_chunks h)"

text \<open>A buffer patched at ascending, non-overlapping offsets.\<close>

definition patch :: "(nat \<times> bytes) list \<Rightarrow> bytes \<Rightarrow> bytes" where
  "patch ps buf = foldl (\<lambda>b (off, bs). put_bytes_at b off bs) buf ps"

definition fits :: "(nat \<times> bytes) list \<Rightarrow> nat \<Rightarrow> bool" where
  "fits ps n \<longleftrightarrow> sorted_wrt (\<lambda>a b. fst a + length (snd a) \<le> fst b) ps \<and>
     (\<forall>(off, bs) \<in> set ps. off + length bs \<le> n)"

lemma length_patch: "fits ps (length buf) \<Longrightarrow> length (patch ps buf) = length buf"
proof (induction ps rule: rev_induct)
  case (snoc p ps)
  then have "fits ps (length buf)" by (auto simp: fits_def sorted_wrt_append)
  with snoc show ?case by (cases p) (simp add: patch_def fits_def)
qed (simp add: patch_def)

lemma get_patch:
  "fits ps (length buf) \<Longrightarrow> (off, bs) \<in> set ps \<Longrightarrow> get_bytes_at (patch ps buf) off (length bs) = bs"
proof (induction ps rule: rev_induct)
  case (snoc p ps)
  obtain o1 b1 where p: "p = (o1, b1)" by fastforce
  have f: "fits ps (length buf)" "o1 + length b1 \<le> length buf"
    using snoc.prems(1) by (auto simp: fits_def sorted_wrt_append p)
  have len: "length (patch ps buf) = length buf" by (rule length_patch[OF f(1)])
  have patch: "patch (ps @ [p]) buf = put_bytes_at (patch ps buf) o1 b1" by (simp add: patch_def p)
  show ?case
  proof (cases "(off, bs) = p")
    case True
    then show ?thesis using f(2) len unfolding patch by (simp add: p)
  next
    case False
    then have mem: "(off, bs) \<in> set ps" using snoc.prems(2) by simp
    then have "off + length bs \<le> o1" using snoc.prems(1) by (fastforce simp: fits_def sorted_wrt_append p)
    then show ?thesis using snoc.IH[OF f(1) mem] f(2) len unfolding patch by simp
  qed
qed simp

lemmas sizes = KEY_SIZE_def NONCE_SIZE_def TAG_SIZE_def SALT_SIZE_def HEADER_SIZE_def

lemma length_MAGIC [simp]: "length MAGIC = 8"
  by (simp add: MAGIC_def ascii_def)

text \<open>The header is such a buffer.\<close>

definition header_patches :: "header \<Rightarrow> (nat \<times> bytes) list" where
  "header_patches h =
     [(0, MAGIC), (8, le_bytes 2 (hd_version h)), (10, le_bytes 2 (of_nat HEADER_SIZE :: u16)),
      (12, le_bytes 4 (hd_flags h)), (16, [hd_kdf_algo h]),
      (17, le_bytes 4 (kp_t_cost (hd_kdf h))), (21, le_bytes 4 (kp_m_cost_kib (hd_kdf h))),
      (25, le_bytes 4 (kp_parallelism (hd_kdf h))), (29, hd_salt h), (45, [hd_keyfile_required h]),
      (46, hd_mk_nonce h), (70, hd_wrapped_master_key h), (102, hd_mk_tag h),
      (118, le_bytes 8 (is_offset (hd_slot_a h))), (126, le_bytes 8 (is_length (hd_slot_a h))),
      (134, is_nonce (hd_slot_a h)), (166, le_bytes 8 (is_offset (hd_slot_b h))),
      (174, le_bytes 8 (is_length (hd_slot_b h))), (182, is_nonce (hd_slot_b h)),
      (206, [hd_active_slot h]), (208, hd_vault_id h)] @
     (if has_index_slot_modes h
      then [(224, [if is_context_bound (hd_slot_a h) then 1 else 0]),
            (225, [if is_context_bound (hd_slot_b h) then 1 else 0])] else [])"

text \<open>One more patch, whichever writer applies it.\<close>

definition inside :: "(nat \<times> bytes) list \<Rightarrow> nat \<Rightarrow> bool" where
  "inside ps n = list_all (\<lambda>(off, bs). off + length bs \<le> n) ps"

lemma length_patch_inside: "inside ps (length buf) \<Longrightarrow> length (patch ps buf) = length buf"
  by (induction ps rule: rev_induct) (auto simp: patch_def inside_def)

lemma patch_snoc: "patch (ps @ [(off, bs)]) buf = put_bytes_at (patch ps buf) off bs"
  by (simp add: patch_def)

lemma patch_step:
  "put_bytes_at (patch ps buf) off bs = patch (ps @ [(off, bs)]) buf"
  "inside ps (length buf) \<Longrightarrow> off + 1 \<le> length buf \<Longrightarrow>
     put_u8_at (patch ps buf) off v = patch (ps @ [(off, [v])]) buf"
  "inside ps (length buf) \<Longrightarrow> off + 2 \<le> length buf \<Longrightarrow>
     put_u16_at (patch ps buf) off w = patch (ps @ [(off, le_bytes 2 w)]) buf"
  "inside ps (length buf) \<Longrightarrow> off + 4 \<le> length buf \<Longrightarrow>
     put_u32_at (patch ps buf) off x = patch (ps @ [(off, le_bytes 4 x)]) buf"
  "inside ps (length buf) \<Longrightarrow> off + 8 \<le> length buf \<Longrightarrow>
     put_u64_at (patch ps buf) off y = patch (ps @ [(off, le_bytes 8 y)]) buf"
  by (simp_all add: patch_snoc length_patch_inside put_u8_at_slice put_u16_at_slice
      put_u32_at_slice put_u64_at_slice)

lemma patch_Nil: "buf = patch [] buf"
  by (simp add: patch_def)

lemma header_fits: "header_ok h \<Longrightarrow> fits (header_patches h) (length (replicate HEADER_SIZE (0 :: byte)))"
  by (auto simp: fits_def header_patches_def header_ok_def sizes)

lemma serialize_patches:
  assumes h: "header_ok h"
  shows "serialize_header h = patch (header_patches h) (replicate HEADER_SIZE 0)"
proof -
  have lens: "length (hd_salt h) = 16" "length (hd_vault_id h) = 16" "length (hd_mk_nonce h) = 24"
    "length (hd_wrapped_master_key h) = 32" "length (hd_mk_tag h) = 16"
    "length (is_nonce (hd_slot_a h)) = 24" "length (is_nonce (hd_slot_b h)) = 24"
    using h by (simp_all add: header_ok_def sizes)
  define zeros where "zeros = replicate HEADER_SIZE (0 :: byte)"
  have z: "replicate HEADER_SIZE 0 = patch [] zeros" "length zeros = 4096"
    by (simp_all add: zeros_def patch_def HEADER_SIZE_def)
  have "serialize_header h = patch (header_patches h) zeros"
    unfolding serialize_header_def z(1)
    by (simp add: Let_def patch_step inside_def z(2) lens header_patches_def)
  then show ?thesis by (simp add: zeros_def)
qed

lemma length_serialize_header: "header_ok h \<Longrightarrow> length (serialize_header h) = HEADER_SIZE"
  using length_patch[OF header_fits] by (simp add: serialize_patches)

lemma get_header:
  "header_ok h \<Longrightarrow> (off, bs) \<in> set (header_patches h) \<Longrightarrow> length bs = n \<Longrightarrow>
   get_bytes_at (serialize_header h) off n = bs"
  using get_patch[OF header_fits] by (auto simp: serialize_patches)

lemma nth_header:
  assumes "header_ok h" "(off, [b]) \<in> set (header_patches h)" "off < HEADER_SIZE"
  shows "serialize_header h ! off = b"
proof -
  have "get_bytes_at (serialize_header h) off 1 = [b]" using get_header[OF assms(1,2)] by simp
  then show ?thesis
    using length_serialize_header[OF assms(1)] assms(3)
    by (cases "drop off (serialize_header h)") (auto simp: get_bytes_at_def hd_drop_conv_nth[symmetric])
qed

lemma parse_serialize:
  assumes h: "header_ok h"
  shows "parse_header (serialize_header h) = Some (h\<lparr>hd_header_size := of_nat HEADER_SIZE\<rparr>)"
proof -
  let ?S = "serialize_header h"
  have len: "length ?S = 4096" using length_serialize_header[OF h] by (simp add: HEADER_SIZE_def)
  have bytes: "get_bytes_at ?S 0 8 = MAGIC" "get_bytes_at ?S 29 16 = hd_salt h"
    "get_bytes_at ?S 46 24 = hd_mk_nonce h" "get_bytes_at ?S 70 32 = hd_wrapped_master_key h"
    "get_bytes_at ?S 102 16 = hd_mk_tag h" "get_bytes_at ?S 134 24 = is_nonce (hd_slot_a h)"
    "get_bytes_at ?S 182 24 = is_nonce (hd_slot_b h)" "get_bytes_at ?S 208 16 = hd_vault_id h"
    using h by (intro get_header[OF h]; simp add: header_patches_def header_ok_def sizes)+
  have word: "get_u16_at ?S 8 = hd_version h" "get_u16_at ?S 10 = of_nat HEADER_SIZE"
    "get_u32_at ?S 12 = hd_flags h" "get_u32_at ?S 17 = kp_t_cost (hd_kdf h)"
    "get_u32_at ?S 21 = kp_m_cost_kib (hd_kdf h)" "get_u32_at ?S 25 = kp_parallelism (hd_kdf h)"
    "get_u64_at ?S 118 = is_offset (hd_slot_a h)" "get_u64_at ?S 126 = is_length (hd_slot_a h)"
    "get_u64_at ?S 166 = is_offset (hd_slot_b h)" "get_u64_at ?S 174 = is_length (hd_slot_b h)"
    using len get_header[OF h, of 8 "le_bytes 2 (hd_version h)" 2]
      get_header[OF h, of 10 "le_bytes 2 (of_nat HEADER_SIZE :: u16)" 2]
      get_header[OF h, of 12 "le_bytes 4 (hd_flags h)" 4]
      get_header[OF h, of 17 "le_bytes 4 (kp_t_cost (hd_kdf h))" 4]
      get_header[OF h, of 21 "le_bytes 4 (kp_m_cost_kib (hd_kdf h))" 4]
      get_header[OF h, of 25 "le_bytes 4 (kp_parallelism (hd_kdf h))" 4]
      get_header[OF h, of 118 "le_bytes 8 (is_offset (hd_slot_a h))" 8]
      get_header[OF h, of 126 "le_bytes 8 (is_length (hd_slot_a h))" 8]
      get_header[OF h, of 166 "le_bytes 8 (is_offset (hd_slot_b h))" 8]
      get_header[OF h, of 174 "le_bytes 8 (is_length (hd_slot_b h))" 8]
    by (simp_all add: header_patches_def get_u16_at_slice get_u32_at_slice get_u64_at_slice
        le_value_le_bytes)
  have byte: "?S ! 16 = hd_kdf_algo h" "?S ! 45 = hd_keyfile_required h" "?S ! 206 = hd_active_slot h"
    by (rule nth_header[OF h]; simp add: header_patches_def sizes)+
  have modes: "?S ! 224 = (if is_context_bound (hd_slot_a h) then 1 else 0)"
    "?S ! 225 = (if is_context_bound (hd_slot_b h) then 1 else 0)" if "has_index_slot_modes h"
    using that by (intro nth_header[OF h]; simp add: header_patches_def sizes)+
  have kdf: "\<lparr>kp_t_cost = kp_t_cost (hd_kdf h), kp_m_cost_kib = kp_m_cost_kib (hd_kdf h),
      kp_parallelism = kp_parallelism (hd_kdf h)\<rparr> = hd_kdf h" by simp
  show ?thesis
    using h modes
    by (cases "has_index_slot_modes h")
       (auto simp: parse_header_def Let_def len bytes word byte kdf sizes header_ok_def not_less
          has_index_slot_modes_def context_bound_chunks_def intro!: header.equality index_slot.equality)
qed

text \<open>What the parser accepts.\<close>

lemma parse_header_post:
  assumes "parse_header raw = Some h"
  shows "header_ok h" "HEADER_SIZE \<le> length raw" "get_bytes_at raw 0 8 = MAGIC"
  using assms
  by (auto simp: parse_header_def Let_def header_ok_def sizes not_less has_index_slot_modes_def
      context_bound_chunks_def FORMAT_VERSION_def split: if_splits)

lemma kdf_params_sane_bounds:
  assumes "kdf_params_sane algo p"
  shows "unat (kp_t_cost p) \<in> {1..10}" "unat (kp_parallelism p) \<in> {1..16}"
    "unat (kp_m_cost_kib p) \<in> {8 * unat (kp_parallelism p)..262144}"
proof -
  note k = assms[unfolded kdf_params_sane_def MAX_KDF_T_COST_def MAX_KDF_PARALLELISM_def
      MAX_KDF_M_COST_KIB_def word_le_nat_alt]
  show "unat (kp_t_cost p) \<in> {1..10}" "unat (kp_parallelism p) \<in> {1..16}" using k by simp_all
  then show "unat (kp_m_cost_kib p) \<in> {8 * unat (kp_parallelism p)..262144}"
    using k by (simp add: unat_word_ariths(2))
qed

section \<open>Properties\<close>

definition sample_header :: header where
  "sample_header = \<lparr>hd_version = 1, hd_header_size = 4096, hd_flags = 15, hd_kdf_algo = 0,
     hd_kdf = \<lparr>kp_t_cost = 3, kp_m_cost_kib = 65536, kp_parallelism = 4\<rparr>,
     hd_salt = replicate 16 1, hd_keyfile_required = 1, hd_vault_id = replicate 16 2,
     hd_mk_nonce = replicate 24 3, hd_wrapped_master_key = replicate 32 4,
     hd_mk_tag = replicate 16 5,
     hd_slot_a = \<lparr>is_offset = 4096, is_length = 77, is_nonce = replicate 24 6, is_context_bound = True\<rparr>,
     hd_slot_b = \<lparr>is_offset = 9000, is_length = 99, is_nonce = replicate 24 7, is_context_bound = False\<rparr>,
     hd_active_slot = 1\<rparr>"

lemma sample_header_ok: "header_ok sample_header"
  by (simp add: sample_header_def header_ok_def sizes FORMAT_VERSION_def kdf_params_sane_def
      MAX_KDF_T_COST_def MAX_KDF_PARALLELISM_def MAX_KDF_M_COST_KIB_def has_index_slot_modes_def
      FLAG_INDEX_SLOT_MODES_def)

text \<open>
  Property C12.  Writing a header and parsing the 4096 bytes back gives the same header, field by
  field: the table of offsets has no two fields that overlap, and the parser reads each field
  where the writer put it.  (The stored \<open>header_size\<close> is always written as 4096.)
\<close>

theorem header_roundtrip:
  assumes "header_ok h"
  shows "length (serialize_header h) = HEADER_SIZE \<and>
    parse_header (serialize_header h) = Some (h\<lparr>hd_header_size := 4096\<rparr>)"
  using length_serialize_header[OF assms] parse_serialize[OF assms] by (simp_all add: HEADER_SIZE_def)

theorem header_roundtrip_witness:
  "parse_header (serialize_header sample_header) = Some sample_header"
  using header_roundtrip[OF sample_header_ok] by (simp add: sample_header_def)

text \<open>
  Property C13.  Whatever file is opened, a header that the parser accepts came from at least 4096
  bytes starting with the magic, has a known version, an active slot that indexes the two-entry
  array, arrays of their exact sizes, and Argon2 parameters inside the policy window: a work area
  of at most 256 MiB, at most 16 lanes with at least 8 blocks each (the product does not wrap) and
  at most 10 passes.  Rewriting it keeps every field.
\<close>

theorem accepted_header_is_safe:
  assumes "parse_header raw = Some h"
  shows "HEADER_SIZE \<le> length raw \<and> take 8 raw = MAGIC \<and> header_ok h \<and> hd_active_slot h \<le> 1 \<and>
    unat (kp_t_cost (hd_kdf h)) \<in> {1..10} \<and> unat (kp_parallelism (hd_kdf h)) \<in> {1..16} \<and>
    unat (kp_m_cost_kib (hd_kdf h)) \<in> {8 * unat (kp_parallelism (hd_kdf h))..262144} \<and>
    parse_header (serialize_header h) = Some (h\<lparr>hd_header_size := 4096\<rparr>)"
proof -
  note post = parse_header_post[OF assms]
  have "kdf_params_sane (hd_kdf_algo h) (hd_kdf h)" "hd_active_slot h \<le> 1"
    using post(1) by (simp_all add: header_ok_def)
  then show ?thesis
    using post kdf_params_sane_bounds parse_serialize[OF post(1)]
    by (simp add: HEADER_SIZE_def get_bytes_at_def)
qed

theorem accepted_header_is_safe_witness:
  "header_ok sample_header \<and> take 8 (serialize_header sample_header) = MAGIC"
proof -
  have "parse_header (serialize_header sample_header) = Some sample_header"
    using parse_serialize[OF sample_header_ok] by (simp add: sample_header_def HEADER_SIZE_def)
  from accepted_header_is_safe[OF this] show ?thesis by simp
qed

end
