(* ===== verification/Aead.thy ===== *)
theory Aead
  imports Vault_Header Index_Format
begin

text \<open>
  Authenticated encryption of chunks (\<open>src/crypto/aead.h\<close>, \<open>src/crypto/aead.cpp\<close>) and the
  Argon2 input encoding (\<open>src/crypto/kdf.cpp\<close>).  Monocypher's primitives are parameters: a
  record holds the lock and unlock functions and \<open>crypto_argon2\<close>, and \<open>aead_laws\<close> states what
  their documentation promises.  \<open>fill_random\<close> is the value the caller obtained, \<open>None\<close> when
  the OS source failed.
\<close>

section \<open>Monocypher\<close>

text \<open>
  \<open>crypto_aead_lock\<close> maps key, nonce, associated data and plaintext to ciphertext and tag;
  \<open>crypto_aead_unlock\<close> takes the tag as well and returns \<open>None\<close> for -1.
\<close>

record aead_prims =
  ap_lock :: "bytes \<Rightarrow> bytes \<Rightarrow> bytes \<Rightarrow> bytes \<Rightarrow> bytes \<times> bytes"
  ap_unlock :: "bytes \<Rightarrow> bytes \<Rightarrow> bytes \<Rightarrow> bytes \<Rightarrow> bytes \<Rightarrow> bytes option"

text \<open>
  The stream cipher keeps the length, the tag has 16 bytes, and unlocking succeeds with a
  plaintext exactly when locking that plaintext gives the ciphertext and the tag.
\<close>

definition aead_laws :: "aead_prims \<Rightarrow> bool" where
  "aead_laws A \<longleftrightarrow>
     (\<forall>k n ad p. length (fst (ap_lock A k n ad p)) = length p \<and>
                 length (snd (ap_lock A k n ad p)) = TAG_SIZE) \<and>
     (\<forall>k n ad t c p. ap_unlock A k n ad t c = Some p \<longleftrightarrow> ap_lock A k n ad p = (c, t))"

section \<open>Associated data\<close>

datatype chunk_domain = DataDomain | ThumbDomain | PosterDomain | VideoDomain | IndexDomain | MkWrapDomain

fun domain_byte :: "chunk_domain \<Rightarrow> byte" where
  "domain_byte DataDomain = 0"
| "domain_byte ThumbDomain = 1"
| "domain_byte PosterDomain = 2"
| "domain_byte VideoDomain = 3"
| "domain_byte IndexDomain = 4"
| "domain_byte MkWrapDomain = 5"

definition CHUNK_AD_VERSION :: byte where "CHUNK_AD_VERSION = 1"
definition AD_SIZE :: nat where "AD_SIZE = 1 + 1 + NODE_ID_SIZE + NODE_ID_SIZE + 4"

record chunk_tag =
  ct_domain :: chunk_domain
  ct_owner :: bytes
  ct_record :: bytes
  ct_sequence :: u32
  ct_context_bound :: bool

definition default_chunk_tag :: chunk_tag where
  "default_chunk_tag = \<lparr>ct_domain = DataDomain, ct_owner = zero_id, ct_record = zero_id,
     ct_sequence = 0, ct_context_bound = False\<rparr>"

definition build_chunk_ad :: "chunk_tag \<Rightarrow> bytes" where
  "build_chunk_ad t =
     [domain_byte (ct_domain t), CHUNK_AD_VERSION]
       @ map (\<lambda>i. ct_owner t ! i) [0..<NODE_ID_SIZE]
       @ map (\<lambda>i. ct_record t ! i) [0..<NODE_ID_SIZE]
       @ map (\<lambda>i. ucast (drop_bit (8 * i) (ct_sequence t))) [0..<4]"

text \<open>The span every caller passes: the 38 bytes, or nothing for a legacy record.\<close>

definition tag_ad :: "chunk_tag \<Rightarrow> bytes" where
  "tag_ad t = (if ct_context_bound t then build_chunk_ad t else [])"

definition tag_ok :: "chunk_tag \<Rightarrow> bool" where
  "tag_ok t \<longleftrightarrow> length (ct_owner t) = NODE_ID_SIZE \<and> length (ct_record t) = NODE_ID_SIZE"

lemma NODE_ID_SIZE_16: "NODE_ID_SIZE = 16"
  by (simp add: NODE_ID_SIZE_def)

lemma build_chunk_ad_ok:
  "tag_ok t \<Longrightarrow> build_chunk_ad t = [domain_byte (ct_domain t), CHUNK_AD_VERSION]
       @ ct_owner t @ ct_record t @ le_bytes 4 (ct_sequence t)"
  by (simp add: build_chunk_ad_def tag_ok_def le_bytes_def map_nth flip: NODE_ID_SIZE_16)
     (metis map_nth)

lemma length_build_chunk_ad: "length (build_chunk_ad t) = AD_SIZE"
  by (simp add: build_chunk_ad_def AD_SIZE_def)

lemma domain_byte_inj: "domain_byte a = domain_byte b \<longleftrightarrow> a = b"
  by (cases a; cases b) simp_all

lemma le_bytes_inj: "LENGTH('a::len) = 8 * n \<Longrightarrow> le_bytes n (v :: 'a word) = le_bytes n w \<longleftrightarrow> v = w"
  by (metis le_value_le_bytes)

lemma build_chunk_ad_eq:
  assumes "tag_ok s" "tag_ok t"
  shows "build_chunk_ad s = build_chunk_ad t \<longleftrightarrow>
     ct_domain s = ct_domain t \<and> ct_owner s = ct_owner t \<and> ct_record s = ct_record t \<and>
     ct_sequence s = ct_sequence t"
  using assms
  by (auto simp: build_chunk_ad_ok domain_byte_inj append_eq_append_conv le_bytes_inj tag_ok_def)

lemma tag_ad_eq:
  assumes "tag_ok s" "tag_ok t" "tag_ad s = tag_ad t"
  shows "ct_context_bound s = ct_context_bound t \<and> (ct_context_bound s \<longrightarrow> s = t)"
proof -
  have ne: "build_chunk_ad u \<noteq> []" "[] \<noteq> build_chunk_ad u" for u by (simp_all add: build_chunk_ad_def)
  show ?thesis
    using assms by (auto simp: tag_ad_def build_chunk_ad_eq ne split: if_splits intro: chunk_tag.equality)
qed

section \<open>Chunks with the nonce in front\<close>

definition encrypt_chunk :: "aead_prims \<Rightarrow> bytes option \<Rightarrow> bytes \<Rightarrow> bytes \<Rightarrow> bytes \<Rightarrow> bytes option" where
  "encrypt_chunk A random key plaintext ad =
     (case random of
        None \<Rightarrow> None
      | Some nonce \<Rightarrow> (let (cipher, tag) = ap_lock A key nonce ad plaintext
                       in Some (nonce @ cipher @ tag)))"

definition chunk_plaintext_len :: "nat \<Rightarrow> nat" where
  "chunk_plaintext_len n = (if n < NONCE_SIZE + TAG_SIZE then 0 else n - NONCE_SIZE - TAG_SIZE)"

text \<open>
  \<open>decrypt_chunk_to\<close> works on the caller's buffer: the result is the returned flag and what the
  buffer then holds.
\<close>

definition decrypt_chunk_to :: "aead_prims \<Rightarrow> bytes \<Rightarrow> bytes \<Rightarrow> bytes \<Rightarrow> bytes \<Rightarrow> bool \<times> bytes" where
  "decrypt_chunk_to A key chunk out ad =
     (if length chunk < NONCE_SIZE + TAG_SIZE then (False, out)
      else let cipher_len = length chunk - NONCE_SIZE - TAG_SIZE in
        if length out \<noteq> cipher_len then (False, out)
        else let nonce = take NONCE_SIZE chunk;
                 cipher = take cipher_len (drop NONCE_SIZE chunk);
                 tag = take TAG_SIZE (drop (NONCE_SIZE + cipher_len) chunk)
             in case ap_unlock A key nonce ad tag cipher of
                  None \<Rightarrow> (False, replicate (length out) 0)
                | Some plain \<Rightarrow> (True, plain))"

text \<open>\<open>decrypt_chunk\<close>: \<open>None\<close> stands for \<open>false\<close> with the output cleared.\<close>

definition decrypt_chunk :: "aead_prims \<Rightarrow> bytes \<Rightarrow> bytes \<Rightarrow> bytes \<Rightarrow> bytes option" where
  "decrypt_chunk A key chunk ad =
     (case decrypt_chunk_to A key chunk (replicate (chunk_plaintext_len (length chunk)) 0) ad of
        (True, plain) \<Rightarrow> Some plain
      | (False, _) \<Rightarrow> None)"

section \<open>Detached form\<close>

definition seal :: "aead_prims \<Rightarrow> bytes \<Rightarrow> bytes \<Rightarrow> bytes \<Rightarrow> bytes \<Rightarrow> bytes" where
  "seal A key nonce plaintext ad =
     (let (cipher, tag) = ap_lock A key nonce ad plaintext in cipher @ tag)"

definition open_to :: "aead_prims \<Rightarrow> bytes \<Rightarrow> bytes \<Rightarrow> bytes \<Rightarrow> bytes \<Rightarrow> bytes \<Rightarrow> bool \<times> bytes" where
  "open_to A key nonce sealed out ad =
     (if length sealed < TAG_SIZE then (False, out)
      else let cipher_len = length sealed - TAG_SIZE in
        if length out \<noteq> cipher_len then (False, out)
        else case ap_unlock A key nonce ad (take TAG_SIZE (drop cipher_len sealed)) (take cipher_len sealed) of
               None \<Rightarrow> (False, replicate (length out) 0)
             | Some plain \<Rightarrow> (True, plain))"

definition open_sealed :: "aead_prims \<Rightarrow> bytes \<Rightarrow> bytes \<Rightarrow> bytes \<Rightarrow> bytes \<Rightarrow> bytes option" where
  "open_sealed A key nonce sealed ad =
     (case open_to A key nonce sealed
             (replicate (if length sealed < TAG_SIZE then 0 else length sealed - TAG_SIZE) 0) ad of
        (True, plain) \<Rightarrow> Some plain
      | (False, _) \<Rightarrow> None)"

section \<open>What the wrappers guarantee\<close>

lemma lock_lengths:
  "aead_laws A \<Longrightarrow> ap_lock A k n ad p = (c, t) \<Longrightarrow> length c = length p \<and> length t = TAG_SIZE"
  unfolding aead_laws_def by (metis fst_conv snd_conv)

lemma unlock_iff:
  "aead_laws A \<Longrightarrow> ap_unlock A k n ad t c = Some p \<longleftrightarrow> ap_lock A k n ad p = (c, t)"
  by (simp add: aead_laws_def)

lemma length_encrypt_chunk:
  assumes "aead_laws A" "encrypt_chunk A (Some nonce) key p ad = Some c" "length nonce = NONCE_SIZE"
  shows "length c = NONCE_SIZE + length p + TAG_SIZE"
  using assms lock_lengths[OF assms(1)]
  by (auto simp: encrypt_chunk_def split: prod.splits)

text \<open>Decryption accepts exactly the chunks that encryption produces.\<close>

lemma decrypt_chunk_iff:
  assumes A: "aead_laws A"
  shows "decrypt_chunk A key c ad = Some p \<longleftrightarrow>
    (\<exists>nonce. length nonce = NONCE_SIZE \<and> encrypt_chunk A (Some nonce) key p ad = Some c)"
proof
  assume d: "decrypt_chunk A key c ad = Some p"
  define n where "n = length c - NONCE_SIZE - TAG_SIZE"
  have len: "NONCE_SIZE + TAG_SIZE \<le> length c"
    and u: "ap_unlock A key (take NONCE_SIZE c) ad (take TAG_SIZE (drop (NONCE_SIZE + n) c))
              (take n (drop NONCE_SIZE c)) = Some p"
    using d by (auto simp: decrypt_chunk_def decrypt_chunk_to_def chunk_plaintext_len_def Let_def n_def
        split: prod.splits bool.splits if_splits option.splits)
  have "c = take NONCE_SIZE c @ take n (drop NONCE_SIZE c) @ take TAG_SIZE (drop (NONCE_SIZE + n) c)"
  proof -
    have "length (drop (NONCE_SIZE + n) c) \<le> TAG_SIZE" using len by (simp add: n_def)
    then have "take TAG_SIZE (drop (NONCE_SIZE + n) c) = drop n (drop NONCE_SIZE c)"
      by (simp add: add.commute)
    then show ?thesis by (simp only: append_take_drop_id)
  qed
  then have "encrypt_chunk A (Some (take NONCE_SIZE c)) key p ad = Some c"
    using u by (simp add: unlock_iff[OF A] encrypt_chunk_def)
  then show "\<exists>nonce. length nonce = NONCE_SIZE \<and> encrypt_chunk A (Some nonce) key p ad = Some c"
    using len by (intro exI[of _ "take NONCE_SIZE c"]) simp
next
  assume "\<exists>nonce. length nonce = NONCE_SIZE \<and> encrypt_chunk A (Some nonce) key p ad = Some c"
  then obtain nonce where n: "length nonce = NONCE_SIZE" "encrypt_chunk A (Some nonce) key p ad = Some c"
    by blast
  obtain ci t where l: "ap_lock A key nonce ad p = (ci, t)" by fastforce
  then have c: "c = nonce @ ci @ t" using n(2) by (simp add: encrypt_chunk_def)
  have "length ci = length p" "length t = TAG_SIZE" using lock_lengths[OF A l] by simp_all
  then show "decrypt_chunk A key c ad = Some p"
    using n(1) l by (simp add: decrypt_chunk_def decrypt_chunk_to_def chunk_plaintext_len_def c
        unlock_iff[OF A, symmetric])
qed

lemma open_sealed_iff:
  assumes A: "aead_laws A"
  shows "open_sealed A key nonce s ad = Some p \<longleftrightarrow> seal A key nonce p ad = s"
proof
  assume d: "open_sealed A key nonce s ad = Some p"
  define n where "n = length s - TAG_SIZE"
  have len: "TAG_SIZE \<le> length s"
    and u: "ap_unlock A key nonce ad (take TAG_SIZE (drop n s)) (take n s) = Some p"
    using d by (auto simp: open_sealed_def open_to_def Let_def n_def
        split: prod.splits bool.splits if_splits option.splits)
  have "take TAG_SIZE (drop n s) = drop n s" using len by (simp add: n_def)
  then show "seal A key nonce p ad = s" using u by (simp add: unlock_iff[OF A] seal_def)
next
  assume s: "seal A key nonce p ad = s"
  obtain c t where l: "ap_lock A key nonce ad p = (c, t)" by fastforce
  have "length c = length p" "length t = TAG_SIZE" using lock_lengths[OF A l] by simp_all
  then show "open_sealed A key nonce s ad = Some p"
    using l s[unfolded seal_def l, simplified, symmetric]
    by (simp add: open_sealed_def open_to_def unlock_iff[OF A, symmetric])
qed

lemma decrypt_chunk_to_failure:
  assumes "decrypt_chunk_to A key chunk out ad = (False, out')"
  shows "out' = (if length chunk < NONCE_SIZE + TAG_SIZE \<or>
                    length out \<noteq> length chunk - NONCE_SIZE - TAG_SIZE then out
                 else replicate (length out) 0)"
  using assms by (auto simp: decrypt_chunk_to_def Let_def split: if_splits option.splits)

section \<open>Argon2 input\<close>

datatype kdf_input_format = LegacyConcat | DomainSeparatedV2

definition kdf_domain :: bytes where
  "kdf_domain = ascii ''OSV-KDF-INPUT-2'' @ [0]"

definition kdf_secret :: "kdf_input_format \<Rightarrow> bytes \<Rightarrow> bytes \<Rightarrow> bytes" where
  "kdf_secret format password keyfile =
     (if format = DomainSeparatedV2
      then kdf_domain @ le_bytes 8 (of_nat (length password) :: u64)
             @ le_bytes 8 (of_nat (length keyfile) :: u64) @ password @ keyfile
      else password @ keyfile)"

definition max_argon_input :: nat where "max_argon_input = 2 ^ 32 - 1"

text \<open>
  \<open>argon2 blocks passes lanes pass salt\<close> is \<open>crypto_argon2\<close> for 32 output bytes.  The size
  tests are written in the order of the source, so that no subtraction goes below zero.
\<close>

type_synonym argon2 = "u32 \<Rightarrow> u32 \<Rightarrow> u32 \<Rightarrow> bytes \<Rightarrow> bytes \<Rightarrow> bytes"

definition derive_key ::
  "argon2 \<Rightarrow> bytes \<Rightarrow> bytes \<Rightarrow> bytes \<Rightarrow> kdf_params \<Rightarrow> kdf_input_format \<Rightarrow> bytes option" where
  "derive_key argon2 password keyfile salt p format =
     (if kp_t_cost p = 0 \<or> kp_t_cost p > MAX_KDF_T_COST \<or>
         kp_parallelism p = 0 \<or> kp_parallelism p > MAX_KDF_PARALLELISM \<or>
         kp_m_cost_kib p < 8 * kp_parallelism p \<or> kp_m_cost_kib p > MAX_KDF_M_COST_KIB then None
      else let prefix_size = (if format = DomainSeparatedV2 then length kdf_domain + 8 * 2 else 0) in
        if length password > max_argon_input \<or> length keyfile > max_argon_input \<or>
           prefix_size > max_argon_input - length password \<or>
           length keyfile > max_argon_input - prefix_size - length password then None
        else Some (argon2 (kp_m_cost_kib p) (kp_t_cost p) (kp_parallelism p)
                     (kdf_secret format password keyfile) salt))"

lemma length_kdf_domain [simp]: "length kdf_domain = 16"
  by (simp add: kdf_domain_def ascii_def)

lemma kdf_secret_inj:
  assumes "length p < 2 ^ 64" "length p' < 2 ^ 64"
    and "kdf_secret DomainSeparatedV2 p k = kdf_secret DomainSeparatedV2 p' k'"
  shows "p = p' \<and> k = k'"
proof -
  have "le_bytes 8 (of_nat (length p) :: u64) = le_bytes 8 (of_nat (length p') :: u64)"
    and app: "p @ k = p' @ k'"
    using assms(3) by (simp_all add: kdf_secret_def append_eq_append_conv)
  then have "(of_nat (length p) :: u64) = of_nat (length p')" by (simp add: le_bytes_inj)
  then have "unat (of_nat (length p) :: u64) = unat (of_nat (length p') :: u64)" by simp
  then have "length p = length p'"
    using assms(1,2) by (simp add: unat_of_nat_small)
  then show ?thesis using app by simp
qed

lemma word_ge_1: "x \<noteq> 0 \<longleftrightarrow> 1 \<le> x" for x :: "'a::len word"
  by (simp add: word_le_nat_alt Suc_le_eq unat_gt_0)

lemma derive_key_params:
  "derive_key f p k s params fmt = Some key \<Longrightarrow>
     kdf_params_sane 0 params \<and> key = f (kp_m_cost_kib params) (kp_t_cost params)
       (kp_parallelism params) (kdf_secret fmt p k) s \<and>
     length (kdf_secret fmt p k) \<le> max_argon_input"
  by (auto simp: derive_key_def Let_def kdf_params_sane_def kdf_secret_def max_argon_input_def not_less
      word_ge_1[symmetric] split: if_splits)

section \<open>Properties\<close>

text \<open>A concrete instance of the primitives, for the witnesses.\<close>

definition sample_lock :: "bytes \<Rightarrow> bytes \<Rightarrow> bytes \<Rightarrow> bytes \<Rightarrow> bytes \<times> bytes" where
  "sample_lock k n ad p = (p, replicate TAG_SIZE (sum_list (k @ n @ ad @ p)))"

definition sample_aead :: aead_prims where
  "sample_aead = \<lparr>ap_lock = sample_lock,
     ap_unlock = (\<lambda>k n ad t c. if sample_lock k n ad c = (c, t) then Some c else None)\<rparr>"

lemma sample_aead_laws: "aead_laws sample_aead"
  by (auto simp: aead_laws_def sample_aead_def sample_lock_def)

definition sample_tag :: chunk_tag where
  "sample_tag = \<lparr>ct_domain = VideoDomain, ct_owner = replicate 16 1, ct_record = replicate 16 2,
     ct_sequence = 5, ct_context_bound = True\<rparr>"

text \<open>
  A record sealed for one identity opens with its plaintext under that identity.  If
  it opens at all under the associated data of another well-formed identity, then either the two
  identities are the same one (or both are contextless legacy records) and the plaintext is the
  original, or the two calls of the primitive are a collision of the authenticator: different
  associated data with the same ciphertext and tag.  The 38-byte encoding itself never confuses
  two identities.
\<close>

theorem chunk_bound_to_identity:
  assumes "aead_laws A" "tag_ok s" "tag_ok t" "length nonce = NONCE_SIZE"
    and "encrypt_chunk A (Some nonce) key p (tag_ad s) = Some c"
  shows "decrypt_chunk A key c (tag_ad s) = Some p \<and>
    (\<forall>q. decrypt_chunk A key c (tag_ad t) = Some q \<longrightarrow>
       (ct_context_bound s = ct_context_bound t \<and> (ct_context_bound s \<longrightarrow> s = t) \<and> q = p) \<or>
       (tag_ad s \<noteq> tag_ad t \<and>
        ap_lock A key nonce (tag_ad s) p = ap_lock A key nonce (tag_ad t) q))"
proof -
  note A = assms(1)
  obtain ci g where l: "ap_lock A key nonce (tag_ad s) p = (ci, g)" by fastforce
  then have c: "c = nonce @ ci @ g" using assms(5) by (simp add: encrypt_chunk_def)
  have lens: "length g = TAG_SIZE" using lock_lengths[OF A l] by simp
  have dec: "decrypt_chunk A key c (tag_ad s) = Some p"
    using assms(4,5) by (auto simp: decrypt_chunk_iff[OF A])
  have other: "ap_lock A key nonce (tag_ad t) q = (ci, g)"
    if q: "decrypt_chunk A key c (tag_ad t) = Some q" for q
  proof -
    obtain n' where n': "length n' = NONCE_SIZE" "encrypt_chunk A (Some n') key q (tag_ad t) = Some c"
      using q by (auto simp: decrypt_chunk_iff[OF A])
    obtain ci' g' where l': "ap_lock A key n' (tag_ad t) q = (ci', g')" by fastforce
    have "length g' = TAG_SIZE" using lock_lengths[OF A l'] by simp
    moreover have "nonce @ ci @ g = n' @ ci' @ g'" using n'(2) l' c by (simp add: encrypt_chunk_def)
    ultimately show ?thesis using n'(1) assms(4) lens l' by (auto simp: append_eq_append_conv)
  qed
  show ?thesis
  proof (intro conjI allI impI dec)
    fix q assume q: "decrypt_chunk A key c (tag_ad t) = Some q"
    show "(ct_context_bound s = ct_context_bound t \<and> (ct_context_bound s \<longrightarrow> s = t) \<and> q = p) \<or>
       (tag_ad s \<noteq> tag_ad t \<and> ap_lock A key nonce (tag_ad s) p = ap_lock A key nonce (tag_ad t) q)"
    proof (cases "tag_ad s = tag_ad t")
      case True
      have "Some q = Some p" using dec q unfolding True by (rule trans[OF sym, rotated])
      then show ?thesis using tag_ad_eq[OF assms(2,3) True] by blast
    next
      case False
      then show ?thesis unfolding other[OF q] l by blast
    qed
  qed
qed

theorem chunk_bound_to_identity_witness:
  "\<exists>c. encrypt_chunk sample_aead (Some (replicate 24 9)) [1, 2] [7, 8, 9] (tag_ad sample_tag) = Some c \<and>
       decrypt_chunk sample_aead [1, 2] c (tag_ad sample_tag) = Some [7, 8, 9]"
proof -
  obtain c where c: "encrypt_chunk sample_aead (Some (replicate 24 9)) [1, 2] [7, 8, 9] (tag_ad sample_tag) = Some c"
    by (simp add: encrypt_chunk_def sample_aead_def sample_lock_def)
  have "tag_ok sample_tag" "length (replicate 24 (9::byte)) = NONCE_SIZE"
    by (simp_all add: tag_ok_def sample_tag_def NODE_ID_SIZE_def NONCE_SIZE_def)
  from chunk_bound_to_identity[OF sample_aead_laws this(1) this(1) this(2) c] c show ?thesis by blast
qed

text \<open>
  The domain-separated Argon2 input determines the password and the keyfile, whereas
  the legacy concatenation lets bytes move from one to the other: a vault without the flag opens
  with any split of the same bytes.
\<close>

theorem kdf_input_unambiguous:
  assumes "length p < 2 ^ 64" "length p' < 2 ^ 64"
  shows "(kdf_secret DomainSeparatedV2 p k = kdf_secret DomainSeparatedV2 p' k' \<longleftrightarrow> p = p' \<and> k = k') \<and>
    kdf_secret LegacyConcat (p @ x) k = kdf_secret LegacyConcat p (x @ k)"
proof -
  have "p = p' \<and> k = k'" if "kdf_secret DomainSeparatedV2 p k = kdf_secret DomainSeparatedV2 p' k'"
    using that by (rule kdf_secret_inj[OF assms])
  then show ?thesis by (auto simp: kdf_secret_def[of LegacyConcat])
qed

theorem kdf_input_unambiguous_witness:
  "kdf_secret DomainSeparatedV2 [1, 2] [3] \<noteq> kdf_secret DomainSeparatedV2 [1] [2, 3] \<and>
   kdf_secret LegacyConcat [1, 2] [3] = kdf_secret LegacyConcat [1] [2, 3]"
proof -
  have len: "length [1, 2 :: byte] < 2 ^ 64" "length [1 :: byte] < 2 ^ 64" by simp_all
  have "kdf_secret DomainSeparatedV2 [1, 2] [3] \<noteq> kdf_secret DomainSeparatedV2 [1] [2, 3]"
    unfolding conjunct1[OF kdf_input_unambiguous[OF len]] by simp
  moreover have "kdf_secret LegacyConcat ([1] @ [2]) [3] = kdf_secret LegacyConcat [1] ([2] @ [3])"
    by (rule conjunct2[OF kdf_input_unambiguous[OF len(2) len(2)]])
  ultimately show ?thesis unfolding append_Cons append_Nil by (rule conjI)
qed

end
