(* ===== verification/Chunk_Codec.thy ===== *)
theory Chunk_Codec
  imports Byte_IO
begin

text \<open>
  Chunk framing (\<open>src/vault/chunk_codec.h\<close>, \<open>src/vault/chunk_codec.cpp\<close>): a method byte and,
  for a deflated payload, its original length.  miniz is a parameter: one complete
  \<open>mz_deflate\<close> or \<open>mz_inflate\<close> call with \<open>MZ_FINISH\<close> into a buffer of given size, \<open>None\<close> unless
  the stream ended, all input was consumed and the stream closed cleanly.  Allocation failure
  is not modelled.
\<close>

record miniz =
  mz_compressBound :: "nat \<Rightarrow> nat"
  mz_deflate :: "bytes \<Rightarrow> nat \<Rightarrow> bytes option"
  mz_inflate :: "bytes \<Rightarrow> nat \<Rightarrow> bytes option"

definition METHOD_RAW :: byte where "METHOD_RAW = 0"
definition METHOD_DEFLATE :: byte where "METHOD_DEFLATE = 1"
definition RAW_HDR :: nat where "RAW_HDR = 1"
definition DEFLATE_HDR :: nat where "DEFLATE_HDR = 1 + 8"
definition MAX_INFLATE_RATIO :: u64 where "MAX_INFLATE_RATIO = 1032"
definition INFLATE_SLACK :: u64 where "INFLATE_SLACK = 64"
definition MZ_LEN_MAX :: nat where "MZ_LEN_MAX = 2 ^ 64 - 1"
definition UINT32_MAX :: nat where "UINT32_MAX = 2 ^ 32 - 1"

text \<open>The produced bytes; the source leaves them in the output buffer and reports their number.\<close>

definition transform :: "miniz \<Rightarrow> bytes \<Rightarrow> nat \<Rightarrow> bool \<Rightarrow> bytes option" where
  "transform Z input avail_out compress =
     (if length input > UINT32_MAX \<or> avail_out > UINT32_MAX then None
      else if compress then mz_deflate Z input avail_out else mz_inflate Z input avail_out)"

text \<open>
  \<open>try_deflate\<close> returns 0 both on failure and when deflate does not win the 5%; the empty list
  plays that part here.  The products are exact: both sizes are below \<open>2 ^ 33\<close> by then.
\<close>

definition try_deflate :: "miniz \<Rightarrow> bytes \<Rightarrow> nat \<Rightarrow> bytes" where
  "try_deflate Z payload bound =
     (if payload = [] \<or> length payload > MZ_LEN_MAX then []
      else case transform Z payload bound True of
        None \<Rightarrow> []
      | Some packed \<Rightarrow>
          (let framed_deflate = DEFLATE_HDR + length packed;
               framed_raw = RAW_HDR + length payload
           in if framed_deflate * 100 \<le> framed_raw * 95 then packed else []))"

definition encode_frame :: "miniz \<Rightarrow> bytes \<Rightarrow> bytes" where
  "encode_frame Z payload =
     (let bound = (if length payload > MZ_LEN_MAX then 0 else mz_compressBound Z (length payload));
          packed = (if bound \<noteq> 0 then try_deflate Z payload bound else [])
      in if length packed \<noteq> 0
         then METHOD_DEFLATE # le_bytes 8 (of_nat (length payload) :: u64) @ packed
         else METHOD_RAW # payload)"

definition decode_frame :: "miniz \<Rightarrow> bytes \<Rightarrow> bytes option" where
  "decode_frame Z framed =
     (if framed = [] then None
      else if framed ! 0 = METHOD_RAW then Some (drop RAW_HDR framed)
      else if framed ! 0 \<noteq> METHOD_DEFLATE \<or> length framed < DEFLATE_HDR + 1 then None
      else let orig_len = (le_value (take 8 (drop 1 framed)) :: u64);
               comp_len = (of_nat (length framed - DEFLATE_HDR) :: u64) in
        if orig_len > comp_len * MAX_INFLATE_RATIO + INFLATE_SLACK then None
        else if unat orig_len > MZ_LEN_MAX \<or> orig_len = 0 then None
        else case transform Z (drop DEFLATE_HDR framed) (unat orig_len) False of
               None \<Rightarrow> None
             | Some out \<Rightarrow> (if length out \<noteq> unat orig_len then None else Some out))"

text \<open>
  What miniz documents: the output fits the buffer, inflating a deflated stream into a buffer of
  the original size gives the payload back, and deflate cannot expand more than 1032 to 1 beyond
  a constant.
\<close>

definition miniz_laws :: "miniz \<Rightarrow> bool" where
  "miniz_laws Z \<longleftrightarrow>
     (\<forall>p n c. mz_deflate Z p n = Some c \<longrightarrow>
        length c \<le> n \<and> length p \<le> 1032 * length c + 64 \<and> mz_inflate Z c (length p) = Some p) \<and>
     (\<forall>c n p. mz_inflate Z c n = Some p \<longrightarrow> length p \<le> n)"

lemmas codec_consts = METHOD_RAW_def METHOD_DEFLATE_def RAW_HDR_def DEFLATE_HDR_def
  MAX_INFLATE_RATIO_def INFLATE_SLACK_def MZ_LEN_MAX_def UINT32_MAX_def

lemma try_deflate_cases:
  assumes "try_deflate Z p n = c" "c \<noteq> []"
  shows "mz_deflate Z p n = Some c" "p \<noteq> []" "length p < 2 ^ 32"
    "(DEFLATE_HDR + length c) * 100 \<le> (RAW_HDR + length p) * 95"
  using assms by (auto simp: try_deflate_def transform_def Let_def UINT32_MAX_def
      split: if_splits option.splits)

lemma encode_frame_cases:
  obtains (raw) "encode_frame Z p = METHOD_RAW # p"
  | (deflate) c n where "encode_frame Z p = METHOD_DEFLATE # le_bytes 8 (of_nat (length p) :: u64) @ c"
      "mz_deflate Z p n = Some c" "c \<noteq> []" "p \<noteq> []" "length p < 2 ^ 32"
      "(DEFLATE_HDR + length c) * 100 \<le> (RAW_HDR + length p) * 95"
proof -
  define n where "n = mz_compressBound Z (length p)"
  show ?thesis
  proof (cases "length p > MZ_LEN_MAX \<or> n = 0 \<or> try_deflate Z p n = []")
    case True
    then have "encode_frame Z p = METHOD_RAW # p"
      by (auto simp: encode_frame_def Let_def n_def)
    then show ?thesis by (rule raw)
  next
    case False
    then have "encode_frame Z p =
        METHOD_DEFLATE # le_bytes 8 (of_nat (length p) :: u64) @ try_deflate Z p n"
      by (simp add: encode_frame_def Let_def n_def)
    then show ?thesis using try_deflate_cases[OF refl] False by (intro deflate) blast+
  qed
qed

lemma length_encode_frame: "length (encode_frame Z p) \<le> length p + 1"
  by (cases Z p rule: encode_frame_cases) (auto simp: codec_consts)

text \<open>The claimed length of an accepted deflate frame, with no wrap-around for any real frame.\<close>

lemma ratio_unat:
  assumes "n < 2 ^ 53"
  shows "unat ((of_nat n :: u64) * MAX_INFLATE_RATIO + INFLATE_SLACK) = n * 1032 + 64"
proof -
  have "(of_nat n :: u64) * MAX_INFLATE_RATIO + INFLATE_SLACK = of_nat (n * 1032 + 64)"
    by (simp add: codec_consts)
  moreover have "n * 1032 + 64 < 2 ^ 64" using assms by simp
  ultimately show ?thesis by (simp add: unat_of_nat_small del: of_nat_add of_nat_mult)
qed

lemma decode_frame_SomeD:
  assumes "decode_frame Z f = Some p" "length f < 2 ^ 53"
  obtains (raw) "f = METHOD_RAW # p"
  | (deflate) "length f > 9" "hd f = METHOD_DEFLATE" "length p \<le> (length f - 9) * 1032 + 64" "p \<noteq> []"
      "mz_inflate Z (drop 9 f) (length p) = Some p"
proof -
  obtain m r where f: "f = m # r" using assms(1) by (cases f) (auto simp: decode_frame_def)
  show ?thesis
  proof (cases "m = METHOD_RAW")
    case True
    then have "f = METHOD_RAW # p" using assms(1) by (simp add: decode_frame_def f RAW_HDR_def)
    then show ?thesis by (rule raw)
  next
    case False
    define orig where "orig = (le_value (take 8 (drop 1 f)) :: u64)"
    have d: "m = METHOD_DEFLATE" "10 \<le> length f" "orig \<noteq> 0"
      "\<not> orig > of_nat (length f - 9) * MAX_INFLATE_RATIO + INFLATE_SLACK"
      "transform Z (drop 9 f) (unat orig) False = Some p" "length p = unat orig"
      using assms(1) False
      by (auto simp: decode_frame_def f Let_def orig_def DEFLATE_HDR_def split: if_splits option.splits)
    have "unat orig \<le> (length f - 9) * 1032 + 64"
      using d(4) ratio_unat[of "length f - 9"] assms(2) by (simp add: word_le_nat_alt not_less)
    moreover have "0 < unat orig" using d(3) by (simp add: unat_gt_0)
    moreover have "mz_inflate Z (drop 9 f) (unat orig) = Some p"
      using d(5) by (simp add: transform_def split: if_splits)
    ultimately show ?thesis using d by (intro deflate) (auto simp: f)
  qed
qed

lemma decode_encode_frame:
  assumes Z: "miniz_laws Z"
  shows "decode_frame Z (encode_frame Z p) = Some p"
proof (cases Z p rule: encode_frame_cases)
  case raw
  then show ?thesis by (simp add: decode_frame_def codec_consts)
next
  case (deflate c n)
  have laws: "length p \<le> 1032 * length c + 64" "mz_inflate Z c (length p) = Some p"
    using Z deflate(2) by (auto simp: miniz_laws_def)
  have c: "length c < 2 ^ 32" using deflate(5,6) by (simp add: codec_consts)
  define w where "w = (of_nat (length p) :: u64)"
  have w: "unat w = length p" using deflate(5) by (simp add: w_def unat_of_nat_small)
  have frame: "drop 9 (METHOD_DEFLATE # le_bytes 8 w @ c) = c"
    "take 8 (drop 1 (METHOD_DEFLATE # le_bytes 8 w @ c)) = le_bytes 8 w" by simp_all
  have le: "\<not> w > of_nat (length c) * MAX_INFLATE_RATIO + INFLATE_SLACK"
    using ratio_unat[of "length c"] c laws(1) w by (simp add: word_le_nat_alt not_less)
  have nz: "w \<noteq> 0" using w deflate(4) by (metis length_0_conv unat_0)
  show ?thesis
    using le nz w laws(2) c deflate(3,5)
    by (simp add: deflate(1) w_def[symmetric] decode_frame_def Let_def frame transform_def
        le_value_le_bytes METHOD_DEFLATE_def METHOD_RAW_def DEFLATE_HDR_def UINT32_MAX_def MZ_LEN_MAX_def)
qed

section \<open>Properties\<close>

text \<open>A run-length coder of one byte value, as a concrete miniz for the witnesses.\<close>

definition sample_miniz :: miniz where
  "sample_miniz = \<lparr>mz_compressBound = (\<lambda>n. n + 64),
     mz_deflate = (\<lambda>p n. if p \<noteq> [] \<and> p = replicate (length p) (hd p) \<and> length p \<le> 255 \<and> 2 \<le> n
                          then Some [of_nat (length p), hd p] else None),
     mz_inflate = (\<lambda>c n. case c of [k, b] \<Rightarrow> if unat k \<le> n then Some (replicate (unat k) b) else None
                          | _ \<Rightarrow> None)\<rparr>"

lemma sample_miniz_laws: "miniz_laws sample_miniz"
  by (auto simp: miniz_laws_def sample_miniz_def unat_of_nat_small split: list.splits if_splits)

text \<open>
  Property C14.  Framing loses nothing and never grows a payload by more than the method byte: the
  frame decodes to the payload, and when deflate was used it saved at least 5%.
\<close>

theorem frame_roundtrip:
  assumes "miniz_laws Z"
  shows "decode_frame Z (encode_frame Z p) = Some p \<and> length (encode_frame Z p) \<le> length p + 1 \<and>
    (hd (encode_frame Z p) = METHOD_DEFLATE \<longrightarrow> length (encode_frame Z p) * 100 \<le> (length p + 1) * 95)"
proof (intro conjI decode_encode_frame[OF assms] length_encode_frame)
  show "hd (encode_frame Z p) = METHOD_DEFLATE \<longrightarrow>
      length (encode_frame Z p) * 100 \<le> (length p + 1) * 95"
    by (cases Z p rule: encode_frame_cases)
       (auto simp: METHOD_DEFLATE_def METHOD_RAW_def DEFLATE_HDR_def RAW_HDR_def)
qed

theorem frame_roundtrip_witness:
  "decode_frame sample_miniz (encode_frame sample_miniz (replicate 100 7)) = Some (replicate 100 7)"
  using frame_roundtrip[OF sample_miniz_laws] by blast

text \<open>
  Decoding a frame of any origin is bounded: it allocates at most 1032 bytes per
  compressed byte plus 64, whatever length the frame claims, and it yields exactly the claimed
  number of bytes or nothing.
\<close>

theorem decode_frame_bounded:
  assumes "length f < 2 ^ 53"
  shows "case decode_frame Z f of None \<Rightarrow> True
     | Some p \<Rightarrow> length p \<le> length f * 1032 + 64 \<and>
         (hd f = METHOD_RAW \<and> f = METHOD_RAW # p \<or>
          hd f = METHOD_DEFLATE \<and> 9 < length f \<and> length p = unat (le_value (take 8 (drop 1 f)) :: u64))"
proof (cases "decode_frame Z f")
  case (Some p)
  have "length p = unat (le_value (take 8 (drop 1 f)) :: u64)" if "hd f = METHOD_DEFLATE"
    using Some that by (cases f) (auto simp: decode_frame_def Let_def METHOD_DEFLATE_def METHOD_RAW_def
        split: if_splits option.splits)
  with Some assms show ?thesis
    by (cases rule: decode_frame_SomeD[OF Some assms]) auto
qed simp

theorem decode_frame_bounded_witness:
  "decode_frame sample_miniz (METHOD_DEFLATE # le_bytes 8 (5000 :: u64) @ [200, 1]) = None"
proof -
  let ?f = "METHOD_DEFLATE # le_bytes 8 (5000 :: u64) @ [200, 1]"
  have f: "length ?f < 2 ^ 53" by simp
  show ?thesis
  proof (cases "decode_frame sample_miniz ?f")
    case (Some p)
    have "length p = 5000"
      using decode_frame_bounded[OF f, of sample_miniz] Some
      by (simp add: METHOD_DEFLATE_def METHOD_RAW_def le_value_le_bytes)
    then show ?thesis
      using Some f by (cases rule: decode_frame_SomeD[OF Some f]) auto
  qed simp
qed

end
