(* ===== verification/Chunk_Records.thy ===== *)
theory Chunk_Records
  imports File_Store Aead Chunk_Codec
begin

text \<open>
  Encrypted chunk records in the data region: \<open>ChunkStore::append_chunk\<close>, the two overloads of
  \<open>ChunkStore::read_chunk\<close> and \<open>chunk_tag\<close> (\<open>src/vault/chunk_store.cpp\<close>).  The store's members
  (file, key, framed flag) and the two libraries below it are arguments.
\<close>

definition chunk_tag_of :: "chunk_domain \<Rightarrow> index_node \<Rightarrow> bytes \<Rightarrow> u32 \<Rightarrow> chunk_tag" where
  "chunk_tag_of domain node rec seq =
     \<lparr>ct_domain = domain, ct_owner = nd_node_id (ndata node), ct_record = rec, ct_sequence = seq,
      ct_context_bound = (if is_video node then vm_context_bound (nd_vmeta (ndata node))
                          else im_context_bound (nd_meta (ndata node)))\<rparr>"

text \<open>
  \<open>rid\<close> and \<open>nonce\<close> are what the two \<open>fill_random\<close> calls give, in the order of the calls.  The
  result is the new file, the tag with its fresh record id, and the span of the chunk.
\<close>

definition append_chunk ::
  "aead_prims \<Rightarrow> miniz \<Rightarrow> bool \<Rightarrow> bytes \<Rightarrow> bytes option \<Rightarrow> bytes option \<Rightarrow> disk \<Rightarrow> bytes \<Rightarrow>
   chunk_tag \<Rightarrow> (disk \<times> chunk_tag \<times> (nat \<times> nat)) option" where
  "append_chunk A Z framed key rid nonce f plaintext tag =
     (case (if ct_context_bound tag then map_option (\<lambda>r. tag\<lparr>ct_record := r\<rparr>) rid else Some tag) of
        None \<Rightarrow> None
      | Some tag' \<Rightarrow>
          (let ad = (if ct_context_bound tag' then build_chunk_ad tag' else []);
               body = (if framed then encode_frame Z plaintext else plaintext)
           in case encrypt_chunk A nonce key body ad of
                None \<Rightarrow> None
              | Some chunk \<Rightarrow>
                  (let (f', off) = append_at_end f chunk in Some (f', tag', (off, length chunk)))))"

text \<open>The \<open>std::vector\<close> overload: \<open>None\<close> is \<open>false\<close> with \<open>out\<close> empty.\<close>

definition read_chunk ::
  "aead_prims \<Rightarrow> miniz \<Rightarrow> bool \<Rightarrow> bytes \<Rightarrow> disk \<Rightarrow> nat \<times> nat \<Rightarrow> chunk_tag \<Rightarrow> bytes option" where
  "read_chunk A Z framed key f span tag =
     (if \<not> span_in_file f (fst span) (snd span) then None
      else case read_at f (fst span) (snd span) of
        None \<Rightarrow> None
      | Some ondisk \<Rightarrow>
          (let ad = (if ct_context_bound tag then build_chunk_ad tag else []) in
           if \<not> framed then decrypt_chunk A key ondisk ad
           else case decrypt_chunk A key ondisk ad of
                  None \<Rightarrow> None
                | Some frame \<Rightarrow> decode_frame Z frame))"

text \<open>
  The \<open>SecureBytes\<close> overload works on the caller's buffer, which may hold the plaintext of an
  earlier read; the result is the flag and the buffer.
\<close>

definition resize :: "nat \<Rightarrow> bytes \<Rightarrow> bytes" where
  "resize n out = take n out @ replicate (n - length out) 0"

definition read_chunk_secure ::
  "aead_prims \<Rightarrow> miniz \<Rightarrow> bool \<Rightarrow> bytes \<Rightarrow> disk \<Rightarrow> nat \<times> nat \<Rightarrow> chunk_tag \<Rightarrow> bytes \<Rightarrow> bool \<times> bytes" where
  "read_chunk_secure A Z framed key f span tag out = (
     let out = resize 0 out in
     if \<not> span_in_file f (fst span) (snd span) then (False, out)
     else case read_at f (fst span) (snd span) of
       None \<Rightarrow> (False, out)
     | Some ondisk \<Rightarrow>
         (let ad = (if ct_context_bound tag then build_chunk_ad tag else []);
              plain_len = chunk_plaintext_len (length ondisk)
          in if \<not> framed then
               (let out = resize plain_len out in
                case decrypt_chunk_to A key ondisk out ad of
                  (False, out) \<Rightarrow> (False, resize 0 out)
                | (True, out) \<Rightarrow> (True, out))
             else
               (case decrypt_chunk_to A key ondisk (resize plain_len []) ad of
                  (False, _) \<Rightarrow> (False, resize 0 out)
                | (True, frame) \<Rightarrow>
                    (case decode_frame Z frame of
                       None \<Rightarrow> (False, resize 0 out)
                     | Some plain \<Rightarrow> (True, plain)))))"

lemma resize_0 [simp]: "resize 0 out = []" and resize_Nil [simp]: "resize n [] = replicate n 0"
  by (simp_all add: resize_def)

lemma read_at_slice: "read_at f off n = (if off + n \<le> length f then Some (slice f (off, n)) else None)"
  by (auto simp: read_at_def span_in_file_def slice_def)

lemma read_chunk_slice:
  "read_chunk A Z framed key f s t =
     (if in_file f s
      then case decrypt_chunk A key (slice f s) (tag_ad t) of
             None \<Rightarrow> None | Some b \<Rightarrow> (if framed then decode_frame Z b else Some b)
      else None)"
  by (cases s) (auto simp: read_chunk_def span_in_file_def read_at_slice Let_def tag_ad_def split: option.splits)

lemma append_chunk_SomeE:
  assumes "append_chunk A Z framed key rid nonce f p tag = Some (f', tag', s)"
  obtains n c where "nonce = Some n" "encrypt_chunk A (Some n) key (if framed then encode_frame Z p else p) (tag_ad tag') = Some c"
    "f' = f @ c" "s = (length f, length c)" "ct_context_bound tag' = ct_context_bound tag"
    "ct_context_bound tag \<longrightarrow> rid = Some (ct_record tag') \<and> tag' = tag\<lparr>ct_record := ct_record tag'\<rparr>"
    "\<not> ct_context_bound tag \<longrightarrow> tag' = tag"
proof -
  define body where "body = (if framed then encode_frame Z p else p)"
  obtain t where t: "(if ct_context_bound tag then map_option (\<lambda>r. tag\<lparr>ct_record := r\<rparr>) rid else Some tag) = Some t"
    using assms by (auto simp: append_chunk_def split: option.splits)
  have e: "case encrypt_chunk A nonce key body (tag_ad t) of None \<Rightarrow> False
      | Some c \<Rightarrow> f' = f @ c \<and> tag' = t \<and> s = (length f, length c)"
    using assms unfolding append_chunk_def t option.case Let_def tag_ad_def[symmetric] body_def[symmetric]
      append_at_end_def prod.case
    by (auto split: option.splits)
  then obtain c where c: "encrypt_chunk A nonce key body (tag_ad t) = Some c" "f' = f @ c" "tag' = t"
      "s = (length f, length c)" by (auto split: option.splits)
  obtain n where n: "nonce = Some n" using c(1) by (cases nonce) (auto simp: encrypt_chunk_def)
  show ?thesis
    using c t by (intro that[OF n]) (auto simp: n body_def split: if_splits)
qed

lemma read_appended_chunk:
  assumes "aead_laws A" "miniz_laws Z" "\<And>n. nonce = Some n \<Longrightarrow> length n = NONCE_SIZE"
    and a: "append_chunk A Z framed key rid nonce f p tag = Some (f', tag', s)"
    and g: "in_file g s" "slice g s = slice f' s"
  shows "read_chunk A Z framed key g s tag' = Some p"
proof (rule append_chunk_SomeE[OF a])
  fix n c
  assume n: "nonce = Some n"
    and c: "encrypt_chunk A (Some n) key (if framed then encode_frame Z p else p) (tag_ad tag') = Some c"
    and f': "f' = f @ c" "s = (length f, length c)"
  have "decrypt_chunk A key c (tag_ad tag') = Some (if framed then encode_frame Z p else p)"
    unfolding decrypt_chunk_iff[OF assms(1)] using c assms(3)[OF n] by blast
  moreover have "slice g s = c" using g(2) f' by (simp add: slice_appended)
  ultimately show ?thesis
    using g(1) decode_encode_frame[OF assms(2)] by (simp add: read_chunk_slice)
qed

lemma read_chunk_secure_eq:
  "read_chunk_secure A Z framed key f s t out =
     (case read_chunk A Z framed key f s t of None \<Rightarrow> (False, []) | Some p \<Rightarrow> (True, p))"
  by (auto simp: read_chunk_secure_def read_chunk_def Let_def decrypt_chunk_def
      split: option.splits prod.splits bool.splits)

section \<open>Properties\<close>

text \<open>
  Property C5.  A chunk that was appended reads back with the tag the append returned, in the
  resulting file and in every later file that keeps the bytes of its span (further appends, writes
  elsewhere, compaction of other units); the append moves no byte of any existing chunk, and with
  context binding the returned tag carries the fresh record id.
\<close>

theorem appended_chunk_reads_back:
  assumes "aead_laws A" "miniz_laws Z" "length nonce = NONCE_SIZE"
    and "append_chunk A Z framed key rid (Some nonce) f p tag = Some (f', tag', s)"
  shows "read_chunk A Z framed key f' s tag' = Some p \<and>
    (\<forall>g. in_file g s \<and> slice g s = slice f' s \<longrightarrow> read_chunk A Z framed key g s tag' = Some p) \<and>
    (\<forall>s2 t2. in_file f s2 \<longrightarrow> read_chunk A Z framed key f' s2 t2 = read_chunk A Z framed key f s2 t2) \<and>
    (if ct_context_bound tag then rid = Some (ct_record tag') else tag' = tag)"
proof (rule append_chunk_SomeE[OF assms(4)])
  fix n c
  assume f': "f' = f @ c" "s = (length f, length c)"
    and bound: "ct_context_bound tag \<longrightarrow> rid = Some (ct_record tag') \<and> tag' = tag\<lparr>ct_record := ct_record tag'\<rparr>"
      "\<not> ct_context_bound tag \<longrightarrow> tag' = tag"
  have n: "\<And>n. Some nonce = Some n \<Longrightarrow> length n = NONCE_SIZE" using assms(3) by simp
  note reads = read_appended_chunk[OF assms(1,2) n assms(4)]
  have "in_file f' s" by (simp add: f')
  moreover have "read_chunk A Z framed key f' s2 t2 = read_chunk A Z framed key f s2 t2"
    if "in_file f s2" for s2 t2
    using that by (simp add: read_chunk_slice f' slice_append)
  ultimately show ?thesis using reads bound by auto
qed

theorem appended_chunk_reads_back_witness:
  "\<exists>f' tag' s. append_chunk sample_aead sample_miniz True [1] (Some (replicate 16 3)) (Some (replicate 24 9))
       [0, 0] [7, 7, 7] sample_tag = Some (f', tag', s) \<and>
     read_chunk sample_aead sample_miniz True [1] f' s tag' = Some [7, 7, 7]"
proof -
  obtain f' tag' s where a: "append_chunk sample_aead sample_miniz True [1] (Some (replicate 16 3))
      (Some (replicate 24 9)) [0, 0] [7, 7, 7] sample_tag = Some (f', tag', s)"
    by (simp add: append_chunk_def sample_tag_def encrypt_chunk_def sample_aead_def sample_lock_def
        append_at_end_def Let_def)
  have "length (replicate 24 (9::byte)) = NONCE_SIZE" by (simp add: NONCE_SIZE_def)
  from appended_chunk_reads_back[OF sample_aead_laws sample_miniz_laws this a] a show ?thesis by blast
qed

text \<open>
  The two overloads of \<open>read_chunk\<close> agree, and whatever plaintext the caller's locked
  buffer held before, a failed read leaves it empty: on no path does stale or unauthenticated
  plaintext survive.
\<close>

theorem read_chunk_overloads_agree:
  "read_chunk_secure A Z framed key f s t out =
     (case read_chunk A Z framed key f s t of None \<Rightarrow> (False, []) | Some p \<Rightarrow> (True, p))"
  by (rule read_chunk_secure_eq)

end
