(* ===== verification/Index_Store.thy ===== *)
theory Index_Store
  imports Index_Accept Chunk_Records
begin

text \<open>
  Loading and committing the index: \<open>src/vault/index_io.cpp\<close> (the three-phase commit over two
  index slots) and the loading half of \<open>Vault::open\<close> / \<open>Vault::unlock\<close> in
  \<open>src/vault/vault.cpp\<close>.  A commit is a sequence of durable writes, each followed by an fsync;
  a crash may happen inside any of them, and a torn write leaves any mixture of old and new
  bytes.
\<close>

datatype vault_result = ResOk | ResIoError | ResBadFormat | ResAuthFailed | ResLocked | ResNotFound
  | ResAlreadyExists | ResInvalidArg | ResCryptoError | ResBusy | ResIncompleteConversion | ResDamaged
  | ResUnsupportedVersion

section \<open>Loading\<close>

definition index_ad :: "header \<Rightarrow> chunk_domain \<Rightarrow> bytes" where
  "index_ad h domain = build_chunk_ad (default_chunk_tag\<lparr>ct_domain := domain,
     ct_owner := hd_vault_id h, ct_context_bound := True\<rparr>)"

definition header_record_ad :: "chunk_domain \<Rightarrow> header \<Rightarrow> bytes" where
  "header_record_ad domain h = (if \<not> context_bound_chunks h then [] else index_ad h domain)"

type_synonym loaded_index = "index_node \<times> saved_search list \<times> vault_settings"

definition try_load_slot ::
  "aead_prims \<Rightarrow> miniz \<Rightarrow> disk \<Rightarrow> header \<Rightarrow> bytes \<Rightarrow> byte \<Rightarrow> bool \<Rightarrow> loaded_index option" where
  "try_load_slot A Z f h key slot_idx context_bound = (
     let s = hd_slot h slot_idx in
     if is_length s = 0 then None
     else case read_raw f (unat (is_offset s)) (unat (is_length s)) of
       None \<Rightarrow> None
     | Some ondisk \<Rightarrow>
         if length ondisk < TAG_SIZE then None
         else case open_to A key (is_nonce s) ondisk (replicate (length ondisk - TAG_SIZE) 0)
                     (if context_bound then header_record_ad IndexDomain h else []) of
           (False, _) \<Rightarrow> None
         | (True, blob) \<Rightarrow>
             (case (if framed_chunks h then decode_frame Z blob else Some blob) of
                None \<Rightarrow> None
              | Some plain \<Rightarrow> deserialize_index plain))"

text \<open>
  The second try of \<open>load_slot_with_recovery\<close> records the mode that worked in the header's slot;
  the result is the index, whether it was a legacy blob, and the header.
\<close>

definition set_slot_mode :: "header \<Rightarrow> byte \<Rightarrow> bool \<Rightarrow> header" where
  "set_slot_mode h i b =
     (if i = 0 then h\<lparr>hd_slot_a := (hd_slot_a h)\<lparr>is_context_bound := b\<rparr>\<rparr>
      else h\<lparr>hd_slot_b := (hd_slot_b h)\<lparr>is_context_bound := b\<rparr>\<rparr>)"

definition load_slot_with_recovery ::
  "aead_prims \<Rightarrow> miniz \<Rightarrow> disk \<Rightarrow> header \<Rightarrow> bytes \<Rightarrow> byte \<Rightarrow> (loaded_index \<times> bool \<times> header) option" where
  "load_slot_with_recovery A Z f h key slot = (
     let declared = index_slot_context_bound h slot in
     case try_load_slot A Z f h key slot declared of
       Some loaded \<Rightarrow> Some (loaded, \<not> declared, h)
     | None \<Rightarrow> (case try_load_slot A Z f h key slot (\<not> declared) of
         Some loaded \<Rightarrow> Some (loaded, declared, set_slot_mode h slot (\<not> declared))
       | None \<Rightarrow> None))"

text \<open>
  \<open>Vault::unlock\<close> after the master key was unwrapped: the active slot, else the other one, else
  \<open>BadFormat\<close>.
\<close>

definition load_index ::
  "aead_prims \<Rightarrow> miniz \<Rightarrow> disk \<Rightarrow> header \<Rightarrow> bytes \<Rightarrow> (loaded_index \<times> bool \<times> header) option" where
  "load_index A Z f h key = (
     let active = (if hd_active_slot h = 0 then 0 else 1) in
     case load_slot_with_recovery A Z f h key active of
       Some loaded \<Rightarrow> Some loaded
     | None \<Rightarrow> load_slot_with_recovery A Z f h key (if active = 0 then 1 else 0))"

text \<open>\<open>Vault::open\<close>: the header of the file.\<close>

definition open_header :: "disk \<Rightarrow> header option" where
  "open_header f = (if length f < HEADER_SIZE then None else parse_header (take HEADER_SIZE f))"

definition unwrap_master_key :: "aead_prims \<Rightarrow> header \<Rightarrow> bytes \<Rightarrow> bytes option" where
  "unwrap_master_key A h kek =
     (case open_to A kek (hd_mk_nonce h) (hd_wrapped_master_key h @ hd_mk_tag h) (replicate KEY_SIZE 0)
             (header_record_ad MkWrapDomain h) of
        (False, _) \<Rightarrow> None | (True, master) \<Rightarrow> Some master)"

definition unlock :: "argon2 \<Rightarrow> aead_prims \<Rightarrow> miniz \<Rightarrow> disk \<Rightarrow> header \<Rightarrow> bytes \<Rightarrow> bytes \<Rightarrow>
    vault_result + (bytes \<times> loaded_index \<times> bool \<times> header)" where
  "unlock argon2 A Z f h password keyfile =
     (case derive_key argon2 password keyfile (hd_salt h) (hd_kdf h)
             (if domain_separated_kdf h then DomainSeparatedV2 else LegacyConcat) of
        None \<Rightarrow> Inl ResCryptoError
      | Some kek \<Rightarrow>
          (case unwrap_master_key A h kek of
             None \<Rightarrow> Inl ResAuthFailed
           | Some master \<Rightarrow>
               (case load_index A Z f h master of
                  None \<Rightarrow> Inl ResBadFormat
                | Some (loaded, legacy, h') \<Rightarrow>
                    Inr (master, loaded, legacy \<and> context_bound_chunks h', h'))))"

section \<open>Committing\<close>

text \<open>One durable step: bytes written at an offset (the end for an append), then fsync.\<close>

record io_step =
  io_off :: nat
  io_bytes :: bytes

definition perform :: "io_step \<Rightarrow> disk \<Rightarrow> disk" where
  "perform s f = write_raw_at f (io_off s) (io_bytes s)"

definition write_header :: "header \<Rightarrow> io_step" where
  "write_header h = \<lparr>io_off = 0, io_bytes = serialize_header h\<rparr>"

definition index_blob_ad :: "header \<Rightarrow> bool \<Rightarrow> bytes" where
  "index_blob_ad h context_bound = (if \<not> context_bound then [] else index_ad h IndexDomain)"

text \<open>
  Each durable step is paired with the in-memory header at that moment: it is what the process
  keeps when that step fails and the commit returns \<open>IoError\<close>.
\<close>

definition set_slot :: "header \<Rightarrow> byte \<Rightarrow> index_slot \<Rightarrow> header" where
  "set_slot h i s = (if i = 0 then h\<lparr>hd_slot_a := s\<rparr> else h\<lparr>hd_slot_b := s\<rparr>)"

definition swap_slots :: "header \<Rightarrow> nat \<Rightarrow> nat \<Rightarrow> bytes \<Rightarrow> (io_step \<times> header) list" where
  "swap_slots h offset sealed_len nonce = (
     let inactive = (if hd_active_slot h = 0 then 1 else 0);
         hB = set_slot h inactive \<lparr>is_offset = of_nat offset, is_length = of_nat sealed_len,
                is_nonce = nonce, is_context_bound = context_bound_chunks h\<rparr>;
         hC = hB\<lparr>hd_active_slot := inactive\<rparr>
     in [(write_header hB, hB), (write_header hC, hC)])"

definition serialize_plain_index ::
  "miniz \<Rightarrow> header \<Rightarrow> index_node \<Rightarrow> saved_search list \<Rightarrow> vault_settings \<Rightarrow> bytes" where
  "serialize_plain_index Z h root searches settings = (
     let out = serialize_index root searches settings
     in if framed_chunks h then encode_frame Z out else out)"

definition seal_index :: "aead_prims \<Rightarrow> bytes \<Rightarrow> header \<Rightarrow> bytes \<Rightarrow> bytes \<Rightarrow> bytes" where
  "seal_index A key h nonce plain = seal A key nonce plain (index_blob_ad h (context_bound_chunks h))"

definition commit_plain_blob_at ::
  "aead_prims \<Rightarrow> bytes \<Rightarrow> header \<Rightarrow> bytes \<Rightarrow> nat \<Rightarrow> bytes option \<Rightarrow>
   vault_result + (io_step \<times> header) list" where
  "commit_plain_blob_at A key h plain offset nonce =
     (case nonce of
        None \<Rightarrow> Inl ResCryptoError
      | Some nonce \<Rightarrow>
          (let sealed = seal_index A key h nonce plain
           in Inr ((\<lparr>io_off = offset, io_bytes = sealed\<rparr>, h) # swap_slots h offset (length sealed) nonce)))"

definition commit_plain_blob ::
  "aead_prims \<Rightarrow> bytes \<Rightarrow> disk \<Rightarrow> header \<Rightarrow> bytes \<Rightarrow> bytes option \<Rightarrow>
   vault_result + (io_step \<times> header) list" where
  "commit_plain_blob A key f h plain nonce =
     (case nonce of
        None \<Rightarrow> Inl ResCryptoError
      | Some nonce \<Rightarrow>
          (let sealed = seal_index A key h nonce plain
           in Inr ((\<lparr>io_off = length f, io_bytes = sealed\<rparr>, h) # swap_slots h (length f) (length sealed) nonce)))"

definition commit_index ::
  "aead_prims \<Rightarrow> miniz \<Rightarrow> bytes \<Rightarrow> disk \<Rightarrow> header \<Rightarrow> loaded_index \<Rightarrow> bytes option \<Rightarrow>
   vault_result + (io_step \<times> header) list" where
  "commit_index A Z key f h idx nonce =
     (case idx of (root, searches, settings) \<Rightarrow>
        commit_plain_blob A key f h (serialize_plain_index Z h root searches settings) nonce)"

text \<open>Running the steps; \<open>oks\<close> says which of them succeed.\<close>

fun run_steps :: "(io_step \<times> header) list \<Rightarrow> bool list \<Rightarrow> disk \<Rightarrow> header \<Rightarrow> vault_result \<times> disk \<times> header" where
  "run_steps [] oks f h = (ResOk, f, h)"
| "run_steps ((w, h') # ws) (ok # oks) f h =
     (if ok then run_steps ws oks (perform w f) h' else (ResIoError, f, h'))"
| "run_steps (w # ws) [] f h = (ResIoError, f, h)"

section \<open>Crashes\<close>

text \<open>
  A write that a crash interrupts: bytes that existed before hold the old or the new value,
  position by position; bytes beyond the old end are missing or arbitrary.
\<close>

definition torn :: "disk \<Rightarrow> io_step \<Rightarrow> disk \<Rightarrow> bool" where
  "torn f s d \<longleftrightarrow> length f \<le> length d \<and>
     (\<forall>i < length f. d ! i = f ! i \<or> d ! i = perform s f ! i)"

fun crash_states :: "io_step list \<Rightarrow> disk \<Rightarrow> disk \<Rightarrow> bool" where
  "crash_states [] f d \<longleftrightarrow> d = f"
| "crash_states (s # ss) f d \<longleftrightarrow> torn f s d \<or> crash_states ss (perform s f) d"


section \<open>Which header fields a torn write can touch\<close>

lemma length_perform_header:
  "header_ok h \<Longrightarrow> HEADER_SIZE \<le> length f \<Longrightarrow> length (perform (write_header h) f) = length f"
  by (simp add: perform_def write_header_def length_write_raw_at length_serialize_header max_def)

lemma serialize_ne: "header_ok h \<Longrightarrow> serialize_header h \<noteq> []"
  using length_serialize_header[of h] by (auto simp: HEADER_SIZE_def)

lemma nth_perform_header:
  "header_ok h \<Longrightarrow> HEADER_SIZE \<le> length f \<Longrightarrow> i < length f \<Longrightarrow>
   perform (write_header h) f ! i = (if i < HEADER_SIZE then serialize_header h ! i else f ! i)"
  by (simp add: perform_def write_header_def nth_write_raw_at length_serialize_header)

lemma take_perform_header:
  "header_ok h \<Longrightarrow> HEADER_SIZE \<le> length f \<Longrightarrow>
   take HEADER_SIZE (perform (write_header h) f) = serialize_header h"
  by (rule nth_equalityI) (simp_all add: length_perform_header length_serialize_header nth_perform_header)

lemma slice_perform_header:
  assumes "header_ok h" "HEADER_SIZE \<le> fst s" "in_file f s"
  shows "in_file (perform (write_header h) f) s" "slice (perform (write_header h) f) s = slice f s"
  using assms
  by (auto simp: perform_def write_header_def in_file_write length_serialize_header
      intro!: slice_write_other simp: sep_def)

text \<open>Two patched buffers agree at every position where the patches agree.\<close>

lemma nth_patch_agree:
  "list_all2 (\<lambda>(o1, b1) (o2, b2). o1 = o2 \<and> length b1 = length b2 \<and> o1 + length b1 \<le> n \<and>
      (b1 = b2 \<or> \<not> (o1 \<le> i \<and> i < o1 + length b1))) ps qs \<Longrightarrow>
   length b = n \<Longrightarrow> length c = n \<Longrightarrow> i < n \<Longrightarrow> b ! i = c ! i \<Longrightarrow> patch ps b ! i = patch qs c ! i"
proof (induction ps qs arbitrary: b c rule: list_all2_induct)
  case Nil
  then show ?case by (simp add: patch_def)
next
  case (Cons p ps q qs)
  obtain o1 b1 b2 where pq: "p = (o1, b1)" "q = (o1, b2)" "length b1 = length b2" "o1 + length b1 \<le> n"
      "b1 = b2 \<or> \<not> (o1 \<le> i \<and> i < o1 + length b1)"
    using Cons.hyps(1) by (cases p; cases q) auto
  have "patch ps (put_bytes_at b o1 b1) ! i = patch qs (put_bytes_at c o1 b2) ! i"
    using pq Cons.prems by (intro Cons.IH) (auto simp: nth_put_bytes_at)
  then show ?case by (simp add: patch_def pq)
qed

text \<open>The positions of slot \<open>i\<close>: offset, length and nonce, and its mode byte.\<close>

definition slot_region :: "byte \<Rightarrow> nat set" where
  "slot_region i = (if i = 0 then {118..<158} \<union> {224} else {166..<206} \<union> {225})"

lemma serialize_slot_agree:
  assumes "header_ok h" "header_ok (set_slot h i s)" "p < HEADER_SIZE" "p \<notin> slot_region i"
  shows "serialize_header (set_slot h i s) ! p = serialize_header h ! p"
proof -
  have lens: "length (hd_salt h) = 16" "length (hd_vault_id h) = 16" "length (hd_mk_nonce h) = 24"
    "length (hd_wrapped_master_key h) = 32" "length (hd_mk_tag h) = 16"
    "length (is_nonce (hd_slot_a h)) = 24" "length (is_nonce (hd_slot_b h)) = 24"
    using assms(1) by (simp_all add: header_ok_def sizes)
  have s: "length (is_nonce s) = 24"
    using assms(2) by (auto simp: header_ok_def sizes set_slot_def split: if_splits)
  have modes: "has_index_slot_modes (h\<lparr>hd_slot_a := s\<rparr>) = has_index_slot_modes h"
    "has_index_slot_modes (h\<lparr>hd_slot_b := s\<rparr>) = has_index_slot_modes h"
    by (simp_all add: has_index_slot_modes_def)
  show ?thesis
    unfolding serialize_patches[OF assms(1)] serialize_patches[OF assms(2)]
  proof (rule nth_patch_agree)
    show "list_all2 (\<lambda>(o1, b1) (o2, b2). o1 = o2 \<and> length b1 = length b2 \<and> o1 + length b1 \<le> HEADER_SIZE \<and>
        (b1 = b2 \<or> \<not> (o1 \<le> p \<and> p < o1 + length b1))) (header_patches (set_slot h i s)) (header_patches h)"
      using assms(4)
      by (cases "i = 0"; cases "has_index_slot_modes h")
         (auto simp: header_patches_def modes set_slot_def slot_region_def lens s sizes)
  qed (use assms(3) in simp_all)
qed

lemma serialize_active_agree:
  assumes "header_ok h" "header_ok (h\<lparr>hd_active_slot := a\<rparr>)" "p < HEADER_SIZE" "p \<noteq> 206"
  shows "serialize_header (h\<lparr>hd_active_slot := a\<rparr>) ! p = serialize_header h ! p"
proof -
  have lens: "length (hd_salt h) = 16" "length (hd_vault_id h) = 16" "length (hd_mk_nonce h) = 24"
    "length (hd_wrapped_master_key h) = 32" "length (hd_mk_tag h) = 16"
    "length (is_nonce (hd_slot_a h)) = 24" "length (is_nonce (hd_slot_b h)) = 24"
    using assms(1) by (simp_all add: header_ok_def sizes)
  have modes: "has_index_slot_modes (h\<lparr>hd_active_slot := a\<rparr>) = has_index_slot_modes h"
    by (simp add: has_index_slot_modes_def)
  show ?thesis
    unfolding serialize_patches[OF assms(1)] serialize_patches[OF assms(2)]
  proof (rule nth_patch_agree)
    show "list_all2 (\<lambda>(o1, b1) (o2, b2). o1 = o2 \<and> length b1 = length b2 \<and> o1 + length b1 \<le> HEADER_SIZE \<and>
        (b1 = b2 \<or> \<not> (o1 \<le> p \<and> p < o1 + length b1)))
        (header_patches (h\<lparr>hd_active_slot := a\<rparr>)) (header_patches h)"
      using assms(4)
      by (cases "has_index_slot_modes h")
         (auto simp: header_patches_def modes lens sizes)
  qed (use assms(3) in simp_all)
qed


text \<open>
  A header whose bytes are those of \<open>h\<close> outside one slot's region still parses, to \<open>h\<close> with
  something else in that slot.
\<close>

lemma get_agree:
  assumes "length r = length t" "off + n \<le> length t" "\<And>k. off \<le> k \<Longrightarrow> k < off + n \<Longrightarrow> r ! k = t ! k"
  shows "get_bytes_at r off n = get_bytes_at t off n"
  using assms by (auto simp: get_bytes_at_def intro!: nth_equalityI)

lemma words_agree:
  assumes "length r = length t" "off + 8 \<le> length t"
  shows "get_bytes_at r off 2 = get_bytes_at t off 2 \<Longrightarrow> get_u16_at r off = get_u16_at t off"
    and "get_bytes_at r off 4 = get_bytes_at t off 4 \<Longrightarrow> get_u32_at r off = get_u32_at t off"
    and "get_bytes_at r off 8 = get_bytes_at t off 8 \<Longrightarrow> get_u64_at r off = get_u64_at t off"
  using assms by (simp_all add: get_u16_at_slice get_u32_at_slice get_u64_at_slice)

definition raw_modes :: "bytes \<Rightarrow> bool" where
  "raw_modes r \<longleftrightarrow> get_u32_at r 12 AND FLAG_INDEX_SLOT_MODES \<noteq> 0"

lemma parse_other_slot:
  assumes "length r = length t"
    and "get_bytes_at r 0 8 = get_bytes_at t 0 8" "get_bytes_at r 29 16 = get_bytes_at t 29 16"
    "get_bytes_at r 46 24 = get_bytes_at t 46 24" "get_bytes_at r 70 32 = get_bytes_at t 70 32"
    "get_bytes_at r 102 16 = get_bytes_at t 102 16" "get_bytes_at r 208 16 = get_bytes_at t 208 16"
    "get_u16_at r 8 = get_u16_at t 8" "get_u16_at r 10 = get_u16_at t 10"
    "get_u32_at r 12 = get_u32_at t 12" "get_u32_at r 17 = get_u32_at t 17"
    "get_u32_at r 21 = get_u32_at t 21" "get_u32_at r 25 = get_u32_at t 25"
    "r ! 16 = t ! 16" "r ! 45 = t ! 45" "r ! 206 = t ! 206"
  shows "get_u64_at r 166 = get_u64_at t 166 \<Longrightarrow> get_u64_at r 174 = get_u64_at t 174 \<Longrightarrow>
      get_bytes_at r 182 24 = get_bytes_at t 182 24 \<Longrightarrow> r ! 225 = t ! 225 \<Longrightarrow>
      (raw_modes r \<Longrightarrow> \<not> r ! 224 > 1) \<Longrightarrow> parse_header t = Some g \<Longrightarrow>
      \<exists>s. parse_header r = Some (g\<lparr>hd_slot_a := s\<rparr>)"
    and "get_u64_at r 118 = get_u64_at t 118 \<Longrightarrow> get_u64_at r 126 = get_u64_at t 126 \<Longrightarrow>
      get_bytes_at r 134 24 = get_bytes_at t 134 24 \<Longrightarrow> r ! 224 = t ! 224 \<Longrightarrow>
      (raw_modes r \<Longrightarrow> \<not> r ! 225 > 1) \<Longrightarrow> parse_header t = Some g \<Longrightarrow>
      \<exists>s. parse_header r = Some (g\<lparr>hd_slot_b := s\<rparr>)"
  using assms
  by (auto simp: parse_header_def Let_def sizes raw_modes_def has_index_slot_modes_def
      context_bound_chunks_def split: if_splits)

lemma parse_header_flags: "parse_header t = Some g \<Longrightarrow> hd_flags g = get_u32_at t 12"
  by (auto simp: parse_header_def Let_def split: if_splits)

lemma parse_agree:
  assumes h: "header_ok h" and r: "length r = HEADER_SIZE"
    and agree: "\<And>k. k < HEADER_SIZE \<Longrightarrow> k \<notin> slot_region i \<Longrightarrow> r ! k = serialize_header h ! k"
    and mode: "has_index_slot_modes h \<Longrightarrow> r ! (if i = 0 then 224 else 225) \<le> 1"
  shows "\<exists>s. parse_header r = Some ((set_slot h i s)\<lparr>hd_header_size := 4096\<rparr>)"
proof -
  let ?S = "serialize_header h"
  have len: "length r = length ?S" "length ?S = 4096"
    using r length_serialize_header[OF h] by (simp_all add: HEADER_SIZE_def)
  have get: "get_bytes_at r off n = get_bytes_at ?S off n"
    if "off + n \<le> 4096" "{off..<off + n} \<inter> slot_region i = {}" for off n
    using len that by (intro get_agree) (auto intro!: agree simp: HEADER_SIZE_def)
  have region: "slot_region i \<subseteq> {118..<158} \<union> {224} \<union> {166..<206} \<union> {225}"
    by (auto simp: slot_region_def)
  have outside: "get_bytes_at r off n = get_bytes_at ?S off n"
    if "off + n \<le> 118 \<or> 206 \<le> off \<and> off + n \<le> 224" for off n
    using that region by (intro get) auto
  have byte: "r ! k = ?S ! k" if "k < 118 \<or> 206 \<le> k \<and> k < 224" for k
    using that region by (intro agree) (auto simp: HEADER_SIZE_def)
  have p: "parse_header ?S = Some (h\<lparr>hd_header_size := 4096\<rparr>)"
    using parse_serialize[OF h] by (simp add: HEADER_SIZE_def)
  note words = words_agree[OF len(1)]
  have same: "get_bytes_at r 0 8 = get_bytes_at ?S 0 8" "get_bytes_at r 29 16 = get_bytes_at ?S 29 16"
    "get_bytes_at r 46 24 = get_bytes_at ?S 46 24" "get_bytes_at r 70 32 = get_bytes_at ?S 70 32"
    "get_bytes_at r 102 16 = get_bytes_at ?S 102 16" "get_bytes_at r 208 16 = get_bytes_at ?S 208 16"
    "get_u16_at r 8 = get_u16_at ?S 8" "get_u16_at r 10 = get_u16_at ?S 10"
    "get_u32_at r 12 = get_u32_at ?S 12" "get_u32_at r 17 = get_u32_at ?S 17"
    "get_u32_at r 21 = get_u32_at ?S 21" "get_u32_at r 25 = get_u32_at ?S 25"
    "r ! 16 = ?S ! 16" "r ! 45 = ?S ! 45" "r ! 206 = ?S ! 206"
    using len(2) by (auto intro!: outside byte words)
  have flags: "get_u32_at r 12 = hd_flags h"
    using parse_header_flags[OF p] same by simp
  show ?thesis
  proof (cases "i = 0")
    case True
    have b: "get_u64_at r 166 = get_u64_at ?S 166" "get_u64_at r 174 = get_u64_at ?S 174"
      "get_bytes_at r 182 24 = get_bytes_at ?S 182 24" "r ! 225 = ?S ! 225"
      using len(2) by (auto intro!: get words agree simp: slot_region_def True HEADER_SIZE_def)
    have m: "raw_modes r \<Longrightarrow> \<not> r ! 224 > 1" using mode True flags by (simp add: raw_modes_def not_less has_index_slot_modes_def)
    obtain s where "parse_header r = Some (h\<lparr>hd_header_size := 4096, hd_slot_a := s\<rparr>)"
      using parse_other_slot(1)[OF len(1) same b m p] by auto
    then show ?thesis using True by (intro exI[of _ s]) (simp add: set_slot_def)
  next
    case False
    have b: "get_u64_at r 118 = get_u64_at ?S 118" "get_u64_at r 126 = get_u64_at ?S 126"
      "get_bytes_at r 134 24 = get_bytes_at ?S 134 24" "r ! 224 = ?S ! 224"
      using len(2) by (auto intro!: get words agree simp: slot_region_def False HEADER_SIZE_def)
    have m: "raw_modes r \<Longrightarrow> \<not> r ! 225 > 1" using mode False flags by (simp add: raw_modes_def not_less has_index_slot_modes_def)
    obtain s where "parse_header r = Some (h\<lparr>hd_header_size := 4096, hd_slot_b := s\<rparr>)"
      using parse_other_slot(2)[OF len(1) same b m p] by auto
    then show ?thesis using False by (intro exI[of _ s]) (simp add: set_slot_def)
  qed
qed

end
