(* ===== verification/Commit_Safety.thy ===== *)
theory Commit_Safety
  imports Index_Store
begin

text \<open>
  Crash safety of the index commit.  Whatever bytes a crash leaves half written, opening the
  file loads the index of before the commit or the new one; after the commit it loads the new one.
\<close>

definition loads :: "aead_prims \<Rightarrow> miniz \<Rightarrow> bytes \<Rightarrow> disk \<Rightarrow> loaded_index option" where
  "loads A Z key f = (case open_header f of None \<Rightarrow> None
     | Some h \<Rightarrow> map_option fst (load_index A Z f h key))"

definition slot_span :: "header \<Rightarrow> byte \<Rightarrow> nat \<times> nat" where
  "slot_span h i = (unat (is_offset (hd_slot h i)), unat (is_length (hd_slot h i)))"

definition inactive_slot :: "header \<Rightarrow> byte" where
  "inactive_slot h = (if hd_active_slot h = 0 then 1 else 0)"

section \<open>Loading depends on the slot's bytes only\<close>

lemma try_load_in_file:
  "try_load_slot A Z f h key i cb = Some r \<Longrightarrow> in_file f (slot_span h i)"
  by (auto simp: try_load_slot_def Let_def slot_span_def read_raw_Some split: if_splits option.splits)

lemma try_load_keep:
  assumes "hd_slot h' i = hd_slot h i" "hd_flags h' = hd_flags h" "hd_vault_id h' = hd_vault_id h"
    and "in_file f (slot_span h i)" "in_file d (slot_span h i)"
    and "slice d (slot_span h i) = slice f (slot_span h i)"
  shows "try_load_slot A Z d h' key i cb = try_load_slot A Z f h key i cb"
proof -
  have "read_raw d (unat (is_offset (hd_slot h i))) (unat (is_length (hd_slot h i))) =
        read_raw f (unat (is_offset (hd_slot h i))) (unat (is_length (hd_slot h i)))"
    using assms(4-6) by (simp add: slot_span_def read_raw_slice)
  moreover have "framed_chunks h' = framed_chunks h" "header_record_ad IndexDomain h' = header_record_ad IndexDomain h"
    using assms(2,3) by (simp_all add: framed_chunks_def header_record_ad_def index_ad_def context_bound_chunks_def)
  ultimately show ?thesis by (simp only: try_load_slot_def assms(1) Let_def)
qed

lemma load_recovery_keep:
  assumes "hd_slot h' i = hd_slot h i" "hd_flags h' = hd_flags h" "hd_vault_id h' = hd_vault_id h"
    and "in_file d (slot_span h i)" "slice d (slot_span h i) = slice f (slot_span h i)"
    and "load_slot_with_recovery A Z f h key i = Some (old, lg, h1)"
  shows "\<exists>h2. load_slot_with_recovery A Z d h' key i = Some (old, lg, h2)"
proof -
  have f: "in_file f (slot_span h i)"
    using assms(6) by (auto simp: load_slot_with_recovery_def Let_def dest: try_load_in_file split: option.splits)
  have cb: "index_slot_context_bound h' i = index_slot_context_bound h i"
    using assms(1,2) by (simp add: index_slot_context_bound_def has_index_slot_modes_def context_bound_chunks_def)
  show ?thesis
    using assms(6) unfolding load_slot_with_recovery_def cb try_load_keep[OF assms(1-3) f assms(4,5)]
    by (cases old) (auto simp: Let_def split: option.splits)
qed

lemma byte_le_1: "b \<le> (1 :: byte) \<longleftrightarrow> b = 0 \<or> b = 1"
  by unat_arith

lemma old_survives:
  assumes h: "header_ok h" and d: "HEADER_SIZE \<le> length d"
    and agree: "\<And>k. k < HEADER_SIZE \<Longrightarrow> k \<notin> slot_region (inactive_slot h) \<Longrightarrow> d ! k = serialize_header h ! k"
    and mode: "has_index_slot_modes h \<Longrightarrow> d ! (if inactive_slot h = 0 then 224 else 225) \<le> 1"
    and old: "load_slot_with_recovery A Z f h key (hd_active_slot h) = Some (old, lg, h1)"
    and span: "in_file d (slot_span h (hd_active_slot h))"
      "slice d (slot_span h (hd_active_slot h)) = slice f (slot_span h (hd_active_slot h))"
  shows "loads A Z key d = Some old"
proof -
  have "\<exists>s. parse_header (take HEADER_SIZE d) = Some ((set_slot h (inactive_slot h) s)\<lparr>hd_header_size := 4096\<rparr>)"
    using d by (intro parse_agree[OF h]) (auto simp: agree mode HEADER_SIZE_def)
  then obtain s where p: "open_header d = Some ((set_slot h (inactive_slot h) s)\<lparr>hd_header_size := 4096\<rparr>)"
    using d by (auto simp: open_header_def)
  define g where "g = (set_slot h (inactive_slot h) s)\<lparr>hd_header_size := 4096\<rparr>"
  have act: "hd_active_slot h = 0 \<or> hd_active_slot h = 1"
    using h by (simp add: header_ok_def byte_le_1)
  have g: "hd_slot g (hd_active_slot h) = hd_slot h (hd_active_slot h)" "hd_flags g = hd_flags h"
    "hd_vault_id g = hd_vault_id h" "hd_active_slot g = hd_active_slot h"
    using act by (auto simp: g_def hd_slot_def set_slot_def inactive_slot_def)
  obtain h2 where "load_slot_with_recovery A Z d g key (hd_active_slot h) = Some (old, lg, h2)"
    using load_recovery_keep[OF g(1-3) span old] by blast
  then show ?thesis
    using act by (cases old) (auto simp: loads_def p g_def[symmetric] load_index_def g(4))
qed


section \<open>The commit\<close>

text \<open>The headers that phases B and C write.\<close>

definition header_B :: "header \<Rightarrow> nat \<Rightarrow> nat \<Rightarrow> bytes \<Rightarrow> header" where
  "header_B h off len nonce = set_slot h (inactive_slot h)
     \<lparr>is_offset = of_nat off, is_length = of_nat len, is_nonce = nonce,
      is_context_bound = context_bound_chunks h\<rparr>"

definition header_C :: "header \<Rightarrow> nat \<Rightarrow> nat \<Rightarrow> bytes \<Rightarrow> header" where
  "header_C h off len nonce = (header_B h off len nonce)\<lparr>hd_active_slot := inactive_slot h\<rparr>"

lemma swap_slots_eq:
  "swap_slots h off len nonce =
     [(write_header (header_B h off len nonce), header_B h off len nonce),
      (write_header (header_C h off len nonce), header_C h off len nonce)]"
  by (simp add: swap_slots_def Let_def header_B_def header_C_def inactive_slot_def)

lemma header_BC_ok:
  assumes "header_ok h" "length nonce = NONCE_SIZE"
  shows "header_ok (header_B h off len nonce)" "header_ok (header_C h off len nonce)"
  using assms
  by (auto simp: header_B_def header_C_def header_ok_def set_slot_def inactive_slot_def
      has_index_slot_modes_def context_bound_chunks_def)

lemma header_B_fields [simp]:
  "hd_flags (header_B h off len nonce) = hd_flags h" "hd_vault_id (header_B h off len nonce) = hd_vault_id h"
  "hd_flags (header_C h off len nonce) = hd_flags h" "hd_vault_id (header_C h off len nonce) = hd_vault_id h"
  "hd_active_slot (header_B h off len nonce) = hd_active_slot h"
  "hd_active_slot (header_C h off len nonce) = inactive_slot h"
  by (simp_all add: header_B_def header_C_def set_slot_def)

lemma open_header_C:
  assumes "header_ok g" "HEADER_SIZE \<le> length f" "take HEADER_SIZE f = serialize_header g"
  shows "open_header f = Some (g\<lparr>hd_header_size := 4096\<rparr>)"
  using assms parse_serialize[OF assms(1)] by (simp add: open_header_def HEADER_SIZE_def)

lemma read_sealed_index:
  assumes A: "aead_laws A" and sealed: "sealed = seal_index A key h nonce plain"
  shows "TAG_SIZE \<le> length sealed \<and>
    open_to A key nonce sealed (replicate (length sealed - TAG_SIZE) 0)
      (if context_bound_chunks h then header_record_ad IndexDomain h else []) = (True, plain)"
proof -
  have ad: "(if context_bound_chunks h then header_record_ad IndexDomain h else []) =
      index_blob_ad h (context_bound_chunks h)"
    by (simp add: header_record_ad_def index_blob_ad_def)
  obtain c t where l: "ap_lock A key nonce (index_blob_ad h (context_bound_chunks h)) plain = (c, t)" by fastforce
  have "length c = length plain" "length t = TAG_SIZE" using lock_lengths[OF A l] by simp_all
  moreover have "sealed = c @ t" by (simp add: sealed seal_index_def seal_def l)
  moreover have "ap_unlock A key nonce (index_blob_ad h (context_bound_chunks h)) t c = Some plain"
    using unlock_iff[OF A] l by blast
  ultimately show ?thesis by (simp add: ad open_to_def)
qed

text \<open>Once the header points to the sealed blob, it loads.\<close>

lemma sealed_slot_loads:
  assumes A: "aead_laws A" and sealed: "sealed = seal_index A key g nonce plain"
    and slot: "hd_slot g i = \<lparr>is_offset = of_nat off, is_length = of_nat (length sealed),
      is_nonce = nonce, is_context_bound = context_bound_chunks g\<rparr>"
    and span: "in_file f (off, length sealed)" "slice f (off, length sealed) = sealed" "off + length sealed < 2 ^ 64"
    and new: "(case (if framed_chunks g then decode_frame Z plain else Some plain) of
                 None \<Rightarrow> None | Some p \<Rightarrow> deserialize_index p) = Some new"
  shows "load_slot_with_recovery A Z f g key i = Some (new, \<not> context_bound_chunks g, g)"
proof -
  have cb: "index_slot_context_bound g i = context_bound_chunks g"
    by (simp add: index_slot_context_bound_def slot)
  have ok: "TAG_SIZE \<le> length sealed" "open_to A key nonce sealed (replicate (length sealed - TAG_SIZE) 0)
      (if context_bound_chunks g then header_record_ad IndexDomain g else []) = (True, plain)"
    using read_sealed_index[OF A sealed] by simp_all
  have nz: "unat (of_nat (length sealed) :: u64) = length sealed" "unat (of_nat off :: u64) = off"
    using span(3) by (simp_all add: unat_of_nat_small)
  have rd: "read_raw f off (length sealed) = Some sealed"
    using span(1,2) by (simp add: read_raw_slice)
  have "(of_nat (length sealed) :: u64) \<noteq> 0" using nz ok(1) by (auto simp: TAG_SIZE_def)
  then have "try_load_slot A Z f g key i (context_bound_chunks g) = Some new"
    using new ok
    by (cases "framed_chunks g"; cases "context_bound_chunks g")
       (simp_all add: try_load_slot_def slot Let_def nz rd)
  then show ?thesis by (simp add: load_slot_with_recovery_def cb Let_def)
qed

lemma new_loads:
  assumes A: "aead_laws A" and h: "header_ok h" "length nonce = NONCE_SIZE"
    and sealed: "sealed = seal_index A key h nonce plain"
    and f: "HEADER_SIZE \<le> length f" "take HEADER_SIZE f = serialize_header (header_C h off (length sealed) nonce)"
    and span: "in_file f (off, length sealed)" "slice f (off, length sealed) = sealed" "off + length sealed < 2 ^ 64"
    and new: "(case (if framed_chunks h then decode_frame Z plain else Some plain) of
                 None \<Rightarrow> None | Some p \<Rightarrow> deserialize_index p) = Some new"
  shows "loads A Z key f = Some new"
proof -
  define g where "g = (header_C h off (length sealed) nonce)\<lparr>hd_header_size := 4096\<rparr>"
  have p: "open_header f = Some g"
    unfolding g_def by (rule open_header_C[OF header_BC_ok(2)[OF h] f])
  have act: "inactive_slot h = 0 \<or> inactive_slot h = 1" by (simp add: inactive_slot_def)
  have same: "framed_chunks g = framed_chunks h" "context_bound_chunks g = context_bound_chunks h"
    "hd_active_slot g = inactive_slot h" "index_ad g = index_ad h"
    by (simp_all add: g_def framed_chunks_def index_ad_def context_bound_chunks_def fun_eq_iff)
  have slot: "hd_slot g (inactive_slot h) = \<lparr>is_offset = of_nat off, is_length = of_nat (length sealed),
      is_nonce = nonce, is_context_bound = context_bound_chunks g\<rparr>"
    using act by (auto simp: same(2)) (auto simp: g_def header_C_def header_B_def hd_slot_def set_slot_def)
  have "sealed = seal_index A key g nonce plain"
    using sealed by (simp add: seal_index_def index_blob_ad_def same)
  from sealed_slot_loads[OF A this slot span] new
  have "load_slot_with_recovery A Z f g key (inactive_slot h) = Some (new, \<not> context_bound_chunks h, g)"
    by (simp add: same)
  then show ?thesis
    using act by (cases new) (auto simp: loads_def p load_index_def same)
qed

section \<open>Every crash\<close>

lemma torn_header:
  assumes "header_ok g" "HEADER_SIZE \<le> length f" "torn f (write_header g) d"
  shows "HEADER_SIZE \<le> length d"
    and "k < HEADER_SIZE \<Longrightarrow> d ! k = f ! k \<or> d ! k = serialize_header g ! k"
    and "HEADER_SIZE \<le> fst s \<Longrightarrow> in_file f s \<Longrightarrow> in_file d s \<and> slice d s = slice f s"
proof -
  have len: "length f \<le> length d" and each: "\<And>i. i < length f \<Longrightarrow> d ! i = f ! i \<or> d ! i = perform (write_header g) f ! i"
    using assms(3) by (simp_all add: torn_def)
  show "HEADER_SIZE \<le> length d" using len assms(2) by simp
  show "d ! k = f ! k \<or> d ! k = serialize_header g ! k" if "k < HEADER_SIZE"
    using each[of k] that assms(1,2) by (simp add: nth_perform_header)
  show "in_file d s \<and> slice d s = slice f s" if s: "HEADER_SIZE \<le> fst s" "in_file f s"
  proof -
    have "d ! i = f ! i" if "fst s \<le> i" "i < fst s + snd s" for i
      using each[of i] that s assms(1,2) by (auto simp: nth_perform_header)
    then show ?thesis using s len by (intro conjI slice_eqI) auto
  qed
qed

lemma torn_data:
  assumes "torn f \<lparr>io_off = off, io_bytes = bs\<rparr> d" "off \<le> length f" "in_file f s" "sep (off, length bs) s"
  shows "in_file d s \<and> slice d s = slice f s"
proof -
  have len: "length f \<le> length d" using assms(1) by (simp add: torn_def)
  have "d ! i = f ! i" if "fst s \<le> i" "i < fst s + snd s" for i
  proof -
    have "i < length f" using assms(3) that by simp
    then have "d ! i = f ! i \<or> d ! i = perform \<lparr>io_off = off, io_bytes = bs\<rparr> f ! i"
      using assms(1) by (simp add: torn_def)
    moreover have "perform \<lparr>io_off = off, io_bytes = bs\<rparr> f ! i = f ! i"
      using assms(2,4) that \<open>i < length f\<close> by (auto simp: perform_def nth_write_raw_at sep_def)
    ultimately show ?thesis by simp
  qed
  then show ?thesis using assms(3) len by (intro conjI slice_eqI) auto
qed

lemma mode_bytes:
  assumes "header_ok h" "has_index_slot_modes h"
  shows "serialize_header h ! 224 \<le> 1" "serialize_header h ! 225 \<le> 1"
proof -
  have "serialize_header h ! 224 = (if is_context_bound (hd_slot_a h) then 1 else 0)"
    "serialize_header h ! 225 = (if is_context_bound (hd_slot_b h) then 1 else 0)"
    using assms by (intro nth_header[OF assms(1)]; simp add: header_patches_def sizes)+
  then show "serialize_header h ! 224 \<le> 1" "serialize_header h ! 225 \<le> 1" by simp_all
qed

lemma commit_steps_crash:
  assumes A: "aead_laws A" and h: "header_ok h" "length nonce = NONCE_SIZE"
    and f: "HEADER_SIZE \<le> length f" "take HEADER_SIZE f = serialize_header h"
    and old: "load_slot_with_recovery A Z f h key (hd_active_slot h) = Some (old, lg, h1)"
    and act: "HEADER_SIZE \<le> fst (slot_span h (hd_active_slot h))"
    and off: "HEADER_SIZE \<le> off" "off \<le> length f" "sep (off, length sealed) (slot_span h (hd_active_slot h))"
    and sealed: "sealed = seal_index A key h nonce plain" "off + length sealed < 2 ^ 64"
    and new: "(case (if framed_chunks h then decode_frame Z plain else Some plain) of
                 None \<Rightarrow> None | Some p \<Rightarrow> deserialize_index p) = Some new"
    and steps: "steps = (\<lparr>io_off = off, io_bytes = sealed\<rparr>, h) # swap_slots h off (length sealed) nonce"
  shows "crash_states (map fst steps) f d \<Longrightarrow> loads A Z key d = Some old \<or> loads A Z key d = Some new"
    and "run_steps steps [True, True, True] f h = (r, f', h') \<Longrightarrow> r = ResOk \<and> loads A Z key f' = Some new"
proof -
  define B where "B = header_B h off (length sealed) nonce"
  define C where "C = header_C h off (length sealed) nonce"
  define w where "w = \<lparr>io_off = off, io_bytes = sealed\<rparr>"
  define f1 where "f1 = perform w f"
  define f2 where "f2 = perform (write_header B) f1"
  define f3 where "f3 = perform (write_header C) f2"
  let ?s = "slot_span h (hd_active_slot h)"
  have ok: "header_ok B" "header_ok C" using header_BC_ok[OF h] by (simp_all add: B_def C_def)
  have span: "in_file f ?s"
    using old by (auto simp: load_slot_with_recovery_def Let_def dest: try_load_in_file split: option.splits)
  have tag: "TAG_SIZE \<le> length sealed" using read_sealed_index[OF A sealed(1)] by simp
  then have ne: "sealed \<noteq> []" by (auto simp: TAG_SIZE_def)
  have l1: "length f \<le> length f1" and n1: "\<And>k. k < HEADER_SIZE \<Longrightarrow> f1 ! k = serialize_header h ! k"
  proof -
    show "length f \<le> length f1" by (simp add: f1_def perform_def w_def length_write_raw_at)
    show "f1 ! k = serialize_header h ! k" if "k < HEADER_SIZE" for k
      using that off(1,2) f nth_take[of k HEADER_SIZE f]
      by (simp add: f1_def perform_def w_def nth_write_raw_at)
  qed
  have s1: "in_file f1 ?s \<and> slice f1 ?s = slice f ?s"
    using off span by (simp add: f1_def perform_def w_def slice_write_other in_file_write)
  have b1: "in_file f1 (off, length sealed)" "slice f1 (off, length sealed) = sealed"
    using off ne by (simp_all add: f1_def perform_def w_def slice_write_same length_write_raw_at)
  have H1: "HEADER_SIZE \<le> length f1" using l1 f(1) by simp
  have H2: "HEADER_SIZE \<le> length f2" using length_perform_header[OF ok(1) H1] H1 by (simp add: f2_def)
  have s2: "in_file f2 ?s \<and> slice f2 ?s = slice f ?s"
    using slice_perform_header[OF ok(1) act] s1 by (simp add: f2_def)
  have b2: "in_file f2 (off, length sealed)" "slice f2 (off, length sealed) = sealed"
    using slice_perform_header[OF ok(1), of "(off, length sealed)"] off(1) b1 by (simp_all add: f2_def)
  have n2: "f2 ! k = serialize_header B ! k" if "k < HEADER_SIZE" for k
    using that H1 by (simp add: f2_def nth_perform_header[OF ok(1) H1])
  have mode: "has_index_slot_modes h \<Longrightarrow> serialize_header h ! (if inactive_slot h = 0 then 224 else 225) \<le> 1"
    "has_index_slot_modes h \<Longrightarrow> serialize_header B ! (if inactive_slot h = 0 then 224 else 225) \<le> 1"
    using mode_bytes[OF h(1)] mode_bytes[OF ok(1)] by (auto simp: has_index_slot_modes_def B_def)
  have BS: "serialize_header B ! k = serialize_header h ! k" if "k < HEADER_SIZE" "k \<notin> slot_region (inactive_slot h)" for k
    using serialize_slot_agree[OF h(1), of "inactive_slot h"] ok(1) that by (simp add: B_def header_B_def)
  have keep: "loads A Z key d = Some old"
    if "HEADER_SIZE \<le> length d" "\<And>k. k < HEADER_SIZE \<Longrightarrow> d ! k = serialize_header h ! k \<or> d ! k = serialize_header B ! k"
      "in_file d ?s \<and> slice d ?s = slice f ?s" for d
  proof (rule old_survives[OF h(1) that(1) _ _ old])
    show "d ! k = serialize_header h ! k" if "k < HEADER_SIZE" "k \<notin> slot_region (inactive_slot h)" for k
      using \<open>\<And>k. k < HEADER_SIZE \<Longrightarrow> d ! k = serialize_header h ! k \<or> d ! k = serialize_header B ! k\<close> that BS by metis
    show "d ! (if inactive_slot h = 0 then 224 else 225) \<le> 1" if "has_index_slot_modes h"
      using \<open>\<And>k. k < HEADER_SIZE \<Longrightarrow> d ! k = serialize_header h ! k \<or> d ! k = serialize_header B ! k\<close>[of "if inactive_slot h = 0 then 224 else 225"]
        mode[OF that] by (auto simp: HEADER_SIZE_def split: if_splits)
    show "in_file d ?s" "slice d ?s = slice f ?s" using that(3) by blast+
  qed
  have fresh: "loads A Z key d = Some new"
    if "HEADER_SIZE \<le> length d" "take HEADER_SIZE d = serialize_header C"
      "in_file d (off, length sealed) \<and> slice d (off, length sealed) = sealed" for d
    using that by (intro new_loads[OF A h sealed(1) _ _ _ _ sealed(2) new]) (simp_all add: C_def)
  have CB: "C = B\<lparr>hd_active_slot := inactive_slot h\<rparr>" by (simp add: C_def B_def header_C_def)
  have final: "loads A Z key f3 = Some new"
    using b2 off(1) H2 slice_perform_header[OF ok(2), of "(off, length sealed)" f2]
    by (intro fresh) (simp_all add: f3_def length_perform_header[OF ok(2)] take_perform_header[OF ok(2)])
  have steps': "steps = [(w, h), (write_header B, B), (write_header C, C)]"
    by (simp add: steps swap_slots_eq w_def B_def C_def)
  {
    assume "crash_states (map fst steps) f d"
    then consider "torn f w d" | "torn f1 (write_header B) d" | "torn f2 (write_header C) d" | "d = f3"
      by (auto simp: steps' f1_def f2_def f3_def)
    then show "loads A Z key d = Some old \<or> loads A Z key d = Some new"
    proof cases
      case 1
      have "d ! k = serialize_header h ! k" if "k < HEADER_SIZE" for k
      proof -
        have k: "k < length f" using that f(1) by simp
        then have "d ! k = f ! k \<or> d ! k = perform w f ! k" using 1 by (simp add: torn_def)
        moreover have "perform w f ! k = f ! k"
          using k that off(1,2) by (simp add: w_def perform_def nth_write_raw_at)
        ultimately show ?thesis using that f(2) nth_take[of k HEADER_SIZE f] by simp
      qed
      moreover have "HEADER_SIZE \<le> length d" using 1 f by (simp add: torn_def)
      ultimately show ?thesis using torn_data[OF 1[unfolded w_def] off(2) span off(3)] by (intro disjI1 keep) auto
    next
      case 2
      note t = torn_header[OF ok(1) H1 2]
      have "loads A Z key d = Some old"
      proof (rule keep[OF t(1)])
        show "d ! k = serialize_header h ! k \<or> d ! k = serialize_header B ! k" if "k < HEADER_SIZE" for k
          using t(2)[OF that] n1[OF that] by simp
        show "in_file d ?s \<and> slice d ?s = slice f ?s" using t(3)[OF act] s1 by simp
      qed
      then show ?thesis ..
    next
      case 3
      note t = torn_header[OF ok(2) H2 3]
      have CS: "serialize_header C ! k = serialize_header B ! k" if "k < HEADER_SIZE" "k \<noteq> 206" for k
        using serialize_active_agree[OF ok(1), of "inactive_slot h"] ok(2) that by (simp add: CB)
      show ?thesis
      proof (cases "d ! 206 = serialize_header B ! 206")
        case True
        have "d ! k = serialize_header B ! k" if "k < HEADER_SIZE" for k
          using t(2)[OF that] CS[OF that] n2[OF that] True by metis
        moreover have "in_file d ?s \<and> slice d ?s = slice f ?s" using t(3)[OF act] s2 by simp
        ultimately have "loads A Z key d = Some old" using keep[OF t(1)] by blast
        then show ?thesis ..
      next
        case False
        have "d ! k = serialize_header C ! k" if "k < HEADER_SIZE" for k
          using t(2)[OF that] CS[OF that] n2[OF that] False by metis
        then have "take HEADER_SIZE d = serialize_header C"
          using t(1) by (intro nth_equalityI) (simp_all add: length_serialize_header[OF ok(2)])
        then show ?thesis using t(1) t(3)[of "(off, length sealed)"] b2 off(1) by (intro disjI2 fresh) simp_all
      qed
    next
      case 4
      then show ?thesis using final by simp
    qed
  }
  show "run_steps steps [True, True, True] f h = (r, f', h') \<Longrightarrow> r = ResOk \<and> loads A Z key f' = Some new"
    using final by (auto simp: steps' f1_def f2_def f3_def)
qed


lemma plain_index_loads:
  assumes "miniz_laws Z" "node_ok root" "tree_depth root \<le> INDEX_MAX_DEPTH"
  shows "(case (if framed_chunks h then decode_frame Z (serialize_plain_index Z h root searches settings)
            else Some (serialize_plain_index Z h root searches settings)) of
       None \<Rightarrow> None | Some p \<Rightarrow> deserialize_index p) =
     Some (can_node root, can_searches searches, can_settings settings)"
  using assms(2,3)
  by (simp add: serialize_plain_index_def Let_def decode_encode_frame[OF assms(1)] deserialize_serialize)

lemma length_seal: "aead_laws A \<Longrightarrow> length (seal A key nonce p ad) = length p + TAG_SIZE"
  using lock_lengths[of A key nonce ad p] by (auto simp: seal_def split: prod.splits)

lemma crash_before_commit:
  assumes "header_ok h" "HEADER_SIZE \<le> length f0" "take HEADER_SIZE f0 = serialize_header h"
    and "load_slot_with_recovery A Z f0 h key (hd_active_slot h) = Some (old, lg, h1)"
  shows "loads A Z key (f0 @ y) = Some old"
proof -
  have span: "in_file f0 (slot_span h (hd_active_slot h))"
    using assms(4) by (auto simp: load_slot_with_recovery_def Let_def dest: try_load_in_file split: option.splits)
  have n: "(f0 @ y) ! k = serialize_header h ! k" if "k < HEADER_SIZE" for k
    using that assms(2,3) nth_take[of k HEADER_SIZE f0] by (simp add: nth_append)
  show ?thesis
    using mode_bytes[OF assms(1)] span assms(2)
    by (intro old_survives[OF assms(1) _ _ _ assms(4)]) (auto simp: n slice_append HEADER_SIZE_def)
qed

section \<open>Properties\<close>

text \<open>
  Property C4.  Committing an index is atomic under crashes.  Start from a file whose header is the
  one in memory and whose active slot loads an index, with further chunks staged behind it.  Before
  the commit, and at every moment of it, whatever part of the write in flight reached the disk (a
  torn append, a header torn at any byte in phase B or C), opening the file loads either the old
  index or the new one, never neither and never a mixture; once all three phases have succeeded it
  loads the new one, in its canonical form.
\<close>

theorem index_commit_crash_safe:
  assumes "aead_laws A" "miniz_laws Z" "header_ok h"
    and "HEADER_SIZE \<le> length f0" "take HEADER_SIZE f0 = serialize_header h"
    and "load_slot_with_recovery A Z f0 h key (hd_active_slot h) = Some (old, lg, h1)"
    and "HEADER_SIZE \<le> fst (slot_span h (hd_active_slot h))"
    and "node_ok root" "tree_depth root \<le> INDEX_MAX_DEPTH" "length nonce = NONCE_SIZE"
    and "length (f0 @ staged) + length (serialize_plain_index Z h root searches settings) + TAG_SIZE < 2 ^ 64"
    and "commit_index A Z key (f0 @ staged) h (root, searches, settings) (Some nonce) = Inr steps"
  shows "loads A Z key (f0 @ y) = Some old \<and>
    (\<forall>d. crash_states (map fst steps) (f0 @ staged) d \<longrightarrow> loads A Z key d = Some old \<or>
        loads A Z key d = Some (can_node root, can_searches searches, can_settings settings)) \<and>
    (\<forall>r f' h'. run_steps steps [True, True, True] (f0 @ staged) h = (r, f', h') \<longrightarrow> r = ResOk \<and>
        loads A Z key f' = Some (can_node root, can_searches searches, can_settings settings))"
proof -
  note A = assms(1) and Z = assms(2) and h = assms(3)
  define f where "f = f0 @ staged"
  define plain where "plain = serialize_plain_index Z h root searches settings"
  define sealed where "sealed = seal_index A key h nonce plain"
  let ?s = "slot_span h (hd_active_slot h)"
  have steps: "steps = (\<lparr>io_off = length f, io_bytes = sealed\<rparr>, h) # swap_slots h (length f) (length sealed) nonce"
    using assms(12) by (simp add: commit_index_def commit_plain_blob_def Let_def sealed_def plain_def f_def)
  have span: "in_file f0 ?s"
    using assms(6) by (auto simp: load_slot_with_recovery_def Let_def dest: try_load_in_file split: option.splits)
  have old: "\<exists>h2. load_slot_with_recovery A Z f h key (hd_active_slot h) = Some (old, lg, h2)"
    using load_recovery_keep[OF refl refl refl _ _ assms(6)] span by (simp add: f_def slice_append)
  then obtain h2 where old: "load_slot_with_recovery A Z f h key (hd_active_slot h) = Some (old, lg, h2)" by blast
  have f: "HEADER_SIZE \<le> length f" "take HEADER_SIZE f = serialize_header h"
    using assms(4,5) by (simp_all add: f_def)
  have apart: "sep (length f, length sealed) ?s" using span by (simp add: sep_def f_def)
  have size: "length f + length sealed < 2 ^ 64"
    using assms(11) length_seal[OF A] by (simp add: sealed_def seal_index_def plain_def f_def)
  note new = plain_index_loads[OF Z assms(8,9), of h searches settings, folded plain_def]
  note main = commit_steps_crash[OF A h assms(10) f old assms(7) f(1) order.refl apart sealed_def size new steps]
  show ?thesis
    using crash_before_commit[OF h assms(4-6)] main unfolding f_def by blast
qed


text \<open>
  A concrete vault: the sample header with its active slot A pointing to a version-1 blob of an
  empty gallery, directly behind the header.
\<close>

definition sample_blob :: bytes where
  "sample_blob = seal_index sample_aead [1] sample_header (replicate 24 6) (encode_frame sample_miniz v1_blob)"

definition sample_vault_header :: header where
  "sample_vault_header = sample_header\<lparr>hd_active_slot := 0, hd_slot_a :=
     \<lparr>is_offset = 4096, is_length = of_nat (length sample_blob), is_nonce = replicate 24 6,
      is_context_bound = True\<rparr>\<rparr>"

definition sample_vault :: disk where
  "sample_vault = serialize_header sample_vault_header @ sample_blob"

lemma length_sample_blob: "length sample_blob \<le> 26"
  using length_encode_frame[of sample_miniz v1_blob]
  by (simp add: sample_blob_def seal_index_def length_seal[OF sample_aead_laws] TAG_SIZE_def v1_blob_def)

lemma sample_vault_ok:
  "header_ok sample_vault_header" "HEADER_SIZE \<le> length sample_vault"
  "take HEADER_SIZE sample_vault = serialize_header sample_vault_header"
  "HEADER_SIZE \<le> fst (slot_span sample_vault_header (hd_active_slot sample_vault_header))"
proof -
  show h: "header_ok sample_vault_header"
    using sample_header_ok by (simp add: sample_vault_header_def header_ok_def sizes sample_header_def
        has_index_slot_modes_def FLAG_INDEX_SLOT_MODES_def)
  show "HEADER_SIZE \<le> length sample_vault" "take HEADER_SIZE sample_vault = serialize_header sample_vault_header"
    by (simp_all add: sample_vault_def length_serialize_header[OF h])
  show "HEADER_SIZE \<le> fst (slot_span sample_vault_header (hd_active_slot sample_vault_header))"
    by (simp add: slot_span_def sample_vault_header_def hd_slot_def HEADER_SIZE_def)
qed

lemma sample_vault_loads:
  "load_slot_with_recovery sample_aead sample_miniz sample_vault sample_vault_header [1]
     (hd_active_slot sample_vault_header) = Some ((gallery [0x61], [], seeded), False, sample_vault_header)"
proof -
  have flags: "context_bound_chunks sample_vault_header" "context_bound_chunks sample_header"
    "framed_chunks sample_vault_header"
    by (simp_all add: context_bound_chunks_def framed_chunks_def sample_vault_header_def sample_header_def
        FLAG_CONTEXT_BOUND_CHUNKS_def FLAG_FRAMED_CHUNKS_def)
  have "index_ad sample_vault_header = index_ad sample_header"
    by (simp add: index_ad_def fun_eq_iff sample_vault_header_def)
  then have blob: "sample_blob = seal_index sample_aead [1] sample_vault_header (replicate 24 6) (encode_frame sample_miniz v1_blob)"
    by (simp add: sample_blob_def seal_index_def index_blob_ad_def flags)
  have slot: "hd_slot sample_vault_header 0 = \<lparr>is_offset = of_nat 4096, is_length = of_nat (length sample_blob),
      is_nonce = replicate 24 6, is_context_bound = context_bound_chunks sample_vault_header\<rparr>"
    by (simp add: flags) (simp add: hd_slot_def sample_vault_header_def)
  have len: "length (serialize_header sample_vault_header) = 4096"
    using length_serialize_header[OF sample_vault_ok(1)] by (simp add: HEADER_SIZE_def)
  have span: "in_file sample_vault (4096, length sample_blob)"
    "slice sample_vault (4096, length sample_blob) = sample_blob" "4096 + length sample_blob < 2 ^ 64"
    using length_sample_blob by (simp_all add: sample_vault_def len slice_def)
  have new: "(case (if framed_chunks sample_vault_header then decode_frame sample_miniz (encode_frame sample_miniz v1_blob)
      else Some (encode_frame sample_miniz v1_blob)) of None \<Rightarrow> None | Some p \<Rightarrow> deserialize_index p) =
      Some (gallery [0x61], [], seeded)"
    by (simp add: flags decode_encode_frame[OF sample_miniz_laws] v1_blob_accepted)
  have act: "hd_active_slot sample_vault_header = 0" by (simp add: sample_vault_header_def)
  show ?thesis
    unfolding act using sealed_slot_loads[OF sample_aead_laws blob slot span new] by (simp add: flags)
qed

theorem index_commit_crash_safe_witness:
  "\<exists>steps f' h'. commit_index sample_aead sample_miniz [1] (sample_vault @ [1, 2, 3]) sample_vault_header
      (gallery [0x62], [], default_settings) (Some (replicate 24 8)) = Inr steps \<and>
    loads sample_aead sample_miniz [1] sample_vault = Some (gallery [0x61], [], seeded) \<and>
    run_steps steps [True, True, True] (sample_vault @ [1, 2, 3]) sample_vault_header = (ResOk, f', h') \<and>
    loads sample_aead sample_miniz [1] f' =
      Some (can_node (gallery [0x62]), can_searches [], can_settings default_settings)"
proof -
  obtain steps where c: "commit_index sample_aead sample_miniz [1] (sample_vault @ [1, 2, 3]) sample_vault_header
      (gallery [0x62], [], default_settings) (Some (replicate 24 8)) = Inr steps"
    by (simp add: commit_index_def commit_plain_blob_def Let_def)
  obtain r f' h' where r: "run_steps steps [True, True, True] (sample_vault @ [1, 2, 3]) sample_vault_header = (r, f', h')"
    using prod_cases3 by blast
  have root: "node_ok (gallery [0x62])" "tree_depth (gallery [0x62]) \<le> INDEX_MAX_DEPTH"
    by (simp_all add: gallery_def default_node_data_def meta_ok_def vmeta_ok_def
        default_image_meta_def default_video_meta_def)
  have "length (serialize_index (gallery [0x62]) [] default_settings) \<le> 100"
    by (simp add: serialize_index_def gallery_def default_node_data_def write_str_def clamp_def write_tags_def
        Let_def write_bool_def write_saved_searches_def write_settings_def write_categories_block_def
        write_descriptions_block_def write_field_values_block_def default_settings_def NODE_ID_SIZE_def)
  then have "length (serialize_plain_index sample_miniz sample_vault_header (gallery [0x62]) [] default_settings) \<le> 101"
    using length_encode_frame[of sample_miniz "serialize_index (gallery [0x62]) [] default_settings"]
    by (simp add: serialize_plain_index_def Let_def)
  moreover have "length sample_vault \<le> 5000"
    using length_sample_blob length_serialize_header[OF sample_vault_ok(1)] by (simp add: sample_vault_def HEADER_SIZE_def)
  ultimately have size: "length (sample_vault @ [1, 2, 3]) +
      length (serialize_plain_index sample_miniz sample_vault_header (gallery [0x62]) [] default_settings) + TAG_SIZE < 2 ^ 64"
    by (simp add: TAG_SIZE_def)
  have n: "length (replicate 24 (8::byte)) = NONCE_SIZE" by (simp add: NONCE_SIZE_def)
  note whole = index_commit_crash_safe[OF sample_aead_laws sample_miniz_laws sample_vault_ok(1-3) sample_vault_loads
      sample_vault_ok(4) root n size c, of "[]"]
  have "loads sample_aead sample_miniz [1] sample_vault = Some (gallery [0x61], [], seeded)"
    using conjunct1[OF whole] by simp
  moreover have "r = ResOk \<and> loads sample_aead sample_miniz [1] f' =
      Some (can_node (gallery [0x62]), can_searches [], can_settings default_settings)"
    using whole r by blast
  ultimately show ?thesis using c r by blast
qed

end
