(* ===== verification/Vault_Tree.thy ===== *)
theory Vault_Tree
  imports Index_Format Safe_Name "HOL-Library.Sublist"
begin

text \<open>
  The in-memory gallery tree: path resolution (\<open>src/vault/vault_ops.h\<close>,
  \<open>src/vault/vault_ops.cpp\<close>), node pointers as addresses (the child indices from the root), and
  the namespace that a tree denotes, a map from paths (lists of names) to nodes.  The operations of
  \<open>Vault_Edit\<close> are shown to act on that map.
\<close>

section \<open>Paths\<close>

definition is_slash :: "byte \<Rightarrow> bool" where "is_slash c \<longleftrightarrow> c = 0x2F"

lemma split_path_rest:
  "p \<noteq> [] \<Longrightarrow> length (dropWhile (\<lambda>c. \<not> is_slash c) (dropWhile is_slash p)) < length p"
  by (cases p) (auto simp: less_Suc_eq_le intro: order.trans[OF length_dropWhile_le] length_dropWhile_le)

text \<open>The two inner loops of \<open>split_path\<close> skip slashes and then take a segment.\<close>

function split_path :: "bytes \<Rightarrow> bytes list" where
  "split_path p =
     (if p = [] then []
      else let p1 = dropWhile is_slash p;
               seg = takeWhile (\<lambda>c. \<not> is_slash c) p1;
               rest = dropWhile (\<lambda>c. \<not> is_slash c) p1
           in if seg \<noteq> [] then seg # split_path rest else split_path rest)"
  by pat_completeness auto
termination
  by (relation "measure length") (use split_path_rest in auto)

declare split_path.simps [simp del]

section \<open>Children and addresses\<close>

fun find_index :: "('a \<Rightarrow> bool) \<Rightarrow> 'a list \<Rightarrow> nat option" where
  "find_index P [] = None"
| "find_index P (x # xs) = (if P x then Some 0 else map_option Suc (find_index P xs))"

definition child_named :: "index_node \<Rightarrow> bytes \<Rightarrow> nat option" where
  "child_named n name = find_index (\<lambda>c. n_name c = name) (nchildren n)"

definition gallery_named :: "index_node \<Rightarrow> bytes \<Rightarrow> nat option" where
  "gallery_named n name = find_index (\<lambda>c. is_gallery c \<and> n_name c = name) (nchildren n)"

type_synonym addr = "nat list"

fun node_at :: "addr \<Rightarrow> index_node \<Rightarrow> index_node" where
  "node_at [] n = n"
| "node_at (k # ks) n = node_at ks (nchildren n ! k)"

fun update_at :: "addr \<Rightarrow> (index_node \<Rightarrow> index_node) \<Rightarrow> index_node \<Rightarrow> index_node" where
  "update_at [] f n = f n"
| "update_at (k # ks) f (Node d cs) = Node d (cs[k := update_at ks f (cs ! k)])"

text \<open>The walk of \<open>resolve_gallery\<close>: every segment names a gallery.\<close>

fun walk_galleries :: "index_node \<Rightarrow> bytes list \<Rightarrow> addr option" where
  "walk_galleries n [] = Some []"
| "walk_galleries n (s # ss) =
     (case gallery_named n s of
        None \<Rightarrow> None
      | Some k \<Rightarrow> map_option (Cons k) (walk_galleries (nchildren n ! k) ss))"

definition resolve_gallery :: "index_node \<Rightarrow> bytes \<Rightarrow> addr option" where
  "resolve_gallery root path = walk_galleries root (split_path path)"

text \<open>The walk of \<open>resolve_node_impl\<close>: the last segment names any node.\<close>

fun walk_node :: "index_node \<Rightarrow> bytes list \<Rightarrow> addr option" where
  "walk_node n [] = Some []"
| "walk_node n [s] = map_option (\<lambda>k. [k]) (child_named n s)"
| "walk_node n (s # t # ss) =
     (case gallery_named n s of
        None \<Rightarrow> None
      | Some k \<Rightarrow> map_option (Cons k) (walk_node (nchildren n ! k) (t # ss)))"

definition resolve_node :: "index_node \<Rightarrow> bytes \<Rightarrow> addr option" where
  "resolve_node root path = walk_node root (split_path path)"

section \<open>Well-formed trees\<close>

text \<open>
  The invariant of the tree: siblings have distinct names, every name below the root is safe, and
  media have no children.
\<close>

fun tree_wf :: "index_node \<Rightarrow> bool" where
  "tree_wf (Node d cs) \<longleftrightarrow> (nd_type d \<noteq> Gallery \<longrightarrow> cs = []) \<and> distinct (map n_name cs) \<and>
     (\<forall>c \<in> set cs. is_safe_node_name (n_name c) \<and> tree_wf c)"

text \<open>What a tree denotes.\<close>

fun lookup :: "index_node \<Rightarrow> bytes list \<Rightarrow> node_data option" where
  "lookup n [] = Some (ndata n)"
| "lookup n (s # ss) =
     (case child_named n s of None \<Rightarrow> None | Some k \<Rightarrow> lookup (nchildren n ! k) ss)"

lemma find_index_Some:
  "find_index P xs = Some k \<longleftrightarrow> k < length xs \<and> P (xs ! k) \<and> (\<forall>j < k. \<not> P (xs ! j))"
proof (induction xs arbitrary: k)
  case (Cons x xs)
  then show ?case
    by (cases k) (auto simp: less_Suc_eq_0_disj)
qed simp

lemma find_index_None: "find_index P xs = None \<longleftrightarrow> (\<forall>x \<in> set xs. \<not> P x)"
  by (induction xs) auto

lemma find_index_append:
  "find_index P (xs @ ys) =
     (case find_index P xs of Some k \<Rightarrow> Some k | None \<Rightarrow> map_option ((+) (length xs)) (find_index P ys))"
  by (induction xs) (cases "find_index P ys"; auto split: option.split)+

lemma find_index_name_eq:
  assumes "distinct (map f xs)" "k < length xs"
  shows "find_index (\<lambda>x. f x = s) xs = Some k \<longleftrightarrow> f (xs ! k) = s"
  using assms by (auto simp: find_index_Some distinct_conv_nth)

lemma child_named_Some:
  "child_named n s = Some k \<Longrightarrow> k < length (nchildren n) \<and> n_name (nchildren n ! k) = s"
  by (simp add: child_named_def find_index_Some)

lemma gallery_named_Some:
  "gallery_named n s = Some k \<Longrightarrow> k < length (nchildren n) \<and> n_name (nchildren n ! k) = s \<and> is_gallery (nchildren n ! k)"
  by (simp add: gallery_named_def find_index_Some)

lemma tree_wf_distinct: "tree_wf n \<Longrightarrow> distinct (map n_name (nchildren n))"
  by (cases n) simp

lemma tree_wf_child: "tree_wf n \<Longrightarrow> k < length (nchildren n) \<Longrightarrow> tree_wf (nchildren n ! k)"
  by (cases n) simp

text \<open>With distinct sibling names the two searches find the same child.\<close>

lemma gallery_named_eq:
  assumes "tree_wf n"
  shows "gallery_named n s = (case child_named n s of None \<Rightarrow> None
     | Some k \<Rightarrow> if is_gallery (nchildren n ! k) then Some k else None)"
proof (cases "child_named n s")
  case None
  then have "gallery_named n s = None" by (auto simp: gallery_named_def child_named_def find_index_None)
  then show ?thesis using None by simp
next
  case (Some k)
  note k = child_named_Some[OF Some]
  have uniq: "j = k" if "j < length (nchildren n)" "n_name (nchildren n ! j) = s" for j
    using that k tree_wf_distinct[OF assms] by (auto simp: distinct_conv_nth)
  show ?thesis
  proof (cases "is_gallery (nchildren n ! k)")
    case True
    then have "gallery_named n s = Some k"
      unfolding gallery_named_def find_index_Some using k uniq by (metis less_imp_neq less_trans)
    then show ?thesis using Some True by simp
  next
    case False
    then have "gallery_named n s = None"
      using uniq by (auto simp: gallery_named_def find_index_None in_set_conv_nth)
    then show ?thesis using Some False by simp
  qed
qed

text \<open>Addresses that exist, and the path of names along them.\<close>

fun valid_addr :: "addr \<Rightarrow> index_node \<Rightarrow> bool" where
  "valid_addr [] n \<longleftrightarrow> True"
| "valid_addr (k # ks) n \<longleftrightarrow> k < length (nchildren n) \<and> valid_addr ks (nchildren n ! k)"

fun path_of :: "addr \<Rightarrow> index_node \<Rightarrow> bytes list" where
  "path_of [] n = []"
| "path_of (k # ks) n = n_name (nchildren n ! k) # path_of ks (nchildren n ! k)"

lemma walk_galleries_addr:
  "walk_galleries n ss = Some a \<Longrightarrow> valid_addr a n \<and> path_of a n = ss \<and> (is_gallery n \<longrightarrow> is_gallery (node_at a n))"
  by (induction n ss arbitrary: a rule: walk_galleries.induct)
     (auto split: option.splits dest: gallery_named_Some)

lemma walk_node_addr: "walk_node n ss = Some a \<Longrightarrow> valid_addr a n \<and> path_of a n = ss"
  by (induction n ss arbitrary: a rule: walk_node.induct)
     (auto split: option.splits dest: gallery_named_Some child_named_Some)

lemma tree_wf_at: "valid_addr a n \<Longrightarrow> tree_wf n \<Longrightarrow> tree_wf (node_at a n)"
  by (induction a n rule: valid_addr.induct) (auto intro: tree_wf_child)

lemma valid_addr_snoc:
  "valid_addr (a @ [k]) n \<longleftrightarrow> valid_addr a n \<and> k < length (nchildren (node_at a n))"
  by (induction a n rule: valid_addr.induct) auto

lemma path_of_snoc: "path_of (a @ [k]) n = path_of a n @ [n_name (nchildren (node_at a n) ! k)]"
  by (induction a n rule: path_of.induct) auto

lemma update_at_snoc:
  "update_at (a @ [k]) f n = update_at a (\<lambda>m. Node (ndata m) ((nchildren m)[k := f (nchildren m ! k)])) n"
proof (induction a arbitrary: n)
  case Nil
  then show ?case by (cases n) simp
next
  case (Cons j a)
  then show ?case by (cases n) simp
qed

text \<open>Distinct sibling names and safe names survive an update that keeps its node's name.\<close>

lemma tree_wf_update_at:
  assumes "valid_addr a n" "tree_wf n" "tree_wf (f (node_at a n))" "n_name (f (node_at a n)) = n_name (node_at a n)"
  shows "tree_wf (update_at a f n) \<and> n_name (update_at a f n) = n_name n"
  using assms
proof (induction a arbitrary: n)
  case (Cons k a)
  obtain d cs where n: "n = Node d cs" by (cases n)
  have kl: "k < length cs" using Cons.prems(1) by (simp add: n)
  have IH: "tree_wf (update_at a f (cs ! k)) \<and> n_name (update_at a f (cs ! k)) = n_name (cs ! k)"
    using Cons tree_wf_child[OF Cons.prems(2)] by (simp add: n)
  have names: "map n_name (cs[k := update_at a f (cs ! k)]) = map n_name cs"
    using IH kl by (intro nth_equalityI) (auto simp: nth_list_update)
  have "is_safe_node_name (n_name c) \<and> tree_wf c" if "c \<in> set (cs[k := update_at a f (cs ! k)])" for c
  proof -
    have "c = update_at a f (cs ! k) \<or> c \<in> set cs"
      using that set_update_subset_insert[of cs k] by blast
    then show ?thesis using IH Cons.prems(2) nth_mem[OF kl] by (auto simp: n)
  qed
  then show ?case using Cons.prems(2) by (auto simp: n simp flip: names)
qed simp

end
