(* ===== verification/Vault_Edit.thy ===== *)
theory Vault_Edit
  imports Index_Store Vault_Tree
begin

text \<open>
  The operations that change the structure of the gallery tree and its per-node flags
  (\<open>src/vault/vault.cpp\<close>, \<open>src/vault/staging.cpp\<close>), each with all its guards and its final
  commit.  The commit's result is a parameter (the persistence layer below), and so is the value of
  each \<open>fill_random\<close> of a node id.
\<close>

section \<open>State and commit\<close>

record vault =
  vt_unlocked :: bool
  vt_read_only :: bool
  vt_v3 :: bool
  vt_context :: bool
  vt_root :: index_node
  vt_settings :: vault_settings
  vt_searches :: "saved_search list"

text \<open>
  \<open>Vault::commit_index\<close>: a directory vault commits its metadata, a read-only legacy file refuses,
  any other file runs the lane or the synchronous commit; \<open>commit\<close> is the result of that layer.
\<close>

definition vault_commit_index :: "(vault \<Rightarrow> vault_result) \<Rightarrow> vault \<Rightarrow> vault_result" where
  "vault_commit_index commit v =
     (if vt_v3 v then commit v else if vt_read_only v then ResInvalidArg else commit v)"

definition committed :: "(vault \<Rightarrow> vault_result) \<Rightarrow> vault \<Rightarrow> vault_result \<times> vault" where
  "committed commit v = (vault_commit_index commit v, v)"

section \<open>Creating galleries\<close>

definition set_node_id :: "bytes \<Rightarrow> index_node \<Rightarrow> index_node" where
  "set_node_id i n = (case n of Node d cs \<Rightarrow> Node (d\<lparr>nd_node_id := i\<rparr>) cs)"

text \<open>
  The loop of \<open>create_gallery\<close> and \<open>ensure_gallery_path\<close>, with \<open>n\<close> for \<open>*cur\<close>: descend into an existing
  gallery, append a missing one.  The result is the status, \<open>created\<close>, and the changed node.
\<close>

fun make_galleries ::
  "bool \<Rightarrow> (nat \<Rightarrow> bytes option) \<Rightarrow> nat \<Rightarrow> bytes list \<Rightarrow> index_node \<Rightarrow> vault_result \<times> bool \<times> index_node" where
  "make_galleries ids rng i [] n = (ResOk, False, n)"
| "make_galleries ids rng i (seg # segs) n =
     (case child_named n seg of
        Some k \<Rightarrow>
          if \<not> is_gallery (nchildren n ! k) then (ResInvalidArg, False, n)
          else (case make_galleries ids rng (Suc i) segs (nchildren n ! k) of
                  (r, created, c) \<Rightarrow> (r, created, Node (ndata n) ((nchildren n)[k := c])))
      | None \<Rightarrow>
          (case (if ids then rng i else Some zero_id) of
             None \<Rightarrow> (ResCryptoError, True, Node (ndata n) (nchildren n @ [gallery seg]))
           | Some nid \<Rightarrow>
               (case make_galleries ids rng (Suc i) segs (set_node_id nid (gallery seg)) of
                  (r, created, c) \<Rightarrow> (r, True, Node (ndata n) (nchildren n @ [c])))))"

definition create_gallery ::
  "(vault \<Rightarrow> vault_result) \<Rightarrow> (nat \<Rightarrow> bytes option) \<Rightarrow> bytes \<Rightarrow> vault \<Rightarrow> vault_result \<times> vault" where
  "create_gallery commit rng path v =
     (if \<not> vt_unlocked v then (ResLocked, v)
      else if vt_read_only v then (ResInvalidArg, v)
      else let segments = split_path path in
        if segments = [] then (ResAlreadyExists, v)
        else if list_ex (\<lambda>seg. \<not> is_safe_node_name seg) segments then (ResInvalidArg, v)
        else case make_galleries (vt_v3 v \<or> vt_context v) rng 0 segments (vt_root v) of
          (r, created, root) \<Rightarrow>
            (let v = v\<lparr>vt_root := root\<rparr>
             in if r \<noteq> ResOk then (r, v)
                else if \<not> created then (ResAlreadyExists, v)
                else committed commit v))"

definition ensure_gallery_path ::
  "(nat \<Rightarrow> bytes option) \<Rightarrow> bytes \<Rightarrow> vault \<Rightarrow> vault_result \<times> vault" where
  "ensure_gallery_path rng path v =
     (if \<not> vt_unlocked v then (ResLocked, v)
      else if vt_read_only v then (ResInvalidArg, v)
      else let segments = split_path path in
        if segments = [] then (ResOk, v)
        else if list_ex (\<lambda>seg. \<not> is_safe_node_name seg) segments then (ResInvalidArg, v)
        else case make_galleries (vt_v3 v \<or> vt_context v) rng 0 segments (vt_root v) of
          (r, created, root) \<Rightarrow> (r, v\<lparr>vt_root := root\<rparr>))"

section \<open>Attaching and removing nodes\<close>

definition push_child :: "index_node \<Rightarrow> index_node \<Rightarrow> index_node" where
  "push_child c g = Node (ndata g) (nchildren g @ [c])"

definition erase_nth :: "nat \<Rightarrow> index_node \<Rightarrow> index_node" where
  "erase_nth k g = Node (ndata g) (take k (nchildren g) @ drop (Suc k) (nchildren g))"

definition attach_staged :: "bytes \<Rightarrow> index_node \<Rightarrow> vault \<Rightarrow> vault_result \<times> vault" where
  "attach_staged path node v =
     (if \<not> vt_unlocked v then (ResLocked, v)
      else if vt_read_only v then (ResInvalidArg, v)
      else case resolve_gallery (vt_root v) path of
        None \<Rightarrow> (ResNotFound, v)
      | Some g \<Rightarrow>
          if child_named (node_at g (vt_root v)) (n_name node) \<noteq> None then (ResAlreadyExists, v)
          else (ResOk, v\<lparr>vt_root := update_at g (push_child node) (vt_root v)\<rparr>))"

definition media_named :: "index_node \<Rightarrow> bytes \<Rightarrow> nat option" where
  "media_named n name = find_index (\<lambda>c. is_media c \<and> n_name c = name) (nchildren n)"

definition remove_image ::
  "(vault \<Rightarrow> vault_result) \<Rightarrow> bytes \<Rightarrow> bytes \<Rightarrow> vault \<Rightarrow> vault_result \<times> vault" where
  "remove_image commit path filename v =
     (if \<not> vt_unlocked v then (ResLocked, v)
      else if vt_read_only v then (ResInvalidArg, v)
      else case resolve_gallery (vt_root v) path of
        None \<Rightarrow> (ResNotFound, v)
      | Some g \<Rightarrow>
          (case media_named (node_at g (vt_root v)) filename of
             None \<Rightarrow> (ResNotFound, v)
           | Some k \<Rightarrow> committed commit (v\<lparr>vt_root := update_at g (erase_nth k) (vt_root v)\<rparr>)))"

text \<open>The walk of \<open>remove_gallery\<close> to the parent takes any child of that name and then insists on a gallery.\<close>

fun walk_checked :: "index_node \<Rightarrow> bytes list \<Rightarrow> addr option" where
  "walk_checked n [] = Some []"
| "walk_checked n (s # ss) =
     (case child_named n s of
        None \<Rightarrow> None
      | Some k \<Rightarrow> if \<not> is_gallery (nchildren n ! k) then None
                  else map_option (Cons k) (walk_checked (nchildren n ! k) ss))"

definition remove_gallery ::
  "(vault \<Rightarrow> vault_result) \<Rightarrow> bytes \<Rightarrow> vault \<Rightarrow> vault_result \<times> vault" where
  "remove_gallery commit path v =
     (if \<not> vt_unlocked v then (ResLocked, v)
      else if vt_read_only v then (ResInvalidArg, v)
      else let segments = split_path path in
        if segments = [] then (ResInvalidArg, v)
        else case walk_checked (vt_root v) (butlast segments) of
          None \<Rightarrow> (ResNotFound, v)
        | Some g \<Rightarrow>
            (case gallery_named (node_at g (vt_root v)) (last segments) of
               None \<Rightarrow> (ResNotFound, v)
             | Some k \<Rightarrow> committed commit (v\<lparr>vt_root := update_at g (erase_nth k) (vt_root v)\<rparr>)))"

text \<open>\<open>find_last_of('/')\<close>: parent path and leaf name.\<close>

definition split_leaf :: "bytes \<Rightarrow> bytes \<times> bytes" where
  "split_leaf path =
     (if list_ex is_slash path
      then let leaf = rev (takeWhile (\<lambda>c. \<not> is_slash c) (rev path))
           in (take (length path - Suc (length leaf)) path, leaf)
      else ([], path))"

definition erase_child ::
  "(index_node \<Rightarrow> bytes \<Rightarrow> nat option) \<Rightarrow> index_node \<Rightarrow> bytes \<Rightarrow> index_node option" where
  "erase_child named root path =
     (let (parent, leaf) = split_leaf path in
      case resolve_gallery root parent of
        None \<Rightarrow> None
      | Some g \<Rightarrow> (case named (node_at g root) leaf of
          None \<Rightarrow> None
        | Some k \<Rightarrow> Some (update_at g (erase_nth k) root)))"

text \<open>The loop of the two batches: the tree, the number removed and the number missing.\<close>

fun erase_batch ::
  "(index_node \<Rightarrow> bytes \<Rightarrow> nat option) \<Rightarrow> bool \<Rightarrow> bytes list \<Rightarrow> index_node \<times> nat \<times> nat \<Rightarrow> index_node \<times> nat \<times> nat" where
  "erase_batch named skip_root [] acc = acc"
| "erase_batch named skip_root (path # paths) (root, removed, missing) =
     (if skip_root \<and> path = [] then erase_batch named skip_root paths (root, removed, Suc missing)
      else case erase_child named root path of
        None \<Rightarrow> erase_batch named skip_root paths (root, removed, Suc missing)
      | Some root' \<Rightarrow> erase_batch named skip_root paths (root', Suc removed, missing))"

definition remove_batch ::
  "(index_node \<Rightarrow> bytes \<Rightarrow> nat option) \<Rightarrow> bool \<Rightarrow> (vault \<Rightarrow> vault_result) \<Rightarrow> bytes list \<Rightarrow> vault \<Rightarrow>
   vault_result \<times> (nat \<times> nat) \<times> vault" where
  "remove_batch named skip_root commit paths v =
     (if \<not> vt_unlocked v then (ResLocked, (0, 0), v)
      else if vt_read_only v then (ResInvalidArg, (0, 0), v)
      else case erase_batch named skip_root paths (vt_root v, 0, 0) of
        (root, removed, missing) \<Rightarrow>
          (let v = v\<lparr>vt_root := root\<rparr>
           in if removed > 0 \<and> vault_commit_index commit v \<noteq> ResOk
              then (vault_commit_index commit v, (0, 0), v)
              else (ResOk, (removed, missing), v)))"

definition remove_media_batch where "remove_media_batch = remove_batch media_named False"

definition remove_nodes_batch where "remove_nodes_batch = remove_batch child_named True"

section \<open>Per-node flags\<close>

definition map_data :: "(node_data \<Rightarrow> node_data) \<Rightarrow> index_node \<Rightarrow> index_node" where
  "map_data f n = Node (f (ndata n)) (nchildren n)"

definition toggle_favorite_node ::
  "(vault \<Rightarrow> vault_result) \<Rightarrow> bytes \<Rightarrow> vault \<Rightarrow> vault_result \<times> vault" where
  "toggle_favorite_node commit path v =
     (if \<not> vt_unlocked v then (ResLocked, v)
      else if vt_read_only v then (ResInvalidArg, v)
      else case resolve_node (vt_root v) path of
        None \<Rightarrow> (ResNotFound, v)
      | Some a \<Rightarrow> committed commit
          (v\<lparr>vt_root := update_at a (map_data (\<lambda>d. d\<lparr>nd_favorite := \<not> nd_favorite d\<rparr>)) (vt_root v)\<rparr>))"

fun favorite_batch :: "bool \<Rightarrow> bytes list \<Rightarrow> index_node \<times> bool \<Rightarrow> index_node \<times> bool" where
  "favorite_batch value [] acc = acc"
| "favorite_batch value (path # paths) (root, changed) =
     (case resolve_node root path of
        None \<Rightarrow> favorite_batch value paths (root, changed)
      | Some a \<Rightarrow>
          if nd_favorite (ndata (node_at a root)) = value then favorite_batch value paths (root, changed)
          else favorite_batch value paths
                 (update_at a (map_data (\<lambda>d. d\<lparr>nd_favorite := value\<rparr>)) root, True))"

definition set_favorites_batch ::
  "(vault \<Rightarrow> vault_result) \<Rightarrow> bytes list \<Rightarrow> bool \<Rightarrow> vault \<Rightarrow> vault_result \<times> vault" where
  "set_favorites_batch commit paths value v =
     (if \<not> vt_unlocked v then (ResLocked, v)
      else if vt_read_only v then (ResInvalidArg, v)
      else case favorite_batch value paths (vt_root v, False) of
        (root, changed) \<Rightarrow>
          (let v = v\<lparr>vt_root := root\<rparr> in if changed then committed commit v else (ResOk, v)))"

definition set_gallery_sort ::
  "(vault \<Rightarrow> vault_result) \<Rightarrow> bytes \<Rightarrow> sort_key \<Rightarrow> vault \<Rightarrow> vault_result \<times> vault" where
  "set_gallery_sort commit path key v =
     (if \<not> vt_unlocked v then (ResLocked, v)
      else if vt_read_only v then (ResInvalidArg, v)
      else case resolve_gallery (vt_root v) path of
        None \<Rightarrow> (ResNotFound, v)
      | Some a \<Rightarrow>
          if nd_sort_key (ndata (node_at a (vt_root v))) = key then (ResOk, v)
          else committed commit
            (v\<lparr>vt_root := update_at a (map_data (\<lambda>d. d\<lparr>nd_sort_key := key\<rparr>)) (vt_root v)\<rparr>))"

definition gallery_sort_key :: "bytes \<Rightarrow> vault \<Rightarrow> sort_key" where
  "gallery_sort_key path v =
     (case resolve_gallery (vt_root v) path of
        None \<Rightarrow> SortDefault | Some a \<Rightarrow> nd_sort_key (ndata (node_at a (vt_root v))))"

section \<open>Renaming and moving\<close>

definition set_name :: "bytes \<Rightarrow> index_node \<Rightarrow> index_node" where
  "set_name name = map_data (\<lambda>d. d\<lparr>nd_name := name\<rparr>)"

definition rename_node ::
  "(vault \<Rightarrow> vault_result) \<Rightarrow> bytes \<Rightarrow> bytes \<Rightarrow> bytes \<Rightarrow> vault \<Rightarrow> vault_result \<times> vault" where
  "rename_node commit path old_name new_name v =
     (if \<not> vt_unlocked v then (ResLocked, v)
      else if vt_read_only v then (ResInvalidArg, v)
      else if \<not> is_safe_node_name new_name then (ResInvalidArg, v)
      else case resolve_gallery (vt_root v) path of
        None \<Rightarrow> (ResNotFound, v)
      | Some g \<Rightarrow>
          (let gal = node_at g (vt_root v) in
           case child_named gal old_name of
             None \<Rightarrow> (ResNotFound, v)
           | Some k \<Rightarrow>
               if new_name = old_name then (ResOk, v)
               else if \<exists>j < length (nchildren gal). j \<noteq> k \<and> n_name (nchildren gal ! j) = new_name
               then (ResAlreadyExists, v)
               else committed commit
                 (v\<lparr>vt_root := update_at (g @ [k]) (set_name new_name) (vt_root v)\<rparr>)))"

definition slash :: bytes where "slash = [0x2F]"

definition move_node_within ::
  "(vault \<Rightarrow> vault_result) \<Rightarrow> bytes \<Rightarrow> bytes \<Rightarrow> bytes \<Rightarrow> bytes \<Rightarrow> vault \<Rightarrow> vault_result \<times> vault" where
  "move_node_within commit source_gallery name destination_gallery destination_name v =
     (if \<not> vt_v3 v then (ResInvalidArg, v)
      else if \<not> vt_unlocked v then (ResLocked, v)
      else case (resolve_gallery (vt_root v) source_gallery, resolve_gallery (vt_root v) destination_gallery) of
        (Some source, Some destination) \<Rightarrow>
          if source = destination then (ResOk, v)
          else if \<not> is_safe_node_name destination_name then (ResInvalidArg, v)
          else if child_named (node_at destination (vt_root v)) destination_name \<noteq> None
          then (ResAlreadyExists, v)
          else (case child_named (node_at source (vt_root v)) name of
            None \<Rightarrow> (ResNotFound, v)
          | Some k \<Rightarrow>
              (let item = nchildren (node_at source (vt_root v)) ! k;
                   source_path = (if source_gallery = [] then name else source_gallery @ slash @ name)
               in if is_gallery item \<and>
                     (destination_gallery = source_path \<or> prefix (source_path @ slash) destination_gallery)
                  then (ResInvalidArg, v)
                  else let moved = set_name destination_name item;
                           pushed = update_at destination (push_child moved) (vt_root v)
                       in committed commit (v\<lparr>vt_root := update_at source (erase_nth k) pushed\<rparr>)))
      | _ \<Rightarrow> (ResNotFound, v))"

end
