(* ===== verification/Vault_Namespace.thy ===== *)
theory Vault_Namespace
  imports Vault_Edit
begin

text \<open>
  The namespace of a vault as an abstract specification: a map from paths to nodes, on which
  creating, attaching, removing, renaming and moving act in one line each.  Every operation of
  \<open>Vault_Edit\<close> refines its abstract counterpart on well-formed trees and keeps them well-formed.
\<close>

type_synonym namespace = "bytes list \<Rightarrow> node_data option"

section \<open>Abstract operations\<close>

definition ns_remove :: "bytes list \<Rightarrow> namespace \<Rightarrow> namespace" where
  "ns_remove ss m = (\<lambda>q. if prefix ss q then None else m q)"

definition ns_graft :: "bytes list \<Rightarrow> namespace \<Rightarrow> namespace \<Rightarrow> namespace" where
  "ns_graft ss sub m = (\<lambda>q. if prefix ss q then sub (drop (length ss) q) else m q)"

definition ns_update :: "bytes list \<Rightarrow> (node_data \<Rightarrow> node_data) \<Rightarrow> namespace \<Rightarrow> namespace" where
  "ns_update ss f m = (\<lambda>q. if q = ss then map_option f (m q) else m q)"

text \<open>The subtree at a path, and the same subtree with its top renamed.\<close>

definition ns_sub :: "bytes list \<Rightarrow> namespace \<Rightarrow> namespace" where
  "ns_sub ss m = (\<lambda>q. m (ss @ q))"

definition ns_named :: "bytes \<Rightarrow> namespace \<Rightarrow> namespace" where
  "ns_named name = ns_update [] (\<lambda>d. d\<lparr>nd_name := name\<rparr>)"

definition ns_move :: "bytes list \<Rightarrow> bytes list \<Rightarrow> bytes \<Rightarrow> namespace \<Rightarrow> namespace" where
  "ns_move src dst name m = ns_remove src (ns_graft dst (ns_named name (ns_sub src m)) m)"

section \<open>Children\<close>

lemma find_index_find: "map_option ((!) xs) (find_index P xs) = find P xs"
  by (induction xs) (auto simp: option.map_comp comp_def)

lemma lookup_Cons:
  "lookup n (s # ss) = Option.bind (find (\<lambda>c. n_name c = s) (nchildren n)) (\<lambda>c. lookup c ss)"
  unfolding find_index_find[symmetric] by (auto simp: child_named_def split: option.split)

declare lookup.simps(2) [simp del] lookup_Cons [simp]

lemma find_app: "find P (xs @ ys) = (case find P xs of Some x \<Rightarrow> Some x | None \<Rightarrow> find P ys)"
  by (induction xs) auto

lemma find_skip: "\<not> P x \<Longrightarrow> find P (xs @ x # ys) = find P (xs @ ys)"
  by (simp add: find_app split: option.split)

lemma find_erase:
  assumes "distinct (map f xs)" "k < length xs"
  shows "find (\<lambda>x. f x = t) (take k xs @ drop (Suc k) xs) =
     (if t = f (xs ! k) then None else find (\<lambda>x. f x = t) xs)"
proof -
  define as where "as = take k xs"
  define bs where "bs = drop (Suc k) xs"
  have xs: "xs = as @ xs ! k # bs" unfolding as_def bs_def using assms(2) by (rule id_take_nth_drop)
  have d: "distinct (map f (as @ xs ! k # bs))" using assms(1) xs by simp
  have "find (\<lambda>x. f x = t) (as @ bs) = (if t = f (xs ! k) then None else find (\<lambda>x. f x = t) (as @ xs ! k # bs))"
  proof (cases "t = f (xs ! k)")
    case True
    then have "\<forall>x \<in> set (as @ bs). f x \<noteq> t" using d by (simp add: image_iff Ball_def) metis
    then show ?thesis using True by (auto simp: find_None_iff)
  qed (simp add: find_skip)
  then show ?thesis using xs by (simp add: as_def bs_def)
qed

lemma lookup_push:
  assumes "child_named g (n_name c) = None"
  shows "lookup (push_child c g) = ns_graft [n_name c] (lookup c) (lookup g)"
proof (rule ext)
  fix q
  have none: "find (\<lambda>x. n_name x = n_name c) (nchildren g) = None"
    using assms by (auto simp: child_named_def find_index_None find_None_iff)
  show "lookup (push_child c g) q = ns_graft [n_name c] (lookup c) (lookup g) q"
    using none by (cases q) (auto simp: push_child_def ns_graft_def find_app split: option.split)
qed

lemma lookup_erase:
  assumes "tree_wf g" "k < length (nchildren g)"
  shows "lookup (erase_nth k g) = ns_remove [n_name (nchildren g ! k)] (lookup g)"
proof (rule ext)
  fix q show "lookup (erase_nth k g) q = ns_remove [n_name (nchildren g ! k)] (lookup g) q"
    using find_erase[OF tree_wf_distinct[OF assms(1)] assms(2)]
    by (cases q) (auto simp: erase_nth_def ns_remove_def)
qed

lemma set_erase: "set (take k xs @ drop (Suc k) xs) \<subseteq> set xs"
  using set_take_subset[of k xs] set_drop_subset[of "Suc k" xs] by auto

lemma distinct_erase: "distinct xs \<Longrightarrow> distinct (take k xs @ drop (Suc k) xs)"
  by (simp add: set_take_disj_set_drop_if_distinct)

lemma tree_wf_erase: "tree_wf g \<Longrightarrow> tree_wf (erase_nth k g) \<and> n_name (erase_nth k g) = n_name g"
proof -
  assume wf: "tree_wf g"
  obtain d cs where g: "g = Node d cs" by (cases g)
  have "distinct (map n_name (take k cs @ drop (Suc k) cs))"
    using wf distinct_erase[of "map n_name cs" k] by (simp add: g take_map drop_map)
  then show ?thesis using wf set_erase[of k cs] by (auto simp: g erase_nth_def)
qed

lemma tree_wf_push:
  assumes "tree_wf g" "is_gallery g" "tree_wf c" "is_safe_node_name (n_name c)" "child_named g (n_name c) = None"
  shows "tree_wf (push_child c g) \<and> n_name (push_child c g) = n_name g"
  using assms by (cases g) (auto simp: push_child_def child_named_def find_index_None is_gallery_def)

lemma lookup_map_data: "lookup (map_data f n) = ns_update [] f (lookup n)"
proof (rule ext)
  fix q show "lookup (map_data f n) q = ns_update [] f (lookup n) q"
    by (cases q) (simp_all add: map_data_def ns_update_def)
qed

lemma tree_wf_map_data:
  "tree_wf n \<Longrightarrow> (\<And>d. nd_type (f d) = nd_type d) \<Longrightarrow> tree_wf (map_data f n)"
  by (cases n) (simp add: map_data_def)


section \<open>Nodes inside the tree\<close>

lemma find_child:
  assumes "tree_wf n" "k < length (nchildren n)"
  shows "find (\<lambda>c. n_name c = n_name (nchildren n ! k)) (nchildren n) = Some (nchildren n ! k)"
proof -
  have "find_index (\<lambda>c. n_name c = n_name (nchildren n ! k)) (nchildren n) = Some k"
    by (rule find_index_name_eq[OF tree_wf_distinct[OF assms(1)] assms(2), THEN iffD2]) (rule refl)
  then show ?thesis by (metis find_index_find option.simps(9))
qed

lemma lookup_at: "valid_addr a n \<Longrightarrow> tree_wf n \<Longrightarrow> lookup (node_at a n) = ns_sub (path_of a n) (lookup n)"
proof (induction a n rule: valid_addr.induct)
  case (2 k ks n)
  then show ?case using find_child[OF 2(3), of k] tree_wf_child[OF 2(3)] by (auto simp: ns_sub_def fun_eq_iff)
qed (simp add: ns_sub_def)

lemma find_update:
  assumes "distinct (map f xs)" "k < length xs" "f y = f (xs ! k)"
  shows "find (\<lambda>x. f x = t) (xs[k := y]) = (if t = f (xs ! k) then Some y else find (\<lambda>x. f x = t) xs)"
proof -
  have split: "xs[k := y] = take k xs @ y # drop (Suc k) xs" "xs = take k xs @ xs ! k # drop (Suc k) xs"
    using assms(2) by (simp_all add: upd_conv_take_nth_drop id_take_nth_drop)
  have d: "distinct (map f (take k xs @ xs ! k # drop (Suc k) xs))" using assms(1) split(2) by simp
  show ?thesis
  proof (cases "t = f (xs ! k)")
    case True
    then have "find (\<lambda>x. f x = t) (take k xs) = None"
      using d by (auto simp: find_None_iff image_iff Ball_def)
    then show ?thesis using True assms(3) by (simp add: split(1) find_app)
  next
    case False
    then have "find (\<lambda>x. f x = t) xs = find (\<lambda>x. f x = t) (take k xs @ drop (Suc k) xs)"
      using find_skip[of "\<lambda>x. f x = t" "xs ! k"] split(2) by metis
    then show ?thesis using False assms(3) by (simp add: split(1) find_skip)
  qed
qed

lemma n_name_update_at:
  "n_name (f (node_at a n)) = n_name (node_at a n) \<Longrightarrow> n_name (update_at a f n) = n_name n"
  by (cases a; cases n) auto

lemma lookup_update:
  assumes "valid_addr a n" "tree_wf n" "n_name (f (node_at a n)) = n_name (node_at a n)"
  shows "lookup (update_at a f n) = ns_graft (path_of a n) (lookup (f (node_at a n))) (lookup n)"
  using assms
proof (induction a arbitrary: n)
  case (Cons k a)
  obtain d cs where n: "n = Node d cs" by (cases n)
  have k: "k < length cs" using Cons.prems(1) by (simp add: n)
  define c where "c = update_at a f (cs ! k)"
  have IH: "lookup c = ns_graft (path_of a (cs ! k)) (lookup (f (node_at a (cs ! k)))) (lookup (cs ! k))"
    unfolding c_def using Cons tree_wf_child[OF Cons.prems(2)] by (simp add: n)
  have nm: "n_name c = n_name (cs ! k)"
    unfolding c_def using Cons.prems(3) by (intro n_name_update_at) (simp add: n)
  have d: "distinct (map n_name cs)" using Cons.prems(2) by (simp add: n)
  show ?case
  proof (rule ext)
    fix q show "lookup (update_at (k # a) f n) q =
        ns_graft (path_of (k # a) n) (lookup (f (node_at (k # a) n))) (lookup n) q"
    proof (cases q)
      case (Cons t r)
      then show ?thesis
        using find_update[OF d k nm, of t] IH find_child[OF \<open>tree_wf n\<close>, of k] k
        by (auto simp: n ns_graft_def c_def[symmetric])
    qed (simp add: n ns_graft_def)
  qed
qed (simp add: ns_graft_def)

text \<open>The three shapes of an edit below a gallery, lifted to the whole namespace.\<close>

lemma graft_remove: "ns_graft ss (ns_remove [s] (ns_sub ss m)) m = ns_remove (ss @ [s]) m"
  by (rule ext) (auto simp: ns_graft_def ns_remove_def ns_sub_def prefix_def)

lemma graft_graft: "ns_graft ss (ns_graft [s] sub (ns_sub ss m)) m = ns_graft (ss @ [s]) sub m"
  by (rule ext) (auto simp: ns_graft_def ns_sub_def prefix_def)

lemma graft_update: "ns_graft ss (ns_update [] f (ns_sub ss m)) m = ns_update ss f m"
  by (rule ext) (auto simp: ns_graft_def ns_update_def ns_sub_def prefix_def)

lemma graft_move:
  "ns_graft ss (ns_move [a] [b] name (ns_sub ss m)) m = ns_move (ss @ [a]) (ss @ [b]) name m"
  by (rule ext) (auto simp: ns_graft_def ns_move_def ns_remove_def ns_named_def ns_update_def ns_sub_def prefix_def)

lemma lookup_update_erase:
  assumes "valid_addr a n" "tree_wf n" "k < length (nchildren (node_at a n))"
  shows "lookup (update_at a (erase_nth k) n) =
      ns_remove (path_of a n @ [n_name (nchildren (node_at a n) ! k)]) (lookup n)"
    and "tree_wf (update_at a (erase_nth k) n)"
proof -
  note wf = tree_wf_at[OF assms(1,2)]
  show "lookup (update_at a (erase_nth k) n) =
      ns_remove (path_of a n @ [n_name (nchildren (node_at a n) ! k)]) (lookup n)"
    using lookup_update[OF assms(1,2), of "erase_nth k"] tree_wf_erase[OF wf, of k] lookup_erase[OF wf assms(3)]
    by (simp add: lookup_at[OF assms(1,2)] graft_remove)
  show "tree_wf (update_at a (erase_nth k) n)"
    using tree_wf_update_at[OF assms(1,2)] tree_wf_erase[OF wf] by blast
qed

lemma lookup_update_push:
  assumes "valid_addr a n" "tree_wf n" "child_named (node_at a n) (n_name c) = None"
  shows "lookup (update_at a (push_child c) n) = ns_graft (path_of a n @ [n_name c]) (lookup c) (lookup n)"
    and "is_gallery (node_at a n) \<Longrightarrow> tree_wf c \<Longrightarrow> is_safe_node_name (n_name c) \<Longrightarrow>
      tree_wf (update_at a (push_child c) n)"
proof -
  have nm: "n_name (push_child c (node_at a n)) = n_name (node_at a n)" by (simp add: push_child_def)
  show "lookup (update_at a (push_child c) n) = ns_graft (path_of a n @ [n_name c]) (lookup c) (lookup n)"
    using lookup_update[where f = "push_child c", OF assms(1,2) nm] lookup_push[OF assms(3)]
    by (simp add: lookup_at[OF assms(1,2)] graft_graft)
  show "is_gallery (node_at a n) \<Longrightarrow> tree_wf c \<Longrightarrow> is_safe_node_name (n_name c) \<Longrightarrow>
      tree_wf (update_at a (push_child c) n)"
    using tree_wf_update_at[where f = "push_child c", OF assms(1,2) _ nm] tree_wf_push[OF tree_wf_at[OF assms(1,2)] _ _ _ assms(3)] by blast
qed

lemma lookup_update_data:
  assumes "valid_addr a n" "tree_wf n" "\<And>d. nd_name (f d) = nd_name d" "\<And>d. nd_type (f d) = nd_type d"
  shows "lookup (update_at a (map_data f) n) = ns_update (path_of a n) f (lookup n)"
    and "tree_wf (update_at a (map_data f) n)"
proof -
  have nm: "n_name (map_data f (node_at a n)) = n_name (node_at a n)" by (simp add: map_data_def assms(3))
  show "lookup (update_at a (map_data f) n) = ns_update (path_of a n) f (lookup n)"
    using lookup_update[where f = "map_data f", OF assms(1,2) nm] by (simp add: lookup_map_data lookup_at[OF assms(1,2)] graft_update)
  show "tree_wf (update_at a (map_data f) n)"
    using tree_wf_update_at[where f = "map_data f", OF assms(1,2) _ nm] tree_wf_map_data[OF tree_wf_at[OF assms(1,2)]] assms(4) by blast
qed

text \<open>Renaming a child is a move inside its gallery.\<close>

lemma find_rename:
  assumes "distinct (map f xs)" "k < length xs" "f y = b" "\<forall>j < length xs. j \<noteq> k \<longrightarrow> f (xs ! j) \<noteq> b"
    "b \<noteq> f (xs ! k)"
  shows "find (\<lambda>x. f x = t) (xs[k := y]) =
     (if t = b then Some y else if t = f (xs ! k) then None else find (\<lambda>x. f x = t) xs)"
proof -
  have split: "xs[k := y] = take k xs @ y # drop (Suc k) xs"
    using assms(2) by (simp add: upd_conv_take_nth_drop)
  show ?thesis
  proof (cases "t = b")
    case True
    have "find (\<lambda>x. f x = t) (take k xs) = None"
      using assms(2,4) True by (auto simp: find_None_iff in_set_conv_nth) (metis less_trans nat_neq_iff)
    then show ?thesis using True assms(3) by (simp add: split find_app)
  next
    case False
    have "find (\<lambda>x. f x = t) (xs[k := y]) = find (\<lambda>x. f x = t) (take k xs @ drop (Suc k) xs)"
      using False assms(3) by (simp add: split find_skip)
    then show ?thesis using False find_erase[OF assms(1,2)] by simp
  qed
qed

lemma lookup_set_name: "lookup (set_name b c) = ns_named b (lookup c)"
  by (simp add: set_name_def lookup_map_data ns_named_def)

definition rename_nth :: "nat \<Rightarrow> bytes \<Rightarrow> index_node \<Rightarrow> index_node" where
  "rename_nth k b g = Node (ndata g) ((nchildren g)[k := set_name b (nchildren g ! k)])"

lemma lookup_rename:
  assumes "tree_wf g" "k < length (nchildren g)" "n_name (nchildren g ! k) = a" "b \<noteq> a"
    "\<forall>j < length (nchildren g). j \<noteq> k \<longrightarrow> n_name (nchildren g ! j) \<noteq> b"
  shows "lookup (rename_nth k b g) = ns_move [a] [b] b (lookup g)"
proof (rule ext)
  fix q
  have y: "n_name (set_name b (nchildren g ! k)) = b" by (simp add: set_name_def map_data_def)
  have sub: "ns_sub [a] (lookup g) = lookup (nchildren g ! k)"
    using find_child[OF assms(1,2)] assms(3) by (auto simp: ns_sub_def fun_eq_iff)
  show "lookup (rename_nth k b g) q = ns_move [a] [b] b (lookup g) q"
    using find_rename[OF tree_wf_distinct[OF assms(1)] assms(2) y assms(5)] assms(3,4)
    by (cases q) (auto simp: rename_nth_def ns_move_def ns_remove_def ns_graft_def sub lookup_set_name)
qed

lemma tree_wf_rename:
  assumes "tree_wf g" "k < length (nchildren g)" "is_safe_node_name b"
    "\<forall>j < length (nchildren g). j \<noteq> k \<longrightarrow> n_name (nchildren g ! j) \<noteq> b"
  shows "tree_wf (rename_nth k b g) \<and> n_name (rename_nth k b g) = n_name g"
proof -
  obtain d cs where g: "g = Node d cs" by (cases g)
  have wfc: "tree_wf (set_name b (cs ! k))" "n_name (set_name b (cs ! k)) = b"
    using tree_wf_child[OF assms(1,2)] by (simp_all add: g set_name_def tree_wf_map_data) (simp add: map_data_def)
  have dist: "distinct (map n_name (cs[k := set_name b (cs ! k)]))"
    using assms(1,2,4) wfc(2) by (auto simp: g distinct_conv_nth nth_list_update)
  have "is_safe_node_name (n_name c) \<and> tree_wf c" if "c \<in> set (cs[k := set_name b (cs ! k)])" for c
  proof -
    have "c = set_name b (cs ! k) \<or> c \<in> set cs"
      using that set_update_subset_insert[of cs k] by blast
    then show ?thesis using wfc assms(1,3) by (auto simp: g)
  qed
  then show ?thesis using assms(1) dist by (auto simp: g rename_nth_def)
qed

lemma lookup_update_rename:
  assumes "valid_addr a n" "tree_wf n" "k < length (nchildren (node_at a n))"
    "n_name (nchildren (node_at a n) ! k) = old" "new \<noteq> old" "is_safe_node_name new"
    "\<forall>j < length (nchildren (node_at a n)). j \<noteq> k \<longrightarrow> n_name (nchildren (node_at a n) ! j) \<noteq> new"
  shows "lookup (update_at (a @ [k]) (set_name new) n) =
      ns_move (path_of a n @ [old]) (path_of a n @ [new]) new (lookup n)"
    and "tree_wf (update_at (a @ [k]) (set_name new) n)"
proof -
  note wf = tree_wf_at[OF assms(1,2)]
  have eq: "update_at (a @ [k]) (set_name new) n = update_at a (rename_nth k new) n"
    by (simp add: update_at_snoc rename_nth_def[abs_def])
  note ren = tree_wf_rename[OF wf assms(3,6,7)]
  show "lookup (update_at (a @ [k]) (set_name new) n) =
      ns_move (path_of a n @ [old]) (path_of a n @ [new]) new (lookup n)"
    unfolding eq lookup_update[where f = "rename_nth k new", OF assms(1,2) conjunct2[OF ren]] lookup_rename[OF wf assms(3,4,5,7)]
      lookup_at[OF assms(1,2)] by (rule graft_move)
  show "tree_wf (update_at (a @ [k]) (set_name new) n)"
    unfolding eq using tree_wf_update_at[OF assms(1,2)] ren by blast
qed

end
