(* ===== verification/Vault_Refine.thy ===== *)
theory Vault_Refine
  imports Vault_Namespace
begin

text \<open>
  Refinement of the abstract namespace by the operations of \<open>Vault_Edit\<close>, one lemma per operation
  and the properties of whole editing sessions.
\<close>

section \<open>The interface\<close>

datatype tree_op = CreateGallery bytes | EnsureGallery bytes | Attach bytes index_node
  | RemoveImage bytes bytes | RemoveGallery bytes | RemoveMedia "bytes list" | RemoveNodes "bytes list"
  | ToggleFavorite bytes | SetFavorites "bytes list" bool | SetSort bytes sort_key
  | Rename bytes bytes bytes | MoveWithin bytes bytes bytes bytes

fun apply_op ::
  "(vault \<Rightarrow> vault_result) \<Rightarrow> (nat \<Rightarrow> bytes option) \<Rightarrow> tree_op \<Rightarrow> vault \<Rightarrow> vault_result \<times> vault" where
  "apply_op commit rng (CreateGallery p) v = create_gallery commit rng p v"
| "apply_op commit rng (EnsureGallery p) v = ensure_gallery_path rng p v"
| "apply_op commit rng (Attach p n) v = attach_staged p n v"
| "apply_op commit rng (RemoveImage p f) v = remove_image commit p f v"
| "apply_op commit rng (RemoveGallery p) v = remove_gallery commit p v"
| "apply_op commit rng (RemoveMedia ps) v = (case remove_media_batch commit ps v of (r, _, v') \<Rightarrow> (r, v'))"
| "apply_op commit rng (RemoveNodes ps) v = (case remove_nodes_batch commit ps v of (r, _, v') \<Rightarrow> (r, v'))"
| "apply_op commit rng (ToggleFavorite p) v = toggle_favorite_node commit p v"
| "apply_op commit rng (SetFavorites ps b) v = set_favorites_batch commit ps b v"
| "apply_op commit rng (SetSort p k) v = set_gallery_sort commit p k v"
| "apply_op commit rng (Rename p old new) v = rename_node commit p old new v"
| "apply_op commit rng (MoveWithin sg n dg dn) v = move_node_within commit sg n dg dn v"

text \<open>A staged node that its callers hand over: a checked name on a well-formed node.\<close>

fun op_ok :: "tree_op \<Rightarrow> bool" where
  "op_ok (Attach p n) \<longleftrightarrow> tree_wf n \<and> is_safe_node_name (n_name n)"
| "op_ok _ \<longleftrightarrow> True"

text \<open>The full path that a batch entry names.\<close>

definition leaf_path :: "bytes \<Rightarrow> bytes list" where
  "leaf_path p = split_path (fst (split_leaf p)) @ [snd (split_leaf p)]"

definition is_media_data :: "node_data option \<Rightarrow> bool" where
  "is_media_data o' \<longleftrightarrow> (case o' of None \<Rightarrow> False | Some d \<Rightarrow> nd_type d \<noteq> Gallery)"

text \<open>Galleries that appear along a path and nowhere else.\<close>

definition ns_grown :: "bytes list \<Rightarrow> namespace \<Rightarrow> namespace \<Rightarrow> bool" where
  "ns_grown ss m m' \<longleftrightarrow> (\<forall>q. m' q = m q \<or> (m q = None \<and> q \<noteq> [] \<and> prefix q ss \<and>
      (\<exists>nid. m' q = Some (ndata (set_node_id nid (gallery (last q)))))))"

definition ns_has :: "bytes list \<Rightarrow> namespace \<Rightarrow> bool" where
  "ns_has ss m \<longleftrightarrow> (\<forall>q. prefix q ss \<longrightarrow> (\<exists>d. m q = Some d \<and> nd_type d = Gallery))"

fun ns_step :: "tree_op \<Rightarrow> namespace \<Rightarrow> namespace \<Rightarrow> bool" where
  "ns_step (CreateGallery p) m m' \<longleftrightarrow> ns_grown (split_path p) m m' \<and> ns_has (split_path p) m'"
| "ns_step (EnsureGallery p) m m' \<longleftrightarrow> ns_grown (split_path p) m m' \<and> ns_has (split_path p) m'"
| "ns_step (Attach p n) m m' \<longleftrightarrow> m' = ns_graft (split_path p @ [n_name n]) (lookup n) m"
| "ns_step (RemoveImage p f) m m' \<longleftrightarrow> m' = ns_remove (split_path p @ [f]) m"
| "ns_step (RemoveGallery p) m m' \<longleftrightarrow> m' = ns_remove (split_path p) m"
| "ns_step (RemoveMedia ps) m m' \<longleftrightarrow>
     m' = fold (\<lambda>p k. if is_media_data (k (leaf_path p)) then ns_remove (leaf_path p) k else k) ps m"
| "ns_step (RemoveNodes ps) m m' \<longleftrightarrow>
     m' = fold (\<lambda>p k. if p = [] then k else ns_remove (leaf_path p) k) ps m"
| "ns_step (ToggleFavorite p) m m' \<longleftrightarrow>
     m' = ns_update (split_path p) (\<lambda>d. d\<lparr>nd_favorite := \<not> nd_favorite d\<rparr>) m"
| "ns_step (SetFavorites ps b) m m' \<longleftrightarrow>
     m' = fold (\<lambda>p. ns_update (split_path p) (\<lambda>d. d\<lparr>nd_favorite := b\<rparr>)) ps m"
| "ns_step (SetSort p k) m m' \<longleftrightarrow> m' = ns_update (split_path p) (\<lambda>d. d\<lparr>nd_sort_key := k\<rparr>) m"
| "ns_step (Rename p old new) m m' \<longleftrightarrow>
     m' = (if new = old then m else ns_move (split_path p @ [old]) (split_path p @ [new]) new m)"
| "ns_step (MoveWithin sg n dg dn) m m' \<longleftrightarrow>
     m' = (if split_path sg = split_path dg then m
           else ns_move (split_path sg @ [n]) (split_path dg @ [dn]) dn m)"

section \<open>Resolution and the namespace\<close>

lemma media_leaf: "tree_wf n \<Longrightarrow> \<not> is_gallery n \<Longrightarrow> nchildren n = []"
  by (cases n) (simp add: is_gallery_def)

lemma lookup_media: "tree_wf n \<Longrightarrow> \<not> is_gallery n \<Longrightarrow> q \<noteq> [] \<Longrightarrow> lookup n q = None"
  by (cases q) (simp_all add: media_leaf)

lemma find_child_named: "find (\<lambda>c. n_name c = s) (nchildren n) = map_option ((!) (nchildren n)) (child_named n s)"
  by (simp add: child_named_def find_index_find)

lemma walk_galleries_None:
  "tree_wf n \<Longrightarrow> walk_galleries n ss = None \<Longrightarrow> lookup n (ss @ [t]) = None"
proof (induction n ss rule: walk_galleries.induct)
  case (2 n s ss)
  show ?case
  proof (cases "child_named n s")
    case None
    then show ?thesis by (simp add: find_child_named)
  next
    case (Some k)
    note k = child_named_Some[OF Some]
    have wf: "tree_wf (nchildren n ! k)" using tree_wf_child[OF 2(2)] k by simp
    show ?thesis
    proof (cases "is_gallery (nchildren n ! k)")
      case True
      then have g: "gallery_named n s = Some k" using Some gallery_named_eq[OF 2(2)] by simp
      then have "lookup (nchildren n ! k) (ss @ [t]) = None" using 2 wf by (auto split: option.splits)
      then show ?thesis using Some by (simp add: find_child_named)
    next
      case False
      then show ?thesis using Some lookup_media[OF wf False] by (simp add: find_child_named)
    qed
  qed
qed simp

lemma walk_node_None: "tree_wf n \<Longrightarrow> walk_node n ss = None \<Longrightarrow> lookup n ss = None"
proof (induction n ss rule: walk_node.induct)
  case (3 n s t ss)
  show ?case
  proof (cases "child_named n s")
    case None
    then show ?thesis by (simp only: lookup_Cons find_child_named) simp
  next
    case (Some k)
    note k = child_named_Some[OF Some]
    have wf: "tree_wf (nchildren n ! k)" using tree_wf_child[OF 3(2)] k by simp
    show ?thesis
    proof (cases "is_gallery (nchildren n ! k)")
      case True
      then have g: "gallery_named n s = Some k" using Some gallery_named_eq[OF 3(2)] by simp
      then have "lookup (nchildren n ! k) (t # ss) = None" using 3 wf by (auto split: option.splits)
      then show ?thesis using Some by (simp only: lookup_Cons find_child_named) simp
    next
      case False
      then have "lookup (nchildren n ! k) (t # ss) = None" by (rule lookup_media[OF wf]) simp
      then show ?thesis using Some by (simp only: lookup_Cons find_child_named) simp
    qed
  qed
qed (auto simp: find_child_named)

lemma resolve_gallery_addr:
  assumes "resolve_gallery n p = Some a" "is_gallery n"
  shows "valid_addr a n" "path_of a n = split_path p" "is_gallery (node_at a n)"
  using walk_galleries_addr assms unfolding resolve_gallery_def by blast+

lemma resolve_node_addr:
  assumes "resolve_node n p = Some a"
  shows "valid_addr a n" "path_of a n = split_path p"
  using walk_node_addr assms unfolding resolve_node_def by blast+

section \<open>Creating\<close>

lemma grown_refl: "ns_grown ss m m"
  by (simp add: ns_grown_def)

lemma lookup_replace_child:
  assumes "tree_wf n" "child_named n s = Some k" "n_name c = s"
  shows "lookup (Node (ndata n) ((nchildren n)[k := c])) = ns_graft [s] (lookup c) (lookup n)"
proof (rule ext)
  fix q
  have k: "k < length (nchildren n)" "n_name (nchildren n ! k) = s" using child_named_Some[OF assms(2)] by simp_all
  show "lookup (Node (ndata n) ((nchildren n)[k := c])) q = ns_graft [s] (lookup c) (lookup n) q"
    using find_update[OF tree_wf_distinct[OF assms(1)] k(1)] k(2) assms(3)
    by (cases q) (auto simp: ns_graft_def)
qed

lemma tree_wf_replace_child:
  assumes "tree_wf n" "child_named n s = Some k" "n_name c = s" "tree_wf c"
  shows "tree_wf (Node (ndata n) ((nchildren n)[k := c]))"
proof -
  have k: "k < length (nchildren n)" "n_name (nchildren n ! k) = s" using child_named_Some[OF assms(2)] by simp_all
  have "tree_wf (update_at [k] (\<lambda>_. c) n)"
    using tree_wf_update_at[of "[k]" n "\<lambda>_. c"] assms k by simp
  then show ?thesis by (cases n) simp
qed

lemma make_galleries_fresh:
  "make_galleries ids rng i ss n = (r, created, n') \<Longrightarrow> nchildren n = [] \<Longrightarrow> r \<noteq> ResInvalidArg"
proof (induction ids rng i ss n arbitrary: r created n' rule: make_galleries.induct)
  case (2 ids rng i s ss n)
  have none: "child_named n s = None" using 2(4) by (simp add: child_named_def)
  show ?case
    using 2(3) none 2(1)[OF none]
    by (auto split: option.splits prod.splits simp: set_node_id_def gallery_def)
qed simp

lemma make_galleries_spec:
  assumes "make_galleries ids rng i segs n = (r, created, n')" "tree_wf n" "is_gallery n"
    "\<forall>s \<in> set segs. is_safe_node_name s"
  shows "tree_wf n' \<and> ndata n' = ndata n \<and> ns_grown segs (lookup n) (lookup n') \<and>
    (r = ResOk \<longrightarrow> ns_has segs (lookup n')) \<and> (\<not> created \<or> r = ResInvalidArg \<longrightarrow> lookup n' = lookup n) \<and>
    (r = ResOk \<or> r = ResInvalidArg \<or> r = ResCryptoError)"
  using assms
proof (induction ids rng i segs n arbitrary: r created n' rule: make_galleries.induct)
  case (1 ids rng i n)
  then show ?case by (auto simp: grown_refl ns_has_def is_gallery_def)
next
  case (2 ids rng i s ss n)
  have has_Nil: "\<exists>d. lookup n [] = Some d \<and> nd_type d = Gallery" using 2(5) by (simp add: is_gallery_def)
  show ?case
  proof (cases "child_named n s")
    case (Some k)
    note k = child_named_Some[OF Some]
    have wfc: "tree_wf (nchildren n ! k)" using tree_wf_child[OF 2(4)] k by simp
    show ?thesis
    proof (cases "is_gallery (nchildren n ! k)")
      case False
      then show ?thesis using 2(3,4) Some by (auto simp: grown_refl)
    next
      case True
      obtain r1 cr c where mg: "make_galleries ids rng (Suc i) ss (nchildren n ! k) = (r1, cr, c)"
        using prod_cases3 by blast
      have res: "r = r1" "created = cr" "n' = Node (ndata n) ((nchildren n)[k := c])"
        using 2(3) Some True mg by simp_all
      have IH: "tree_wf c \<and> ndata c = ndata (nchildren n ! k) \<and> ns_grown ss (lookup (nchildren n ! k)) (lookup c) \<and>
          (r1 = ResOk \<longrightarrow> ns_has ss (lookup c)) \<and> (\<not> cr \<or> r1 = ResInvalidArg \<longrightarrow> lookup c = lookup (nchildren n ! k)) \<and>
          (r1 = ResOk \<or> r1 = ResInvalidArg \<or> r1 = ResCryptoError)"
        using 2(2)[OF Some _ mg wfc True] True 2(6) by simp
      have nm: "n_name c = s" using IH k by simp
      have lk: "lookup n' = ns_graft [s] (lookup c) (lookup n)"
        using lookup_replace_child[OF 2(4) Some nm] res by simp
      have sub: "lookup n (s # q) = lookup (nchildren n ! k) q" for q
        using Some by (simp add: find_child_named)
      have grown: "ns_grown (s # ss) (lookup n) (lookup n')"
        unfolding ns_grown_def lk
      proof
        fix q show "ns_graft [s] (lookup c) (lookup n) q = lookup n q \<or> lookup n q = None \<and> q \<noteq> [] \<and> prefix q (s # ss) \<and>
            (\<exists>nid. ns_graft [s] (lookup c) (lookup n) q = Some (ndata (set_node_id nid (gallery (last q)))))"
        proof (cases "\<exists>t. q = s # t")
          case True
          then obtain t where q: "q = s # t" by blast
          have "lookup c t = lookup (nchildren n ! k) t \<or> lookup (nchildren n ! k) t = None \<and> t \<noteq> [] \<and> prefix t ss \<and>
              (\<exists>nid. lookup c t = Some (ndata (set_node_id nid (gallery (last t)))))"
            using IH by (simp add: ns_grown_def)
          then show ?thesis by (auto simp: q ns_graft_def sub simp del: lookup_Cons)
        next
          case False
          then show ?thesis by (cases q) (auto simp: ns_graft_def)
        qed
      qed
      have has: "ns_has (s # ss) (lookup n')" if "r = ResOk"
        unfolding ns_has_def lk
      proof (intro allI impI)
        fix q assume "prefix q (s # ss)"
        then consider "q = []" | t where "q = s # t" "prefix t ss" by (cases q) auto
        then show "\<exists>d. ns_graft [s] (lookup c) (lookup n) q = Some d \<and> nd_type d = Gallery"
          using IH that res has_Nil by cases (auto simp: ns_graft_def ns_has_def)
      qed
      have same: "lookup n' = lookup n" if "lookup c = lookup (nchildren n ! k)"
        using that by (auto simp: lk ns_graft_def fun_eq_iff sub prefix_def simp del: lookup_Cons)
      show ?thesis
        using grown has same IH tree_wf_replace_child[OF 2(4) Some nm] res by auto
    qed
  next
    case None
    have nolk: "lookup n (s # q) = None" for q using None by (simp only: lookup_Cons find_child_named) simp
    have safe: "is_safe_node_name s" using 2(6) by simp
    show ?thesis
    proof (cases "if ids then rng i else Some zero_id")
      case fail: None
      have res: "r = ResCryptoError" "created" "n' = push_child (gallery s) n"
        using 2(3) None fail by (simp_all add: push_child_def)
      have nm: "n_name (gallery s) = s" "tree_wf (gallery s)" by (simp_all add: gallery_def)
      have lk: "lookup n' = ns_graft [s] (lookup (gallery s)) (lookup n)"
        using lookup_push[of n "gallery s"] None nm by (simp add: res)
      have g0: "lookup (gallery s) q = (if q = [] then Some (ndata (set_node_id zero_id (gallery s))) else None)" for q
        by (cases q) (simp_all add: gallery_def set_node_id_def default_node_data_def)
      have "ns_grown (s # ss) (lookup n) (lookup n')"
        unfolding ns_grown_def lk ns_graft_def by (auto simp: prefix_def g0 nolk simp del: lookup_Cons)
      then show ?thesis using tree_wf_push[OF 2(4,5) nm(2)] nm(1) safe None by (simp add: res push_child_def)
    next
      case nid: (Some nid)
      define c0 where "c0 = set_node_id nid (gallery s)"
      obtain r1 cr c where mg: "make_galleries ids rng (Suc i) ss c0 = (r1, cr, c)" using prod_cases3 by blast
      have res: "r = r1" "created" "n' = push_child c n"
        using 2(3) None nid mg by (simp_all add: push_child_def c0_def)
      have c0: "tree_wf c0" "is_gallery c0" "n_name c0 = s" "nchildren c0 = []"
        by (simp_all add: c0_def set_node_id_def gallery_def is_gallery_def)
      have IH: "tree_wf c \<and> ndata c = ndata c0 \<and> ns_grown ss (lookup c0) (lookup c) \<and>
          (r1 = ResOk \<longrightarrow> ns_has ss (lookup c)) \<and> (\<not> cr \<or> r1 = ResInvalidArg \<longrightarrow> lookup c = lookup c0) \<and>
          (r1 = ResOk \<or> r1 = ResInvalidArg \<or> r1 = ResCryptoError)"
        using 2(1)[OF None nid, folded c0_def, OF mg c0(1,2)] 2(6) by simp
      have nm: "n_name c = s" using IH c0 by simp
      have lk: "lookup n' = ns_graft [s] (lookup c) (lookup n)"
        using lookup_push[of n c] None nm by (simp add: res)
      have l0: "lookup c0 q = (if q = [] then Some (ndata c0) else None)" for q
        by (cases q) (simp_all add: c0(4))
      have grown: "ns_grown (s # ss) (lookup n) (lookup n')"
        unfolding ns_grown_def lk
      proof
        fix q show "ns_graft [s] (lookup c) (lookup n) q = lookup n q \<or> lookup n q = None \<and> q \<noteq> [] \<and> prefix q (s # ss) \<and>
            (\<exists>nid. ns_graft [s] (lookup c) (lookup n) q = Some (ndata (set_node_id nid (gallery (last q)))))"
        proof (cases "\<exists>t. q = s # t")
          case True
          then obtain t where q: "q = s # t" by blast
          have "lookup c t = lookup c0 t \<or> lookup c0 t = None \<and> t \<noteq> [] \<and> prefix t ss \<and>
              (\<exists>nid. lookup c t = Some (ndata (set_node_id nid (gallery (last t)))))"
            using IH by (simp add: ns_grown_def)
          moreover have "ndata c0 = ndata (set_node_id nid (gallery s))" by (simp add: c0_def)
          ultimately show ?thesis
            by (cases "t = []") (auto simp: q ns_graft_def nolk l0 simp del: lookup_Cons)
        next
          case False
          then show ?thesis by (cases q) (auto simp: ns_graft_def)
        qed
      qed
      have has: "ns_has (s # ss) (lookup n')" if "r = ResOk"
        unfolding ns_has_def lk
      proof (intro allI impI)
        fix q assume "prefix q (s # ss)"
        then consider "q = []" | t where "q = s # t" "prefix t ss" by (cases q) auto
        then show "\<exists>d. ns_graft [s] (lookup c) (lookup n) q = Some d \<and> nd_type d = Gallery"
          using IH that res has_Nil by cases (auto simp: ns_graft_def ns_has_def)
      qed
      have notinv: "r1 \<noteq> ResInvalidArg"
        using make_galleries_fresh[OF mg c0(4)] by simp
      have wf: "tree_wf n'" using tree_wf_push[OF 2(4,5), of c] IH nm safe None by (simp add: res)
      have "ndata n' = ndata n" by (simp add: res push_child_def)
      then show ?thesis using wf grown has notinv res(1,2) IH by blast
    qed
  qed
qed


section \<open>One operation\<close>

text \<open>
  What an operation may do to the tree: succeed as its abstract transition says, or fail having
  changed nothing, having changed the tree in full (a failed commit), or, when a random node id is
  refused, having grown a part of the wanted galleries.
\<close>

fun op_partial :: "tree_op \<Rightarrow> namespace \<Rightarrow> namespace \<Rightarrow> bool" where
  "op_partial (CreateGallery p) m m' \<longleftrightarrow> ns_grown (split_path p) m m'"
| "op_partial (EnsureGallery p) m m' \<longleftrightarrow> ns_grown (split_path p) m m'"
| "op_partial _ m m' \<longleftrightarrow> False"

definition op_result :: "tree_op \<Rightarrow> vault \<Rightarrow> vault_result \<times> vault \<Rightarrow> bool" where
  "op_result op v res \<longleftrightarrow> (\<exists>r root'. res = (r, v\<lparr>vt_root := root'\<rparr>) \<and> tree_wf root' \<and> is_gallery root' \<and>
     (ns_step op (lookup (vt_root v)) (lookup root') \<or>
      r \<noteq> ResOk \<and> lookup root' = lookup (vt_root v) \<or>
      r = ResCryptoError \<and> op_partial op (lookup (vt_root v)) (lookup root')))"

definition vault_wf :: "vault \<Rightarrow> bool" where
  "vault_wf v \<longleftrightarrow> tree_wf (vt_root v) \<and> is_gallery (vt_root v)"

lemma op_same: "vault_wf v \<Longrightarrow> r \<noteq> ResOk \<Longrightarrow> op_result op v (r, v)"
  unfolding op_result_def vault_wf_def by (rule exI[of _ r], rule exI[of _ "vt_root v"]) simp

lemma op_through:
  "tree_wf root' \<Longrightarrow> is_gallery root' \<Longrightarrow> ns_step op (lookup (vt_root v)) (lookup root') \<Longrightarrow>
   op_result op v (r, v\<lparr>vt_root := root'\<rparr>)"
  unfolding op_result_def by blast

lemma op_unchanged:
  "vault_wf v \<Longrightarrow> ns_step op (lookup (vt_root v)) (lookup (vt_root v)) \<Longrightarrow> op_result op v (r, v)"
  using op_through[of "vt_root v" op v r] by (simp add: vault_wf_def)

lemma op_committed:
  "tree_wf root' \<Longrightarrow> is_gallery root' \<Longrightarrow> ns_step op (lookup (vt_root v)) (lookup root') \<Longrightarrow>
   op_result op v (committed commit (v\<lparr>vt_root := root'\<rparr>))"
  unfolding committed_def by (rule op_through)

lemma gallery_root: "lookup n' [] = lookup n [] \<Longrightarrow> is_gallery n \<Longrightarrow> is_gallery n'"
  by (simp add: is_gallery_def)

lemma create_refines:
  assumes "vault_wf v" shows "op_result (CreateGallery p) v (create_gallery commit rng p v)"
proof -
  obtain r created root where mg:
    "make_galleries (vt_v3 v \<or> vt_context v) rng 0 (split_path p) (vt_root v) = (r, created, root)"
    using prod_cases3 by blast
  show ?thesis
  proof (cases "vt_unlocked v \<and> \<not> vt_read_only v \<and> split_path p \<noteq> [] \<and> (\<forall>s \<in> set (split_path p). is_safe_node_name s)")
    case True
    have sp: "tree_wf root \<and> ndata root = ndata (vt_root v) \<and> ns_grown (split_path p) (lookup (vt_root v)) (lookup root) \<and>
      (r = ResOk \<longrightarrow> ns_has (split_path p) (lookup root)) \<and> (\<not> created \<or> r = ResInvalidArg \<longrightarrow> lookup root = lookup (vt_root v)) \<and>
      (r = ResOk \<or> r = ResInvalidArg \<or> r = ResCryptoError)"
      using make_galleries_spec[OF mg] True assms by (simp add: vault_wf_def)
    have eq: "create_gallery commit rng p v = (if r \<noteq> ResOk then (r, v\<lparr>vt_root := root\<rparr>)
        else if \<not> created then (ResAlreadyExists, v\<lparr>vt_root := root\<rparr>) else committed commit (v\<lparr>vt_root := root\<rparr>))"
      using True mg by (auto simp: create_gallery_def list_ex_iff Let_def)
    have "is_gallery root" using sp assms by (simp add: vault_wf_def is_gallery_def)
    then show ?thesis
      unfolding eq op_result_def committed_def using sp by auto
  qed (auto simp: create_gallery_def list_ex_iff Let_def intro!: op_same[OF assms])
qed

lemma ensure_refines:
  assumes "vault_wf v" shows "op_result (EnsureGallery p) v (ensure_gallery_path rng p v)"
proof -
  obtain r created root where mg:
    "make_galleries (vt_v3 v \<or> vt_context v) rng 0 (split_path p) (vt_root v) = (r, created, root)"
    using prod_cases3 by blast
  show ?thesis
  proof (cases "vt_unlocked v \<and> \<not> vt_read_only v \<and> (\<forall>s \<in> set (split_path p). is_safe_node_name s)")
    case True
    have sp: "tree_wf root \<and> ndata root = ndata (vt_root v) \<and> ns_grown (split_path p) (lookup (vt_root v)) (lookup root) \<and>
      (r = ResOk \<longrightarrow> ns_has (split_path p) (lookup root)) \<and> (\<not> created \<or> r = ResInvalidArg \<longrightarrow> lookup root = lookup (vt_root v)) \<and>
      (r = ResOk \<or> r = ResInvalidArg \<or> r = ResCryptoError)"
      using make_galleries_spec[OF mg] True assms by (simp add: vault_wf_def)
    have eq: "ensure_gallery_path rng p v = (r, v\<lparr>vt_root := root\<rparr>)"
      using True mg by (auto simp: ensure_gallery_path_def list_ex_iff Let_def)
    have "is_gallery root" using sp assms by (simp add: vault_wf_def is_gallery_def)
    then show ?thesis
      unfolding eq op_result_def committed_def using sp by auto
  qed (auto simp: ensure_gallery_path_def list_ex_iff Let_def intro!: op_same[OF assms])
qed

lemma attach_refines:
  assumes "vault_wf v" "op_ok (Attach p n)" shows "op_result (Attach p n) v (attach_staged p n v)"
proof (cases "\<not> vt_unlocked v \<or> vt_read_only v \<or> resolve_gallery (vt_root v) p = None")
  case False
  then obtain g where g: "resolve_gallery (vt_root v) p = Some g" by blast
  note wf = assms(1)[unfolded vault_wf_def]
  note ad = resolve_gallery_addr[OF g conjunct2[OF wf]]
  show ?thesis
  proof (cases "child_named (node_at g (vt_root v)) (n_name n)")
    case None
    note push = lookup_update_push[OF ad(1) conjunct1[OF wf] None]
    have "is_gallery (update_at g (push_child n) (vt_root v))"
      by (rule gallery_root[OF _ conjunct2[OF wf]]) (simp add: push(1) ns_graft_def)
    then show ?thesis using False g None push ad assms(2) by (auto simp: attach_staged_def intro!: op_through)
  qed (use False g in \<open>auto simp: attach_staged_def intro!: op_same[OF assms(1)]\<close>)
qed (auto simp: attach_staged_def intro!: op_same[OF assms(1)])

section \<open>Removing\<close>

lemma erase_at:
  assumes "tree_wf n" "is_gallery n" "valid_addr g n" "k < length (nchildren (node_at g n))"
  defines "n' \<equiv> update_at g (erase_nth k) n"
  shows "lookup n' = ns_remove (path_of g n @ [n_name (nchildren (node_at g n) ! k)]) (lookup n)"
    "tree_wf n'" "is_gallery n'"
proof -
  note e = lookup_update_erase[OF assms(3,1,4), folded n'_def]
  then show "lookup n' = ns_remove (path_of g n @ [n_name (nchildren (node_at g n) ! k)]) (lookup n)" "tree_wf n'"
    by simp_all
  show "is_gallery n'" by (rule gallery_root[OF _ assms(2)]) (simp add: e(1) ns_remove_def)
qed

lemma media_named_Some:
  "media_named n s = Some k \<Longrightarrow> k < length (nchildren n) \<and> n_name (nchildren n ! k) = s \<and> is_media (nchildren n ! k)"
  by (simp add: media_named_def find_index_Some)

lemma remove_image_refines:
  assumes "vault_wf v" shows "op_result (RemoveImage p f) v (remove_image commit p f v)"
proof (cases "\<not> vt_unlocked v \<or> vt_read_only v \<or> resolve_gallery (vt_root v) p = None")
  case False
  then obtain g where g: "resolve_gallery (vt_root v) p = Some g" by blast
  note wf = assms[unfolded vault_wf_def]
  note ad = resolve_gallery_addr[OF g conjunct2[OF wf]]
  show ?thesis
  proof (cases "media_named (node_at g (vt_root v)) f")
    case (Some k)
    note k = media_named_Some[OF Some]
    note e = erase_at[OF conjunct1[OF wf] conjunct2[OF wf] ad(1) conjunct1[OF k]]
    show ?thesis using False g Some k e ad by (auto simp: remove_image_def intro!: op_committed)
  qed (use False g in \<open>auto simp: remove_image_def intro!: op_same[OF assms]\<close>)
qed (auto simp: remove_image_def intro!: op_same[OF assms])

lemma walk_checked_eq: "tree_wf n \<Longrightarrow> walk_checked n ss = walk_galleries n ss"
proof (induction n ss rule: walk_checked.induct)
  case (2 n s ss)
  have "tree_wf (nchildren n ! k)" if "child_named n s = Some k" for k
    using tree_wf_child[OF 2(2)] child_named_Some[OF that] by simp
  then show ?case using 2 by (auto simp: gallery_named_eq split: option.split)
qed simp

lemma remove_gallery_refines:
  assumes "vault_wf v" shows "op_result (RemoveGallery p) v (remove_gallery commit p v)"
proof (cases "\<not> vt_unlocked v \<or> vt_read_only v \<or> split_path p = [] \<or> walk_checked (vt_root v) (butlast (split_path p)) = None")
  case False
  note wf = assms[unfolded vault_wf_def]
  from False obtain g where g: "walk_checked (vt_root v) (butlast (split_path p)) = Some g" by blast
  have ad: "valid_addr g (vt_root v)" "path_of g (vt_root v) = butlast (split_path p)"
    using walk_galleries_addr g wf by (simp_all add: walk_checked_eq)
  show ?thesis
  proof (cases "gallery_named (node_at g (vt_root v)) (last (split_path p))")
    case (Some k)
    note k = gallery_named_Some[OF Some]
    note e = erase_at[OF conjunct1[OF wf] conjunct2[OF wf] ad(1) conjunct1[OF k]]
    show ?thesis using False g Some k e ad by (auto simp: remove_gallery_def Let_def intro!: op_committed)
  qed (use False g in \<open>auto simp: remove_gallery_def Let_def intro!: op_same[OF assms]\<close>)
qed (auto simp: remove_gallery_def Let_def intro!: op_same[OF assms])


text \<open>The abstract removal of a path that does not exist is the identity.\<close>

lemma lookup_extend: "lookup n ss = None \<Longrightarrow> lookup n (ss @ t) = None"
  by (induction ss arbitrary: n) (auto split: bind_splits)

lemma remove_absent: "lookup n ss = None \<Longrightarrow> ns_remove ss (lookup n) = lookup n"
  by (auto simp: ns_remove_def fun_eq_iff prefix_def lookup_extend)

lemma lookup_child:
  assumes "tree_wf n" "valid_addr g n"
  shows "lookup n (path_of g n @ [t]) = map_option (\<lambda>k. ndata (nchildren (node_at g n) ! k)) (child_named (node_at g n) t)"
proof -
  have "lookup n (path_of g n @ [t]) = lookup (node_at g n) [t]"
    by (simp add: lookup_at[OF assms(2,1)] ns_sub_def del: lookup_Cons)
  then show ?thesis by (simp add: find_child_named option.map_comp comp_def map_conv_bind_option)
qed

lemma media_named_eq:
  assumes "tree_wf n"
  shows "media_named n s = (case child_named n s of None \<Rightarrow> None
     | Some k \<Rightarrow> if is_media (nchildren n ! k) then Some k else None)"
proof (cases "child_named n s")
  case None
  then have "media_named n s = None" by (auto simp: media_named_def child_named_def find_index_None)
  then show ?thesis using None by simp
next
  case (Some k)
  note k = child_named_Some[OF Some]
  have uniq: "j = k" if "j < length (nchildren n)" "n_name (nchildren n ! j) = s" for j
    using that k tree_wf_distinct[OF assms] by (auto simp: distinct_conv_nth)
  show ?thesis
  proof (cases "is_media (nchildren n ! k)")
    case True
    then have "media_named n s = Some k"
      unfolding media_named_def find_index_Some using k uniq by (metis less_imp_neq less_trans)
    then show ?thesis using Some True by simp
  next
    case False
    then have "media_named n s = None"
      using uniq by (auto simp: media_named_def find_index_None in_set_conv_nth)
    then show ?thesis using Some False by simp
  qed
qed

lemma erase_child_node:
  assumes "tree_wf n" "is_gallery n"
  shows "case erase_child child_named n p of
      None \<Rightarrow> ns_remove (leaf_path p) (lookup n) = lookup n
    | Some n' \<Rightarrow> tree_wf n' \<and> is_gallery n' \<and> lookup n' = ns_remove (leaf_path p) (lookup n)"
proof -
  obtain par leaf where sl: "split_leaf p = (par, leaf)" by (cases "split_leaf p")
  show ?thesis
  proof (cases "resolve_gallery n par")
    case None
    then have "lookup n (leaf_path p) = None"
      using walk_galleries_None[OF assms(1)] by (simp add: leaf_path_def sl resolve_gallery_def)
    then show ?thesis using None by (simp add: erase_child_def sl remove_absent)
  next
    case (Some g)
    note ad = resolve_gallery_addr[OF Some assms(2)]
    show ?thesis
    proof (cases "child_named (node_at g n) leaf")
      case None
      then have "lookup n (leaf_path p) = None"
        using lookup_child[OF assms(1) ad(1), of leaf] by (simp add: leaf_path_def sl ad(2))
      then show ?thesis using None Some by (simp add: erase_child_def sl remove_absent)
    next
      case k: (Some k)
      note kk = child_named_Some[OF k]
      show ?thesis using erase_at[OF assms ad(1) conjunct1[OF kk]] k Some ad(2) kk
        by (simp add: erase_child_def sl leaf_path_def)
    qed
  qed
qed

lemma erase_child_media:
  assumes "tree_wf n" "is_gallery n"
  shows "case erase_child media_named n p of
      None \<Rightarrow> \<not> is_media_data (lookup n (leaf_path p))
    | Some n' \<Rightarrow> tree_wf n' \<and> is_gallery n' \<and> is_media_data (lookup n (leaf_path p)) \<and>
        lookup n' = ns_remove (leaf_path p) (lookup n)"
proof -
  obtain par leaf where sl: "split_leaf p = (par, leaf)" by (cases "split_leaf p")
  show ?thesis
  proof (cases "resolve_gallery n par")
    case None
    then have "lookup n (leaf_path p) = None"
      using walk_galleries_None[OF assms(1)] by (simp add: leaf_path_def sl resolve_gallery_def)
    then show ?thesis using None by (simp add: erase_child_def sl is_media_data_def)
  next
    case (Some g)
    note ad = resolve_gallery_addr[OF Some assms(2)]
    have lk: "lookup n (leaf_path p) = map_option (\<lambda>k. ndata (nchildren (node_at g n) ! k)) (child_named (node_at g n) leaf)"
      using lookup_child[OF assms(1) ad(1), of leaf] by (simp add: leaf_path_def sl ad(2))
    note mn = media_named_eq[OF tree_wf_at[OF ad(1) assms(1)], of leaf]
    show ?thesis
    proof (cases "media_named (node_at g n) leaf")
      case None
      then have "\<not> is_media_data (lookup n (leaf_path p))"
        using mn by (auto simp: lk is_media_data_def is_media_iff is_gallery_def split: option.splits if_splits)
      then show ?thesis using None Some by (simp add: erase_child_def sl)
    next
      case k: (Some k)
      note kk = media_named_Some[OF k]
      have "is_media_data (lookup n (leaf_path p))"
        using k kk mn by (auto simp: lk is_media_data_def is_media_iff is_gallery_def split: option.splits if_splits)
      then show ?thesis using erase_at[OF assms ad(1) conjunct1[OF kk]] k Some ad(2) kk
        by (simp add: erase_child_def sl leaf_path_def)
    qed
  qed
qed

lemma erase_batch_nodes:
  "tree_wf n \<Longrightarrow> is_gallery n \<Longrightarrow> erase_batch child_named True ps (n, x, y) = (n', x', y') \<Longrightarrow>
   tree_wf n' \<and> is_gallery n' \<and> lookup n' = fold (\<lambda>p k. if p = [] then k else ns_remove (leaf_path p) k) ps (lookup n)"
proof (induction ps arbitrary: n x y)
  case (Cons p ps)
  show ?case
  proof (cases "p = []")
    case True
    then show ?thesis using Cons by simp
  next
    case False
    then show ?thesis using Cons erase_child_node[OF Cons(2,3), of p]
      by (cases "erase_child child_named n p") auto
  qed
qed simp

lemma erase_batch_media:
  "tree_wf n \<Longrightarrow> is_gallery n \<Longrightarrow> erase_batch media_named False ps (n, x, y) = (n', x', y') \<Longrightarrow>
   tree_wf n' \<and> is_gallery n' \<and> lookup n' =
     fold (\<lambda>p k. if is_media_data (k (leaf_path p)) then ns_remove (leaf_path p) k else k) ps (lookup n)"
proof (induction ps arbitrary: n x y)
  case (Cons p ps)
  then show ?case using erase_child_media[OF Cons(2,3), of p]
    by (cases "erase_child media_named n p") auto
qed simp

lemma remove_batch_eq:
  assumes "erase_batch named skip ps (vt_root v, 0, 0) = (n', x, y)" "vt_unlocked v" "\<not> vt_read_only v"
  shows "\<exists>r c. remove_batch named skip commit ps v = (r, c, v\<lparr>vt_root := n'\<rparr>)"
  using assms by (auto simp: remove_batch_def Let_def)

lemma remove_media_refines:
  assumes "vault_wf v"
  shows "op_result (RemoveMedia ps) v (case remove_media_batch commit ps v of (r, _, v') \<Rightarrow> (r, v'))"
proof (cases "\<not> vt_unlocked v \<or> vt_read_only v")
  case False
  obtain n' x y where e: "erase_batch media_named False ps (vt_root v, 0, 0) = (n', x, y)" using prod_cases3 by blast
  from remove_batch_eq[OF e] False obtain r c where
    "remove_media_batch commit ps v = (r, c, v\<lparr>vt_root := n'\<rparr>)"
    unfolding remove_media_batch_def by blast
  then show ?thesis using erase_batch_media[OF _ _ e] assms by (auto simp: vault_wf_def intro!: op_through)
qed (auto simp: remove_media_batch_def remove_batch_def intro!: op_same[OF assms])

lemma remove_nodes_refines:
  assumes "vault_wf v"
  shows "op_result (RemoveNodes ps) v (case remove_nodes_batch commit ps v of (r, _, v') \<Rightarrow> (r, v'))"
proof (cases "\<not> vt_unlocked v \<or> vt_read_only v")
  case False
  obtain n' x y where e: "erase_batch child_named True ps (vt_root v, 0, 0) = (n', x, y)" using prod_cases3 by blast
  from remove_batch_eq[OF e] False obtain r c where
    "remove_nodes_batch commit ps v = (r, c, v\<lparr>vt_root := n'\<rparr>)"
    unfolding remove_nodes_batch_def by blast
  then show ?thesis using erase_batch_nodes[OF _ _ e] assms by (auto simp: vault_wf_def intro!: op_through)
qed (auto simp: remove_nodes_batch_def remove_batch_def intro!: op_same[OF assms])


section \<open>Flags\<close>

lemma ns_update_absent: "m ss = None \<Longrightarrow> ns_update ss f m = m"
  by (auto simp: ns_update_def fun_eq_iff)

lemma update_data:
  assumes "tree_wf n" "is_gallery n" "valid_addr a n" "\<And>d. nd_name (f d) = nd_name d" "\<And>d. nd_type (f d) = nd_type d"
  defines "n' \<equiv> update_at a (map_data f) n"
  shows "lookup n' = ns_update (path_of a n) f (lookup n)" "tree_wf n'" "is_gallery n'"
proof -
  show l: "lookup n' = ns_update (path_of a n) f (lookup n)" and "tree_wf n'"
    using lookup_update_data[where f = f, OF assms(3,1,4,5)] by (simp_all add: n'_def)
  have "\<exists>d. lookup n' [] = Some d \<and> nd_type d = Gallery"
    using assms(2,5) by (simp add: l ns_update_def is_gallery_def)
  then show "is_gallery n'" by (simp add: is_gallery_def)
qed

lemma lookup_addr: "valid_addr a n \<Longrightarrow> tree_wf n \<Longrightarrow> lookup n (path_of a n) = Some (ndata (node_at a n))"
  using lookup_at[of a n] by (metis append_Nil2 lookup.simps(1) ns_sub_def)

lemma toggle_refines:
  assumes "vault_wf v" shows "op_result (ToggleFavorite p) v (toggle_favorite_node commit p v)"
proof (cases "\<not> vt_unlocked v \<or> vt_read_only v \<or> resolve_node (vt_root v) p = None")
  case False
  then obtain a where a: "resolve_node (vt_root v) p = Some a" by blast
  note wf = assms[unfolded vault_wf_def]
  note ad = resolve_node_addr[OF a]
  note u = update_data[where f = "\<lambda>d. d\<lparr>nd_favorite := \<not> nd_favorite d\<rparr>", OF conjunct1[OF wf] conjunct2[OF wf] ad(1)]
  show ?thesis using False a u ad(2) by (auto simp: toggle_favorite_node_def intro!: op_committed)
qed (auto simp: toggle_favorite_node_def intro!: op_same[OF assms])

lemma favorite_batch_spec:
  "tree_wf n \<Longrightarrow> is_gallery n \<Longrightarrow> favorite_batch b ps (n, ch) = (n', ch') \<Longrightarrow>
   tree_wf n' \<and> is_gallery n' \<and>
     lookup n' = fold (\<lambda>p. ns_update (split_path p) (\<lambda>d. d\<lparr>nd_favorite := b\<rparr>)) ps (lookup n)"
proof (induction ps arbitrary: n ch)
  case (Cons p ps)
  show ?case
  proof (cases "resolve_node n p")
    case None
    then have "lookup n (split_path p) = None" using walk_node_None[OF Cons(2)] by (simp add: resolve_node_def)
    then show ?thesis using Cons None by (simp add: ns_update_absent)
  next
    case (Some a)
    note ad = resolve_node_addr[OF Some]
    show ?thesis
    proof (cases "nd_favorite (ndata (node_at a n)) = b")
      case True
      then have "ns_update (split_path p) (\<lambda>d. d\<lparr>nd_favorite := b\<rparr>) (lookup n) = lookup n"
        using lookup_addr[OF ad(1) Cons(2)] by (auto simp: ns_update_def fun_eq_iff ad(2))
      then show ?thesis using Cons Some True by simp
    next
      case False
      show ?thesis
        using update_data[where f = "\<lambda>d. d\<lparr>nd_favorite := b\<rparr>", OF Cons(2,3) ad(1)] ad(2) Cons(1,4) Some False
        by simp
    qed
  qed
qed simp

lemma set_favorites_refines:
  assumes "vault_wf v" shows "op_result (SetFavorites ps b) v (set_favorites_batch commit ps b v)"
proof (cases "\<not> vt_unlocked v \<or> vt_read_only v")
  case False
  obtain n' ch where f: "favorite_batch b ps (vt_root v, False) = (n', ch)" using prod.exhaust by blast
  have "set_favorites_batch commit ps b v =
      (if ch then committed commit (v\<lparr>vt_root := n'\<rparr>) else (ResOk, v\<lparr>vt_root := n'\<rparr>))"
    using False f by (simp add: set_favorites_batch_def)
  then show ?thesis using favorite_batch_spec[OF _ _ f] assms
    by (auto simp: vault_wf_def intro!: op_committed op_through)
qed (auto simp: set_favorites_batch_def intro!: op_same[OF assms])

lemma set_sort_refines:
  assumes "vault_wf v" shows "op_result (SetSort p k) v (set_gallery_sort commit p k v)"
proof (cases "\<not> vt_unlocked v \<or> vt_read_only v \<or> resolve_gallery (vt_root v) p = None")
  case False
  then obtain a where a: "resolve_gallery (vt_root v) p = Some a" by blast
  note wf = assms[unfolded vault_wf_def]
  note ad = resolve_gallery_addr[OF a conjunct2[OF wf]]
  show ?thesis
  proof (cases "nd_sort_key (ndata (node_at a (vt_root v))) = k")
    case True
    then have "ns_update (split_path p) (\<lambda>d. d\<lparr>nd_sort_key := k\<rparr>) (lookup (vt_root v)) = lookup (vt_root v)"
      using lookup_addr[OF ad(1) conjunct1[OF wf]] by (auto simp: ns_update_def fun_eq_iff ad(2))
    then show ?thesis using True False a by (auto simp: set_gallery_sort_def intro!: op_unchanged[OF assms])
  next
    case ne: False
    note u = update_data[where f = "\<lambda>d. d\<lparr>nd_sort_key := k\<rparr>", OF conjunct1[OF wf] conjunct2[OF wf] ad(1)]
    show ?thesis using False ne a u ad(2) by (auto simp: set_gallery_sort_def intro!: op_committed)
  qed
qed (auto simp: set_gallery_sort_def intro!: op_same[OF assms])

section \<open>Renaming and moving\<close>

lemma snoc_not_prefix_Nil [simp]: "prefix (xs @ [x]) [] \<longleftrightarrow> False"
  by simp

lemma move_root: "(src :: bytes list) = a @ [x] \<Longrightarrow> dst = b @ [y] \<Longrightarrow> ns_move src dst name m [] = m []"
  by (simp add: ns_move_def ns_remove_def ns_graft_def)

lemma rename_refines:
  assumes "vault_wf v" shows "op_result (Rename p old new) v (rename_node commit p old new v)"
proof (cases "\<not> vt_unlocked v \<or> vt_read_only v \<or> \<not> is_safe_node_name new \<or> resolve_gallery (vt_root v) p = None")
  case False
  then obtain g where g: "resolve_gallery (vt_root v) p = Some g" by blast
  note wf = assms[unfolded vault_wf_def]
  note ad = resolve_gallery_addr[OF g conjunct2[OF wf]]
  let ?gal = "node_at g (vt_root v)"
  show ?thesis
  proof (cases "child_named ?gal old")
    case None
    then show ?thesis using False g by (auto simp: rename_node_def intro!: op_same[OF assms])
  next
    case (Some k)
    note k = child_named_Some[OF Some]
    consider "new = old" | "new \<noteq> old" "\<exists>j < length (nchildren ?gal). j \<noteq> k \<and> n_name (nchildren ?gal ! j) = new"
      | "new \<noteq> old" "\<forall>j < length (nchildren ?gal). j \<noteq> k \<longrightarrow> n_name (nchildren ?gal ! j) \<noteq> new" by blast
    then show ?thesis
    proof cases
      case 1
      then show ?thesis using False g Some by (auto simp: rename_node_def intro!: op_unchanged[OF assms])
    next
      case 2
      then show ?thesis using False g Some by (auto simp: rename_node_def Let_def intro!: op_same[OF assms])
    next
      case 3
      note r = lookup_update_rename[OF ad(1) conjunct1[OF wf] conjunct1[OF k] conjunct2[OF k] 3(1) _ 3(2)]
      have eq: "rename_node commit p old new v =
          committed commit (v\<lparr>vt_root := update_at (g @ [k]) (set_name new) (vt_root v)\<rparr>)"
        using False g Some 3 by (auto simp: rename_node_def Let_def)
      have "is_gallery (update_at (g @ [k]) (set_name new) (vt_root v))"
        by (rule gallery_root[OF _ conjunct2[OF wf]]) (use r False in \<open>simp add: move_root\<close>)
      then show ?thesis unfolding eq using r False 3(1) ad(2) by (auto intro!: op_committed)
    qed
  qed
qed (auto simp: rename_node_def intro!: op_same[OF assms])

text \<open>Pushing a child at one address leaves every other address and its path as they were.\<close>

lemma push_keeps_addr:
  "valid_addr b n \<Longrightarrow> valid_addr a n \<Longrightarrow>
   valid_addr b (update_at a (push_child c) n) \<and> path_of b (update_at a (push_child c) n) = path_of b n"
proof (induction a arbitrary: b n)
  case Nil
  then show ?case by (cases b; cases n) (auto simp: push_child_def nth_append)
next
  case (Cons j a)
  obtain d cs where n: "n = Node d cs" by (cases n)
  have nm: "n_name (update_at a (push_child c) (cs ! j)) = n_name (cs ! j)"
    by (rule n_name_update_at) (simp add: push_child_def)
  show ?case using Cons nm by (cases b) (auto simp: n nth_list_update)
qed

lemma node_at_app: "node_at (a @ b) n = node_at b (node_at a n)"
  by (induction a n rule: node_at.induct) simp_all

lemma resolve_gallery_same:
  assumes "resolve_gallery n p = Some a" "resolve_gallery n q = Some b"
  shows "a = b \<longleftrightarrow> split_path p = split_path q"
  using assms walk_galleries_addr unfolding resolve_gallery_def by (metis option.inject)

lemma move_refines:
  assumes "vault_wf v" shows "op_result (MoveWithin sg n dg dn) v (move_node_within commit sg n dg dn v)"
proof (cases "\<not> vt_v3 v \<or> \<not> vt_unlocked v \<or> resolve_gallery (vt_root v) sg = None \<or> resolve_gallery (vt_root v) dg = None")
  case False
  then obtain s d where sd: "resolve_gallery (vt_root v) sg = Some s" "resolve_gallery (vt_root v) dg = Some d" by auto
  note wf = assms[unfolded vault_wf_def]
  note as = resolve_gallery_addr[OF sd(1) conjunct2[OF wf]] and ad = resolve_gallery_addr[OF sd(2) conjunct2[OF wf]]
  show ?thesis
  proof (cases "s = d")
    case True
    then show ?thesis using False sd resolve_gallery_same[OF sd] by (auto simp: move_node_within_def intro!: op_unchanged[OF assms])
  next
    case ne: False
    let ?src = "node_at s (vt_root v)"
    show ?thesis
    proof (cases "\<not> is_safe_node_name dn \<or> child_named (node_at d (vt_root v)) dn \<noteq> None \<or> child_named ?src n = None")
      case True
      then show ?thesis using False sd ne by (auto simp: move_node_within_def intro!: op_same[OF assms])
    next
      case guards: False
      then obtain k where k: "child_named ?src n = Some k" by blast
      note kk = child_named_Some[OF k]
      define item where "item = nchildren ?src ! k"
      define moved where "moved = set_name dn item"
      define pushed where "pushed = update_at d (push_child moved) (vt_root v)"
      define final where "final = update_at s (erase_nth k) pushed"
      have vk: "valid_addr (s @ [k]) (vt_root v)" using as(1) kk by (simp add: valid_addr_snoc)
      have at: "node_at (s @ [k]) (vt_root v) = item" by (simp add: node_at_app item_def)
      have item: "tree_wf item" "lookup item = ns_sub (split_path sg @ [n]) (lookup (vt_root v))"
        using lookup_at[OF vk] tree_wf_at[OF vk] wf as(2) kk by (simp_all add: at path_of_snoc)
      have moved: "tree_wf moved" "n_name moved = dn"
        "lookup moved = ns_named dn (ns_sub (split_path sg @ [n]) (lookup (vt_root v)))"
        using item by (simp_all add: moved_def set_name_def tree_wf_map_data ns_named_def lookup_map_data)
          (simp add: map_data_def)
      have none: "child_named (node_at d (vt_root v)) (n_name moved) = None" using guards moved by simp
      note push = lookup_update_push[OF ad(1) conjunct1[OF wf] none, folded pushed_def]
      have wfp: "tree_wf pushed" "is_gallery pushed"
      proof -
        show "tree_wf pushed" using push(2) ad(3) moved guards by simp
        show "is_gallery pushed"
          by (rule gallery_root[OF _ conjunct2[OF wf]]) (simp add: push(1) ns_graft_def)
      qed
      from push_keeps_addr[OF vk ad(1), of moved, folded pushed_def]
      have sk: "valid_addr s pushed" "k < length (nchildren (node_at s pushed))"
        "path_of s pushed @ [n_name (nchildren (node_at s pushed) ! k)] = split_path sg @ [n]"
        using as(2) kk by (simp_all add: valid_addr_snoc path_of_snoc)
      note e = erase_at[OF wfp sk(1,2), folded final_def]
      have step: "ns_step (MoveWithin sg n dg dn) (lookup (vt_root v)) (lookup final)"
        using ne resolve_gallery_same[OF sd] ad(2) moved push(1) sk(3) e(1) by (simp add: ns_move_def)
      have "move_node_within commit sg n dg dn v = (ResInvalidArg, v) \<or>
          move_node_within commit sg n dg dn v = committed commit (v\<lparr>vt_root := final\<rparr>)"
        using False sd ne guards k
        by (simp add: move_node_within_def Let_def final_def pushed_def moved_def item_def)
      then show ?thesis using op_same[OF assms] op_committed[OF e(2,3) step] by (metis vault_result.distinct(13))
    qed
  qed
qed (auto simp: move_node_within_def split: option.split intro!: op_same[OF assms])

end
