(* ===== verification/Vault_Session.thy ===== *)
theory Vault_Session
  imports Vault_Refine
begin

text \<open>
  The properties of the tree operations: every operation refines its abstract transition, sessions
  keep the tree well-formed, a move refuses its own subtree on canonical paths and loses it on
  others, and the batch resolver of \<open>src/vault/vault.cpp\<close> agrees with the single one.
\<close>

section \<open>Refinement and sessions\<close>




lemma op_result_vault:
  assumes "op_result op v (r, v')"
  shows "vault_wf v'" "(\<exists>root. v' = v\<lparr>vt_root := root\<rparr>)"
    "r = ResOk \<Longrightarrow> ns_step op (lookup (vt_root v)) (lookup (vt_root v'))"
  using assms by (auto simp: op_result_def vault_wf_def)



definition sample_vault :: vault where
  "sample_vault = \<lparr>vt_unlocked = True, vt_read_only = False, vt_v3 = True, vt_context = True,
     vt_root = Node (ndata (gallery [])) [Node (ndata (gallery [97])) [gallery [98], image [99]]],
     vt_settings = default_settings, vt_searches = []\<rparr>"

lemma sample_vault_wf: "vault_wf sample_vault"
  by (simp add: vault_wf_def sample_vault_def gallery_def image_def default_node_data_def is_gallery_def) code_simp





section \<open>Moving into the moved subtree\<close>

fun join_path :: "bytes list \<Rightarrow> bytes" where
  "join_path [] = []"
| "join_path [s] = s"
| "join_path (s # t # ss) = s @ slash @ join_path (t # ss)"

text \<open>A path as the program itself composes it: no empty segment, no slash at either end.\<close>

definition canonical :: "bytes \<Rightarrow> bool" where
  "canonical p \<longleftrightarrow> join_path (split_path p) = p"

lemma join_append: "xs \<noteq> [] \<Longrightarrow> ys \<noteq> [] \<Longrightarrow> join_path (xs @ ys) = join_path xs @ slash @ join_path ys"
proof (induction xs rule: join_path.induct)
  case (2 s)
  then show ?case by (cases ys) auto
qed auto

lemma source_path_join:
  "canonical sg \<Longrightarrow> (if sg = [] then n else sg @ slash @ n) = join_path (split_path sg @ [n])"
proof (cases "sg = []")
  case False
  assume "canonical sg"
  with False have "split_path sg \<noteq> []" "join_path (split_path sg) = sg" by (auto simp: canonical_def)
  then show ?thesis using False by (simp add: join_append)
qed (simp add: split_path.simps)

lemma canonical_below:
  assumes "canonical sg" "canonical dg" "prefix (split_path sg @ [n]) (split_path dg)"
  defines "src \<equiv> (if sg = [] then n else sg @ slash @ n)"
  shows "dg = src \<or> prefix (src @ slash) dg"
proof -
  obtain rest where r: "split_path dg = (split_path sg @ [n]) @ rest" using assms(3) by (auto elim: prefixE)
  have dg: "dg = join_path ((split_path sg @ [n]) @ rest)" using assms(2) r by (simp add: canonical_def)
  show ?thesis
  proof (cases "rest = []")
    case True
    then show ?thesis using dg source_path_join[OF assms(1), of n] by (simp add: src_def)
  next
    case False
    then have "dg = src @ slash @ join_path rest"
      using dg join_append[of "split_path sg @ [n]" rest] source_path_join[OF assms(1), of n] by (simp add: src_def)
    then show ?thesis by simp
  qed
qed

text \<open>The walk to a gallery below the moved item passes through the item, which is therefore a gallery.\<close>

lemma walk_galleries_append:
  "walk_galleries n (xs @ ys) = (case walk_galleries n xs of None \<Rightarrow> None
     | Some a \<Rightarrow> map_option ((@) a) (walk_galleries (node_at a n) ys))"
  by (induction n xs rule: walk_galleries.induct) (auto simp: map_option_case split: option.splits)

lemma item_is_gallery:
  assumes "tree_wf n" "resolve_gallery n sg = Some s" "resolve_gallery n dg = Some d"
    "prefix (split_path sg @ [x]) (split_path dg)" "child_named (node_at s n) x = Some k"
  shows "is_gallery (nchildren (node_at s n) ! k)"
proof -
  obtain rest where r: "split_path dg = split_path sg @ x # rest" using assms(4) by (auto elim!: prefixE)
  have s: "walk_galleries n (split_path sg) = Some s" using assms(2) by (simp add: resolve_gallery_def)
  have "walk_galleries (node_at s n) (x # rest) \<noteq> None"
    using assms(3) s unfolding resolve_gallery_def r walk_galleries_append by auto
  then have "gallery_named (node_at s n) x \<noteq> None" by (auto split: option.splits)
  moreover have "tree_wf (node_at s n)" using tree_wf_at assms(1) walk_galleries_addr[OF s] by blast
  ultimately show ?thesis using assms(5) gallery_named_eq by (auto split: if_splits)
qed

text \<open>
  Property C19. On paths as the program composes them, \<open>move_node_within\<close> refuses a destination inside
  the node it moves, and leaves the vault as it was.
\<close>
theorem move_into_itself_refused:
  assumes "vault_wf v" "canonical sg" "canonical dg" "prefix (split_path sg @ [n]) (split_path dg)"
  shows "\<exists>r. r \<noteq> ResOk \<and> move_node_within commit sg n dg dn v = (r, v)"
proof -
  note wf = conjunct1[OF assms(1)[unfolded vault_wf_def]]
  note below = canonical_below[OF assms(2-4)]
  show ?thesis
  proof (cases "\<not> vt_v3 v \<or> \<not> vt_unlocked v \<or> resolve_gallery (vt_root v) sg = None \<or> resolve_gallery (vt_root v) dg = None")
    case True
    then show ?thesis by (auto simp: move_node_within_def split: option.split)
  next
    case False
    then obtain s d where sd: "resolve_gallery (vt_root v) sg = Some s" "resolve_gallery (vt_root v) dg = Some d" by auto
    have ne: "s \<noteq> d" using resolve_gallery_same[OF sd] assms(4) by (auto simp: prefix_def)
    show ?thesis
    proof (cases "child_named (node_at s (vt_root v)) n")
      case None
      then show ?thesis using False sd ne by (simp add: move_node_within_def)
    next
      case (Some k)
      have "is_gallery (nchildren (node_at s (vt_root v)) ! k)"
        by (rule item_is_gallery[OF wf sd assms(4) Some])
      then show ?thesis using False sd ne Some below by (simp add: move_node_within_def Let_def)
    qed
  qed
qed

theorem move_into_itself_refused_witness:
  "\<exists>r. r \<noteq> ResOk \<and> move_node_within (\<lambda>_. ResOk) [] [97] [97, 0x2F, 98] [99] sample_vault = (r, sample_vault)"
proof -
  have "canonical []" "canonical [97, 0x2F, 98]" "prefix (split_path [] @ [[97]]) (split_path [97, 0x2F, 98])"
    by (simp_all add: canonical_def split_path.simps is_slash_def slash_def)
  then show ?thesis by (rule move_into_itself_refused[OF sample_vault_wf])
qed

text \<open>
  Property C20. The guard compares the paths as they are written.  When the destination lies inside
  the moved gallery and its text does not start with the source path, the move goes through and
  the whole subtree is gone, while the operation reports the commit's success.
\<close>
theorem move_into_itself_loses_subtree:
  assumes "vault_wf v" "prefix (split_path sg @ [n]) (split_path dg)"
    "move_node_within commit sg n dg dn v = (ResOk, v')"
  shows "lookup (vt_root v') = ns_remove (split_path sg @ [n]) (lookup (vt_root v)) \<and>
    lookup (vt_root v) (split_path sg @ [n]) \<noteq> None"
proof -
  have "op_result (MoveWithin sg n dg dn) v (ResOk, v')" using move_refines[OF assms(1)] assms(3) by metis
  note st = op_result_vault(3)[OF this refl]
  have ne: "split_path sg \<noteq> split_path dg" using assms(2) by (auto simp: prefix_def)
  have "prefix (split_path sg @ [n]) q" if "prefix (split_path dg @ [dn]) q" for q
    using assms(2) that by (metis prefix_append prefix_order.trans)
  then have gone: "lookup (vt_root v') = ns_remove (split_path sg @ [n]) (lookup (vt_root v))"
    using st ne by (auto simp: ns_move_def ns_remove_def ns_graft_def fun_eq_iff)
  obtain s where s: "resolve_gallery (vt_root v) sg = Some s" "child_named (node_at s (vt_root v)) n \<noteq> None"
    using assms(3) ne resolve_gallery_same
    by (auto simp: move_node_within_def split: option.splits if_splits)
  note ad = resolve_gallery_addr[OF s(1) conjunct2[OF assms(1)[unfolded vault_wf_def]]]
  show ?thesis
    using gone s(2) lookup_child[OF conjunct1[OF assms(1)[unfolded vault_wf_def]] ad(1), of n] ad(2) by simp
qed

theorem move_into_itself_loses_subtree_witness:
  "\<exists>v'. move_node_within (\<lambda>_. ResOk) [] [97] [0x2F, 97, 0x2F, 98] [99] sample_vault = (ResOk, v') \<and>
     lookup (vt_root v') = ns_remove [[97]] (lookup (vt_root sample_vault))"
proof -
  define v' where "v' = snd (move_node_within (\<lambda>_. ResOk) [] [97] [0x2F, 97, 0x2F, 98] [99] sample_vault)"
  have ok: "move_node_within (\<lambda>_. ResOk) [] [97] [0x2F, 97, 0x2F, 98] [99] sample_vault = (ResOk, v')"
    unfolding v'_def by code_simp
  have sp: "split_path [] = []" "split_path [0x2F, 97, 0x2F, 98] = [[97], [98]]"
    by (simp_all add: split_path.simps is_slash_def)
  show ?thesis
    using ok move_into_itself_loses_subtree[OF sample_vault_wf _ ok] by (simp add: sp)
qed

end
