(* ===== verification/Vault_Tags.thy ===== *)
theory Vault_Tags
  imports Vault_Session Settings_Ops
begin

text \<open>
  Tag edits on the tree (\<open>src/vault/vault.cpp\<close>, \<open>src/vault/tag_bundles.cpp\<close>,
  \<open>src/vault/tag_normalization.h\<close>): normalisation, explicit tags and bundle contributions, the batch
  add and remove with its rollback.  Node pointers are addresses; a captured original is the address
  with the saved fields, and a rollback writes the originals back in reverse order.
\<close>

section \<open>Normalisation\<close>

definition is_blank :: "byte \<Rightarrow> bool" where "is_blank c \<longleftrightarrow> c = 0x20 \<or> c = 0x09 \<or> c = 0x0D \<or> c = 0x0A"

definition normalise_tag :: "bytes \<Rightarrow> bytes" where
  "normalise_tag tag = rev (dropWhile is_blank (rev (dropWhile is_blank tag)))"

definition normalise_tags :: "bytes list \<Rightarrow> bytes list" where
  "normalise_tags input = foldl (\<lambda>out tag.
     let trimmed = normalise_tag tag in
     if trimmed \<noteq> [] then push_new tag_ci_equal out trimmed else out) [] input"

section \<open>Explicit tags and bundles\<close>

definition initialize_tag_provenance :: "node_data \<Rightarrow> node_data" where
  "initialize_tag_provenance d =
     (if nd_tag_provenance d \<and> nd_tag_bundles d \<noteq> [] then d
      else d\<lparr>nd_explicit_tags := nd_tags d, nd_tag_provenance := True\<rparr>)"

text \<open>The loop over a node's bundle ids; an id without a definition fails.\<close>

fun merge_bundles :: "tag_bundle list \<Rightarrow> bytes list \<Rightarrow> bytes list \<Rightarrow> bytes list option" where
  "merge_bundles bundles [] tags = Some tags"
| "merge_bundles bundles (i # ids) tags =
     (case find (\<lambda>b. tb_id b = i) bundles of
        None \<Rightarrow> None
      | Some b \<Rightarrow> merge_bundles bundles ids (foldl (push_new tag_ci_equal) tags (tb_tags b)))"

definition rebuild_bundle_tags :: "vault_settings \<Rightarrow> node_data \<Rightarrow> node_data option" where
  "rebuild_bundle_tags s d =
     (if \<not> nd_tag_provenance d then Some d
      else case merge_bundles (vs_tag_bundles s) (nd_tag_bundles d) (nd_explicit_tags d) of
        None \<Rightarrow> None
      | Some tags \<Rightarrow> if length tags > INDEX_MAX_TAGS then None else Some (d\<lparr>nd_tags := tags\<rparr>))"

section \<open>Resolving a selection\<close>

text \<open>\<open>index_selection_children\<close>: the children of a gallery by name, the first of a name winning.\<close>

fun emplace_children :: "addr \<Rightarrow> nat \<Rightarrow> index_node list \<Rightarrow> (bytes \<rightharpoonup> addr) \<Rightarrow> (bytes \<rightharpoonup> addr)" where
  "emplace_children a i [] m = m"
| "emplace_children a i (c # cs) m =
     emplace_children a (Suc i) cs (if m (n_name c) = None then m(n_name c \<mapsto> a @ [i]) else m)"

definition index_selection_children :: "index_node \<Rightarrow> addr option \<Rightarrow> (bytes \<rightharpoonup> addr)" where
  "index_selection_children root parent =
     (case parent of
        None \<Rightarrow> Map.empty
      | Some a \<Rightarrow> if \<not> is_gallery (node_at a root) then Map.empty
                  else emplace_children a 0 (nchildren (node_at a root)) Map.empty)"

text \<open>The loop, with the cache of parents already indexed.\<close>

fun select_nodes ::
  "index_node \<Rightarrow> bytes list \<Rightarrow> (bytes \<rightharpoonup> (bytes \<rightharpoonup> addr)) \<Rightarrow> addr option list \<Rightarrow> addr option list" where
  "select_nodes root [] parents result = result"
| "select_nodes root (path # paths) parents result =
     (if path = [] then select_nodes root paths parents (result @ [resolve_node root []])
      else let (parent, leaf) = split_leaf path;
               parents = (case parents parent of
                  Some _ \<Rightarrow> parents
                | None \<Rightarrow> parents(parent \<mapsto> index_selection_children root (resolve_node root parent)))
           in select_nodes root paths parents (result @ [Option.bind (parents parent) (\<lambda>m. m leaf)]))"

definition resolve_node_selection :: "index_node \<Rightarrow> bytes list \<Rightarrow> addr option list" where
  "resolve_node_selection root paths = select_nodes root paths Map.empty []"

section \<open>Batch edits\<close>

record tag_prior =
  tp_node :: addr
  tp_tags :: "bytes list"
  tp_explicit_tags :: "bytes list"
  tp_initialized :: bool

definition prior_of :: "addr \<Rightarrow> node_data \<Rightarrow> tag_prior" where
  "prior_of a d = \<lparr>tp_node = a, tp_tags = nd_tags d, tp_explicit_tags = nd_explicit_tags d,
     tp_initialized = nd_tag_provenance d\<rparr>"

definition set_data :: "addr \<Rightarrow> (node_data \<Rightarrow> node_data) \<Rightarrow> index_node \<Rightarrow> index_node" where
  "set_data a f = update_at a (map_data f)"

text \<open>\<open>~TagBatchChanges\<close> without \<open>committed\<close>.\<close>

definition restore_prior :: "tag_prior \<Rightarrow> index_node \<Rightarrow> index_node" where
  "restore_prior p = set_data (tp_node p) (\<lambda>d. d\<lparr>nd_tags := tp_tags p,
     nd_explicit_tags := tp_explicit_tags p, nd_tag_provenance := tp_initialized p\<rparr>)"

definition rollback_tags :: "tag_prior list \<Rightarrow> index_node \<Rightarrow> index_node" where
  "rollback_tags originals root = fold restore_prior (rev originals) root"

definition manual_tags :: "node_data \<Rightarrow> bytes list" where
  "manual_tags d = (if nd_tag_provenance d \<and> nd_tag_bundles d \<noteq> [] then nd_explicit_tags d else nd_tags d)"

definition has_tag :: "bytes \<Rightarrow> bytes list \<Rightarrow> bool" where
  "has_tag tag ts \<longleftrightarrow> (\<exists>t \<in> set ts. tag_ci_equal t tag)"

text \<open>The edit of one node, before \<open>rebuild_bundle_tags\<close>.\<close>

definition edit_explicit :: "bytes \<Rightarrow> bool \<Rightarrow> node_data \<Rightarrow> node_data" where
  "edit_explicit tag remove d =
     (let d = initialize_tag_provenance d
      in d\<lparr>nd_explicit_tags := if remove then filter (\<lambda>t. \<not> tag_ci_equal t tag) (nd_explicit_tags d)
           else nd_explicit_tags d @ [tag]\<rparr>)"

definition apply_tag_change ::
  "vault_settings \<Rightarrow> bytes \<Rightarrow> bool \<Rightarrow> addr option \<Rightarrow> index_node \<times> tag_prior list \<Rightarrow>
   vault_result \<times> index_node \<times> tag_prior list" where
  "apply_tag_change s tag remove node st = (case st of (root, originals) \<Rightarrow>
     (case node of
        None \<Rightarrow> (ResOk, root, originals)
      | Some a \<Rightarrow>
          (let d = ndata (node_at a root) in
           if has_tag tag (manual_tags d) \<noteq> remove then (ResOk, root, originals)
           else let originals = originals @ [prior_of a d];
                    d' = edit_explicit tag remove d
                in (case rebuild_bundle_tags s d' of
                      None \<Rightarrow> (ResInvalidArg, set_data a (\<lambda>_. d') root, originals)
                    | Some d'' \<Rightarrow> (ResOk, set_data a (\<lambda>_. d'') root, originals)))))"

text \<open>
  The loop; \<open>cancel i\<close> is the \<open>i\<close>-th load of the cancel flag.  \<open>Some r\<close> is an early return with \<open>r\<close>.
\<close>

fun tag_loop ::
  "vault_settings \<Rightarrow> bytes \<Rightarrow> bool \<Rightarrow> (nat \<Rightarrow> bool) \<Rightarrow> nat \<Rightarrow> addr option list \<Rightarrow> index_node \<times> tag_prior list \<Rightarrow>
   vault_result option \<times> index_node \<times> tag_prior list" where
  "tag_loop s tag remove cancel i [] st = (if cancel i then Some ResOk else None, st)"
| "tag_loop s tag remove cancel i (node # nodes) st =
     (if cancel i then (Some ResOk, st)
      else case apply_tag_change s tag remove node st of
        (r, st) \<Rightarrow> if r \<noteq> ResOk then (Some r, st) else tag_loop s tag remove cancel (Suc i) nodes st)"

definition mutate_tags_batch ::
  "(vault \<Rightarrow> vault_result) \<Rightarrow> (nat \<Rightarrow> bool) \<Rightarrow> bytes list \<Rightarrow> bytes \<Rightarrow> bool \<Rightarrow> vault \<Rightarrow> vault_result \<times> vault" where
  "mutate_tags_batch commit cancel paths tag remove v =
     (if \<not> vt_unlocked v then (ResLocked, v)
      else if vt_read_only v then (ResInvalidArg, v)
      else let trimmed = normalise_tag tag in
        if trimmed = [] then (if remove then ResOk else ResInvalidArg, v)
        else if length trimmed > 65535 \<or> 0 \<in> set trimmed then (ResInvalidArg, v)
        else if cancel 0 then (ResOk, v)
        else case tag_loop (vt_settings v) trimmed remove cancel 1
                    (resolve_node_selection (vt_root v) paths) (vt_root v, []) of
          (early, root, originals) \<Rightarrow>
            (let kept = v\<lparr>vt_root := root\<rparr>;
                 undone = v\<lparr>vt_root := rollback_tags originals root\<rparr>
             in case early of
                  Some r \<Rightarrow> (r, undone)
                | None \<Rightarrow>
                    (let status = (if originals = [] then ResOk else vault_commit_index commit kept)
                     in (status, if status = ResOk then kept else undone))))"

definition add_tag_batch where
  "add_tag_batch commit paths tag = mutate_tags_batch commit (\<lambda>_. False) paths tag False"

definition remove_tag_batch where
  "remove_tag_batch commit paths tag = mutate_tags_batch commit (\<lambda>_. False) paths tag True"

definition add_tag ::
  "(vault \<Rightarrow> vault_result) \<Rightarrow> bytes \<Rightarrow> bytes \<Rightarrow> vault \<Rightarrow> vault_result \<times> vault" where
  "add_tag commit node_path tag v =
     (if \<not> vt_unlocked v then (ResLocked, v)
      else if vt_read_only v then (ResInvalidArg, v)
      else let trimmed = normalise_tag tag in
        if trimmed = [] then (ResInvalidArg, v)
        else if resolve_node (vt_root v) node_path = None then (ResNotFound, v)
        else mutate_tags_batch commit (\<lambda>_. False) [node_path] trimmed False v)"

definition remove_tag ::
  "(vault \<Rightarrow> vault_result) \<Rightarrow> bytes \<Rightarrow> bytes \<Rightarrow> vault \<Rightarrow> vault_result \<times> vault" where
  "remove_tag commit node_path tag v =
     (if \<not> vt_unlocked v then (ResLocked, v)
      else if vt_read_only v then (ResInvalidArg, v)
      else let trimmed = normalise_tag tag in
        if trimmed = [] then (ResOk, v)
        else if resolve_node (vt_root v) node_path = None then (ResNotFound, v)
        else mutate_tags_batch commit (\<lambda>_. False) [node_path] trimmed True v)"

definition set_tags ::
  "(vault \<Rightarrow> vault_result) \<Rightarrow> bytes \<Rightarrow> bytes list \<Rightarrow> vault \<Rightarrow> vault_result \<times> vault" where
  "set_tags commit node_path tags v =
     (if \<not> vt_unlocked v then (ResLocked, v)
      else if vt_read_only v then (ResInvalidArg, v)
      else case resolve_node (vt_root v) node_path of
        None \<Rightarrow> (ResNotFound, v)
      | Some a \<Rightarrow>
          (let d = ndata (node_at a (vt_root v));
               normalised = normalise_tags tags
           in if manual_tags d = normalised then (ResOk, v)
              else let originals = [prior_of a d];
                       d' = d\<lparr>nd_tag_provenance := True, nd_explicit_tags := normalised\<rparr>;
                       undone = (\<lambda>root. v\<lparr>vt_root := rollback_tags originals root\<rparr>)
                   in (case rebuild_bundle_tags (vt_settings v) d' of
                         None \<Rightarrow> (ResInvalidArg, undone (set_data a (\<lambda>_. d') (vt_root v)))
                       | Some d'' \<Rightarrow>
                           (let root = set_data a (\<lambda>_. d'') (vt_root v);
                                kept = v\<lparr>vt_root := root\<rparr>;
                                status = vault_commit_index commit kept
                            in (status, if status = ResOk then kept else undone root)))))"

section \<open>Pruning\<close>

record prune_stats =
  ps_removed :: nat
  ps_nodes :: nat

fun prune_node_tags ::
  "(bytes \<Rightarrow> bool) \<Rightarrow> vault_settings \<Rightarrow> index_node \<Rightarrow> prune_stats \<Rightarrow> index_node \<times> prune_stats"
  and prune_children ::
  "(bytes \<Rightarrow> bool) \<Rightarrow> vault_settings \<Rightarrow> index_node list \<Rightarrow> prune_stats \<Rightarrow> index_node list \<times> prune_stats" where
  "prune_node_tags keep s (Node d cs) st =
     (let d1 = initialize_tag_provenance d;
          kept = filter keep (nd_explicit_tags d1);
          removed = length (nd_explicit_tags d1) - length kept;
          d2 = d1\<lparr>nd_explicit_tags := kept\<rparr>;
          st1 = (if removed > 0 then \<lparr>ps_removed = ps_removed st + removed, ps_nodes = Suc (ps_nodes st)\<rparr> else st);
          d3 = (case rebuild_bundle_tags s d2 of None \<Rightarrow> d2 | Some d' \<Rightarrow> d');
          (cs', st2) = prune_children keep s cs st1
      in (Node d3 cs', st2))"
| "prune_children keep s [] st = ([], st)"
| "prune_children keep s (c # cs) st =
     (let (c', st1) = prune_node_tags keep s c st; (cs', st2) = prune_children keep s cs st1 in (c' # cs', st2))"

definition prune_tags ::
  "(vault \<Rightarrow> vault_result) \<Rightarrow> (bytes \<Rightarrow> bool) option \<Rightarrow> vault \<Rightarrow> vault_result \<times> prune_stats \<times> vault" where
  "prune_tags commit keep v = (let zero = \<lparr>ps_removed = 0, ps_nodes = 0\<rparr> in
     if \<not> vt_unlocked v then (ResLocked, zero, v)
     else if vt_read_only v then (ResInvalidArg, zero, v)
     else case keep of
       None \<Rightarrow> (ResInvalidArg, zero, v)
     | Some k \<Rightarrow>
         (case prune_node_tags k (vt_settings v) (vt_root v) zero of
            (root, local) \<Rightarrow>
              (let v' = v\<lparr>vt_root := root\<rparr>
               in (if ps_removed local = 0 then ResOk else vault_commit_index commit v', local, v'))))"


section \<open>Selections resolve like single paths\<close>

lemma split_path_Nil [simp]: "split_path [] = []"
  by (simp add: split_path.simps)

lemma split_path_slash: "is_slash c \<Longrightarrow> split_path (c # q) = split_path q"
  by (subst split_path.simps, subst (3) split_path.simps) (simp add: Let_def)

lemma split_path_step:
  "p \<noteq> [] \<Longrightarrow> \<not> is_slash (hd p) \<Longrightarrow>
   split_path p = takeWhile (\<lambda>c. \<not> is_slash c) p # split_path (dropWhile (\<lambda>c. \<not> is_slash c) p)"
  by (cases p) (simp_all add: split_path.simps[of "_ # _"])

lemma split_path_append: "is_slash c \<Longrightarrow> split_path (p @ c # q) = split_path p @ split_path q"
proof (induction p rule: length_induct)
  case (1 p)
  show ?case
  proof (cases p)
    case Nil
    then show ?thesis using 1 by (simp add: split_path_slash)
  next
    case (Cons x xs)
    show ?thesis
    proof (cases "is_slash x")
      case True
      then show ?thesis using 1 Cons by (simp add: split_path_slash)
    next
      case False
      define rest where "rest = dropWhile (\<lambda>c. \<not> is_slash c) p"
      have len: "length rest < length p"
        unfolding rest_def using Cons False by (simp add: less_Suc_eq_le length_dropWhile_le)
      have drop: "dropWhile (\<lambda>c. \<not> is_slash c) (p @ c # q) = rest @ c # q"
        unfolding rest_def using 1(2) by (simp add: dropWhile_append dropWhile_eq_Nil_conv)
      have take: "takeWhile (\<lambda>c. \<not> is_slash c) (p @ c # q) = takeWhile (\<lambda>c. \<not> is_slash c) p"
        using 1(2) by (cases "\<forall>x \<in> set p. \<not> is_slash x") (auto simp: takeWhile_append takeWhile_eq_all_conv[THEN iffD2])
      have "split_path (p @ c # q) = takeWhile (\<lambda>c. \<not> is_slash c) p # split_path (rest @ c # q)"
        using split_path_step[of "p @ c # q"] False Cons drop take by simp
      also have "\<dots> = takeWhile (\<lambda>c. \<not> is_slash c) p # split_path rest @ split_path q"
        using 1 len by simp
      finally show ?thesis using split_path_step[of p] False Cons by (simp add: rest_def)
    qed
  qed
qed

lemma split_path_segment: "s \<noteq> [] \<Longrightarrow> \<forall>c \<in> set s. \<not> is_slash c \<Longrightarrow> split_path s = [s]"
  using split_path_step[of s] by (cases s) (simp_all add: takeWhile_eq_all_conv[THEN iffD2] dropWhile_eq_Nil_conv[THEN iffD2])

lemma split_leaf_path:
  assumes "split_leaf p = (par, leaf)"
  shows "\<forall>c \<in> set leaf. \<not> is_slash c" "p \<noteq> [] \<Longrightarrow> leaf = [] \<longleftrightarrow> is_slash (last p)"
    "leaf \<noteq> [] \<Longrightarrow> split_path p = split_path par @ [leaf]"
proof -
  define l where "l = rev (takeWhile (\<lambda>c. \<not> is_slash c) (rev p))"
  have nosl: "\<forall>c \<in> set l. \<not> is_slash c" by (auto simp: l_def dest: set_takeWhileD)
  have "(\<forall>c \<in> set leaf. \<not> is_slash c) \<and> (p \<noteq> [] \<longrightarrow> (leaf = [] \<longleftrightarrow> is_slash (last p))) \<and>
      (leaf \<noteq> [] \<longrightarrow> split_path p = split_path par @ [leaf])"
    if nosl: "\<not> list_ex is_slash p"
  proof -
    have "leaf = p" "par = []" using assms nosl by (simp_all add: split_leaf_def)
    then show ?thesis using nosl split_path_segment[of p] by (auto simp: list_ex_iff)
  qed
  moreover
  have "leaf = l \<and> (p \<noteq> [] \<longrightarrow> (leaf = [] \<longleftrightarrow> is_slash (last p))) \<and> (leaf \<noteq> [] \<longrightarrow> split_path p = split_path par @ [leaf])"
    if sl: "list_ex is_slash p"
  proof -
    have eq: "leaf = l" "par = take (length p - Suc (length l)) p"
      using assms sl by (auto simp: split_leaf_def l_def Let_def)
    obtain c r where cr: "dropWhile (\<lambda>c. \<not> is_slash c) (rev p) = c # r" "is_slash c"
      using sl by (cases "dropWhile (\<lambda>c. \<not> is_slash c) (rev p)")
        (auto simp: list_ex_iff dropWhile_eq_Nil_conv dropWhile_eq_Cons_conv)
    have "rev p = takeWhile (\<lambda>c. \<not> is_slash c) (rev p) @ c # r"
      using takeWhile_dropWhile_id[of "\<lambda>c. \<not> is_slash c" "rev p"] cr by simp
    then have "rev (rev p) = rev (takeWhile (\<lambda>c. \<not> is_slash c) (rev p) @ c # r)" by (rule arg_cong)
    then have p: "p = rev r @ c # l" by (simp add: l_def)
    have lenp: "length p = length r + Suc (length l)" by (subst p) simp
    have par: "par = rev r" unfolding eq(2) lenp by (subst p) simp
    have "l = [] \<longleftrightarrow> is_slash (last p)" by (subst p) (use cr(2) nosl in \<open>cases l; auto\<close>)
    moreover have "split_path p = split_path (rev r) @ [l]" if "l \<noteq> []"
      by (subst p) (simp add: split_path_append[OF cr(2)] split_path_segment[OF that nosl])
    ultimately show ?thesis unfolding eq(1) par by blast
  qed
  ultimately show "\<forall>c \<in> set leaf. \<not> is_slash c" "p \<noteq> [] \<Longrightarrow> leaf = [] \<longleftrightarrow> is_slash (last p)"
    "leaf \<noteq> [] \<Longrightarrow> split_path p = split_path par @ [leaf]"
    using nosl by blast+
qed


lemma walk_node_snoc:
  "tree_wf n \<Longrightarrow> is_gallery n \<Longrightarrow> walk_node n (ss @ [t]) =
     (case walk_node n ss of None \<Rightarrow> None
      | Some a \<Rightarrow> if is_gallery (node_at a n) then map_option (\<lambda>k. a @ [k]) (child_named (node_at a n) t) else None)"
proof (induction n ss rule: walk_node.induct)
  case (2 n s)
  then show ?case by (auto simp: gallery_named_eq map_option_case split: option.split)
next
  case (3 n s u ss)
  have IH: "walk_node (nchildren n ! k) (u # ss @ [t]) =
      (case walk_node (nchildren n ! k) (u # ss) of None \<Rightarrow> None
       | Some a \<Rightarrow> if is_gallery (node_at a (nchildren n ! k))
           then map_option (\<lambda>j. a @ [j]) (child_named (node_at a (nchildren n ! k)) t) else None)"
    if "gallery_named n s = Some k" for k
    using 3(1)[OF that] gallery_named_Some[OF that] tree_wf_child[OF 3(2)] by simp
  show ?case
  proof (cases "gallery_named n s")
    case (Some k)
    then show ?thesis using IH[OF Some] by (auto simp: map_option_case split: option.splits)
  qed simp
qed simp

definition select_one :: "index_node \<Rightarrow> bytes \<Rightarrow> addr option" where
  "select_one root path =
     (if path = [] then resolve_node root []
      else index_selection_children root (resolve_node root (fst (split_leaf path))) (snd (split_leaf path)))"

lemma select_nodes_map:
  "(\<And>p m. parents p = Some m \<Longrightarrow> m = index_selection_children root (resolve_node root p)) \<Longrightarrow>
   select_nodes root paths parents result = result @ map (select_one root) paths"
proof (induction paths arbitrary: parents result)
  case (Cons path paths)
  show ?case
  proof (cases "path = []")
    case True
    then show ?thesis using Cons by (simp add: select_one_def)
  next
    case False
    obtain par leaf where sl: "split_leaf path = (par, leaf)" by (cases "split_leaf path")
    show ?thesis
    proof (cases "parents par")
      case None
      have "select_nodes root paths (parents(par \<mapsto> index_selection_children root (resolve_node root par))) r =
          r @ map (select_one root) paths" for r
        by (rule Cons(1)) (use Cons(2) in \<open>auto split: if_splits\<close>)
      then show ?thesis using None False sl by (simp add: select_one_def)
    next
      case (Some m)
      then have "m = index_selection_children root (resolve_node root par)" using Cons(2) by blast
      then show ?thesis using Cons Some False sl by (simp add: select_one_def)
    qed
  qed
qed simp

lemma resolve_node_selection_map: "resolve_node_selection root paths = map (select_one root) paths"
  unfolding resolve_node_selection_def by (subst select_nodes_map) simp_all

lemma emplace_children_find:
  "emplace_children a i cs m s = (case m s of Some x \<Rightarrow> Some x
     | None \<Rightarrow> map_option (\<lambda>k. a @ [i + k]) (find_index (\<lambda>c. n_name c = s) cs))"
proof (induction cs arbitrary: i m)
  case (Cons c cs)
  then show ?case by (cases "find_index (\<lambda>c. n_name c = s) cs") (auto split: option.split)
qed (simp split: option.split)

lemma select_one_eq:
  assumes "tree_wf root" "is_gallery root"
  shows "select_one root path = (if path \<noteq> [] \<and> is_slash (last path) then None else resolve_node root path)"
proof (cases "path = []")
  case False
  obtain par leaf where sl: "split_leaf path = (par, leaf)" by (cases "split_leaf path")
  note sp = split_leaf_path[OF sl]
  have sel: "select_one root path = (case resolve_node root par of None \<Rightarrow> None
      | Some a \<Rightarrow> if is_gallery (node_at a root) then map_option (\<lambda>k. a @ [k]) (child_named (node_at a root) leaf) else None)"
    using False sl by (simp add: select_one_def index_selection_children_def emplace_children_find child_named_def
      split: option.split)
  show ?thesis
  proof (cases "leaf = []")
    case True
    have "child_named (node_at a root) [] = None" if "resolve_node root par = Some a" for a
    proof -
      have "tree_wf (node_at a root)"
        using tree_wf_at[OF resolve_node_addr(1)[OF that] assms(1)] .
      then have "\<forall>c \<in> set (nchildren (node_at a root)). n_name c \<noteq> []"
        by (cases "node_at a root") (auto simp: is_safe_node_name_def)
      then show ?thesis by (simp add: child_named_def find_index_None)
    qed
    then show ?thesis using sel True sp(2)[OF False] False by (auto split: option.split)
  next
    case leaf: False
    then have "resolve_node root path = walk_node root (split_path par @ [leaf])"
      using sp(3) by (simp add: resolve_node_def)
    then show ?thesis using sel leaf sp(2)[OF False] walk_node_snoc[OF assms] by (simp add: resolve_node_def)
  qed
qed (simp add: select_one_def)


section \<open>Writing node data in place\<close>

abbreviation data_at :: "addr \<Rightarrow> index_node \<Rightarrow> node_data" where "data_at a n \<equiv> ndata (node_at a n)"

lemma set_data_twice: "set_data a f (set_data a g n) = set_data a (f \<circ> g) n"
proof (induction a arbitrary: n)
  case (Cons k a)
  then show ?case
    by (cases n) (cases "k < length (nchildren n)"; simp add: set_data_def nth_list_update list_update_beyond)
qed (simp add: set_data_def map_data_def)

lemma set_data_id: "f (data_at a n) = data_at a n \<Longrightarrow> set_data a f n = n"
proof (induction a arbitrary: n)
  case (Cons k a)
  then show ?case by (cases n) (simp add: set_data_def)
qed (simp add: set_data_def map_data_def)

lemma set_data_cong: "f (data_at a n) = g (data_at a n) \<Longrightarrow> set_data a f n = set_data a g n"
proof (induction a arbitrary: n)
  case (Cons k a)
  show ?case using Cons(1)[of "nchildren n ! k"] Cons(2) by (cases n) (simp add: set_data_def)
qed (simp add: set_data_def map_data_def)

lemma valid_addr_set_data [simp]: "valid_addr b (set_data a f n) \<longleftrightarrow> valid_addr b n"
proof (induction a arbitrary: b n)
  case Nil
  then show ?case by (cases b) (simp_all add: set_data_def map_data_def)
next
  case (Cons k a)
  then show ?case by (cases b; cases n; cases "hd b = k") (auto simp: set_data_def)
qed

lemma data_at_set_data:
  "valid_addr a n \<Longrightarrow> valid_addr b n \<Longrightarrow>
   data_at b (set_data a f n) = (if b = a then f (data_at a n) else data_at b n)"
proof (induction a arbitrary: b n)
  case Nil
  then show ?case by (cases b) (simp_all add: set_data_def map_data_def)
next
  case (Cons k a)
  then show ?case by (cases b; cases n) (auto simp: set_data_def nth_list_update)
qed

section \<open>Rollback\<close>

text \<open>Two versions of a node's data that differ in its tags only.\<close>

definition untagged :: "node_data \<Rightarrow> node_data" where
  "untagged d = d\<lparr>nd_tags := [], nd_explicit_tags := [], nd_tag_provenance := False\<rparr>"

lemma restore_untagged:
  assumes "untagged d = untagged d'"
  shows "d'\<lparr>nd_tags := nd_tags d, nd_explicit_tags := nd_explicit_tags d, nd_tag_provenance := nd_tag_provenance d\<rparr> = d"
proof -
  have "d'\<lparr>nd_tags := t, nd_explicit_tags := e, nd_tag_provenance := p\<rparr> =
      (untagged d')\<lparr>nd_tags := t, nd_explicit_tags := e, nd_tag_provenance := p\<rparr>" for t e p
    by (simp add: untagged_def)
  then show ?thesis by (simp add: assms[symmetric]) (simp add: untagged_def)
qed

lemma restore_prior_set:
  assumes "untagged (data_at a n) = untagged d'"
  shows "restore_prior (prior_of a (data_at a n)) (set_data a (\<lambda>_. d') n) = n"
  unfolding restore_prior_def prior_of_def
  by (simp add: set_data_twice comp_def restore_untagged[OF assms] set_data_id)

lemma rollback_snoc: "rollback_tags (ps @ [p]) root = rollback_tags ps (restore_prior p root)"
  by (simp add: rollback_tags_def)

lemma rebuild_untagged: "rebuild_bundle_tags s d = Some d' \<Longrightarrow> untagged d' = untagged d"
  by (auto simp: rebuild_bundle_tags_def untagged_def split: if_splits option.splits)

lemma rebuild_again: "rebuild_bundle_tags s d = Some d' \<Longrightarrow> rebuild_bundle_tags s d' = Some d'"
  by (auto simp: rebuild_bundle_tags_def split: if_splits option.splits)

lemma edit_explicit_untagged: "untagged (edit_explicit tag remove d) = untagged d"
  by (simp add: edit_explicit_def initialize_tag_provenance_def untagged_def Let_def)

text \<open>After a rebuilt edit, what the user set by hand has the tag exactly when it was added.\<close>

lemma edit_explicit_manual:
  assumes "rebuild_bundle_tags s (edit_explicit tag remove d) = Some d'"
  shows "has_tag tag (manual_tags d') \<longleftrightarrow> \<not> remove"
proof -
  let ?e = "edit_explicit tag remove d"
  have prov: "nd_tag_provenance ?e" by (simp add: edit_explicit_def initialize_tag_provenance_def Let_def)
  have "has_tag tag (nd_explicit_tags ?e) \<longleftrightarrow> \<not> remove"
    by (auto simp: edit_explicit_def Let_def has_tag_def)
  moreover have "manual_tags d' = nd_explicit_tags ?e"
    using assms prov by (auto simp: rebuild_bundle_tags_def manual_tags_def split: if_splits option.splits)
  ultimately show ?thesis by simp
qed

lemma apply_tag_change_cases:
  assumes "apply_tag_change s tag remove node (root, ps) = (r, root', ps')"
  obtains (skip) "r = ResOk" "root' = root" "ps' = ps"
      "\<And>a. node = Some a \<Longrightarrow> has_tag tag (manual_tags (data_at a root)) \<longleftrightarrow> \<not> remove"
    | (edit) a d' where "node = Some a" "has_tag tag (manual_tags (data_at a root)) = remove"
      "root' = set_data a (\<lambda>_. d') root" "ps' = ps @ [prior_of a (data_at a root)]"
      "untagged (data_at a root) = untagged d'"
      "r = ResOk \<Longrightarrow> (has_tag tag (manual_tags d') \<longleftrightarrow> \<not> remove) \<and> rebuild_bundle_tags s d' = Some d'"
proof (cases node)
  case None
  then show ?thesis using assms skip by (simp add: apply_tag_change_def)
next
  case (Some a)
  show ?thesis
  proof (cases "has_tag tag (manual_tags (data_at a root)) = remove")
    case False
    then show ?thesis using assms skip Some by (simp add: apply_tag_change_def)
  next
    case True
    let ?d = "edit_explicit tag remove (data_at a root)"
    show ?thesis
    proof (cases "rebuild_bundle_tags s ?d")
      case None
      then show ?thesis using edit[OF Some True, of ?d] assms Some True
        by (simp add: apply_tag_change_def Let_def edit_explicit_untagged)
    next
      case r: (Some d')
      then show ?thesis
        using edit[OF Some True, of d'] assms Some True edit_explicit_manual[OF r] rebuild_again[OF r] rebuild_untagged[OF r]
        by (simp add: apply_tag_change_def Let_def edit_explicit_untagged)
    qed
  qed
qed


text \<open>The loop: what it changes, what its rollback undoes, and what a completed run has reached.\<close>

definition tags_only :: "index_node \<Rightarrow> index_node \<Rightarrow> bool" where
  "tags_only root root' \<longleftrightarrow> (\<forall>b. valid_addr b root' \<longleftrightarrow> valid_addr b root) \<and>
     (\<forall>b. valid_addr b root \<longrightarrow> untagged (data_at b root') = untagged (data_at b root))"

lemma tags_only_refl: "tags_only r r" and tags_only_trans: "tags_only r s \<Longrightarrow> tags_only s t \<Longrightarrow> tags_only r t"
  by (auto simp: tags_only_def)

lemma tags_only_set:
  "valid_addr a root \<Longrightarrow> untagged d' = untagged (data_at a root) \<Longrightarrow> tags_only root (set_data a (\<lambda>_. d') root)"
  by (auto simp: tags_only_def data_at_set_data)

definition consistent :: "vault_settings \<Rightarrow> node_data \<Rightarrow> bool" where
  "consistent s d \<longleftrightarrow> rebuild_bundle_tags s d = Some d"

abbreviation reached :: "bytes \<Rightarrow> bool \<Rightarrow> addr \<Rightarrow> index_node \<Rightarrow> bool" where
  "reached tag remove a root \<equiv> has_tag tag (manual_tags (data_at a root)) \<longleftrightarrow> \<not> remove"

text \<open>One step of the loop, as its induction sees it.\<close>

lemma tag_loop_step:
  assumes "tag_loop s tag remove cancel i (node # nodes) (root, ps) = (e, root', ps')" "\<not> cancel i"
    "\<forall>a. node = Some a \<longrightarrow> valid_addr a root"
  obtains (stop) root1 ps1 where "e \<noteq> None" "e \<noteq> Some ResOk" "root' = root1" "ps' = ps1"
      "tags_only root root1" "rollback_tags ps1 root1 = rollback_tags ps root" "ps1 \<noteq> ps"
      "\<And>b. valid_addr b root \<Longrightarrow> node \<noteq> Some b \<or> reached tag remove b root \<Longrightarrow> data_at b root1 = data_at b root"
      "\<exists>p. ps1 = ps @ [p]"
    | (go) root1 ps1 where "tag_loop s tag remove cancel (Suc i) nodes (root1, ps1) = (e, root', ps')"
      "tags_only root root1" "rollback_tags ps1 root1 = rollback_tags ps root"
      "\<And>b. valid_addr b root \<Longrightarrow> node \<noteq> Some b \<or> reached tag remove b root \<Longrightarrow> data_at b root1 = data_at b root"
      "\<And>b. valid_addr b root \<Longrightarrow> data_at b root1 = data_at b root \<or> consistent s (data_at b root1)"
      "\<And>a. node = Some a \<Longrightarrow> reached tag remove a root1"
      "root1 = root \<and> ps1 = ps \<or> (\<exists>p. ps1 = ps @ [p])"
proof -
  obtain r root1 ps1 where ap: "apply_tag_change s tag remove node (root, ps) = (r, root1, ps1)" using prod_cases3 by blast
  have tl: "if r \<noteq> ResOk then e = Some r \<and> root' = root1 \<and> ps' = ps1
      else tag_loop s tag remove cancel (Suc i) nodes (root1, ps1) = (e, root', ps')"
    using assms(1,2) ap by (auto split: if_splits)
  from ap show ?thesis
  proof (cases rule: apply_tag_change_cases)
    case skip
    have rc: "\<And>a. node = Some a \<Longrightarrow> reached tag remove a root" using skip(4) .
    show ?thesis by (rule go[of root ps]) (use tl skip rc in \<open>auto simp: tags_only_refl\<close>)
  next
    case (edit a d')
    have v: "valid_addr a root" using assms(3) edit(1) by simp
    have to: "tags_only root root1" using tags_only_set[OF v edit(5)[symmetric]] edit(3) by simp
    have rb: "rollback_tags ps1 root1 = rollback_tags ps root"
      unfolding edit(3,4) rollback_snoc restore_prior_set[OF edit(5)] ..
    have dt: "data_at b root1 = (if b = a then d' else data_at b root)" if "valid_addr b root" for b
      using data_at_set_data[OF v that] edit(3) by simp
    have keep: "data_at b root1 = data_at b root" if "valid_addr b root" "node \<noteq> Some b \<or> reached tag remove b root" for b
      using that dt edit(1,2) by auto
    show ?thesis
    proof (cases "r = ResOk")
      case True
      have ok: "reached tag remove a root1" "consistent s d'" using edit(6)[OF True] dt[OF v] by (simp_all add: consistent_def)
      show ?thesis
        by (rule go[of root1 ps1]) (use True tl to rb keep ok dt edit(1,4) in \<open>auto split: if_splits\<close>)
    next
      case False
      show ?thesis
        by (rule stop[of root1 ps1]) (use False tl to rb keep edit(4) in auto)
    qed
  qed
qed

lemma tag_loop_rollback:
  assumes "tag_loop s tag remove cancel i nodes (root, ps) = (e, root', ps')" "\<forall>a. Some a \<in> set nodes \<longrightarrow> valid_addr a root"
  shows "rollback_tags ps' root' = rollback_tags ps root \<and> tags_only root root' \<and>
    (\<exists>qs. ps' = ps @ qs \<and> (qs = [] \<longrightarrow> root' = root))"
  using assms
proof (induction nodes arbitrary: i root ps)
  case (Cons node nodes)
  show ?case
  proof (cases "cancel i")
    case True
    then show ?thesis using Cons(2) by (simp add: tags_only_refl)
  next
    case False
    have nv: "\<forall>a. node = Some a \<longrightarrow> valid_addr a root" using Cons(3) by simp
    from Cons(2) False nv show ?thesis
    proof (cases rule: tag_loop_step)
      case (go root1 ps1)
      have "\<forall>a. Some a \<in> set nodes \<longrightarrow> valid_addr a root1" using Cons(3) go(2) by (simp add: tags_only_def)
      from Cons(1)[OF go(1) this] obtain qs where qs: "ps' = ps1 @ qs" "qs = [] \<longrightarrow> root' = root1"
        and rb: "rollback_tags ps' root' = rollback_tags ps1 root1" and to: "tags_only root1 root'" by blast
      have "\<exists>qs. ps' = ps @ qs \<and> (qs = [] \<longrightarrow> root' = root)" using go(7) qs by auto
      then show ?thesis using rb go(3) tags_only_trans[OF go(2) to] by simp
    qed auto
  qed
qed (simp add: tags_only_refl)

lemma tag_loop_keeps:
  assumes "tag_loop s tag remove cancel i nodes (root, ps) = (e, root', ps')" "\<forall>a. Some a \<in> set nodes \<longrightarrow> valid_addr a root"
    "valid_addr b root" "Some b \<notin> set nodes \<or> reached tag remove b root"
  shows "data_at b root' = data_at b root"
  using assms
proof (induction nodes arbitrary: i root ps)
  case (Cons node nodes)
  show ?case
  proof (cases "cancel i")
    case True
    then show ?thesis using Cons(2) by simp
  next
    case False
    have nb: "node \<noteq> Some b \<or> reached tag remove b root" using Cons(5) by auto
    have nv: "\<forall>a. node = Some a \<longrightarrow> valid_addr a root" using Cons(3) by simp
    from Cons(2) False nv show ?thesis
    proof (cases rule: tag_loop_step)
      case (go root1 ps1)
      have v: "\<forall>a. Some a \<in> set nodes \<longrightarrow> valid_addr a root1" "valid_addr b root1"
        using Cons(3,4) go(2) by (simp_all add: tags_only_def)
      have eq: "data_at b root1 = data_at b root" using go(4)[OF Cons(4) nb] .
      show ?thesis using Cons(1)[OF go(1) v] Cons(5) eq by auto
    qed (use Cons(3,4) nb in auto)
  qed
qed simp

lemma tag_loop_complete:
  assumes "tag_loop s tag remove cancel i nodes (root, ps) = (None, root', ps')" "\<forall>a. Some a \<in> set nodes \<longrightarrow> valid_addr a root"
  shows "(\<forall>a. Some a \<in> set nodes \<longrightarrow> reached tag remove a root') \<and>
    (\<forall>b. valid_addr b root \<longrightarrow> data_at b root' = data_at b root \<or> consistent s (data_at b root'))"
  using assms
proof (induction nodes arbitrary: i root ps)
  case (Cons node nodes)
  have nc: "\<not> cancel i" using Cons(2) by auto
  have nv: "\<forall>a. node = Some a \<longrightarrow> valid_addr a root" using Cons(3) by simp
  from Cons(2) nc nv show ?case
  proof (cases rule: tag_loop_step)
    case (go root1 ps1)
    have v: "\<forall>a. Some a \<in> set nodes \<longrightarrow> valid_addr a root1" using Cons(3) go(2) by (simp add: tags_only_def)
    note IH = Cons(1)[OF go(1) v]
    have "reached tag remove a root'" if "node = Some a" for a
    proof -
      have "valid_addr a root1" using that Cons(3) go(2) by (simp add: tags_only_def)
      then show ?thesis using tag_loop_keeps[OF go(1) v _ disjI2] go(6)[OF that] by simp
    qed
    moreover have "data_at b root' = data_at b root \<or> consistent s (data_at b root')" if "valid_addr b root" for b
      using IH go(5)[OF that] that go(2) by (simp add: tags_only_def) metis
    ultimately show ?thesis using IH by auto
  qed (use Cons(3) in auto)
qed simp

lemma tag_loop_cancel:
  assumes "tag_loop s tag remove cancel i nodes st = (e, st')"
  shows "(e = None \<longrightarrow> \<not> (\<exists>j \<le> length nodes. cancel (i + j))) \<and>
    (e = Some ResOk \<longrightarrow> (\<exists>j \<le> length nodes. cancel (i + j)))"
  using assms
proof (induction nodes arbitrary: i st)
  case (Cons node nodes)
  show ?case
  proof (cases "cancel i")
    case True
    then show ?thesis using Cons(2) by (auto intro: exI[of _ 0])
  next
    case False
    have sh: "(\<exists>j \<le> length (node # nodes). cancel (i + j)) \<longleftrightarrow> (\<exists>j \<le> length nodes. cancel (Suc i + j))"
    proof
      assume "\<exists>j \<le> length (node # nodes). cancel (i + j)"
      then obtain j where "j \<le> Suc (length nodes)" "cancel (i + j)" by auto
      then show "\<exists>j \<le> length nodes. cancel (Suc i + j)" using False by (cases j) auto
    qed (metis Suc_le_mono add_Suc add_Suc_right length_Cons)
    obtain r st1 where ap: "apply_tag_change s tag remove node st = (r, st1)" by (metis prod.exhaust)
    have tl: "if r \<noteq> ResOk then e = Some r else tag_loop s tag remove cancel (Suc i) nodes st1 = (e, st')"
      using Cons(2) False ap by (auto split: if_splits)
    show ?thesis unfolding sh using tl Cons(1)[of "Suc i" st1] by (cases "r = ResOk") simp_all
  qed
qed (auto split: if_splits)


section \<open>Properties\<close>

text \<open>
   The batch resolver \<open>resolve_node_selection\<close>, which indexes each parent gallery once,
  gives for every path of the selection what \<open>Vault::resolve_node\<close> gives, except that a path with a
  trailing slash resolves to nothing.
\<close>
theorem selection_resolves_alike:
  assumes "vault_wf v"
  shows "resolve_node_selection (vt_root v) paths =
    map (\<lambda>p. if p \<noteq> [] \<and> is_slash (last p) then None else resolve_node (vt_root v) p) paths"
  using assms by (simp add: resolve_node_selection_map select_one_eq vault_wf_def cong: map_cong)

theorem selection_resolves_alike_witness:
  "resolve_node_selection (vt_root sample_vault) [[97, 0x2F, 99], [97, 0x2F]] = [Some [0, 1], None]"
proof -
  have "resolve_node (vt_root sample_vault) [97, 0x2F, 99] = Some [0, 1]" by code_simp
  then show ?thesis using selection_resolves_alike[OF sample_vault_wf, of "[[97, 0x2F, 99], [97, 0x2F]]"]
    by (simp add: is_slash_def)
qed

lemma selection_valid:
  assumes "tree_wf root" "is_gallery root" "Some a \<in> set (resolve_node_selection root paths)"
  shows "valid_addr a root"
  using assms resolve_node_addr(1) by (auto simp: resolve_node_selection_map select_one_eq split: if_splits)

text \<open>
  Property C21. \<open>mutate_tags_batch\<close> is a transaction: an error or a cancellation leaves the vault
  exactly as it was, also after some nodes had been edited or the commit failed.  Without either,
  every selected node has the tag among its own tags (or has lost it), whatever its letter case;
  nothing but tags changed, and no node outside the selection changed at all.
\<close>
theorem tag_batch_is_a_transaction:
  assumes "vault_wf v" "mutate_tags_batch commit cancel paths tag remove v = (r, v')"
  shows "(r \<noteq> ResOk \<or> (\<exists>i \<le> Suc (length paths). cancel i) \<longrightarrow> v' = v) \<and>
    (r = ResOk \<and> normalise_tag tag \<noteq> [] \<and> \<not> (\<exists>i \<le> Suc (length paths). cancel i) \<longrightarrow>
       (\<exists>root. v' = v\<lparr>vt_root := root\<rparr> \<and> tags_only (vt_root v) root \<and>
          (\<forall>a. valid_addr a (vt_root v) \<longrightarrow>
             (if Some a \<in> set (resolve_node_selection (vt_root v) paths)
              then has_tag (normalise_tag tag) (manual_tags (data_at a root)) \<longleftrightarrow> \<not> remove
              else data_at a root = data_at a (vt_root v)))))"
proof (cases "vt_unlocked v \<and> \<not> vt_read_only v \<and> normalise_tag tag \<noteq> [] \<and>
    \<not> (length (normalise_tag tag) > 65535 \<or> 0 \<in> set (normalise_tag tag)) \<and> \<not> cancel 0")
  case False
  then have "v' = v" "r = ResOk \<Longrightarrow> normalise_tag tag = [] \<or> cancel 0"
    using assms(2) by (auto simp: mutate_tags_batch_def Let_def split: if_splits)
  then show ?thesis by auto
next
  case True
  note wf = assms(1)[unfolded vault_wf_def]
  let ?nodes = "resolve_node_selection (vt_root v) paths"
  have len: "length ?nodes = length paths" by (simp add: resolve_node_selection_map)
  obtain e root ps where tl: "tag_loop (vt_settings v) (normalise_tag tag) remove cancel 1 ?nodes (vt_root v, []) = (e, root, ps)"
    using prod_cases3 by blast
  have valid: "\<forall>a. Some a \<in> set ?nodes \<longrightarrow> valid_addr a (vt_root v)" using selection_valid wf by blast
  note rb = tag_loop_rollback[OF tl valid] and keeps = tag_loop_keeps[OF tl valid] and canc = tag_loop_cancel[OF tl, unfolded len]
  have undone: "v\<lparr>vt_root := rollback_tags ps root\<rparr> = v" using rb by (simp add: rollback_tags_def)
  have sh: "(\<exists>i \<le> Suc (length paths). cancel i) \<longleftrightarrow> (\<exists>j \<le> length paths. cancel (1 + j))"
    using True by (metis Suc_le_mono not0_implies_Suc plus_1_eq_Suc)
  have "mutate_tags_batch commit cancel paths tag remove v = (case e of Some r \<Rightarrow> (r, v\<lparr>vt_root := rollback_tags ps root\<rparr>)
      | None \<Rightarrow> let status = (if ps = [] then ResOk else vault_commit_index commit (v\<lparr>vt_root := root\<rparr>))
          in (status, if status = ResOk then v\<lparr>vt_root := root\<rparr> else v\<lparr>vt_root := rollback_tags ps root\<rparr>))"
    using True tl by (simp add: mutate_tags_batch_def Let_def)
  note res = this[unfolded undone assms(2)]
  show ?thesis
  proof (cases e)
    case (Some x)
    then show ?thesis using res canc unfolding sh by auto
  next
    case None
    note comp = tag_loop_complete[OF tl[unfolded None] valid]
    have "tags_only (vt_root v) root" using rb by simp
    moreover have "if Some a \<in> set ?nodes then reached (normalise_tag tag) remove a root else data_at a root = data_at a (vt_root v)"
      if "valid_addr a (vt_root v)" for a
      using comp keeps[OF that] by auto
    ultimately show ?thesis using res canc None unfolding sh by (auto simp: Let_def split: if_splits)
  qed
qed


theorem tag_batch_is_a_transaction_witness:
  "snd (mutate_tags_batch (\<lambda>_. ResOk) (\<lambda>i. i = 2) [[97]] [120] False sample_vault) = sample_vault"
proof -
  obtain r v' where m: "mutate_tags_batch (\<lambda>_. ResOk) (\<lambda>i. i = 2) [[97]] [120] False sample_vault = (r, v')"
    using prod.exhaust by blast
  have "\<exists>i \<le> Suc (length [[97 :: byte]]). i = 2" by simp
  then show ?thesis using tag_batch_is_a_transaction[OF sample_vault_wf m] m by simp
qed

end
