(* ===== verification/Vault_Bundles.thy ===== *)
theory Vault_Bundles
  imports Vault_Tags
begin

text \<open>
  Tag bundles (\<open>src/vault/tag_bundles.cpp\<close>): named groups of tags whose members every assigned
  node carries.  \<open>BundleAccess\<close> is the transaction around each operation: it captures the nodes it
  touches and the settings, and restores both unless the commit returned Ok.
\<close>

section \<open>The transaction\<close>









section \<open>Operations\<close>






section \<open>Rollback\<close>




text \<open>Writing a whole node at an address.\<close>

abbreviation put :: "addr \<Rightarrow> index_node \<Rightarrow> index_node \<Rightarrow> index_node" where "put a n \<equiv> update_at a (\<lambda>_. n)"


lemma put_put: "put a x (put a y R) = put a x R"
proof (induction a arbitrary: R)
  case (Cons k a)
  then show ?case
    by (cases R) (cases "k < length (nchildren R)"; simp add: list_update_beyond)
qed simp


lemma put_same: "put a (node_at a n) n = n"
proof (induction a arbitrary: n)
  case (Cons k a)
  then show ?case by (cases n) simp
qed simp







section \<open>What a refresh establishes\<close>





















section \<open>Plain tag edits\<close>






section \<open>The property\<close>





end
