(* ===== verification/Search_Query.thy ===== *)
theory Search_Query
  imports Index_Roundtrip "HOL-Library.Sublist" "HOL-Library.List_Lexorder" "HOL-Library.Product_Lexorder"
begin

text \<open>
  Search queries (\<open>src/ui/advanced_search_model.h\<close>, \<open>src/ui/advanced_search_model.cpp\<close>,
  \<open>src/ui/search_model.cpp\<close>): the advanced query with its evaluation and its blob, the token search,
  and tag completion.  Scores are unbounded integers here; the source adds them in an \<open>int\<close>.
\<close>

section \<open>The query\<close>

datatype combinator = CombAnd | CombOr

fun combinator_byte :: "combinator \<Rightarrow> byte" where
  "combinator_byte CombAnd = 0" | "combinator_byte CombOr = 1"

datatype search_scope = ScopeImages | ScopeGalleries | ScopeBoth

fun scope_byte :: "search_scope \<Rightarrow> byte" where
  "scope_byte ScopeImages = 0" | "scope_byte ScopeGalleries = 1" | "scope_byte ScopeBoth = 2"

record weighted_tag =
  wt_tag :: bytes
  wt_weight :: u32

record tag_group =
  tg_name :: bytes
  tg_combinator :: combinator
  tg_tags :: "bytes list"

record advanced_query =
  aq_include :: "weighted_tag list"
  aq_exclude :: "bytes list"
  aq_groups :: "tag_group list"
  aq_group_join :: combinator
  aq_name_query :: bytes
  aq_scope :: search_scope

section \<open>Matching\<close>

definition equals_ci :: "bytes \<Rightarrow> bytes \<Rightarrow> bool" where
  "equals_ci a b = (if length a \<noteq> length b then False
     else list_all (\<lambda>i. lower (a ! i) = lower (b ! i)) [0..<length a])"

definition contains_ci :: "bytes \<Rightarrow> bytes \<Rightarrow> bool" where
  "contains_ci haystack needle =
     (if needle = [] then True
      else if length haystack < length needle then False
      else list_ex (\<lambda>i. list_all (\<lambda>j. lower (haystack ! (i + j)) = lower (needle ! j)) [0..<length needle])
             [0..<length haystack - length needle + 1])"











section \<open>The blob\<close>

definition MAX_LIST :: nat where "MAX_LIST = 4096"

definition QUERY_VERSION :: byte where "QUERY_VERSION = 1"

definition write_string :: "bytes \<Rightarrow> bytes" where
  "write_string s = (let len = (if length s > 0xFFFF then 0xFFFF else length s)
     in w_u16 (of_nat len) @ take len s)"

definition write_weighted :: "weighted_tag \<Rightarrow> bytes" where
  "write_weighted wt = write_string (wt_tag wt) @ w_u32 (wt_weight wt)"

text \<open>A counted list, as each of the four loops writes it.\<close>

definition write_list :: "('a \<Rightarrow> bytes) \<Rightarrow> 'a list \<Rightarrow> bytes" where
  "write_list item xs = (let n = clamp (length xs) MAX_LIST
     in w_u16 (of_nat n) @ concat (map item (take n xs)))"

definition write_group :: "tag_group \<Rightarrow> bytes" where
  "write_group g = write_string (tg_name g) @ w_u8 (combinator_byte (tg_combinator g)) @
     write_list write_string (tg_tags g)"

definition serialize_query :: "advanced_query \<Rightarrow> bytes" where
  "serialize_query query =
     w_u8 QUERY_VERSION @
     write_list write_weighted (aq_include query) @
     write_list write_string (aq_exclude query) @
     write_list write_group (aq_groups query) @
     w_u8 (combinator_byte (aq_group_join query)) @
     write_string (aq_name_query query) @
     w_u8 (scope_byte (aq_scope query))"

text \<open>\<open>read_string\<close> of this file has the same body as the index reader's.\<close>

definition read_query_string :: "reader \<Rightarrow> (bytes \<times> reader) option" where
  "read_query_string r = do {
     (len, r) \<leftarrow> checked (rd_u16 r);
     let out = replicate (unat len) 0;
     if len > 0 then checked (rd_bytes out r) else Some (out, r)
   }"

definition read_list :: "(reader \<Rightarrow> ('a \<times> reader) option) \<Rightarrow> reader \<Rightarrow> ('a list \<times> reader) option" where
  "read_list item r = (let (n, r) = rd_u16 r in
     if \<not> rd_ok r \<or> unat n > MAX_LIST then None
     else rd_loop (unat n)
       (\<lambda>out r. case item r of None \<Rightarrow> None | Some (s, r) \<Rightarrow> Some (out @ [s], r)) [] r)"

definition read_string_list where "read_string_list = read_list read_query_string"

definition read_combinator :: "reader \<Rightarrow> combinator \<times> reader" where
  "read_combinator r = (case rd_u8 r of (b, r) \<Rightarrow> (if b = 1 then CombOr else CombAnd, r))"

definition read_weighted :: "reader \<Rightarrow> (weighted_tag \<times> reader) option" where
  "read_weighted r = do {
     (tag, r) \<leftarrow> read_query_string r;
     (weight, r) \<leftarrow> checked (rd_u32 r);
     Some (\<lparr>wt_tag = tag, wt_weight = weight\<rparr>, r)
   }"

definition read_weighted_list where "read_weighted_list = read_list read_weighted"

definition read_group :: "reader \<Rightarrow> (tag_group \<times> reader) option" where
  "read_group r = do {
     (name, r) \<leftarrow> read_query_string r;
     (combinator, r) \<leftarrow> checked (read_combinator r);
     (tags, r) \<leftarrow> read_string_list r;
     Some (\<lparr>tg_name = name, tg_combinator = combinator, tg_tags = tags\<rparr>, r)
   }"

definition read_groups where "read_groups = read_list read_group"

definition deserialize_query :: "bytes \<Rightarrow> advanced_query option" where
  "deserialize_query inp = (let (version, r) = rd_u8 (reader_of inp) in
     if version \<noteq> QUERY_VERSION \<or> \<not> rd_ok r then None else do {
     (include, r) \<leftarrow> read_weighted_list r;
     (exclude, r) \<leftarrow> read_string_list r;
     (groups, r) \<leftarrow> read_groups r;
     (join, r) \<leftarrow> checked (read_combinator r);
     (name_query, r) \<leftarrow> read_query_string r;
     (scope, r) \<leftarrow> checked (rd_u8 r);
     if rd_remaining r = 0
     then Some \<lparr>aq_include = include, aq_exclude = exclude, aq_groups = groups, aq_group_join = join,
            aq_name_query = name_query,
            aq_scope = (if scope = 0 then ScopeImages else if scope = 1 then ScopeGalleries else ScopeBoth)\<rparr>
     else None
   })"

section \<open>Suggestions and cursors\<close>

fun suggestion_cands :: "bytes \<Rightarrow> bytes list \<Rightarrow> (bytes \<times> nat) list \<Rightarrow> (bytes \<times> nat) list" where
  "suggestion_cands pre [] cands = cands"
| "suggestion_cands pre (v # vs) cands =
     (let is_prefix = (length v \<ge> length pre \<and> equals_ci (take (length pre) v) pre) in
      if \<not> is_prefix \<and> \<not> contains_ci v pre then suggestion_cands pre vs cands
      else if list_ex (\<lambda>c. equals_ci (fst c) v) cands then suggestion_cands pre vs cands
      else suggestion_cands pre vs (cands @ [(v, if is_prefix then 0 else 1)]))"

text \<open>\<open>std::string\<close> compares as unsigned bytes, lexicographically.\<close>

definition suggestion_key :: "bytes \<times> nat \<Rightarrow> nat \<times> nat list" where
  "suggestion_key c = (snd c, map unat (fst c))"

definition tag_suggestions :: "bytes \<Rightarrow> bytes list \<Rightarrow> bytes list" where
  "tag_suggestions pre vocabulary =
     (if pre = [] then [] else map fst (sort_key suggestion_key (suggestion_cands pre vocabulary [])))"

definition move_tag_cursor :: "int \<Rightarrow> int \<Rightarrow> int \<Rightarrow> int" where
  "move_tag_cursor cur dir count =
     (if count \<le> 0 then -1
      else let cur = max (-1) (min cur (count - 1)) in
        if dir > 0 then min (cur + 1) (count - 1)
        else if dir < 0 then (if cur < 0 then -1 else cur - 1)
        else cur)"

fun tag_index_from :: "int \<Rightarrow> bytes list \<Rightarrow> bytes \<Rightarrow> int" where
  "tag_index_from i [] tag = -1"
| "tag_index_from i (t # ts) tag = (if equals_ci t tag then i else tag_index_from (i + 1) ts tag)"

definition tag_index_ci :: "bytes list \<Rightarrow> bytes \<Rightarrow> int" where
  "tag_index_ci tags tag = tag_index_from 0 tags tag"

definition weighted_tag_index_ci :: "weighted_tag list \<Rightarrow> bytes \<Rightarrow> int" where
  "weighted_tag_index_ci tags tag = tag_index_from 0 (map wt_tag tags) tag"

section \<open>Token search\<close>

definition is_space :: "byte \<Rightarrow> bool" where
  "is_space c \<longleftrightarrow> c = 0x20 \<or> (0x09 \<le> c \<and> c \<le> 0x0D)"

lemma tokenize_rest:
  "dropWhile is_space q \<noteq> [] \<Longrightarrow>
   length (dropWhile (\<lambda>c. \<not> is_space c) (dropWhile is_space q)) < length q"
proof -
  assume ne: "dropWhile is_space q \<noteq> []"
  have "\<not> is_space (hd (dropWhile is_space q))" using hd_dropWhile[OF ne] .
  then have "length (dropWhile (\<lambda>c. \<not> is_space c) (dropWhile is_space q)) < length (dropWhile is_space q)"
    using ne by (cases "dropWhile is_space q") (auto simp: less_Suc_eq_le length_dropWhile_le)
  then show ?thesis using length_dropWhile_le[of is_space q] by simp
qed

function tokenize :: "bytes \<Rightarrow> bytes list" where
  "tokenize query = (let q = dropWhile is_space query in
     if q = [] then []
     else map lower (takeWhile (\<lambda>c. \<not> is_space c) q) # tokenize (dropWhile (\<lambda>c. \<not> is_space c) q))"
  by pat_completeness auto
termination
  by (relation "measure length") (use tokenize_rest in auto)

declare tokenize.simps [simp del]

definition any_tag_contains :: "bytes list \<Rightarrow> bytes \<Rightarrow> bool" where
  "any_tag_contains tags token = list_ex (\<lambda>tag. contains_ci tag token) tags"

definition matches :: "bytes list \<Rightarrow> bytes \<Rightarrow> bytes list \<Rightarrow> bool" where
  "matches tokens name tags = list_all (\<lambda>token. contains_ci name token \<or> any_tag_contains tags token) tokens"

definition score :: "bytes list \<Rightarrow> bytes \<Rightarrow> bytes list \<Rightarrow> int" where
  "score tokens name tags =
     (if \<not> matches tokens name tags then 0
      else foldl (\<lambda>total token.
        let total = (if contains_ci name token then total + 2 else total)
        in if any_tag_contains tags token then total + 1 else total) 0 tokens)"

definition expand_field_value_tags :: "bytes list \<Rightarrow> vault_settings \<Rightarrow> bytes list" where
  "expand_field_value_tags tags settings =
     (if vs_tag_field_values settings = [] then tags
      else foldl (\<lambda>out t. foldl (\<lambda>out fv.
        if equals_ci t (tf_tag fv) then out @ [tf_field fv @ [0x3A] @ tf_value fv] else out)
        out (vs_tag_field_values settings)) tags tags)"


section \<open>The blob reads back\<close>

definition can_group :: "tag_group \<Rightarrow> tag_group" where
  "can_group g = \<lparr>tg_name = take 0xFFFF (tg_name g), tg_combinator = tg_combinator g,
     tg_tags = map (take 0xFFFF) (take MAX_LIST (tg_tags g))\<rparr>"

definition can_query :: "advanced_query \<Rightarrow> advanced_query" where
  "can_query q = \<lparr>aq_include = map (\<lambda>wt. wt\<lparr>wt_tag := take 0xFFFF (wt_tag wt)\<rparr>) (take MAX_LIST (aq_include q)),
     aq_exclude = map (take 0xFFFF) (take MAX_LIST (aq_exclude q)),
     aq_groups = map can_group (take MAX_LIST (aq_groups q)), aq_group_join = aq_group_join q,
     aq_name_query = take 0xFFFF (aq_name_query q), aq_scope = aq_scope q\<rparr>"

definition fits :: "bytes list \<Rightarrow> bool" where
  "fits ts \<longleftrightarrow> length ts \<le> MAX_LIST \<and> (\<forall>t \<in> set ts. length t \<le> 0xFFFF)"

definition query_fits :: "advanced_query \<Rightarrow> bool" where
  "query_fits q \<longleftrightarrow> fits (map wt_tag (aq_include q)) \<and> fits (aq_exclude q) \<and> length (aq_groups q) \<le> MAX_LIST \<and>
     (\<forall>g \<in> set (aq_groups q). length (tg_name g) \<le> 0xFFFF \<and> fits (tg_tags g)) \<and> length (aq_name_query q) \<le> 0xFFFF"

lemma write_string_eq: "write_string = write_str 0xFFFF"
  by (simp add: write_string_def write_str_def clamp_def fun_eq_iff Let_def)

lemma read_query_string_eq: "read_query_string = read_string"
  by (simp add: read_query_string_def read_string_def fun_eq_iff)

lemma query_string_codec: "wire_codec write_string read_query_string (take 0xFFFF) (\<lambda>_. True)"
  unfolding write_string_eq read_query_string_eq by (rule string_codec)

lemma list_codec:
  assumes "wire_codec enc dec can (\<lambda>_. True)"
  shows "wire_codec (write_list enc) (read_list dec) (\<lambda>xs. map can (take MAX_LIST xs)) (\<lambda>_. True)"
proof
  fix xs pre rest
  show "read_list dec (mid pre (write_list enc xs @ rest)) =
     Some (map can (take MAX_LIST xs), mid (pre @ write_list enc xs) rest)"
    using counted_block_u16[OF assms, of MAX_LIST xs pre rest "\<lambda>s y. s @ [y]" "[]"]
    by (simp add: read_list_def write_list_def foldl_snoc MAX_LIST_def Let_def cong: option.case_cong)
qed

interpretation query_str: wire_codec write_string read_query_string "take 0xFFFF" "\<lambda>_. True"
  by (rule query_string_codec)

lemma read_combinator_mid [simp]:
  "read_combinator (mid pre (combinator_byte c # rest)) = (c, mid (pre @ [combinator_byte c]) rest)"
  by (cases c) (simp_all add: read_combinator_def)

lemma weighted_codec:
  "wire_codec write_weighted read_weighted (\<lambda>wt. wt\<lparr>wt_tag := take 0xFFFF (wt_tag wt)\<rparr>) (\<lambda>_. True)"
  by unfold_locales (simp add: read_weighted_def write_weighted_def query_str.decodes[simplified])

lemma string_list_codec:
  "wire_codec (write_list write_string)
    read_string_list (\<lambda>xs. map (take 0xFFFF) (take MAX_LIST xs)) (\<lambda>_. True)"
  unfolding read_string_list_def by (rule list_codec[OF query_string_codec])

interpretation str_list: wire_codec
    "write_list write_string"
    read_string_list "\<lambda>xs. map (take 0xFFFF) (take MAX_LIST xs)" "\<lambda>_. True"
  by (rule string_list_codec)

lemma group_codec: "wire_codec write_group read_group can_group (\<lambda>_. True)"
  by unfold_locales
    (simp add: read_group_def write_group_def can_group_def query_str.decodes[simplified]
      str_list.decodes[simplified])

interpretation weighted_list: wire_codec
    "write_list write_weighted"
    read_weighted_list "\<lambda>xs. map (\<lambda>wt. wt\<lparr>wt_tag := take 0xFFFF (wt_tag wt)\<rparr>) (take MAX_LIST xs)" "\<lambda>_. True"
  unfolding read_weighted_list_def by (rule list_codec[OF weighted_codec])

interpretation group_list: wire_codec
    "write_list write_group"
    read_groups "\<lambda>xs. map can_group (take MAX_LIST xs)" "\<lambda>_. True"
  unfolding read_groups_def by (rule list_codec[OF group_codec])

lemma deserialize_serialize_query: "deserialize_query (serialize_query q) = Some (can_query q)"
proof -
  have scope: "(if scope_byte s = 0 then ScopeImages else if scope_byte s = 1 then ScopeGalleries else ScopeBoth) = s" for s
    by (cases s) simp_all
  have last: "rd_u8 (mid pre [b]) = (b, mid (pre @ [b]) [])" for pre b using rd_u8_mid[of pre b "[]"] by simp
  show ?thesis
    unfolding deserialize_query_def serialize_query_def reader_of_mid
    by (simp add: weighted_list.decodes[simplified] str_list.decodes[simplified] group_list.decodes[simplified]
        query_str.decodes[simplified] last scope can_query_def)
qed

lemma fits_same: "fits ts \<Longrightarrow> map (take 0xFFFF) (take MAX_LIST ts) = ts"
  by (simp add: fits_def map_idI)

lemma can_query_same: "query_fits q \<Longrightarrow> can_query q = q"
proof -
  assume f: "query_fits q"
  have "take MAX_LIST (aq_include q) = aq_include q" "take MAX_LIST (aq_groups q) = aq_groups q"
    using f by (simp_all add: query_fits_def fits_def)
  moreover have "map (\<lambda>wt. wt\<lparr>wt_tag := take 0xFFFF (wt_tag wt)\<rparr>) (aq_include q) = aq_include q"
    by (rule map_idI) (use f in \<open>simp add: query_fits_def fits_def\<close>)
  moreover have "map can_group (aq_groups q) = aq_groups q"
    by (rule map_idI) (use f in \<open>simp add: query_fits_def can_group_def fits_same\<close>)
  ultimately show ?thesis using f by (simp add: can_query_def query_fits_def fits_same)
qed

text \<open>
  Property C24. A saved query comes back: parsing what \<open>serialize_query\<close> wrote always succeeds, and
  gives the query with its lists cut at 4096 entries and its strings at 65535 bytes, so a query
  within those limits comes back unchanged.
\<close>
theorem query_roundtrip:
  "deserialize_query (serialize_query q) = Some (can_query q) \<and> (query_fits q \<longrightarrow> can_query q = q)"
  using deserialize_serialize_query can_query_same by blast

definition sample_query :: advanced_query where
  "sample_query = \<lparr>aq_include = [\<lparr>wt_tag = [97], wt_weight = 3\<rparr>], aq_exclude = [[98]],
     aq_groups = [\<lparr>tg_name = [103], tg_combinator = CombOr, tg_tags = [[99], [100]]\<rparr>],
     aq_group_join = CombAnd, aq_name_query = [120], aq_scope = ScopeBoth\<rparr>"

theorem query_roundtrip_witness: "deserialize_query (serialize_query sample_query) = Some sample_query"
proof -
  have "query_fits sample_query" by (simp add: query_fits_def sample_query_def fits_def MAX_LIST_def)
  then show ?thesis using query_roundtrip[of sample_query] by simp
qed

section \<open>What a query means\<close>

lemma all_upt: "list_all P [0..<n] \<longleftrightarrow> (\<forall>i < n. P i)" and ex_upt: "list_ex P [0..<n] \<longleftrightarrow> (\<exists>i < n. P i)"
  by (auto simp: list_all_iff list_ex_iff)

lemma equals_ci_iff: "equals_ci a b \<longleftrightarrow> map lower a = map lower b"
proof (cases "length a = length b")
  case True
  then show ?thesis by (simp add: equals_ci_def all_upt list_eq_iff_nth_eq[of "map lower a"])
qed (auto simp: equals_ci_def dest: map_eq_imp_length_eq)

lemma slice_eq_iff:
  "i + length n \<le> length h \<Longrightarrow>
   (\<forall>j < length n. f (h ! (i + j)) = f (n ! j)) \<longleftrightarrow> map f (take (length n) (drop i h)) = map f n"
  by (simp add: list_eq_iff_nth_eq[of "map f (take (length n) (drop i h))"])

lemma contains_ci_iff: "contains_ci h n \<longleftrightarrow> sublist (map lower n) (map lower h)"
proof -
  have "(\<exists>i < length h - length n + 1. \<forall>j < length n. lower (h ! (i + j)) = lower (n ! j)) \<longleftrightarrow>
      sublist (map lower n) (map lower h)" if le: "length n \<le> length h"
  proof
    assume "\<exists>i < length h - length n + 1. \<forall>j < length n. lower (h ! (i + j)) = lower (n ! j)"
    then obtain i where i0: "i < length h - length n + 1" "\<forall>j < length n. lower (h ! (i + j)) = lower (n ! j)" by blast
    have il: "i + length n \<le> length h" using i0(1) le by linarith
    have i: "map lower (take (length n) (drop i h)) = map lower n" using slice_eq_iff[OF il] i0(2) by blast
    have "map lower h = map lower (take i h) @ map lower n @ map lower (drop (i + length n) h)"
      unfolding i[symmetric] map_append[symmetric] by (metis append_take_drop_id drop_drop add.commute)
    then show "sublist (map lower n) (map lower h)" by (metis sublist_def)
  next
    assume "sublist (map lower n) (map lower h)"
    then obtain as bs where e: "map lower h = as @ map lower n @ bs" by (auto simp: sublist_def)
    then have len: "length h = length as + length n + length bs" by (metis add.assoc length_append length_map)
    have "map lower (take (length n) (drop (length as) h)) = map lower n"
      unfolding take_map drop_map e[symmetric] by (simp add: take_map[symmetric] drop_map[symmetric] e)
    then have "\<forall>j < length n. lower (h ! (length as + j)) = lower (n ! j)"
      using slice_eq_iff[of "length as" n h lower] len by simp
    then show "\<exists>i < length h - length n + 1. \<forall>j < length n. lower (h ! (i + j)) = lower (n ! j)"
      using len by (intro exI[of _ "length as"]) simp
  qed
  then show ?thesis
    unfolding contains_ci_def all_upt ex_upt by (auto dest: sublist_length_le)
qed













text \<open>Suggestions: distinct up to case, all containing the prefix, sorted.\<close>

lemma suggestion_cands_inv:
  "(\<forall>c \<in> set cands. contains_ci (fst c) pre) \<Longrightarrow> distinct_by equals_ci (map fst cands) \<Longrightarrow>
   (\<forall>c \<in> set (suggestion_cands pre vs cands). contains_ci (fst c) pre) \<and>
   distinct_by equals_ci (map fst (suggestion_cands pre vs cands))"
proof (induction vs arbitrary: cands)
  case (Cons v vs)
  have pre: "contains_ci v pre" if "length v \<ge> length pre" "equals_ci (take (length pre) v) pre"
  proof -
    have "map lower v = [] @ map lower pre @ map lower (drop (length pre) v)"
      using that(2)[unfolded equals_ci_iff] by (simp flip: map_append) (metis append_take_drop_id map_append)
    then show ?thesis unfolding contains_ci_iff sublist_def by blast
  qed
  have fresh: "distinct_by equals_ci (map fst (cands @ [(v, n)]))" if "\<not> list_ex (\<lambda>c. equals_ci (fst c) v) cands" for n
    using that Cons(3) by (auto simp: list_ex_iff distinct_by_snoc)
  consider "\<not> contains_ci v pre" | "list_ex (\<lambda>c. equals_ci (fst c) v) cands"
    | "contains_ci v pre" "\<not> list_ex (\<lambda>c. equals_ci (fst c) v) cands" by blast
  then show ?case
  proof cases
    case 1
    then show ?thesis using Cons(1)[OF Cons(2,3)] pre by (auto simp: Let_def)
  next
    case 2
    then show ?thesis using Cons(1)[OF Cons(2,3)] by (simp add: Let_def)
  next
    case 3
    let ?c = "(v, if length pre \<le> length v \<and> equals_ci (take (length pre) v) pre then 0 else 1) :: bytes \<times> nat"
    have "suggestion_cands pre (v # vs) cands = suggestion_cands pre vs (cands @ [?c])"
      using 3 by (simp add: Let_def)
    then show ?thesis using Cons(1)[of "cands @ [?c]"] Cons(2) 3 fresh[OF 3(2)] by simp
  qed
qed simp

lemma length_tag_suggestions: "length (tag_suggestions pre vocabulary) \<le> length vocabulary"
proof -
  have "length (suggestion_cands p vs cs) \<le> length vs + length cs" for p vs cs
  proof (induction vs arbitrary: cs)
    case (Cons v vs)
    show ?case using Cons[of cs] Cons[of "cs @ [(v, 0)]"] Cons[of "cs @ [(v, 1)]"] by (simp add: Let_def)
  qed simp
  from this[of pre vocabulary "[]"] show ?thesis by (simp add: tag_suggestions_def)
qed

lemma move_tag_cursor_range: "count > 0 \<Longrightarrow> -1 \<le> move_tag_cursor cur dir count \<and> move_tag_cursor cur dir count < count"
  by (auto simp: move_tag_cursor_def Let_def)

lemma tag_index_range: "i \<le> tag_index_from i ts t \<and> tag_index_from i ts t < i + int (length ts) \<or> tag_index_from i ts t = -1"
  by (induction i ts t rule: tag_index_from.induct) auto

section \<open>Token search\<close>

lemma matches_iff: "matches tokens name tags \<longleftrightarrow>
    (\<forall>t \<in> set tokens. sublist (map lower t) (map lower name) \<or> (\<exists>g \<in> set tags. sublist (map lower t) (map lower g)))"
  by (auto simp: matches_def list_all_iff any_tag_contains_def list_ex_iff contains_ci_iff)

lemma score_nonneg: "0 \<le> score tokens name tags"
proof -
  have "k \<le> foldl (\<lambda>total token. let total = (if contains_ci name token then total + 2 else total)
        in if any_tag_contains tags token then total + 1 else total) k ts" for k :: int and ts
  proof (induction ts arbitrary: k)
    case (Cons t ts)
    let ?k = "let total = (if contains_ci name t then k + 2 else k) in if any_tag_contains tags t then total + 1 else total"
    have "k \<le> ?k" by (simp add: Let_def)
    then show ?case using Cons[of ?k] by simp
  qed simp
  then show ?thesis by (simp add: score_def)
qed

end
