(* ===== verification/Vault_Search.thy ===== *)
theory Vault_Search
  imports Vault_Bundles Search_Query
begin

text \<open>
  Searching the gallery tree (\<open>src/vault/vault.cpp\<close>): the depth-first walks that cascade gallery tags
  down and roll descendant tags up, the advanced search with its ranking, favourites, the tag
  overview, the lists of a tag's carriers, and the saved searches.  A hit's node pointer is its
  address.
\<close>

section \<open>Hits\<close>

record search_hit =
  sh_path :: bytes
  sh_is_gallery :: bool
  sh_name :: bytes
  sh_effective_tags :: "bytes list"
  sh_node :: addr

definition join_child_path :: "bytes \<Rightarrow> bytes \<Rightarrow> bytes" where
  "join_child_path pre name = (if pre = [] then name else pre @ slash @ name)"

definition compute_effective_tags :: "bytes list \<Rightarrow> bytes list \<Rightarrow> bytes list" where
  "compute_effective_tags node_tags inherited_tags =
     foldl (\<lambda>out inh. if list_ex (\<lambda>own. tag_ci_equal own inh) node_tags then out else out @ [inh])
       node_tags inherited_tags"

definition node_in_scope :: "bool \<Rightarrow> search_scope \<Rightarrow> bool" where
  "node_in_scope gal scope = (if gal then scope = ScopeGalleries \<or> scope = ScopeBoth
     else scope = ScopeImages \<or> scope = ScopeBoth)"

definition node_matches :: "bytes \<Rightarrow> bytes \<Rightarrow> bytes list \<Rightarrow> bool" where
  "node_matches name query effective = (contains_ci name query \<or> list_ex (\<lambda>t. contains_ci t query) effective)"

section \<open>Virtual field tags\<close>

type_synonym field_tag_map = "(bytes \<times> bytes list) list"

fun fmap_push :: "bytes \<Rightarrow> bytes \<Rightarrow> field_tag_map \<Rightarrow> field_tag_map" where
  "fmap_push tag v [] = [(tag, [v])]"
| "fmap_push tag v ((t, vs) # m) = (if tag_ci_equal t tag then (t, vs @ [v]) # m else (t, vs) # fmap_push tag v m)"

definition fmap_build :: "vault_settings \<Rightarrow> field_tag_map" where
  "fmap_build s = foldl (\<lambda>m fv. fmap_push (tf_tag fv) (tf_field fv @ [0x3A] @ tf_value fv) m) [] (vs_tag_field_values s)"

definition fmap_expand :: "field_tag_map \<Rightarrow> bytes list \<Rightarrow> bytes list" where
  "fmap_expand by_tag tags = foldl (\<lambda>out t. foldl (\<lambda>out (tag, values).
     if tag_ci_equal tag t then out @ values else out) out by_tag) tags tags"

section \<open>The two searches\<close>

text \<open>
  The walk that \<open>search_dfs\<close> and \<open>adv_search_dfs\<close> share; they differ in what they compute for a child
  in scope, \<open>judge name tags\<close>: \<open>None\<close> when it does not match, else the score.  \<open>a\<close> is the address of
  the parent, \<open>i\<close> the index of the first child, \<open>subtree\<close> the union of tags so far.
\<close>

fun search_walk ::
  "(bytes \<Rightarrow> bytes list \<Rightarrow> int option) \<Rightarrow> search_scope \<Rightarrow> field_tag_map \<Rightarrow> addr \<Rightarrow> nat \<Rightarrow> bytes \<Rightarrow> bytes list \<Rightarrow>
   index_node list \<Rightarrow> bytes list \<Rightarrow> (int \<times> search_hit) list \<times> bytes list" where
  "search_walk judge scope fm a i pre inherited [] subtree = ([], subtree)"
| "search_walk judge scope fm a i pre inherited (Node d ks # cs) subtree =
     (let gal = (nd_type d = Gallery);
          effective = compute_effective_tags (nd_tags d) inherited;
          full_path = join_child_path pre (nd_name d);
          (below, child_subtree) =
            (if gal then search_walk judge scope fm (a @ [i]) 0 full_path effective ks [] else ([], []));
          match_tags = (if gal then compute_effective_tags child_subtree effective else effective);
          here = (if node_in_scope gal scope
             then (case judge (nd_name d) (if fm = [] then match_tags else fmap_expand fm match_tags) of
                 None \<Rightarrow> []
               | Some sc \<Rightarrow> [(sc, \<lparr>sh_path = full_path, sh_is_gallery = gal, sh_name = nd_name d,
                     sh_effective_tags = effective, sh_node = a @ [i]\<rparr>)])
             else []);
          to_union = (if gal then compute_effective_tags child_subtree (nd_tags d) else nd_tags d);
          (rest, subtree) = search_walk judge scope fm a (Suc i) pre inherited cs
             (foldl (push_new tag_ci_equal) subtree to_union)
      in (below @ here @ rest, subtree))"

definition search_dfs ::
  "index_node \<Rightarrow> bytes list \<Rightarrow> bytes \<Rightarrow> search_scope \<Rightarrow> field_tag_map \<Rightarrow> search_hit list" where
  "search_dfs root inherited query scope fm =
     map snd (fst (search_walk (\<lambda>name tags. if node_matches name query tags then Some 0 else None)
       scope fm [] 0 [] inherited (nchildren root) []))"


definition search_vault :: "bytes \<Rightarrow> search_scope \<Rightarrow> vault \<Rightarrow> search_hit list" where
  "search_vault query scope v =
     (if \<not> vt_unlocked v then []
      else search_dfs (vt_root v) (n_tags (vt_root v)) query scope (fmap_build (vt_settings v)))"


section \<open>Flat lists\<close>

fun collect_favorites :: "bool \<Rightarrow> addr \<Rightarrow> nat \<Rightarrow> bytes \<Rightarrow> index_node list \<Rightarrow> search_hit list" where
  "collect_favorites want_galleries a i pre [] = []"
| "collect_favorites want_galleries a i pre (Node d ks # cs) =
     (let gal = (nd_type d = Gallery); full_path = join_child_path pre (nd_name d) in
      (if nd_favorite d \<and> (if want_galleries then gal else \<not> gal)
       then [\<lparr>sh_path = full_path, sh_is_gallery = gal, sh_name = nd_name d, sh_effective_tags = [], sh_node = a @ [i]\<rparr>]
       else []) @
      (if gal then collect_favorites want_galleries (a @ [i]) 0 full_path ks else []) @
      collect_favorites want_galleries a (Suc i) pre cs)"

definition list_favorite_images :: "vault \<Rightarrow> search_hit list" where
  "list_favorite_images v = (if \<not> vt_unlocked v then [] else collect_favorites False [] 0 [] (nchildren (vt_root v)))"

definition list_favorite_galleries :: "vault \<Rightarrow> search_hit list" where
  "list_favorite_galleries v = (if \<not> vt_unlocked v then [] else collect_favorites True [] 0 [] (nchildren (vt_root v)))"

fun collect_tags :: "index_node \<Rightarrow> bytes list \<Rightarrow> bytes list" where
  "collect_tags (Node d cs) out = fold collect_tags cs (foldl (push_new tag_ci_equal) out (nd_tags d))"

definition all_tags :: "vault \<Rightarrow> bytes list" where
  "all_tags v = (if \<not> vt_unlocked v then []
     else sort_key (\<lambda>t. map (unat \<circ> lower) t) (collect_tags (vt_root v) []))"

record tag_tally_row =
  tt_tag :: bytes
  tt_galleries :: nat
  tt_images :: nat
  tt_description :: bytes

fun bump_tag_tally :: "bytes \<Rightarrow> bool \<Rightarrow> tag_tally_row list \<Rightarrow> tag_tally_row list" where
  "bump_tag_tally tag gal [] = []"
| "bump_tag_tally tag gal (r # rs) =
     (if tag_ci_equal (tt_tag r) tag
      then (if gal then r\<lparr>tt_galleries := tt_galleries r + 1\<rparr> else r\<lparr>tt_images := tt_images r + 1\<rparr>) # rs
      else r # bump_tag_tally tag gal rs)"

fun count_direct_tags :: "index_node list \<Rightarrow> tag_tally_row list \<Rightarrow> tag_tally_row list" where
  "count_direct_tags [] tallies = tallies"
| "count_direct_tags (Node d ks # cs) tallies =
     (let gal = (nd_type d = Gallery);
          tallies = foldl (\<lambda>ts t. bump_tag_tally t gal ts) tallies (nd_tags d);
          tallies = (if gal then count_direct_tags ks tallies else tallies)
      in count_direct_tags cs tallies)"

definition tag_overview :: "vault \<Rightarrow> tag_tally_row list" where
  "tag_overview v =
     (if \<not> vt_unlocked v then []
      else let vocab = collect_tags (vt_root v) [];
               out = map (\<lambda>t. \<lparr>tt_tag = t, tt_galleries = 0, tt_images = 0, tt_description = []\<rparr>) vocab;
               out = count_direct_tags (nchildren (vt_root v)) out
           in map (\<lambda>row. row\<lparr>tt_description := find_tag_description (vt_settings v) (tt_tag row)\<rparr>) out)"

fun collect_galleries_with_tag :: "bytes \<Rightarrow> addr \<Rightarrow> nat \<Rightarrow> bytes \<Rightarrow> index_node list \<Rightarrow> search_hit list" where
  "collect_galleries_with_tag tag a i pre [] = []"
| "collect_galleries_with_tag tag a i pre (Node d ks # cs) =
     (if nd_type d \<noteq> Gallery then collect_galleries_with_tag tag a (Suc i) pre cs
      else let full_path = join_child_path pre (nd_name d) in
        (if list_ex (\<lambda>t. tag_ci_equal t tag) (nd_tags d)
         then [\<lparr>sh_path = full_path, sh_is_gallery = True, sh_name = nd_name d, sh_effective_tags = [], sh_node = a @ [i]\<rparr>]
         else []) @
        collect_galleries_with_tag tag (a @ [i]) 0 full_path ks @
        collect_galleries_with_tag tag a (Suc i) pre cs)"

fun collect_images_with_tag :: "bytes \<Rightarrow> addr \<Rightarrow> nat \<Rightarrow> bytes \<Rightarrow> index_node list \<Rightarrow> search_hit list" where
  "collect_images_with_tag tag a i pre [] = []"
| "collect_images_with_tag tag a i pre (Node d ks # cs) =
     (let full_path = join_child_path pre (nd_name d) in
      if nd_type d = Gallery
      then collect_images_with_tag tag (a @ [i]) 0 full_path ks @ collect_images_with_tag tag a (Suc i) pre cs
      else (if list_ex (\<lambda>t. tag_ci_equal t tag) (nd_tags d)
            then [\<lparr>sh_path = full_path, sh_is_gallery = False, sh_name = nd_name d, sh_effective_tags = [], sh_node = a @ [i]\<rparr>]
            else []) @ collect_images_with_tag tag a (Suc i) pre cs)"

definition galleries_with_tag :: "bytes \<Rightarrow> vault \<Rightarrow> search_hit list" where
  "galleries_with_tag tag v =
     (if \<not> vt_unlocked v \<or> tag = [] then [] else collect_galleries_with_tag tag [] 0 [] (nchildren (vt_root v)))"

definition images_with_tag :: "bytes \<Rightarrow> vault \<Rightarrow> search_hit list" where
  "images_with_tag tag v =
     (if \<not> vt_unlocked v \<or> tag = [] then [] else collect_images_with_tag tag [] 0 [] (nchildren (vt_root v)))"

section \<open>Saved searches\<close>

definition list_saved_searches :: "vault \<Rightarrow> saved_search list" where
  "list_saved_searches v = (if \<not> vt_unlocked v then [] else vt_searches v)"

definition save_search ::
  "(vault \<Rightarrow> vault_result) \<Rightarrow> bytes \<Rightarrow> advanced_query \<Rightarrow> vault \<Rightarrow> vault_result \<times> vault" where
  "save_search commit name query v =
     (if \<not> vt_unlocked v then (ResLocked, v)
      else if vt_read_only v then (ResInvalidArg, v)
      else if name = [] then (ResInvalidArg, v)
      else let blob = serialize_query query in
        (case find_index (\<lambda>s. ss_name s = name) (vt_searches v) of
           Some k \<Rightarrow> committed commit
             (v\<lparr>vt_searches := (vt_searches v)[k := (vt_searches v ! k)\<lparr>ss_query := blob\<rparr>]\<rparr>)
         | None \<Rightarrow>
             if length (vt_searches v) \<ge> INDEX_MAX_SAVED_SEARCHES then (ResInvalidArg, v)
             else committed commit (v\<lparr>vt_searches := vt_searches v @ [\<lparr>ss_name = name, ss_query = blob\<rparr>]\<rparr>)))"

definition delete_saved_search ::
  "(vault \<Rightarrow> vault_result) \<Rightarrow> bytes \<Rightarrow> vault \<Rightarrow> vault_result \<times> vault" where
  "delete_saved_search commit name v =
     (if \<not> vt_unlocked v then (ResLocked, v)
      else if vt_read_only v then (ResInvalidArg, v)
      else case find_index (\<lambda>s. ss_name s = name) (vt_searches v) of
        None \<Rightarrow> (ResNotFound, v)
      | Some k \<Rightarrow> committed commit (v\<lparr>vt_searches := take k (vt_searches v) @ drop (Suc k) (vt_searches v)\<rparr>))"


section \<open>What a walk finds\<close>

text \<open>Tags matter up to ASCII case only.\<close>

abbreviation folded :: "bytes list \<Rightarrow> bytes set" where "folded ts \<equiv> map lower ` set ts"

lemma folded_memI: "tag_ci_equal o' t \<Longrightarrow> o' \<in> set own \<Longrightarrow> map lower t \<in> folded own"
  by (metis tag_ci_equal_iff imageI)

lemma effective_folded: "folded (compute_effective_tags own inh) = folded own \<union> folded inh"
proof -
  have "folded (foldl (\<lambda>out inh. if list_ex (\<lambda>o'. tag_ci_equal o' inh) own then out else out @ [inh]) out inh) = folded out \<union> folded inh"
    if "folded own \<subseteq> folded out" for out
    using that
  proof (induction inh arbitrary: out)
    case (Cons t ts)
    show ?case
    proof (cases "list_ex (\<lambda>o'. tag_ci_equal o' t) own")
      case True
      then have "map lower t \<in> folded own" by (auto simp: list_ex_iff intro: folded_memI)
      then show ?thesis using Cons True by auto
    next
      case False
      have "folded own \<subseteq> folded (out @ [t])" using Cons(2) by auto
      then show ?thesis using Cons(1)[of "out @ [t]"] False by simp
    qed
  qed simp
  then show ?thesis by (simp add: compute_effective_tags_def)
qed

lemma union_folded: "folded (foldl (push_new tag_ci_equal) out ts) = folded out \<union> folded ts"
proof (induction ts arbitrary: out)
  case (Cons t ts)
  have "folded (push_new tag_ci_equal out t) = insert (map lower t) (folded out)"
    by (auto simp: push_new_def intro: folded_memI)
  then show ?case by (simp add: Cons)
qed simp

text \<open>The virtual tags of a set of folded tags, straight from the settings.\<close>

definition virtual_tags :: "vault_settings \<Rightarrow> bytes set \<Rightarrow> bytes set" where
  "virtual_tags s T = {map lower (tf_field fv @ [0x3A] @ tf_value fv) | fv. fv \<in> set (vs_tag_field_values s) \<and> map lower (tf_tag fv) \<in> T}"

definition fmap_values :: "field_tag_map \<Rightarrow> bytes set \<Rightarrow> bytes set" where
  "fmap_values m T = (\<Union>(t, vs) \<in> set m. if map lower t \<in> T then folded vs else {})"

lemma fmap_values_simps [simp]:
  "fmap_values [] T = {}"
  "fmap_values ((t, vs) # m) T = (if map lower t \<in> T then folded vs else {}) \<union> fmap_values m T"
  by (simp_all add: fmap_values_def)

lemma fmap_values_push:
  "fmap_values (fmap_push tag v m) T = fmap_values m T \<union> (if map lower tag \<in> T then {map lower v} else {})"
proof (induction m)
  case (Cons e m)
  obtain t vs where e: "e = (t, vs)" by (cases e)
  show ?case using Cons by (auto simp: e tag_ci_equal_iff)
qed simp

lemma fmap_values_build: "fmap_values (fmap_build s) T = virtual_tags s T"
proof -
  have "fmap_values (foldl (\<lambda>m fv. fmap_push (tf_tag fv) (tf_field fv @ [0x3A] @ tf_value fv) m) m fvs) T =
      fmap_values m T \<union> {map lower (tf_field fv @ [0x3A] @ tf_value fv) | fv. fv \<in> set fvs \<and> map lower (tf_tag fv) \<in> T}" for m fvs
    by (induction fvs arbitrary: m) (auto simp: fmap_values_push)
  from this[of "[]"] show ?thesis by (simp add: fmap_build_def virtual_tags_def)
qed

lemma fmap_values_Un: "fmap_values m (S \<union> T) = fmap_values m S \<union> fmap_values m T"
  by (induction m) (auto split: if_splits)

lemma fmap_values_insert: "fmap_values m (insert x T) = fmap_values m {x} \<union> fmap_values m T"
  using fmap_values_Un[of m "{x}" T] by simp

lemma fmap_values_none [simp]: "fmap_values m {} = {}"
  by (induction m) auto

lemma expand_folded: "folded (fmap_expand m tags) = folded tags \<union> fmap_values m (folded tags)"
proof -
  have inner: "folded (foldl (\<lambda>out (tag, values). if tag_ci_equal tag t then out @ values else out) out m) =
      folded out \<union> fmap_values m {map lower t}" for out t
  proof (induction m arbitrary: out)
    case (Cons e m)
    obtain u vs where e: "e = (u, vs)" by (cases e)
    show ?case using Cons by (simp add: e tag_ci_equal_iff image_Un Un_assoc)
  qed simp
  have "folded (foldl (\<lambda>out t. foldl (\<lambda>out (tag, values). if tag_ci_equal tag t then out @ values else out) out m) out ts) =
      folded out \<union> fmap_values m (folded ts)" for out ts
  proof (induction ts arbitrary: out)
    case (Cons t ts)
    show ?case by (simp only: foldl_Cons Cons inner list.set image_insert fmap_values_insert[of m "map lower t" "folded ts"] Un_assoc)
  qed simp
  then show ?thesis by (simp add: fmap_expand_def)
qed


section \<open>Characterising the walk\<close>

text \<open>The tags a node inherits with its own, along its address, and all tags at or below a node.\<close>

fun path_tags :: "addr \<Rightarrow> index_node \<Rightarrow> bytes set" where
  "path_tags [] n = folded (n_tags n)"
| "path_tags (k # b) n = folded (n_tags n) \<union> path_tags b (nchildren n ! k)"

fun below_tags :: "index_node \<Rightarrow> bytes set" where
  "below_tags (Node d cs) = folded (nd_tags d) \<union> \<Union> (below_tags ` set cs)"

fun join_names :: "bytes \<Rightarrow> bytes list \<Rightarrow> bytes" where
  "join_names pre [] = pre"
| "join_names pre (s # ss) = join_names (join_child_path pre s) ss"

text \<open>
  What a node is matched against: what it carries or inherits, for a gallery also what lies below,
  and the virtual tags of all these.
\<close>

definition match_set :: "vault_settings \<Rightarrow> bytes set \<Rightarrow> index_node \<Rightarrow> bytes set" where
  "match_set s T n = (let U = T \<union> (if is_gallery n then below_tags n else {}) in U \<union> virtual_tags s U)"

lemma walk_tags:
  "list_all tree_wf cs \<Longrightarrow> search_walk judge scope fm a i pre inherited cs subtree = (hits, out) \<Longrightarrow>
   folded out = folded subtree \<union> \<Union> (below_tags ` set cs)"
proof (induction judge scope fm a i pre inherited cs subtree arbitrary: hits out rule: search_walk.induct)
  case (2 judge scope fm a i pre inherited d ks cs subtree)
  obtain below sub where b: "(if nd_type d = Gallery then search_walk judge scope fm (a @ [i]) 0 (join_child_path pre (nd_name d))
      (compute_effective_tags (nd_tags d) inherited) ks [] else ([], [])) = (below, sub)" by fastforce
  define u where "u = (if nd_type d = Gallery then compute_effective_tags sub (nd_tags d) else nd_tags d)"
  obtain rest out' where r: "search_walk judge scope fm a (Suc i) pre inherited cs (foldl (push_new tag_ci_equal) subtree u) = (rest, out')"
    by fastforce
  have out: "out = out'" using 2(4) b r unfolding u_def by (auto simp: Let_def split: if_splits)
  have sub: "folded sub = \<Union> (below_tags ` set ks)"
  proof (cases "nd_type d = Gallery")
    case True
    then show ?thesis using 2(1)[OF refl refl refl True] b 2(3) by (simp add: list_all_iff)
  next
    case False
    then show ?thesis using b 2(3) by simp
  qed
  have u: "folded u = below_tags (Node d ks)"
  proof (cases "nd_type d = Gallery")
    case True
    then show ?thesis using sub by (auto simp: u_def effective_folded)
  next
    case False
    then show ?thesis using 2(3) by (simp add: u_def)
  qed
  have "folded out' = folded (foldl (push_new tag_ci_equal) subtree u) \<union> \<Union> (below_tags ` set cs)"
    using 2(2) 2(3) b r unfolding u_def by (simp add: list_all_iff)
  then show ?case using u by (simp add: out union_folded Un_assoc)
qed simp


type_synonym hit_view = "int \<times> bytes \<times> bool \<times> bytes \<times> bytes set \<times> addr"

definition view :: "int \<times> search_hit \<Rightarrow> hit_view" where
  "view p = (fst p, sh_path (snd p), sh_is_gallery (snd p), sh_name (snd p), folded (sh_effective_tags (snd p)), sh_node (snd p))"

text \<open>The hit, if any, of the node at \<open>b\<close> below the \<open>i\<close>-th child \<open>c\<close>, when \<open>T\<close> is inherited.\<close>

definition found ::
  "(bytes \<Rightarrow> bytes set \<Rightarrow> int option) \<Rightarrow> search_scope \<Rightarrow> vault_settings \<Rightarrow> addr \<Rightarrow> nat \<Rightarrow> bytes \<Rightarrow> bytes set \<Rightarrow>
   index_node \<Rightarrow> addr \<Rightarrow> hit_view set" where
  "found J scope s a i pre T c b = (let n = node_at b c; U = T \<union> path_tags b c in
     if node_in_scope (is_gallery n) scope then
       (case J (n_name n) (match_set s U n) of
          None \<Rightarrow> {}
        | Some sc \<Rightarrow> {(sc, join_names pre (n_name c # path_of b c), is_gallery n, n_name n, U, a @ i # b)})
     else {})"

definition found_in ::
  "(bytes \<Rightarrow> bytes set \<Rightarrow> int option) \<Rightarrow> search_scope \<Rightarrow> vault_settings \<Rightarrow> addr \<Rightarrow> nat \<Rightarrow> bytes \<Rightarrow> bytes set \<Rightarrow>
   index_node \<Rightarrow> hit_view set" where
  "found_in J scope s a i pre T c = (\<Union>b \<in> {b. valid_addr b c}. found J scope s a i pre T c b)"

definition found_all ::
  "(bytes \<Rightarrow> bytes set \<Rightarrow> int option) \<Rightarrow> search_scope \<Rightarrow> vault_settings \<Rightarrow> addr \<Rightarrow> nat \<Rightarrow> bytes \<Rightarrow> bytes set \<Rightarrow>
   index_node list \<Rightarrow> hit_view set" where
  "found_all J scope s a i pre T cs = (\<Union>j < length cs. found_in J scope s a (i + j) pre T (cs ! j))"

lemma found_all_Cons:
  "found_all J scope s a i pre T (c # cs) = found_in J scope s a i pre T c \<union> found_all J scope s a (Suc i) pre T cs"
proof -
  have "{..<length (c # cs)} = insert 0 (Suc ` {..<length cs})" by (simp add: lessThan_Suc_eq_insert_0)
  then show ?thesis by (simp add: found_all_def)
qed

lemma found_in_Node:
  "found_in J scope s a i pre T (Node d ks) = found J scope s a i pre T (Node d ks) [] \<union>
     found_all J scope s (a @ [i]) 0 (join_child_path pre (nd_name d)) (T \<union> folded (nd_tags d)) ks"
proof -
  have set: "{b. valid_addr b (Node d ks)} = insert [] (\<Union>k < length ks. Cons k ` {b. valid_addr b (ks ! k)})"
  proof (rule set_eqI)
    fix b show "b \<in> {b. valid_addr b (Node d ks)} \<longleftrightarrow> b \<in> insert [] (\<Union>k < length ks. Cons k ` {b. valid_addr b (ks ! k)})"
      by (cases b) auto
  qed
  have step: "found J scope s a i pre T (Node d ks) (k # b) =
      found J scope s (a @ [i]) k (join_child_path pre (nd_name d)) (T \<union> folded (nd_tags d)) (ks ! k) b" for k b
    by (simp add: found_def Un_assoc Let_def split: option.split)
  show ?thesis unfolding found_in_def set found_all_def by (simp add: step)
qed

lemma walk_hits:
  "(\<And>name tags. judge name tags = J name (folded tags)) \<Longrightarrow> list_all tree_wf cs \<Longrightarrow>
    search_walk judge scope (fmap_build s) a i pre inherited cs subtree = (hits, out) \<Longrightarrow>
    view ` set hits = found_all J scope s a i pre (folded inherited) cs"
proof (induction judge scope "fmap_build s" a i pre inherited cs subtree arbitrary: hits out rule: search_walk.induct)
  case (1 judge scope a i pre inherited subtree)
  then show ?case by (simp add: found_all_def)
next
  case (2 judge scope a i pre inherited d ks cs subtree)
  define gal where "gal = (nd_type d = Gallery)"
  define eff where "eff = compute_effective_tags (nd_tags d) inherited"
  define path where "path = join_child_path pre (nd_name d)"
  obtain below sub where b: "(if gal then search_walk judge scope (fmap_build s) (a @ [i]) 0 path eff ks [] else ([], [])) = (below, sub)"
    by fastforce
  define tags where "tags = (if gal then compute_effective_tags sub eff else eff)"
  define here where "here = (if node_in_scope gal scope
     then (case judge (nd_name d) (if fmap_build s = [] then tags else fmap_expand (fmap_build s) tags) of
         None \<Rightarrow> []
       | Some sc \<Rightarrow> [(sc, \<lparr>sh_path = path, sh_is_gallery = gal, sh_name = nd_name d, sh_effective_tags = eff, sh_node = a @ [i]\<rparr>)])
     else [])"
  define u where "u = (if gal then compute_effective_tags sub (nd_tags d) else nd_tags d)"
  obtain rest out' where r: "search_walk judge scope (fmap_build s) a (Suc i) pre inherited cs (foldl (push_new tag_ci_equal) subtree u) = (rest, out')"
    by fastforce
  have hits: "hits = below @ here @ rest"
    using 2(5) b r unfolding here_def tags_def u_def eff_def path_def gal_def by (auto simp: Let_def split: if_splits)
  have wf: "list_all tree_wf ks" "list_all tree_wf cs" "\<not> gal \<Longrightarrow> ks = []" using 2(4) by (simp_all add: list_all_iff gal_def)
  have eff: "folded eff = folded (nd_tags d) \<union> folded inherited" by (simp add: eff_def effective_folded)
  have sub: "folded sub = \<Union> (below_tags ` set ks)" "view ` set below = found_all J scope s (a @ [i]) 0 path (folded eff) ks"
  proof -
    have "folded sub = \<Union> (below_tags ` set ks) \<and> view ` set below = found_all J scope s (a @ [i]) 0 path (folded eff) ks"
    proof (cases gal)
      case True
      have w: "search_walk judge scope (fmap_build s) (a @ [i]) 0 path eff ks [] = (below, sub)" using b True by simp
      have "view ` set below = found_all J scope s (a @ [i]) 0 path (folded eff) ks"
        by (rule 2(1)[OF gal_def eff_def path_def True 2(3) wf(1) w])
      then show ?thesis using walk_tags[OF wf(1) w] by simp
    next
      case False
      then show ?thesis using b wf(3) by (simp add: found_all_def)
    qed
    then show "folded sub = \<Union> (below_tags ` set ks)" "view ` set below = found_all J scope s (a @ [i]) 0 path (folded eff) ks"
      by blast+
  qed
  define U where "U = folded inherited \<union> folded (nd_tags d) \<union> (if gal then below_tags (Node d ks) else {})"
  have tags: "folded tags = U" using sub(1) eff by (auto simp: tags_def effective_folded U_def)
  have "folded (if fmap_build s = [] then tags else fmap_expand (fmap_build s) tags) = U \<union> virtual_tags s U"
    using expand_folded[of "fmap_build s" tags] fmap_values_build[of s U] tags by (auto simp: fmap_expand_def)
  then have j: "judge (nd_name d) (if fmap_build s = [] then tags else fmap_expand (fmap_build s) tags) =
      J (nd_name d) (match_set s (folded inherited \<union> folded (nd_tags d)) (Node d ks))"
    unfolding 2(3) by (simp add: match_set_def is_gallery_def U_def gal_def Let_def)
  have here: "view ` set here = found J scope s a i pre (folded inherited) (Node d ks) []"
  proof (cases "node_in_scope gal scope")
    case True
    have eff': "folded eff = folded inherited \<union> folded (nd_tags d)" using eff by blast
    show ?thesis
      by (cases "J (nd_name d) (match_set s (folded inherited \<union> folded (nd_tags d)) (Node d ks))")
        (simp_all add: here_def j True found_def is_gallery_def gal_def[symmetric] view_def eff' path_def Let_def)
  next
    case False
    then show ?thesis by (simp add: here_def found_def is_gallery_def gal_def Let_def)
  qed
  have rest: "view ` set rest = found_all J scope s a (Suc i) pre (folded inherited) cs"
    by (rule 2(2)[OF gal_def eff_def path_def refl b[symmetric] refl refl u_def 2(3) wf(2) r])
  show ?case
    unfolding hits found_all_Cons found_in_Node path_def[symmetric] Un_commute[of "folded inherited" "folded (nd_tags d)"] eff[symmetric]
    using sub(2) here rest by (auto simp: image_Un)
qed




section \<open>Saved searches read back\<close>

lemma save_search_reads_back:
  assumes "save_search commit name query v = (ResOk, v')"
  shows "\<exists>s \<in> set (vt_searches v'). ss_name s = name \<and> deserialize_query (ss_query s) = Some (can_query query)"
proof (cases "find_index (\<lambda>s. ss_name s = name) (vt_searches v)")
  case None
  then have "vt_searches v' = vt_searches v @ [\<lparr>ss_name = name, ss_query = serialize_query query\<rparr>]"
    using assms by (auto simp: save_search_def committed_def Let_def split: if_splits)
  then show ?thesis by (simp add: deserialize_serialize_query)
next
  case (Some k)
  then have k: "k < length (vt_searches v)" "ss_name (vt_searches v ! k) = name" by (simp_all add: find_index_Some)
  have "vt_searches v' = (vt_searches v)[k := (vt_searches v ! k)\<lparr>ss_query := serialize_query query\<rparr>]"
    using assms Some by (auto simp: save_search_def committed_def Let_def split: if_splits)
  then have "(vt_searches v ! k)\<lparr>ss_query := serialize_query query\<rparr> \<in> set (vt_searches v')"
    using set_update_memI[OF k(1)] by metis
  then show ?thesis by (rule bexI[rotated]) (simp add: k(2) deserialize_serialize_query)
qed

lemma delete_search_frees_name:
  assumes "delete_saved_search commit name v = (r, v')" "distinct (map ss_name (vt_searches v))" "vt_searches v' \<noteq> vt_searches v"
  shows "name \<notin> ss_name ` set (vt_searches v')"
proof -
  obtain k where k: "find_index (\<lambda>s. ss_name s = name) (vt_searches v) = Some k"
    "vt_searches v' = take k (vt_searches v) @ drop (Suc k) (vt_searches v)"
  proof (cases "\<not> vt_unlocked v \<or> vt_read_only v \<or> find_index (\<lambda>s. ss_name s = name) (vt_searches v) = None")
    case True
    then have "snd (delete_saved_search commit name v) = v" by (auto simp: delete_saved_search_def)
    then show thesis using assms(1,3) by simp
  next
    case False
    then obtain k where "find_index (\<lambda>s. ss_name s = name) (vt_searches v) = Some k" by auto
    then show thesis
      using that[of k] arg_cong[OF assms(1), of "\<lambda>p. vt_searches (snd p)"] False
      by (simp add: delete_saved_search_def committed_def)
  qed
  then have kk: "k < length (vt_searches v)" "ss_name (vt_searches v ! k) = name" by (simp_all add: find_index_Some)
  have "find (\<lambda>s. ss_name s = name) (vt_searches v') = None"
    unfolding k(2) find_erase[OF assms(2) kk(1)] kk(2) by simp
  then show ?thesis unfolding find_None_iff by blast
qed

section \<open>Properties\<close>

text \<open>The set that decides whether the node at an address matches.\<close>

definition node_tags :: "vault \<Rightarrow> addr \<Rightarrow> bytes set" where
  "node_tags v b = match_set (vt_settings v) (path_tags b (vt_root v)) (node_at b (vt_root v))"

lemma found_root:
  "found_all J scope s [] 0 [] (folded (n_tags root)) (nchildren root) =
   {(sc, join_names [] (path_of b root), is_gallery (node_at b root), n_name (node_at b root), path_tags b root, b) | sc b.
      b \<noteq> [] \<and> valid_addr b root \<and> node_in_scope (is_gallery (node_at b root)) scope \<and>
      J (n_name (node_at b root)) (match_set s (path_tags b root) (node_at b root)) = Some sc}"
  (is "?L = ?R")
proof (rule set_eqI)
  fix x
  have "x \<in> ?L \<longleftrightarrow> (\<exists>k b. valid_addr (k # b) root \<and> x \<in> found J scope s [] k [] (folded (n_tags root)) (nchildren root ! k) b)"
    by (auto simp: found_all_def found_in_def)
  also have "\<dots> \<longleftrightarrow> x \<in> ?R"
  proof
    assume "\<exists>k b. valid_addr (k # b) root \<and> x \<in> found J scope s [] k [] (folded (n_tags root)) (nchildren root ! k) b"
    then obtain k b where kb: "valid_addr (k # b) root" "x \<in> found J scope s [] k [] (folded (n_tags root)) (nchildren root ! k) b"
      by blast
    then show "x \<in> ?R"
      by (intro CollectI, intro exI[of _ "fst x"] exI[of _ "k # b"])
        (auto simp: found_def Let_def join_child_path_def split: if_splits option.splits)
  next
    assume "x \<in> ?R"
    then obtain sc b where b: "b \<noteq> []" "valid_addr b root" "node_in_scope (is_gallery (node_at b root)) scope"
      "J (n_name (node_at b root)) (match_set s (path_tags b root) (node_at b root)) = Some sc"
      "x = (sc, join_names [] (path_of b root), is_gallery (node_at b root), n_name (node_at b root), path_tags b root, b)"
      by blast
    from b(1) obtain k c where k: "b = k # c" by (cases b) auto
    have "x \<in> found J scope s [] k [] (folded (n_tags root)) (nchildren root ! k) c"
      using b by (simp add: found_def k Let_def)
    then show "\<exists>k b. valid_addr (k # b) root \<and> x \<in> found J scope s [] k [] (folded (n_tags root)) (nchildren root ! k) b"
      using b(2) k by blast
  qed
  finally show "x \<in> ?L \<longleftrightarrow> x \<in> ?R" .
qed


lemma view_nodes: "(\<exists>p \<in> set L. sh_node (snd p) = b) \<longleftrightarrow> (\<exists>sc p g n T. (sc, p, g, n, T, b) \<in> view ` set L)"
proof
  assume "\<exists>p \<in> set L. sh_node (snd p) = b"
  then obtain p where p: "p \<in> set L" "sh_node (snd p) = b" by blast
  then have "(fst p, sh_path (snd p), sh_is_gallery (snd p), sh_name (snd p), folded (sh_effective_tags (snd p)), b) \<in> view ` set L"
    by (intro image_eqI[of _ _ p]) (simp_all add: view_def)
  then show "\<exists>sc p g n T. (sc, p, g, n, T, b) \<in> view ` set L" by blast
qed (auto simp: view_def)

lemma search_dfs_finds:
  assumes "tree_wf root"
  shows "(\<exists>h \<in> set (search_dfs root (n_tags root) query scope (fmap_build s)). sh_node h = b) \<longleftrightarrow>
    b \<noteq> [] \<and> valid_addr b root \<and> node_in_scope (is_gallery (node_at b root)) scope \<and>
    (\<exists>t \<in> insert (map lower (n_name (node_at b root))) (match_set s (path_tags b root) (node_at b root)).
       sublist (map lower query) t)"
proof -
  define J where "J = (\<lambda>name M. if \<exists>t \<in> insert (map lower name) M. sublist (map lower query) t then Some (0 :: int) else None)"
  have judge: "(if node_matches name query tags then Some 0 else None) = J name (folded tags)" for name tags
    by (auto simp: J_def node_matches_def contains_ci_iff list_ex_iff)
  have wf: "list_all tree_wf (nchildren root)" using assms by (cases root) (simp add: list_all_iff)
  obtain hits out where w: "search_walk (\<lambda>name tags. if node_matches name query tags then Some 0 else None) scope (fmap_build s)
      [] 0 [] (n_tags root) (nchildren root) [] = (hits, out)" by fastforce
  have v: "view ` set hits = found_all J scope s [] 0 [] (folded (n_tags root)) (nchildren root)"
    by (rule walk_hits[OF judge wf w])
  have "(\<exists>h \<in> set (map snd hits). sh_node h = b) \<longleftrightarrow> (\<exists>sc p g n T. (sc, p, g, n, T, b) \<in> view ` set hits)"
    unfolding view_nodes[symmetric] by simp
  also have "\<dots> \<longleftrightarrow> b \<noteq> [] \<and> valid_addr b root \<and> node_in_scope (is_gallery (node_at b root)) scope \<and>
      J (n_name (node_at b root)) (match_set s (path_tags b root) (node_at b root)) \<noteq> None"
    unfolding v found_root by auto
  finally show ?thesis unfolding search_dfs_def w fst_conv J_def by simp
qed




end
