(* ===== verification/Commit_Lane.thy ===== *)
theory Commit_Lane
  imports Index_Store "HOL-Library.Sublist"
begin

text \<open>
  The asynchronous commit lane of \<open>src/vault/commit_lane.h\<close> and \<open>commit_lane.cpp\<close>: the thread that
  owns the tree queues full snapshots of the index, a worker thread writes the newest one.  Both
  threads are modelled section by section, a section being what runs under one lock of \<open>mu_\<close> (or
  between two of them), and every interleaving of the sections is a run.  The result of one index
  commit is an input of the worker's section: what it means for the file is the subject of
  \<open>Commit_Safety\<close>.  The lists \<open>ln_queued\<close> and \<open>ln_disk\<close> are ghosts: the snapshots accepted into the
  queue and those whose commit returned \<open>Ok\<close>, in that order in time.
\<close>

section \<open>State\<close>

record pending =
  pd_plain :: bytes
  pd_generation :: u64

text \<open>Where the worker stands in \<open>worker_loop\<close>, with its local \<open>work\<close>.\<close>

datatype worker = Waiting | Working pending | Written pending | Exited

text \<open>Where the owning thread stands inside a call of the lane.\<close>

datatype caller = Outside | Enqueuing bytes | Flushing | Joining

record lane =
  ln_bound :: bool
  ln_thread :: bool
  ln_pending :: "pending option"
  ln_next_gen :: u64
  ln_last_written_gen :: u64
  ln_in_flight :: bool
  ln_failed :: bool
  ln_stopping :: bool
  ln_router :: bool
  ln_worker :: worker
  ln_caller :: caller
  ln_queued :: "pending list"
  ln_disk :: "pending list"

definition fresh_lane :: lane where
  "fresh_lane = \<lparr>ln_bound = False, ln_thread = False, ln_pending = None, ln_next_gen = 1,
     ln_last_written_gen = 0, ln_in_flight = False, ln_failed = False, ln_stopping = False,
     ln_router = False, ln_worker = Exited, ln_caller = Outside, ln_queued = [], ln_disk = []\<rparr>"

definition lane_running :: "lane \<Rightarrow> bool" where
  "lane_running l = ln_thread l"

definition lane_idle :: "lane \<Rightarrow> bool" where
  "lane_idle l = (ln_pending l = None \<and> \<not> ln_in_flight l)"

section \<open>The owning thread\<close>

text \<open>
  Starting a lane, and the App pointing the vault's router at it.  Only a lane that does not run
  may be started (an assertion of the source).
\<close>

definition start_lane :: "lane \<Rightarrow> lane" where
  "start_lane l = l\<lparr>ln_bound := True, ln_thread := True, ln_worker := Waiting\<rparr>"

definition set_commit_router :: "bool \<Rightarrow> lane \<Rightarrow> lane" where
  "set_commit_router on l = l\<lparr>ln_router := on\<rparr>"

text \<open>
  \<open>enqueue_snapshot\<close> up to the lock.  The inputs are the result of the synchronous commit of a
  directory vault (\<open>None\<close> for a single-file vault) and the serialised index (\<open>None\<close> when
  serialisation fails).  A \<open>Some\<close> result returns at once; \<open>None\<close> goes on to the locked section.
\<close>

definition enqueue_begin :: "bool option \<Rightarrow> bytes option \<Rightarrow> lane \<Rightarrow> bool option \<times> lane" where
  "enqueue_begin directory snapshot l =
     (if \<not> ln_bound l then (Some False, l)
      else if \<not> lane_running l then (Some False, l)
      else if ln_failed l then (Some False, l)
      else case directory of
        Some committed \<Rightarrow>
          if ln_stopping l then (Some False, l)
          else if \<not> committed then (Some False, l\<lparr>ln_failed := True\<rparr>)
          else (Some True, l)
      | None \<Rightarrow>
          (case snapshot of
             None \<Rightarrow> (Some False, l)
           | Some blob \<Rightarrow> (None, l\<lparr>ln_caller := Enqueuing blob\<rparr>)))"

definition enqueue_locked :: "bytes \<Rightarrow> lane \<Rightarrow> bool \<times> lane" where
  "enqueue_locked blob l =
     (let l = l\<lparr>ln_caller := Outside\<rparr>
      in if ln_failed l then (False, l)
         else if ln_stopping l then (False, l)
         else let p = \<lparr>pd_plain = blob, pd_generation = ln_next_gen l\<rparr>
              in (True, l\<lparr>ln_pending := Some p, ln_next_gen := ln_next_gen l + 1,
                          ln_queued := ln_queued l @ [p]\<rparr>))"

definition flush_begin :: "lane \<Rightarrow> bool option \<times> lane" where
  "flush_begin l =
     (if ln_stopping l then
        if ln_pending l \<noteq> None \<or> ln_in_flight l then (Some False, l) else (Some (\<not> ln_failed l), l)
      else (None, l\<lparr>ln_caller := Flushing\<rparr>))"

text \<open>The predicate of the wait in \<open>flush\<close>, and what runs once it holds.\<close>

definition flush_ready :: "lane \<Rightarrow> bool" where
  "flush_ready l = (ln_pending l = None \<and> \<not> ln_in_flight l \<or> ln_failed l)"

definition flush_end :: "lane \<Rightarrow> bool \<times> lane" where
  "flush_end l = (\<not> ln_failed l, l\<lparr>ln_caller := Outside\<rparr>)"

definition stop_begin :: "lane \<Rightarrow> lane" where
  "stop_begin l = (if \<not> lane_running l then l else l\<lparr>ln_stopping := True, ln_caller := Joining\<rparr>)"

text \<open>The join returns when the worker has left its loop.\<close>

definition stop_join :: "lane \<Rightarrow> lane" where
  "stop_join l = l\<lparr>ln_thread := False, ln_router := False, ln_bound := False, ln_caller := Outside\<rparr>"

section \<open>The worker\<close>

definition work_available :: "lane \<Rightarrow> bool" where
  "work_available l = (ln_pending l \<noteq> None \<or> ln_stopping l)"

definition worker_take :: "lane \<Rightarrow> lane" where
  "worker_take l =
     (if ln_stopping l \<and> ln_pending l = None then l\<lparr>ln_worker := Exited\<rparr>
      else case ln_pending l of
        Some work \<Rightarrow> l\<lparr>ln_pending := None, ln_in_flight := True, ln_worker := Working work\<rparr>
      | None \<Rightarrow> l)"

definition worker_write :: "vault_result \<Rightarrow> pending \<Rightarrow> lane \<Rightarrow> lane" where
  "worker_write committed work l =
     (let l = l\<lparr>ln_worker := Written work\<rparr>
      in if committed \<noteq> ResOk then l\<lparr>ln_failed := True\<rparr> else l\<lparr>ln_disk := ln_disk l @ [work]\<rparr>)"

definition worker_done :: "pending \<Rightarrow> lane \<Rightarrow> lane" where
  "worker_done work l =
     l\<lparr>ln_in_flight := False, ln_last_written_gen := pd_generation work, ln_worker := Waiting\<rparr>"

section \<open>Runs\<close>

inductive worker_step :: "lane \<Rightarrow> lane \<Rightarrow> bool" where
  take_work: "ln_worker l = Waiting \<Longrightarrow> work_available l \<Longrightarrow> worker_step l (worker_take l)"
| write_work: "ln_worker l = Working work \<Longrightarrow> worker_step l (worker_write committed work l)"
| finish_work: "ln_worker l = Written work \<Longrightarrow> worker_step l (worker_done work l)"

inductive caller_step :: "lane \<Rightarrow> lane \<Rightarrow> bool" where
  c_start: "ln_caller l = Outside \<Longrightarrow> \<not> lane_running l \<Longrightarrow> caller_step l (start_lane l)"
| c_router: "ln_caller l = Outside \<Longrightarrow> caller_step l (set_commit_router on l)"
| c_enqueue: "ln_caller l = Outside \<Longrightarrow> caller_step l (snd (enqueue_begin directory snapshot l))"
| c_enqueue_locked: "ln_caller l = Enqueuing blob \<Longrightarrow> caller_step l (snd (enqueue_locked blob l))"
| c_flush: "ln_caller l = Outside \<Longrightarrow> caller_step l (snd (flush_begin l))"
| c_flush_end: "ln_caller l = Flushing \<Longrightarrow> flush_ready l \<Longrightarrow> caller_step l (snd (flush_end l))"
| c_stop: "ln_caller l = Outside \<Longrightarrow> caller_step l (stop_begin l)"
| c_stop_join: "ln_caller l = Joining \<Longrightarrow> ln_worker l = Exited \<Longrightarrow> caller_step l (stop_join l)"

definition lane_step :: "lane \<Rightarrow> lane \<Rightarrow> bool" where
  "lane_step l l' = (worker_step l l' \<or> caller_step l l')"

inductive lane_reachable :: "lane \<Rightarrow> bool" where
  r_init: "lane_reachable fresh_lane"
| r_step: "lane_reachable l \<Longrightarrow> lane_step l l' \<Longrightarrow> lane_reachable l'"

inductive_cases worker_stepE: "worker_step l l'"
inductive_cases caller_stepE: "caller_step l l'"

section \<open>The invariant of the queue\<close>

definition in_work :: "lane \<Rightarrow> pending list" where
  "in_work l = (case ln_worker l of Working work \<Rightarrow> [work] | _ \<Rightarrow> [])"

definition waiting_work :: "lane \<Rightarrow> pending list" where
  "waiting_work l = (case ln_pending l of None \<Rightarrow> [] | Some p \<Rightarrow> [p])"

text \<open>What the lane may still write, in the order of writing, after what it has written.\<close>

definition pipeline :: "lane \<Rightarrow> pending list" where
  "pipeline l = ln_disk l @ in_work l @ waiting_work l"

definition generations_count :: "pending list \<Rightarrow> bool" where
  "generations_count ps = (\<forall>i < length ps. pd_generation (ps ! i) = of_nat (i + 1))"

definition durable :: "lane \<Rightarrow> bool" where
  "durable l = (ln_queued l = [] \<and> ln_disk l = [] \<or>
     ln_queued l \<noteq> [] \<and> ln_disk l \<noteq> [] \<and> last (ln_disk l) = last (ln_queued l))"

definition lane_inv :: "lane \<Rightarrow> bool" where
  "lane_inv l \<longleftrightarrow>
     ln_in_flight l = (\<exists>work. ln_worker l = Working work \<or> ln_worker l = Written work) \<and>
     subseq (pipeline l) (ln_queued l) \<and>
     generations_count (ln_queued l) \<and> ln_next_gen l = of_nat (length (ln_queued l) + 1) \<and>
     (ln_failed l \<or> (pipeline l = [] \<longleftrightarrow> ln_queued l = []) \<and> last (pipeline l) = last (ln_queued l)) \<and>
     (ln_worker l = Exited \<longrightarrow> ln_pending l = None) \<and>
     (ln_worker l = Exited \<longrightarrow> ln_stopping l \<or> \<not> ln_thread l) \<and>
     (ln_caller l = Joining \<longrightarrow> ln_stopping l \<and> ln_thread l)"

lemmas lane_defs = lane_running_def lane_idle_def start_lane_def set_commit_router_def enqueue_begin_def
  enqueue_locked_def flush_begin_def flush_ready_def flush_end_def stop_begin_def stop_join_def
  work_available_def worker_take_def worker_write_def worker_done_def Let_def

lemmas pipeline_defs = pipeline_def in_work_def waiting_work_def

lemma generations_snoc:
  "generations_count ps \<Longrightarrow> pd_generation p = of_nat (length ps + 1) \<Longrightarrow> generations_count (ps @ [p])"
  by (auto simp: generations_count_def nth_append less_Suc_eq)

lemma subseq_drop_last: "subseq (xs @ ys) zs \<Longrightarrow> subseq xs zs"
  by (meson list_emb_append2 subseq_order.trans subseq_rev_drop_many subseq_order.refl)

lemma fresh_lane_inv: "lane_inv fresh_lane"
  by (simp add: lane_inv_def fresh_lane_def pipeline_defs generations_count_def)

lemma take_keeps_inv:
  assumes "lane_inv l" "ln_worker l = Waiting" "work_available l" shows "lane_inv (worker_take l)"
  using assms by (auto simp: lane_inv_def pipeline_defs lane_defs split: option.splits)

lemma write_keeps_inv:
  assumes "lane_inv l" "ln_worker l = Working work" shows "lane_inv (worker_write committed work l)"
proof -
  have "subseq (ln_disk l @ waiting_work l) (ln_disk l @ [work] @ waiting_work l)"
    by (intro list_emb_append_mono subseq_order.refl) auto
  then have "subseq (ln_disk l @ waiting_work l) (ln_queued l)"
    using assms by (auto simp: lane_inv_def pipeline_def in_work_def intro: subseq_order.trans)
  then show ?thesis using assms
    by (auto simp: lane_inv_def pipeline_defs lane_defs split: option.splits if_splits)
qed

lemma done_keeps_inv:
  assumes "lane_inv l" "ln_worker l = Written work" shows "lane_inv (worker_done work l)"
  using assms by (auto simp: lane_inv_def pipeline_defs lane_defs split: option.splits)

lemma worker_keeps_inv: "worker_step l l' \<Longrightarrow> lane_inv l \<Longrightarrow> lane_inv l'"
  by (induction rule: worker_step.induct) (auto intro: take_keeps_inv write_keeps_inv done_keeps_inv)

lemma enqueue_locked_keeps_inv:
  assumes "lane_inv l" "ln_worker l = Exited \<longrightarrow> ln_stopping l" shows "lane_inv (snd (enqueue_locked blob l))"
proof (cases "ln_failed l \<or> ln_stopping l")
  case True then show ?thesis using assms
    by (auto simp: lane_inv_def pipeline_defs lane_defs split: option.splits)
next
  case False
  let ?p = "\<lparr>pd_plain = blob, pd_generation = ln_next_gen l\<rparr>"
  have "subseq (ln_disk l @ in_work l) (ln_queued l)"
    using assms(1) subseq_drop_last[of "ln_disk l @ in_work l" "waiting_work l"]
    by (simp add: lane_inv_def pipeline_def)
  then have "subseq (ln_disk l @ in_work l @ [?p]) (ln_queued l @ [?p])"
    using list_emb_append_mono[of "(=)" "ln_disk l @ in_work l" "ln_queued l" "[?p]" "[?p]"] by simp
  moreover have "generations_count (ln_queued l @ [?p])"
    using assms(1) by (intro generations_snoc) (auto simp: lane_inv_def)
  ultimately show ?thesis using assms False
    by (auto simp: lane_inv_def pipeline_defs enqueue_locked_def Let_def split: worker.splits)
qed

lemma lane_inv_updates:
  assumes "lane_inv l"
  shows "c \<noteq> Joining \<Longrightarrow> lane_inv (l\<lparr>ln_caller := c\<rparr>)" "lane_inv (l\<lparr>ln_failed := True\<rparr>)"
    "lane_inv (l\<lparr>ln_router := on\<rparr>)"
    "ln_thread l \<Longrightarrow> lane_inv (l\<lparr>ln_stopping := True, ln_caller := Joining\<rparr>)"
    "ln_worker l = Exited \<Longrightarrow> lane_inv (stop_join l)"
  using assms by (auto simp: lane_inv_def pipeline_defs stop_join_def)

lemma start_keeps_inv: "lane_inv l \<Longrightarrow> \<not> ln_thread l \<Longrightarrow> ln_worker l = Exited \<Longrightarrow> lane_inv (start_lane l)"
  by (auto simp: lane_inv_def pipeline_defs start_lane_def)

text \<open>The owning thread's own invariant: inside an enqueue or a stop the lane is started.\<close>

definition caller_inv :: "lane \<Rightarrow> bool" where
  "caller_inv l \<longleftrightarrow> (ln_caller l \<noteq> Outside \<and> ln_caller l \<noteq> Flushing \<longrightarrow> ln_thread l) \<and>
     (\<not> ln_thread l \<longrightarrow> ln_worker l = Exited)"

lemma enqueue_begin_keeps_inv:
  assumes "lane_inv l" "caller_inv l"
  shows "lane_inv (snd (enqueue_begin directory snapshot l)) \<and> caller_inv (snd (enqueue_begin directory snapshot l))"
proof -
  have failed: "lane_inv (l\<lparr>ln_failed := True\<rparr>) \<and> caller_inv (l\<lparr>ln_failed := True\<rparr>)"
    using assms(2) lane_inv_updates(2)[OF assms(1)] by (simp add: caller_inv_def)
  have enqueuing: "lane_inv (l\<lparr>ln_caller := Enqueuing blob\<rparr>) \<and> caller_inv (l\<lparr>ln_caller := Enqueuing blob\<rparr>)"
    if "ln_thread l" for blob
    using that assms(2) lane_inv_updates(1)[OF assms(1), of "Enqueuing blob"] by (simp add: caller_inv_def)
  show ?thesis
  proof (cases "ln_bound l \<and> ln_thread l \<and> \<not> ln_failed l")
    case False
    then show ?thesis using assms by (auto simp: enqueue_begin_def lane_running_def)
  next
    case True
    then show ?thesis using assms failed enqueuing
      by (cases directory; cases snapshot) (simp_all add: enqueue_begin_def lane_running_def)
  qed
qed

lemma caller_keeps_inv: "caller_step l l' \<Longrightarrow> lane_inv l \<and> caller_inv l \<Longrightarrow> lane_inv l' \<and> caller_inv l'"
proof (induction rule: caller_step.induct)
  case (c_start l)
  then show ?case using start_keeps_inv[of l] by (simp add: caller_inv_def lane_running_def start_lane_def)
next
  case (c_router l on)
  then show ?case using lane_inv_updates(3)[of l on] by (simp add: caller_inv_def set_commit_router_def)
next
  case (c_enqueue l directory snapshot)
  then show ?case using enqueue_begin_keeps_inv by blast
next
  case (c_enqueue_locked l blob)
  have "lane_inv (snd (enqueue_locked blob l))"
    using c_enqueue_locked by (intro enqueue_locked_keeps_inv) (auto simp: lane_inv_def caller_inv_def)
  then show ?case using c_enqueue_locked by (simp add: caller_inv_def enqueue_locked_def Let_def)
next
  case (c_flush l)
  then show ?case using lane_inv_updates(1)[of l Flushing] by (simp add: caller_inv_def flush_begin_def)
next
  case (c_flush_end l)
  then show ?case using lane_inv_updates(1)[of l Outside] by (simp add: caller_inv_def flush_end_def)
next
  case (c_stop l)
  then show ?case using lane_inv_updates(4)[of l]
    by (cases "ln_thread l") (simp_all add: caller_inv_def stop_begin_def lane_running_def)
next
  case (c_stop_join l)
  then show ?case using lane_inv_updates(5)[of l] by (simp add: caller_inv_def stop_join_def)
qed

lemma worker_keeps_caller_inv: "worker_step l l' \<Longrightarrow> caller_inv l \<Longrightarrow> caller_inv l'"
  by (induction rule: worker_step.induct) (auto simp: caller_inv_def lane_defs split: option.splits)

lemma reachable_inv: "lane_reachable l \<Longrightarrow> lane_inv l \<and> caller_inv l"
proof (induction rule: lane_reachable.induct)
  case r_init
  show ?case using fresh_lane_inv by (simp add: caller_inv_def fresh_lane_def)
next
  case (r_step l l')
  then show ?case unfolding lane_step_def
    using worker_keeps_inv worker_keeps_caller_inv caller_keeps_inv by blast
qed

section \<open>Progress of the worker\<close>

text \<open>
  A step relation whose every step lowers a weight: its runs are bounded and end in a state with
  no further step.
\<close>

locale weighted_steps =
  fixes step :: "'s \<Rightarrow> 's \<Rightarrow> bool"
    and weight :: "'s \<Rightarrow> nat"
  assumes step_lowers: "step s s' \<Longrightarrow> weight s' < weight s"
begin

lemma run_bounded: "(step ^^ n) s s' \<Longrightarrow> n + weight s' \<le> weight s"
proof (induction n arbitrary: s')
  case (Suc n)
  then obtain t where "(step ^^ n) s t" "step t s'" by auto
  then show ?case using Suc.IH[of t] step_lowers[of t s'] by simp
qed simp

lemma run_ends: "\<exists>s'. step\<^sup>*\<^sup>* s s' \<and> (\<nexists>s''. step s' s'')"
proof (induction "weight s" arbitrary: s rule: less_induct)
  case less
  show ?case
  proof (cases "\<exists>t. step s t")
    case True
    then obtain t where t: "step s t" by blast
    then show ?thesis using less[of t] step_lowers[OF t] by (meson converse_rtranclp_into_rtranclp)
  qed blast
qed

lemma invariant_run:
  assumes "step\<^sup>*\<^sup>* s s'" "I s" "\<And>s s'. step s s' \<Longrightarrow> I s \<Longrightarrow> I s'" shows "I s'"
  using assms by (induction rule: rtranclp_induct) auto

end

definition lane_work :: "lane \<Rightarrow> nat" where
  "lane_work l = (if ln_pending l = None then 0 else 3) +
     (case ln_worker l of Working _ \<Rightarrow> 3 | Written _ \<Rightarrow> 2 | Waiting \<Rightarrow> 1 | Exited \<Rightarrow> 0)"

interpretation lane_worker: weighted_steps worker_step lane_work
proof
  show "worker_step l l' \<Longrightarrow> lane_work l' < lane_work l" for l l'
    by (induction rule: worker_step.induct)
      (auto simp: lane_work_def worker_take_def worker_write_def worker_done_def work_available_def
        Let_def split: option.splits)
qed

lemma lane_work_bound: "lane_work l \<le> 6"
  by (simp add: lane_work_def split: worker.split)

lemma worker_blocked_iff:
  "(\<nexists>l'. worker_step l l') \<longleftrightarrow> ln_worker l = Exited \<or> ln_worker l = Waiting \<and> \<not> work_available l"
proof (cases "ln_worker l")
  case Waiting
  then show ?thesis by (auto intro: take_work elim: worker_stepE)
next
  case (Working work)
  then show ?thesis using write_work by auto
next
  case (Written work)
  then show ?thesis using finish_work by auto
next
  case Exited
  then show ?thesis by (auto elim: worker_stepE)
qed

lemma worker_frame:
  "worker_step l l' \<Longrightarrow> ln_stopping l' = ln_stopping l \<and> ln_queued l' = ln_queued l \<and>
     ln_caller l' = ln_caller l \<and> ln_thread l' = ln_thread l"
  by (induction rule: worker_step.induct)
    (auto simp: worker_take_def worker_write_def worker_done_def Let_def split: option.splits)

lemma worker_run_reachable: "worker_step\<^sup>*\<^sup>* l l' \<Longrightarrow> lane_reachable l \<Longrightarrow> lane_reachable l'"
  by (induction rule: rtranclp_induct) (auto intro: r_step simp: lane_step_def)

lemma worker_run_frame:
  "worker_step\<^sup>*\<^sup>* l l' \<Longrightarrow> ln_stopping l' = ln_stopping l \<and> ln_queued l' = ln_queued l \<and>
     ln_caller l' = ln_caller l \<and> ln_thread l' = ln_thread l"
  by (induction rule: rtranclp_induct) (use worker_frame in auto)

lemma idle_durable:
  assumes "lane_inv l" "lane_idle l" "\<not> ln_failed l" shows "durable l"
  using assms by (auto simp: lane_inv_def lane_idle_def durable_def pipeline_defs split: worker.splits if_splits)

lemma blocked_idle: "lane_inv l \<Longrightarrow> \<nexists>l'. worker_step l l' \<Longrightarrow> lane_idle l"
  unfolding worker_blocked_iff by (auto simp: lane_inv_def lane_idle_def work_available_def)

section \<open>The properties\<close>

text \<open>
  Property C26. In every state that the two threads can reach, in whatever order their sections
  interleave: the snapshots written are a subsequence of those queued, with the one being written
  and the pending one still to come after them, so that an older snapshot never replaces a newer
  one; the snapshots queued carry the generations 1, 2, 3 and so on; and when \<open>flush\<close> or the join of
  \<open>stop\<close> returns with the lane not failed, the last snapshot queued is the last one written.
\<close>

theorem lane_never_goes_back:
  assumes "lane_reachable l"
  shows "subseq (ln_disk l @ in_work l @ waiting_work l) (ln_queued l) \<and>
     generations_count (ln_queued l) \<and>
     (fst (flush_begin l) = Some True \<longrightarrow> durable l) \<and>
     (flush_ready l \<and> fst (flush_end l) \<longrightarrow> durable l) \<and>
     (ln_caller l = Joining \<and> ln_worker l = Exited \<and> \<not> ln_failed l \<longrightarrow> durable l)"
proof -
  have inv: "lane_inv l" using reachable_inv[OF assms] by blast
  have "subseq (ln_disk l @ in_work l @ waiting_work l) (ln_queued l)" "generations_count (ln_queued l)"
    using inv by (simp_all add: lane_inv_def pipeline_def)
  moreover have "durable l" if "fst (flush_begin l) = Some True"
    using that idle_durable[OF inv] by (auto simp: flush_begin_def lane_idle_def split: if_splits)
  moreover have "durable l" if "flush_ready l" "fst (flush_end l)"
    using that idle_durable[OF inv] by (auto simp: flush_ready_def flush_end_def lane_idle_def)
  moreover have "durable l" if "ln_caller l = Joining" "ln_worker l = Exited" "\<not> ln_failed l"
    using that idle_durable[OF inv] blocked_idle[OF inv] worker_blocked_iff by blast
  ultimately show ?thesis by blast
qed

text \<open>
  Property C27. The worker makes progress.  From any reachable state, left to itself it takes at
  most six sections and then blocks; a state in which it blocks is idle, a worker blocked while the
  lane is being stopped has left its loop, every call of the owning thread that waits can
  return, and unless a commit has failed the last snapshot queued is the last one written.
\<close>

theorem worker_makes_progress:
  assumes "lane_reachable l"
  shows "(\<forall>n l'. (worker_step ^^ n) l l' \<longrightarrow> n \<le> 6) \<and>
     (\<exists>l'. worker_step\<^sup>*\<^sup>* l l' \<and> (\<nexists>l''. worker_step l' l'')) \<and>
     (\<forall>l'. worker_step\<^sup>*\<^sup>* l l' \<and> (\<nexists>l''. worker_step l' l'') \<longrightarrow>
       lane_idle l' \<and> ln_queued l' = ln_queued l \<and> (ln_failed l' \<or> durable l') \<and>
       (ln_stopping l \<longrightarrow> ln_worker l' = Exited) \<and>
       (ln_caller l \<in> {Flushing, Joining} \<longrightarrow> (\<exists>l''. caller_step l' l'' \<and> ln_caller l'' = Outside)))"
proof (intro conjI allI impI)
  show "n \<le> 6" if "(worker_step ^^ n) l l'" for n l'
    using lane_worker.run_bounded[OF that] lane_work_bound[of l] by simp
  show "\<exists>l'. worker_step\<^sup>*\<^sup>* l l' \<and> (\<nexists>l''. worker_step l' l'')" by (rule lane_worker.run_ends)
next
  fix l' assume asm: "worker_step\<^sup>*\<^sup>* l l' \<and> (\<nexists>l''. worker_step l' l'')"
  then have run: "worker_step\<^sup>*\<^sup>* l l'" and blocked: "\<nexists>l''. worker_step l' l''" by blast+
  have inv: "lane_inv l'" using reachable_inv[OF worker_run_reachable[OF run assms]] by blast
  note frame = worker_run_frame[OF run]
  show idle: "lane_idle l'" using blocked_idle[OF inv blocked] .
  show "ln_queued l' = ln_queued l" using frame by blast
  show "ln_failed l' \<or> durable l'" using idle_durable[OF inv idle] by blast
  have exited: "ln_stopping l \<longrightarrow> ln_worker l' = Exited"
    using blocked frame unfolding worker_blocked_iff by (auto simp: work_available_def)
  then show "ln_worker l' = Exited" if "ln_stopping l" using that by blast
  have "\<exists>l''. caller_step l' l'' \<and> ln_caller l'' = Outside" if "ln_caller l = Flushing"
    using c_flush_end[of l'] that frame idle by (intro exI conjI) (auto simp: flush_ready_def lane_idle_def flush_end_def)
  moreover have "\<exists>l''. caller_step l' l'' \<and> ln_caller l'' = Outside" if "ln_caller l = Joining"
    using c_stop_join[of l'] that frame exited inv by (intro exI conjI) (auto simp: lane_inv_def stop_join_def)
  ultimately show "\<exists>l''. caller_step l' l'' \<and> ln_caller l'' = Outside" if "ln_caller l \<in> {Flushing, Joining}"
    using that by blast
qed

section \<open>Two runs\<close>

text \<open>Two snapshots queued while the first is being written, then a stop.\<close>

definition busy_lane :: lane where
  "busy_lane = (
     let queue = (\<lambda>blob l. snd (enqueue_locked blob (snd (enqueue_begin None (Some blob) l))))
     in stop_begin (queue [2] (worker_take (queue [1] (start_lane fresh_lane)))))"

lemma reach_start: "lane_reachable (start_lane fresh_lane)"
  by (rule r_step[OF r_init]) (use c_start[of fresh_lane] in \<open>simp add: lane_step_def fresh_lane_def lane_running_def\<close>)

lemma reach_enqueue:
  assumes "lane_reachable l" "ln_bound l" "ln_thread l" "\<not> ln_failed l" "ln_caller l = Outside"
  shows "lane_reachable (snd (enqueue_locked blob (snd (enqueue_begin None (Some blob) l))))"
proof -
  let ?m = "snd (enqueue_begin None (Some blob) l)"
  have m: "?m = l\<lparr>ln_caller := Enqueuing blob\<rparr>"
    using assms by (simp add: enqueue_begin_def lane_running_def)
  have "lane_reachable ?m"
    using r_step[OF assms(1)] c_enqueue[OF assms(5), of None "Some blob"] unfolding lane_step_def by blast
  moreover have "caller_step ?m (snd (enqueue_locked blob ?m))"
    by (rule c_enqueue_locked) (simp add: m)
  ultimately show ?thesis using r_step lane_step_def by blast
qed

lemma reach_take: "lane_reachable l \<Longrightarrow> ln_worker l = Waiting \<Longrightarrow> work_available l \<Longrightarrow> lane_reachable (worker_take l)"
  using r_step take_work lane_step_def by blast

lemma reach_stop: "lane_reachable l \<Longrightarrow> ln_caller l = Outside \<Longrightarrow> lane_reachable (stop_begin l)"
  using r_step c_stop lane_step_def by blast

lemma busy_lane_reachable: "lane_reachable busy_lane"
  unfolding busy_lane_def Let_def
  by (intro reach_stop reach_enqueue reach_take reach_start) (simp_all add: lane_defs fresh_lane_def)

theorem lane_never_goes_back_witness:
  "lane_reachable busy_lane \<and> map pd_plain (ln_queued busy_lane) = [[1], [2]] \<and> 
     subseq (ln_disk busy_lane @ in_work busy_lane @ waiting_work busy_lane) (ln_queued busy_lane)"
proof (intro conjI)
  show "map pd_plain (ln_queued busy_lane) = [[1], [2]]"
    by (simp add: busy_lane_def lane_defs fresh_lane_def)
  show "subseq (ln_disk busy_lane @ in_work busy_lane @ waiting_work busy_lane) (ln_queued busy_lane)"
    using lane_never_goes_back[OF busy_lane_reachable] by blast
qed (rule busy_lane_reachable)

theorem worker_makes_progress_witness:
  "lane_reachable busy_lane \<and> ln_caller busy_lane = Joining \<and> waiting_work busy_lane \<noteq> [] \<and>
     (\<exists>l'. worker_step\<^sup>*\<^sup>* busy_lane l' \<and> lane_idle l' \<and> ln_worker l' = Exited)"
proof -
  have "ln_stopping busy_lane" "ln_caller busy_lane = Joining" "waiting_work busy_lane \<noteq> []"
    by (simp_all add: busy_lane_def lane_defs fresh_lane_def waiting_work_def)
  then show ?thesis using busy_lane_reachable worker_makes_progress[OF busy_lane_reachable] by blast
qed

text \<open>
  A commit that fails stops new snapshots from being queued, but not the one that was queued while
  the failing commit was in flight: the worker still writes it.
\<close>

definition queued_twice :: lane where
  "queued_twice = \<lparr>ln_bound = True, ln_thread = True, ln_pending = Some \<lparr>pd_plain = [2], pd_generation = 2\<rparr>,
     ln_next_gen = 3, ln_last_written_gen = 0, ln_in_flight = True, ln_failed = False, ln_stopping = False,
     ln_router = False, ln_worker = Working \<lparr>pd_plain = [1], pd_generation = 1\<rparr>, ln_caller = Outside,
     ln_queued = [\<lparr>pd_plain = [1], pd_generation = 1\<rparr>, \<lparr>pd_plain = [2], pd_generation = 2\<rparr>], ln_disk = []\<rparr>"

lemma queued_twice_reachable: "lane_reachable queued_twice"
proof -
  let ?queue = "\<lambda>blob l. snd (enqueue_locked blob (snd (enqueue_begin None (Some blob) l)))"
  have "lane_reachable (?queue [2] (worker_take (?queue [1] (start_lane fresh_lane))))"
    by (intro reach_enqueue reach_take reach_start) (simp_all add: lane_defs fresh_lane_def)
  also have "?queue [2] (worker_take (?queue [1] (start_lane fresh_lane))) = queued_twice"
    by (simp add: lane_defs fresh_lane_def queued_twice_def)
  finally show ?thesis .
qed

lemma failed_lane_still_writes:
  "\<exists>l. lane_reachable l \<and> ln_failed l \<and> map pd_plain (ln_disk l) = [[2]]"
proof -
  let ?p = "\<lparr>pd_plain = [1], pd_generation = 1\<rparr>" and ?q = "\<lparr>pd_plain = [2], pd_generation = 2\<rparr>"
  let ?w = "worker_write ResIoError ?p queued_twice" let ?d = "worker_done ?p ?w" let ?t = "worker_take ?d"
  have reach: "lane_reachable l \<Longrightarrow> worker_step l l' \<Longrightarrow> lane_reachable l'" for l l'
    using r_step lane_step_def by blast
  have "lane_reachable ?w"
    by (rule reach[OF queued_twice_reachable]) (rule write_work, simp add: queued_twice_def)
  then have "lane_reachable ?d" by (rule reach) (rule finish_work, simp add: worker_write_def Let_def)
  then have "lane_reachable ?t"
    by (rule reach) (rule take_work, simp_all add: worker_done_def worker_write_def work_available_def Let_def queued_twice_def)
  then have "lane_reachable (worker_write ResOk ?q ?t)"
    by (rule reach) (rule write_work, simp add: worker_take_def worker_done_def worker_write_def Let_def queued_twice_def)
  then show ?thesis
    by (intro exI[of _ "worker_write ResOk ?q ?t"])
      (simp add: worker_take_def worker_done_def worker_write_def Let_def queued_twice_def)
qed

end
