(* ===== verification/V3_Header.thy ===== *)
theory V3_Header
  imports Aead
begin

text \<open>
  The header of a directory vault (\<open>src/vault/v3_header.h\<close>, \<open>v3_header.cpp\<close>) and the keys and
  associated data derived from it (\<open>v3_crypto_spec.h\<close>, \<open>v3_crypto_spec.cpp\<close>): the 256-byte file,
  its strict parser, and the wrapping of the master key under a password and a keyfile.  The
  keyed hash of Monocypher is a parameter.
\<close>

type_synonym blake2b_keyed = "nat \<Rightarrow> bytes \<Rightarrow> bytes \<Rightarrow> bytes"

section \<open>Identities and keys\<close>

definition V3_FORMAT_VERSION :: u16 where "V3_FORMAT_VERSION = 3"
definition OBJECT_FORMAT_VERSION :: u16 where "OBJECT_FORMAT_VERSION = 1"
definition OBJECT_AD_VERSION :: byte where "OBJECT_AD_VERSION = 1"
definition OBJECT_FRAME_AD_SIZE :: nat where "OBJECT_FRAME_AD_SIZE = 66"

datatype object_role = OriginalImage | Thumbnail | Poster | OriginalVideo

fun role_byte :: "object_role \<Rightarrow> byte" where
  "role_byte OriginalImage = 1"
| "role_byte Thumbnail = 2"
| "role_byte Poster = 3"
| "role_byte OriginalVideo = 4"

record object_frame_tag =
  ft_role :: object_role
  ft_vault :: bytes
  ft_object :: bytes
  ft_owner :: bytes
  ft_index :: u32
  ft_count :: u32
  ft_total :: u64

text \<open>The domain strings are copied with their terminating zero byte.\<close>

definition derive_database_key :: "blake2b_keyed \<Rightarrow> bytes \<Rightarrow> bytes \<Rightarrow> bytes" where
  "derive_database_key B master_key vault_id =
     B KEY_SIZE master_key (ascii ''OSV-V3-DB-KEY'' @ [0] @ vault_id @ le_bytes 2 V3_FORMAT_VERSION)"

definition derive_object_key :: "blake2b_keyed \<Rightarrow> bytes \<Rightarrow> bytes \<Rightarrow> bytes \<Rightarrow> bytes" where
  "derive_object_key B master_key vault_id object_id =
     B KEY_SIZE master_key
       (ascii ''OSV-V3-OBJECT-KEY'' @ [0] @ vault_id @ object_id @ le_bytes 2 OBJECT_FORMAT_VERSION)"

definition build_object_frame_ad :: "object_frame_tag \<Rightarrow> bytes" where
  "build_object_frame_ad t =
     [role_byte (ft_role t), OBJECT_AD_VERSION] @ ft_vault t @ ft_object t @ ft_owner t @
       le_bytes 4 (ft_index t) @ le_bytes 4 (ft_count t) @ le_bytes 8 (ft_total t)"

definition frame_tag_ok :: "object_frame_tag \<Rightarrow> bool" where
  "frame_tag_ok t \<longleftrightarrow> length (ft_vault t) = NODE_ID_SIZE \<and> length (ft_object t) = NODE_ID_SIZE \<and>
     length (ft_owner t) = NODE_ID_SIZE"

lemma role_byte_inj: "role_byte a = role_byte b \<longleftrightarrow> a = b"
  by (cases a; cases b) simp_all

lemma length_build_object_frame_ad: "frame_tag_ok t \<Longrightarrow> length (build_object_frame_ad t) = OBJECT_FRAME_AD_SIZE"
  by (simp add: build_object_frame_ad_def frame_tag_ok_def OBJECT_FRAME_AD_SIZE_def NODE_ID_SIZE_def)

lemma build_object_frame_ad_inj:
  assumes "frame_tag_ok s" "frame_tag_ok t" "build_object_frame_ad s = build_object_frame_ad t" shows "s = t"
  using assms
  by (auto simp: build_object_frame_ad_def frame_tag_ok_def append_eq_append_conv role_byte_inj le_bytes_inj
      intro: object_frame_tag.equality)

section \<open>The header file\<close>

definition V3_HEADER_SIZE :: nat where "V3_HEADER_SIZE = 256"
definition V3_MAGIC :: bytes where "V3_MAGIC = ascii ''OSV3DIR'' @ [0]"

datatype header_status = HsOk | HsInvalid | HsUnsupportedVersion | HsAuthenticationFailed | HsCryptoError

record v3_header =
  vh_flags :: u32
  vh_kdf :: kdf_params
  vh_salt :: bytes
  vh_keyfile_required :: bool
  vh_nonce :: bytes
  vh_wrapped_master_key :: bytes
  vh_tag :: bytes
  vh_vault_id :: bytes

definition get16 :: "bytes \<Rightarrow> nat \<Rightarrow> u16" where
  "get16 bytes off = ucast (bytes ! off) OR push_bit 8 (ucast (bytes ! (off + 1)))"

definition get32 :: "bytes \<Rightarrow> nat \<Rightarrow> u32" where
  "get32 bytes off = fold (\<lambda>i value. value OR push_bit (i * 8) (ucast (bytes ! (off + i)))) [0..<4] 0"

definition put16 :: "bytes \<Rightarrow> nat \<Rightarrow> u16 \<Rightarrow> bytes" where
  "put16 bytes off value = bytes[off := ucast value, off + 1 := ucast (drop_bit 8 value)]"

definition put32 :: "bytes \<Rightarrow> nat \<Rightarrow> u32 \<Rightarrow> bytes" where
  "put32 bytes off value = fold (\<lambda>i b. b[off + i := ucast (drop_bit (i * 8) value)]) [0..<4] bytes"

definition nonzero :: "bytes \<Rightarrow> bool" where
  "nonzero i = list_ex (\<lambda>b. b \<noteq> 0) i"

definition parse_v3_header :: "bytes \<Rightarrow> header_status + v3_header" where
  "parse_v3_header raw = (
     if take 8 raw \<noteq> V3_MAGIC then Inl HsInvalid
     else if get16 raw 8 \<noteq> V3_FORMAT_VERSION then Inl HsUnsupportedVersion
     else if get16 raw 10 \<noteq> of_nat V3_HEADER_SIZE then Inl HsInvalid
     else let flags = get32 raw 12 in
     if flags \<noteq> 0 then Inl HsUnsupportedVersion
     else if raw ! 16 \<noteq> 0 \<or> raw ! 45 > 1 then Inl HsInvalid
     else let kdf = \<lparr>kp_t_cost = get32 raw 17, kp_m_cost_kib = get32 raw 21,
                     kp_parallelism = get32 raw 25\<rparr> in
     if kp_t_cost kdf = 0 \<or> kp_t_cost kdf > MAX_KDF_T_COST \<or> kp_m_cost_kib kdf < 8 \<or>
        kp_m_cost_kib kdf > MAX_KDF_M_COST_KIB \<or> kp_parallelism kdf = 0 \<or>
        kp_parallelism kdf > MAX_KDF_PARALLELISM then Inl HsInvalid
     else if list_ex (\<lambda>b. b \<noteq> 0) (drop 134 raw) then Inl HsInvalid
     else let parsed = \<lparr>vh_flags = flags, vh_kdf = kdf, vh_salt = get_bytes_at raw 29 SALT_SIZE,
            vh_keyfile_required = (raw ! 45 \<noteq> 0), vh_nonce = get_bytes_at raw 46 NONCE_SIZE,
            vh_wrapped_master_key = get_bytes_at raw 70 KEY_SIZE,
            vh_tag = get_bytes_at raw 102 TAG_SIZE, vh_vault_id = get_bytes_at raw 118 NODE_ID_SIZE\<rparr>
     in if \<not> nonzero (vh_vault_id parsed) then Inl HsInvalid else Inr parsed)"

definition serialize_v3_header :: "v3_header \<Rightarrow> bytes" where
  "serialize_v3_header h = (
     let raw = replicate V3_HEADER_SIZE 0;
         raw = put_bytes_at raw 0 V3_MAGIC;
         raw = put16 raw 8 V3_FORMAT_VERSION;
         raw = put16 raw 10 (of_nat V3_HEADER_SIZE);
         raw = put32 raw 12 (vh_flags h);
         raw = raw[16 := 0];
         raw = put32 raw 17 (kp_t_cost (vh_kdf h));
         raw = put32 raw 21 (kp_m_cost_kib (vh_kdf h));
         raw = put32 raw 25 (kp_parallelism (vh_kdf h));
         raw = put_bytes_at raw 29 (vh_salt h);
         raw = raw[45 := (if vh_keyfile_required h then 1 else 0)];
         raw = put_bytes_at raw 46 (vh_nonce h);
         raw = put_bytes_at raw 70 (vh_wrapped_master_key h);
         raw = put_bytes_at raw 102 (vh_tag h)
     in put_bytes_at raw 118 (vh_vault_id h))"

definition master_wrap_ad :: "v3_header \<Rightarrow> bytes" where
  "master_wrap_ad h = (
     let ad = replicate 26 0;
         ad = ad[0 := 0x10];
         ad = ad[1 := 1];
         ad = put16 ad 2 V3_FORMAT_VERSION;
         ad = put_bytes_at ad 4 (vh_vault_id h);
         ad = put16 ad 20 (of_nat V3_HEADER_SIZE)
     in put32 ad 22 (vh_flags h))"

section \<open>Wrapping the master key\<close>

definition default_v3_header :: v3_header where
  "default_v3_header = \<lparr>vh_flags = 0, vh_kdf = \<lparr>kp_t_cost = 3, kp_m_cost_kib = 65536, kp_parallelism = 1\<rparr>,
     vh_salt = replicate SALT_SIZE 0, vh_keyfile_required = False, vh_nonce = replicate NONCE_SIZE 0,
     vh_wrapped_master_key = replicate KEY_SIZE 0, vh_tag = replicate TAG_SIZE 0,
     vh_vault_id = replicate NODE_ID_SIZE 0\<rparr>"

definition wrap_under :: "aead_prims \<Rightarrow> bytes \<Rightarrow> bytes \<Rightarrow> v3_header \<Rightarrow> v3_header" where
  "wrap_under A kek master_key h =
     (let sealed = seal A kek (vh_nonce h) master_key (master_wrap_ad h)
      in h\<lparr>vh_wrapped_master_key := take KEY_SIZE sealed, vh_tag := take TAG_SIZE (drop KEY_SIZE sealed)\<rparr>)"

text \<open>
  The four draws of \<open>fill_random\<close> are inputs, \<open>None\<close> when the source failed; the master key is the
  last one.
\<close>

definition create_v3_header ::
  "aead_prims \<Rightarrow> argon2 \<Rightarrow> bytes \<Rightarrow> bytes \<Rightarrow> kdf_params \<Rightarrow>
   bytes option \<times> bytes option \<times> bytes option \<times> bytes option \<Rightarrow> header_status + v3_header \<times> bytes" where
  "create_v3_header A argon2 password keyfile kdf random =
     (case random of
        (Some salt, Some nonce, Some vault_id, Some master_key) \<Rightarrow>
          (let created = default_v3_header\<lparr>vh_kdf := kdf, vh_keyfile_required := (keyfile \<noteq> []),
                 vh_salt := salt, vh_nonce := nonce, vh_vault_id := vault_id\<rparr>
           in case derive_key argon2 password keyfile salt kdf DomainSeparatedV2 of
                None \<Rightarrow> Inl HsCryptoError
              | Some kek \<Rightarrow> Inr (wrap_under A kek master_key created, master_key))
      | _ \<Rightarrow> Inl HsCryptoError)"

definition rewrap_v3_header ::
  "aead_prims \<Rightarrow> argon2 \<Rightarrow> v3_header \<Rightarrow> bytes \<Rightarrow> bytes \<Rightarrow> bytes \<Rightarrow> bytes option \<times> bytes option \<Rightarrow>
   header_status + v3_header" where
  "rewrap_v3_header A argon2 current master_key password keyfile random =
     (case random of
        (Some salt, Some nonce) \<Rightarrow>
          (let following = current\<lparr>vh_keyfile_required := (keyfile \<noteq> []), vh_salt := salt, vh_nonce := nonce\<rparr>
           in case derive_key argon2 password keyfile salt (vh_kdf following) DomainSeparatedV2 of
                None \<Rightarrow> Inl HsCryptoError
              | Some kek \<Rightarrow> Inr (wrap_under A kek master_key following))
      | _ \<Rightarrow> Inl HsCryptoError)"

definition unwrap_v3_master_key ::
  "aead_prims \<Rightarrow> argon2 \<Rightarrow> v3_header \<Rightarrow> bytes \<Rightarrow> bytes \<Rightarrow> header_status + bytes" where
  "unwrap_v3_master_key A argon2 h password keyfile =
     (if vh_keyfile_required h \<and> keyfile = [] then Inl HsAuthenticationFailed
      else case derive_key argon2 password keyfile (vh_salt h) (vh_kdf h) DomainSeparatedV2 of
        None \<Rightarrow> Inl HsCryptoError
      | Some kek \<Rightarrow>
          (case open_to A kek (vh_nonce h) (vh_wrapped_master_key h @ vh_tag h) (replicate KEY_SIZE 0)
                  (master_wrap_ad h) of
             (False, _) \<Rightarrow> Inl HsAuthenticationFailed
           | (True, master_key) \<Rightarrow> Inr master_key))"

section \<open>One encoding\<close>

lemma get16_eq: "get16 b off = get_u16_at b off"
  by (simp add: get16_def get_u16_at_def)

lemma get32_eq: "get32 b off = get_u32_at b off"
  by (simp add: get32_def get_u32_at_def eval_nat_numeral or.assoc)

lemma put16_eq: "put16 b off v = put_u16_at b off v"
  by (simp add: put16_def put_u16_at_def)

lemma put32_eq: "put32 b off v = put_u32_at b off v"
  by (simp add: put32_def put_u32_at_def eval_nat_numeral)

lemma le_bytes_le_value:
  assumes "LENGTH('a::len) = 8 * length bs" shows "le_bytes (length bs) (le_value bs :: 'a word) = bs"
proof (rule nth_equalityI)
  fix i assume i: "i < length (le_bytes (length bs) (le_value bs :: 'a word))"
  show "le_bytes (length bs) (le_value bs :: 'a word) ! i = bs ! i"
  proof (rule bit_word_eqI)
    fix k assume k: "k < LENGTH(8)"
    have "8 * i + k < 8 * length bs" using i k by simp
    then show "bit (le_bytes (length bs) (le_value bs :: 'a word) ! i) k = bit (bs ! i) k"
      using i k assms
      by (simp add: le_bytes_def le_value_def bit_ucast_iff bit_drop_bit_eq bit_le_accum)
  qed
qed simp

lemma le_bytes_le_value_n: "length bs = n \<Longrightarrow> LENGTH('a::len) = 8 * n \<Longrightarrow> le_bytes n (le_value bs :: 'a word) = bs"
  using le_bytes_le_value[where 'a='a] by metis

text \<open>Patches that follow each other without a gap.\<close>

fun contig :: "nat \<Rightarrow> (nat \<times> bytes) list \<Rightarrow> bool" where
  "contig n [] = True"
| "contig n ((off, bs) # ps) = (off = n \<and> contig (n + length bs) ps)"

lemma patch_contig:
  assumes "contig n ps" "n + length (concat (map snd ps)) \<le> length buf"
  shows "patch ps buf = take n buf @ concat (map snd ps) @ drop (n + length (concat (map snd ps))) buf"
  using assms
proof (induction n ps arbitrary: buf rule: contig.induct)
  case (2 n off bs ps)
  have "patch ((off, bs) # ps) buf = patch ps (put_bytes_at buf n bs)" using 2 by (simp add: patch_def)
  also have "\<dots> = take (n + length bs) (put_bytes_at buf n bs) @ concat (map snd ps) @
      drop (n + length bs + length (concat (map snd ps))) (put_bytes_at buf n bs)"
    using 2 by (intro 2(1)) auto
  also have "take (n + length bs) (put_bytes_at buf n bs) = take n buf @ bs"
    using 2(3) by (simp add: put_bytes_at_def)
  also have "drop (n + length bs + k) (put_bytes_at buf n bs) = drop (n + length bs + k) buf" for k
    using 2(3) by (simp add: put_bytes_at_def ac_simps)
  finally show ?case using 2(2) by (simp add: add.assoc)
qed (simp add: patch_def)

definition v3_header_ok :: "v3_header \<Rightarrow> bool" where
  "v3_header_ok h \<longleftrightarrow> vh_flags h = 0 \<and> 
     kp_t_cost (vh_kdf h) \<noteq> 0 \<and> kp_t_cost (vh_kdf h) \<le> MAX_KDF_T_COST \<and>
     8 \<le> kp_m_cost_kib (vh_kdf h) \<and> kp_m_cost_kib (vh_kdf h) \<le> MAX_KDF_M_COST_KIB \<and>
     kp_parallelism (vh_kdf h) \<noteq> 0 \<and> kp_parallelism (vh_kdf h) \<le> MAX_KDF_PARALLELISM \<and>
     length (vh_salt h) = SALT_SIZE \<and> length (vh_nonce h) = NONCE_SIZE \<and>
     length (vh_wrapped_master_key h) = KEY_SIZE \<and> length (vh_tag h) = TAG_SIZE \<and>
     length (vh_vault_id h) = NODE_ID_SIZE \<and> nonzero (vh_vault_id h)"

definition v3_patches :: "v3_header \<Rightarrow> (nat \<times> bytes) list" where
  "v3_patches h =
     [(0, V3_MAGIC), (8, le_bytes 2 V3_FORMAT_VERSION), (10, le_bytes 2 (of_nat V3_HEADER_SIZE :: u16)),
      (12, le_bytes 4 (vh_flags h)), (16, [0]), (17, le_bytes 4 (kp_t_cost (vh_kdf h))),
      (21, le_bytes 4 (kp_m_cost_kib (vh_kdf h))), (25, le_bytes 4 (kp_parallelism (vh_kdf h))),
      (29, vh_salt h), (45, [if vh_keyfile_required h then 1 else 0]), (46, vh_nonce h),
      (70, vh_wrapped_master_key h), (102, vh_tag h), (118, vh_vault_id h)]"

lemma length_V3_MAGIC [simp]: "length V3_MAGIC = 8"
  by (simp add: V3_MAGIC_def ascii_def)

lemma update_patch:
  "inside ps (length buf) \<Longrightarrow> off + 1 \<le> length buf \<Longrightarrow> (patch ps buf)[off := v] = patch (ps @ [(off, [v])]) buf"
  using patch_step(2)[of ps buf off v] by (simp add: put_u8_at_def)

definition arrays_ok :: "v3_header \<Rightarrow> bool" where
  "arrays_ok h \<longleftrightarrow> length (vh_salt h) = SALT_SIZE \<and> length (vh_nonce h) = NONCE_SIZE \<and>
     length (vh_wrapped_master_key h) = KEY_SIZE \<and> length (vh_tag h) = TAG_SIZE \<and>
     length (vh_vault_id h) = NODE_ID_SIZE"

lemma serialize_v3_concat:
  assumes h: "arrays_ok h"
  shows "serialize_v3_header h = concat (map snd (v3_patches h)) @ replicate 122 0"
proof -
  have lens: "length (vh_salt h) = 16" "length (vh_nonce h) = 24" "length (vh_wrapped_master_key h) = 32"
    "length (vh_tag h) = 16" "length (vh_vault_id h) = 16"
    using h by (simp_all add: arrays_ok_def sizes NODE_ID_SIZE_def)
  define zeros where "zeros = replicate V3_HEADER_SIZE (0 :: byte)"
  have z: "replicate V3_HEADER_SIZE 0 = patch [] zeros" "length zeros = 256"
    by (simp_all add: zeros_def patch_def V3_HEADER_SIZE_def)
  have "serialize_v3_header h = patch (v3_patches h) zeros"
    unfolding serialize_v3_header_def z(1)
    by (simp add: Let_def put16_eq put32_eq patch_step update_patch inside_def z(2) lens v3_patches_def)
  also have "\<dots> = take 0 zeros @ concat (map snd (v3_patches h)) @
      drop (0 + length (concat (map snd (v3_patches h)))) zeros"
    by (rule patch_contig) (simp_all add: v3_patches_def lens z(2))
  finally show ?thesis by (simp add: v3_patches_def lens zeros_def V3_HEADER_SIZE_def)
qed

lemma length_serialize_v3: "arrays_ok h \<Longrightarrow> length (serialize_v3_header h) = V3_HEADER_SIZE"
  by (simp add: serialize_v3_concat v3_patches_def arrays_ok_def sizes NODE_ID_SIZE_def V3_HEADER_SIZE_def)

lemma v3_header_ok_arrays: "v3_header_ok h \<Longrightarrow> arrays_ok h"
  by (simp add: v3_header_ok_def arrays_ok_def)

lemma parse_serialize_v3:
  assumes h: "v3_header_ok h" shows "parse_v3_header (serialize_v3_header h) = Inr h"
proof -
  let ?S = "serialize_v3_header h"
  have lens: "length (vh_salt h) = 16" "length (vh_nonce h) = 24" "length (vh_wrapped_master_key h) = 32"
    "length (vh_tag h) = 16" "length (vh_vault_id h) = 16"
    using h by (simp_all add: v3_header_ok_def sizes NODE_ID_SIZE_def)
  note S = serialize_v3_concat[OF v3_header_ok_arrays[OF h]] v3_patches_def
  have len: "length ?S = 256" using length_serialize_v3[OF v3_header_ok_arrays[OF h]] by (simp add: V3_HEADER_SIZE_def)
  have magic: "take 8 ?S = V3_MAGIC" by (simp add: S)
  have bytes: "get_bytes_at ?S 29 16 = vh_salt h" "get_bytes_at ?S 46 24 = vh_nonce h"
    "get_bytes_at ?S 70 32 = vh_wrapped_master_key h" "get_bytes_at ?S 102 16 = vh_tag h"
    "get_bytes_at ?S 118 16 = vh_vault_id h" "drop 134 ?S = replicate 122 0"
    by (simp_all add: S get_bytes_at_def lens)
  have words: "get16 ?S 8 = V3_FORMAT_VERSION" "get16 ?S 10 = of_nat V3_HEADER_SIZE" "get32 ?S 12 = vh_flags h"
    "get32 ?S 17 = kp_t_cost (vh_kdf h)" "get32 ?S 21 = kp_m_cost_kib (vh_kdf h)"
    "get32 ?S 25 = kp_parallelism (vh_kdf h)"
    using len by (simp_all add: get16_eq get32_eq get_u16_at_slice get_u32_at_slice)
      (simp_all add: S get_bytes_at_def le_value_le_bytes)
  have byte: "?S ! 16 = 0" "?S ! 45 = (if vh_keyfile_required h then 1 else 0)"
    by (simp_all add: S nth_append lens nth_Cons')
  show ?thesis using h
    by (simp add: parse_v3_header_def Let_def magic bytes words byte v3_header_ok_def sizes NODE_ID_SIZE_def not_less
        list_ex_iff)
qed

lemma parse_v3_post:
  assumes "parse_v3_header raw = Inr h" "length raw = V3_HEADER_SIZE" shows "v3_header_ok h"
  using assms by (auto simp: parse_v3_header_def Let_def v3_header_ok_def not_less V3_HEADER_SIZE_def sizes
      NODE_ID_SIZE_def split: if_splits)

lemma drop_split: "n + k \<le> length xs \<Longrightarrow> drop n xs = get_bytes_at xs n k @ drop (n + k) xs"
  by (simp add: get_bytes_at_def) (metis append_take_drop_id drop_drop add.commute)

lemma drop_byte: "n < length xs \<Longrightarrow> drop n xs = [xs ! n] @ drop (n + 1) xs"
  by (simp add: Cons_nth_drop_Suc)

lemma byte_01: "b \<le> 1 \<Longrightarrow> b \<noteq> 0 \<Longrightarrow> b = 1" for b :: byte
proof -
  assume "b \<le> 1" "b \<noteq> 0"
  then have "unat b = unat (1 :: byte)" by (simp add: word_le_nat_alt unat_gt_0[symmetric] del: unat_gt_0)
  then show "b = 1" by (simp only: word_unat_eq_iff)
qed

lemma serialize_parse_v3:
  assumes p: "parse_v3_header raw = Inr h" and len: "length raw = V3_HEADER_SIZE"
  shows "serialize_v3_header h = raw"
proof -
  have l: "length raw = 256" using len by (simp add: V3_HEADER_SIZE_def)
  have ok: "arrays_ok h" using v3_header_ok_arrays[OF parse_v3_post[OF p len]] .
  have f: "take 8 raw = V3_MAGIC" "get16 raw 8 = V3_FORMAT_VERSION" "get16 raw 10 = of_nat V3_HEADER_SIZE"
    "raw ! 16 = 0" "raw ! 45 \<le> 1" "list_all (\<lambda>b. b = 0) (drop 134 raw)" "get32 raw 12 = vh_flags h"
    "vh_salt h = get_bytes_at raw 29 16" "vh_keyfile_required h = (raw ! 45 \<noteq> 0)"
    "vh_nonce h = get_bytes_at raw 46 24" "vh_wrapped_master_key h = get_bytes_at raw 70 32"
    "vh_tag h = get_bytes_at raw 102 16" "vh_vault_id h = get_bytes_at raw 118 16"
    "kp_t_cost (vh_kdf h) = get32 raw 17" "kp_m_cost_kib (vh_kdf h) = get32 raw 21"
    "kp_parallelism (vh_kdf h) = get32 raw 25"
    using p by (simp_all add: parse_v3_header_def Let_def sizes NODE_ID_SIZE_def not_less list_ex_iff list_all_iff
        split: if_splits) (hypsubst, simp)+
  have slice16: "get_bytes_at raw n 2 = le_bytes 2 (get16 raw n)" if "n + 2 \<le> 256" for n
    using that l by (simp add: get16_eq get_u16_at_slice le_bytes_le_value_n)
  have slice32: "get_bytes_at raw n 4 = le_bytes 4 (get32 raw n)" if "n + 4 \<le> 256" for n
    using that l by (simp add: get32_eq get_u32_at_slice le_bytes_le_value_n)
  have b45: "raw ! 45 = (if vh_keyfile_required h then 1 else 0)"
    using f(5,9) byte_01 by auto
  have zeros: "drop 134 raw = replicate 122 0"
    using f(6) l by (intro replicate_eqI) (auto simp: list_all_iff)
  have "raw = drop 0 raw" by simp
  also have "drop 0 raw = get_bytes_at raw 0 8 @ get_bytes_at raw 8 2 @ get_bytes_at raw 10 2 @
      get_bytes_at raw 12 4 @ [raw ! 16] @ get_bytes_at raw 17 4 @ get_bytes_at raw 21 4 @
      get_bytes_at raw 25 4 @ get_bytes_at raw 29 16 @ [raw ! 45] @ get_bytes_at raw 46 24 @
      get_bytes_at raw 70 32 @ get_bytes_at raw 102 16 @ get_bytes_at raw 118 16 @ drop 134 raw"
    using l drop_split[of 0 8 raw] drop_split[of 8 2 raw] drop_split[of 10 2 raw] drop_split[of 12 4 raw]
      drop_byte[of 16 raw] drop_split[of 17 4 raw] drop_split[of 21 4 raw] drop_split[of 25 4 raw]
      drop_split[of 29 16 raw] drop_byte[of 45 raw] drop_split[of 46 24 raw] drop_split[of 70 32 raw]
      drop_split[of 102 16 raw] drop_split[of 118 16 raw]
    by simp
  also have "\<dots> = concat (map snd (v3_patches h)) @ replicate 122 0"
    using f(1-4,7,8,10-16) by (simp add: slice16 slice32 v3_patches_def b45 zeros get_bytes_at_def[of raw 0])
  finally show ?thesis by (simp add: serialize_v3_concat[OF ok])
qed

section \<open>The properties\<close>

definition sample_v3_header :: v3_header where
  "sample_v3_header = default_v3_header\<lparr>vh_vault_id := replicate NODE_ID_SIZE 7\<rparr>"

lemma sample_v3_ok: "v3_header_ok sample_v3_header"
  by (simp add: v3_header_ok_def sample_v3_header_def default_v3_header_def nonzero_def sizes NODE_ID_SIZE_def list_ex_iff
      MAX_KDF_T_COST_def MAX_KDF_M_COST_KIB_def MAX_KDF_PARALLELISM_def)

text \<open>
  Property C28.  A directory header has exactly one encoding: parsing what was written gives the header
  back, and 256 bytes that the parser accepts are the bytes that writing the parsed header gives,
  reserved bytes included, with every parameter in its window.
\<close>

theorem v3_header_canonical:
  assumes "length raw = V3_HEADER_SIZE"
  shows "parse_v3_header raw = Inr h \<longleftrightarrow> v3_header_ok h \<and> raw = serialize_v3_header h"
  using parse_v3_post[OF _ assms] serialize_parse_v3[OF _ assms] parse_serialize_v3 by blast

theorem v3_header_canonical_witness:
  "parse_v3_header (serialize_v3_header sample_v3_header) = Inr sample_v3_header"
  using v3_header_canonical[OF length_serialize_v3[OF v3_header_ok_arrays[OF sample_v3_ok]]] sample_v3_ok by blast

lemma open_to_seal:
  assumes A: "aead_laws A" and k: "length key = KEY_SIZE"
    and s: "seal A kek nonce key ad = sealed"
  shows "open_to A kek nonce (take KEY_SIZE sealed @ take TAG_SIZE (drop KEY_SIZE sealed)) (replicate KEY_SIZE 0) ad
     = (True, key)"
proof -
  obtain c t where ct: "ap_lock A kek nonce ad key = (c, t)" by fastforce
  have l: "length c = 32" "length t = 16" using lock_lengths[OF A ct] k by (simp_all add: sizes)
  have sealed: "sealed = c @ t" using s ct by (simp add: seal_def)
  have "ap_unlock A kek nonce ad t c = Some key" using A ct by (simp add: aead_laws_def)
  then show ?thesis by (simp add: sealed l open_to_def sizes Let_def)
qed

lemma wrap_fields:
  "vh_flags (wrap_under A kek mk h) = vh_flags h" "vh_kdf (wrap_under A kek mk h) = vh_kdf h"
  "vh_salt (wrap_under A kek mk h) = vh_salt h" "vh_nonce (wrap_under A kek mk h) = vh_nonce h"
  "vh_keyfile_required (wrap_under A kek mk h) = vh_keyfile_required h"
  "vh_vault_id (wrap_under A kek mk h) = vh_vault_id h"
  "master_wrap_ad (wrap_under A kek mk h) = master_wrap_ad h"
  by (simp_all add: wrap_under_def Let_def master_wrap_ad_def)

lemma unwrap_wrapped:
  assumes "aead_laws A" "length mk = KEY_SIZE"
    and "derive_key argon2 password keyfile (vh_salt h) (vh_kdf h) DomainSeparatedV2 = Some kek"
    and "vh_keyfile_required h = (keyfile \<noteq> [])"
  shows "unwrap_v3_master_key A argon2 (wrap_under A kek mk h) password keyfile = Inr mk"
proof -
  have "open_to A kek (vh_nonce h) (vh_wrapped_master_key (wrap_under A kek mk h) @ vh_tag (wrap_under A kek mk h))
      (replicate KEY_SIZE 0) (master_wrap_ad h) = (True, mk)"
    using open_to_seal[OF assms(1,2) refl, of kek "vh_nonce h" "master_wrap_ad h"] by (simp add: wrap_under_def Let_def)
  then show ?thesis using assms(3,4) by (simp add: unwrap_v3_master_key_def wrap_fields)
qed

lemma create_InrD:
  "create_v3_header A argon2 p k kdf (Some s, Some n, Some vid, Some mk) = Inr (h, mk') \<Longrightarrow>
     \<exists>kek. derive_key argon2 p k s kdf DomainSeparatedV2 = Some kek \<and>
       h = wrap_under A kek mk (default_v3_header\<lparr>vh_kdf := kdf, vh_keyfile_required := (k \<noteq> []), vh_salt := s,
         vh_nonce := n, vh_vault_id := vid\<rparr>) \<and> mk' = mk"
  by (cases "derive_key argon2 p k s kdf DomainSeparatedV2") (simp_all add: create_v3_header_def eq_commute[of _ h] conj_commute)

lemma rewrap_InrD:
  "rewrap_v3_header A argon2 h mk p k (Some s, Some n) = Inr h2 \<Longrightarrow>
     \<exists>kek. derive_key argon2 p k s (vh_kdf h) DomainSeparatedV2 = Some kek \<and>
       h2 = wrap_under A kek mk (h\<lparr>vh_keyfile_required := (k \<noteq> []), vh_salt := s, vh_nonce := n\<rparr>)"
  by (cases "derive_key argon2 p k s (vh_kdf h) DomainSeparatedV2") (simp_all add: rewrap_v3_header_def)

text \<open>
  Property C29.  A vault created under one password and keyfile opens with them and gives its master key; after
  the password is changed the new header opens with the new pair and gives the same master key, a vault
  with a keyfile does not open without one, and the change touches neither the vault's identity nor its
  KDF parameters, so that every database and object key stays what it was.  A created header also
  survives its file.
\<close>

theorem v3_password_change_keeps_key:
  assumes "aead_laws A"
    and created: "create_v3_header A argon2 password keyfile kdf (Some salt, Some nonce, Some vid, Some mk) = Inr (h, mk')"
    and lens: "length salt = SALT_SIZE" "length nonce = NONCE_SIZE" "length vid = NODE_ID_SIZE" "length mk = KEY_SIZE"
    and changed: "rewrap_v3_header A argon2 h mk' password2 keyfile2 (Some salt2, Some nonce2) = Inr h2"
  shows "mk' = mk \<and> unwrap_v3_master_key A argon2 h password keyfile = Inr mk \<and>
     unwrap_v3_master_key A argon2 h2 password2 keyfile2 = Inr mk \<and>
     (keyfile2 \<noteq> [] \<longrightarrow> unwrap_v3_master_key A argon2 h2 p [] = Inl HsAuthenticationFailed) \<and>
     vh_vault_id h2 = vh_vault_id h \<and> vh_kdf h2 = vh_kdf h \<and>
     (nonzero vid \<longrightarrow> parse_v3_header (serialize_v3_header h) = Inr h)"
proof -
  let ?h0 = "default_v3_header\<lparr>vh_kdf := kdf, vh_keyfile_required := (keyfile \<noteq> []), vh_salt := salt,
      vh_nonce := nonce, vh_vault_id := vid\<rparr>"
  obtain kek where kek: "derive_key argon2 password keyfile salt kdf DomainSeparatedV2 = Some kek"
    and h: "h = wrap_under A kek mk ?h0" and mk: "mk' = mk"
    using create_InrD[OF created] by (elim exE conjE) (rule that)
  let ?h1 = "h\<lparr>vh_keyfile_required := (keyfile2 \<noteq> []), vh_salt := salt2, vh_nonce := nonce2\<rparr>"
  obtain kek2 where kek2: "derive_key argon2 password2 keyfile2 salt2 (vh_kdf h) DomainSeparatedV2 = Some kek2"
    and h2: "h2 = wrap_under A kek2 mk ?h1"
    using rewrap_InrD[OF changed] mk by blast
  have "unwrap_v3_master_key A argon2 h password keyfile = Inr mk"
    unfolding h using assms(1) lens(4) kek by (intro unwrap_wrapped) simp_all
  moreover have "unwrap_v3_master_key A argon2 h2 password2 keyfile2 = Inr mk"
    unfolding h2 using assms(1) lens(4) kek2 by (intro unwrap_wrapped) simp_all
  moreover have "keyfile2 \<noteq> [] \<longrightarrow> unwrap_v3_master_key A argon2 h2 p [] = Inl HsAuthenticationFailed"
    by (simp add: h2 unwrap_v3_master_key_def wrap_fields)
  moreover have "parse_v3_header (serialize_v3_header h) = Inr h" if "nonzero vid"
  proof (rule parse_serialize_v3)
    have k: "kdf_params_sane 0 kdf" using derive_key_params[OF kek] by blast
    have "unat (kp_m_cost_kib kdf) \<ge> 8" using kdf_params_sane_bounds[OF k] by auto
    then have "8 \<le> kp_m_cost_kib kdf" by (simp add: word_le_nat_alt)
    moreover obtain c t where ct: "ap_lock A kek nonce (master_wrap_ad ?h0) mk = (c, t)" by fastforce
    moreover have "length c = KEY_SIZE" "length t = TAG_SIZE" using lock_lengths[OF assms(1) ct] lens(4) by simp_all
    ultimately show "v3_header_ok h" using k lens that
      by (simp add: h v3_header_ok_def wrap_under_def default_v3_header_def seal_def Let_def kdf_params_sane_def word_ge_1)
  qed
  ultimately show ?thesis using mk by (simp add: h2 wrap_fields)
qed

definition sample_argon2 :: argon2 where
  "sample_argon2 m t p secret salt = replicate KEY_SIZE (sum_list secret + sum_list salt)"

theorem v3_password_change_keeps_key_witness:
  "\<exists>h h2. create_v3_header sample_aead sample_argon2 [1] [] (vh_kdf default_v3_header)
       (Some (replicate 16 1), Some (replicate 24 2), Some (replicate 16 3), Some (replicate 32 4)) = Inr (h, replicate 32 4) \<and>
     rewrap_v3_header sample_aead sample_argon2 h (replicate 32 4) [2] [5] (Some (replicate 16 6), Some (replicate 24 7)) = Inr h2 \<and>
     unwrap_v3_master_key sample_aead sample_argon2 h2 [2] [5] = Inr (replicate 32 4)"
proof -
  let ?kdf = "vh_kdf default_v3_header"
  have d: "\<exists>kek. derive_key sample_argon2 p k s ?kdf DomainSeparatedV2 = Some kek" if "length p \<le> 1" "length k \<le> 1" for p k s
    using that by (simp add: derive_key_def default_v3_header_def MAX_KDF_T_COST_def MAX_KDF_PARALLELISM_def
        MAX_KDF_M_COST_KIB_def max_argon_input_def) arith
  obtain h where h: "create_v3_header sample_aead sample_argon2 [1] [] ?kdf
       (Some (replicate 16 1), Some (replicate 24 2), Some (replicate 16 3), Some (replicate 32 4)) = Inr (h, replicate 32 4)"
    and k: "vh_kdf h = ?kdf"
    using d[of "[1]" "[]" "replicate 16 1"] by (auto simp: create_v3_header_def wrap_fields)
  obtain h2 where h2: "rewrap_v3_header sample_aead sample_argon2 h (replicate 32 4) [2] [5]
       (Some (replicate 16 6), Some (replicate 24 7)) = Inr h2"
    using d[of "[2]" "[5]" "replicate 16 6"] by (auto simp: rewrap_v3_header_def k)
  show ?thesis
    using v3_password_change_keeps_key[OF sample_aead_laws h _ _ _ _ h2] h h2
    by (auto simp: sizes NODE_ID_SIZE_def)
qed
end
