(* ===== verification/V3_Fs.thy ===== *)
theory V3_Fs
  imports V3_Header
begin

text \<open>
  The directory vault on disk (\<open>src/vault/v3_fs.h\<close>, \<open>v3_fs.cpp\<close>): object file names, and the object
  tree with its publication and removal.  The tree keeps what a reader sees now and what has
  reached the disk; the sync of a shard directory makes its entries reach it, and a crash leaves of
  each entry one of the two.  System calls that fail are inputs.
\<close>

section \<open>Object names\<close>

definition hex_digit :: "byte \<Rightarrow> byte" where
  "hex_digit n = ascii ''0123456789abcdef'' ! unat (n AND 15)"

definition hex_value :: "byte \<Rightarrow> int" where
  "hex_value c =
     (if 0x30 \<le> c \<and> c \<le> 0x39 then uint c - 0x30
      else if 0x61 \<le> c \<and> c \<le> 0x66 then uint c - 0x61 + 10
      else -1)"

definition id_hex :: "bytes \<Rightarrow> bytes" where
  "id_hex i = concat (map (\<lambda>b. [hex_digit (drop_bit 4 b), hex_digit b]) i)"

definition object_relative_path :: "bytes \<Rightarrow> bytes" where
  "object_relative_path i =
     ascii ''objects/'' @ take 2 (id_hex i) @ ascii ''/'' @ id_hex i @ ascii ''.osvo''"

fun read_hex :: "bytes \<Rightarrow> bytes option" where
  "read_hex (h # l # rest) =
     (if hex_value h < 0 \<or> hex_value l < 0 then None
      else map_option (\<lambda>i. (push_bit 4 (word_of_int (hex_value h)) OR word_of_int (hex_value l)) # i) (read_hex rest))"
| "read_hex [] = Some []"
| "read_hex [_] = None"

definition starts_with :: "bytes \<Rightarrow> bytes \<Rightarrow> bool" where
  "starts_with p prefix = (take (length prefix) p = prefix)"

definition ends_with :: "bytes \<Rightarrow> bytes \<Rightarrow> bool" where
  "ends_with p suffix = (length suffix \<le> length p \<and> drop (length p - length suffix) p = suffix)"

definition parse_object_relative_path :: "bytes \<Rightarrow> bytes option" where
  "parse_object_relative_path p =
     (if length p \<noteq> 8 + 2 + 1 + 32 + 5 \<or> \<not> starts_with p (ascii ''objects/'') \<or> p ! 10 \<noteq> 0x2F \<or>
         \<not> ends_with p (ascii ''.osvo'') then None
      else let shard = take 2 (drop 8 p); hex = take 32 (drop 11 p)
           in if \<not> starts_with hex shard then None else read_hex hex)"

definition owned_staging_name :: "bytes \<Rightarrow> bool" where
  "owned_staging_name name =
     (if length name \<noteq> 36 \<or> \<not> starts_with name (ascii ''tmp-'') then False
      else list_all (\<lambda>c. hex_value c \<ge> 0) (drop 4 name))"

lemma length_names: "length (ascii ''objects/'') = 8" "length (ascii ''.osvo'') = 5"
  by (simp_all add: ascii_def)

lemma unat_nibble: "unat (n AND 15) = unat n mod 16" for n :: byte
proof -
  have "n AND 15 = take_bit 4 n" by (simp add: take_bit_eq_mask mask_eq_exp_minus_1)
  also have "unat \<dots> = take_bit 4 (unat n)" by (rule unsigned_take_bit_eq)
  finally show ?thesis by (simp add: take_bit_eq_mod)
qed

abbreviation hex_digits :: bytes where
  "hex_digits \<equiv> ascii ''0123456789abcdef''"

lemma hex_digits_value: "map hex_value hex_digits = [0..15]"
  by (simp add: hex_value_def upto.simps ascii_def)

lemma hex_value_nth: "k < 16 \<Longrightarrow> hex_value (hex_digits ! k) = int k"
proof -
  assume k: "k < 16"
  have "length hex_digits = 16" by (simp add: ascii_def)
  then have "hex_value (hex_digits ! k) = map hex_value hex_digits ! k" using k by (simp only: nth_map)
  also have "\<dots> = int k" using k by (simp only: hex_digits_value nth_upto)
  finally show ?thesis .
qed

lemma hex_value_digit: "hex_value (hex_digit n) = int (unat n mod 16)"
  by (simp add: hex_digit_def unat_nibble hex_value_nth)

lemma hex_char:
  assumes "hex_value c \<ge> 0" shows "hex_value c \<le> 15" "hex_digits ! nat (hex_value c) = c"
proof -
  have "(48 \<le> unat c \<and> unat c \<le> 57) \<or> (97 \<le> unat c \<and> unat c \<le> 102)"
    using assms by (auto simp: hex_value_def word_le_nat_alt split: if_splits)
  then have "unat c \<in> set ([48..<58] @ [97..<103])" unfolding set_append set_upt by auto
  then have "of_nat (unat c) \<in> set (map (of_nat :: nat \<Rightarrow> byte) ([48..<58] @ [97..<103]))"
    unfolding set_map by (rule imageI)
  moreover have "map (of_nat :: nat \<Rightarrow> byte) ([48..<58] @ [97..<103]) = hex_digits"
    by (simp add: upt_rec ascii_def)
  moreover have "of_nat (unat c) = c" by simp
  ultimately have "c \<in> set hex_digits" by metis
  then obtain k where "k < length hex_digits" "hex_digits ! k = c" unfolding in_set_conv_nth by blast
  moreover have "length hex_digits = 16" by (simp add: ascii_def)
  ultimately have "k < 16" "c = hex_digits ! k" by simp_all
  then show "hex_value c \<le> 15" "hex_digits ! nat (hex_value c) = c" using hex_value_nth[of k] by simp_all
qed

definition pair_value :: "byte \<Rightarrow> byte \<Rightarrow> byte" where
  "pair_value h l = push_bit 4 (word_of_int (hex_value h)) OR word_of_int (hex_value l)"

lemma unat_pair_value:
  assumes "0 \<le> hex_value h" "0 \<le> hex_value l"
  shows "unat (pair_value h l) = nat (hex_value h) * 16 + nat (hex_value l)"
proof -
  define x y where "x = (word_of_int (hex_value h) :: byte)" and "y = (word_of_int (hex_value l) :: byte)"
  have u: "unat x = nat (hex_value h)" "unat y = nat (hex_value l)" "unat x < 16" "unat y < 16"
    using assms hex_char(1)[OF assms(1)] hex_char(1)[OF assms(2)]
    by (simp_all add: x_def y_def unsigned_of_int take_bit_int_eq_self nat_less_iff)
  have y4: "y = take_bit 4 y"
    using u(4) by (simp add: word_unat_eq_iff unsigned_take_bit_eq take_bit_nat_eq_self del: take_bit_eq_mod)
  have "push_bit 4 x AND y = 0"
    by (rule bit_word_eqI, subst y4) (auto simp: bit_and_iff bit_push_bit_iff bit_take_bit_iff)
  then have "push_bit 4 x OR y = push_bit 4 x + y" by (simp add: disjunctive_add_eq_or)
  then have "pair_value h l = x * 16 + y" by (simp add: pair_value_def x_def y_def push_bit_eq_mult mult.commute)
  then show ?thesis using u by (simp add: unat_word_ariths)
qed

lemma digit_pair:
  "hex_value (hex_digit (drop_bit 4 b)) \<ge> 0" "hex_value (hex_digit b) \<ge> 0"
  "pair_value (hex_digit (drop_bit 4 b)) (hex_digit b) = b"
proof -
  have d: "unat (drop_bit 4 b) = unat b div 16" by (simp add: drop_bit_eq_div unat_div)
  have b: "unat b < 256" using unsigned_less[of b] by simp
  show "hex_value (hex_digit (drop_bit 4 b)) \<ge> 0" "hex_value (hex_digit b) \<ge> 0"
    by (simp_all add: hex_value_digit)
  then have "unat (pair_value (hex_digit (drop_bit 4 b)) (hex_digit b)) = unat b"
    using b by (subst unat_pair_value) (simp_all add: hex_value_digit d)
  then show "pair_value (hex_digit (drop_bit 4 b)) (hex_digit b) = b" by (simp only: word_unat_eq_iff)
qed

lemma pair_digits:
  assumes "0 \<le> hex_value h" "0 \<le> hex_value l"
  shows "hex_digit (drop_bit 4 (pair_value h l)) = h" "hex_digit (pair_value h l) = l"
proof -
  have d: "unat (drop_bit 4 b) = unat b div 16" for b :: byte by (simp add: drop_bit_eq_div unat_div)
  have n: "nat (hex_value h) < 16" "nat (hex_value l) < 16"
    using hex_char(1)[OF assms(1)] hex_char(1)[OF assms(2)] assms by (simp_all add: nat_less_iff)
  show "hex_digit (drop_bit 4 (pair_value h l)) = h" "hex_digit (pair_value h l) = l"
    using n hex_char(2)[OF assms(1)] hex_char(2)[OF assms(2)]
    by (simp_all add: hex_digit_def unat_nibble d unat_pair_value[OF assms] del: One_nat_def)
qed

lemma read_hex_id: "read_hex (id_hex i) = Some i"
proof (induction i)
  case (Cons b i)
  then show ?case using digit_pair[of b] by (simp add: id_hex_def pair_value_def)
qed (simp add: id_hex_def)

lemma read_hex_Some: "read_hex h = Some i \<Longrightarrow> h = id_hex i \<and> length h = 2 * length i"
proof (induction h arbitrary: i rule: read_hex.induct)
  case (1 h l rest)
  obtain i' where i': "read_hex rest = Some i'" "\<not> (hex_value h < 0 \<or> hex_value l < 0)" "i = pair_value h l # i'"
    using 1(2) by (auto simp: pair_value_def split: if_splits)
  have "hex_digit (drop_bit 4 (pair_value h l)) = h" "hex_digit (pair_value h l) = l"
    using pair_digits[of h l] i'(2) by auto
  then have "h # l # rest = id_hex i" using 1(1)[OF i'(2,1)] i'(3) by (simp add: id_hex_def)
  moreover have "length rest = 2 * length i'" using 1(1)[OF i'(2,1)] by blast
  then have "length (h # l # rest) = 2 * length i" by (simp add: i'(3))
  ultimately show ?case by blast
qed (simp_all add: id_hex_def)

lemma length_id_hex [simp]: "length (id_hex i) = 2 * length i"
  using read_hex_Some[OF read_hex_id] by blast

text \<open>
  The name of an object file identifies it both ways: the path of a 16-byte identity parses
  to it, and a path that parses is the path of the identity it gives.
\<close>

theorem object_path_canonical:
  "parse_object_relative_path p = Some i \<longleftrightarrow> length i = NODE_ID_SIZE \<and> p = object_relative_path i"
proof
  assume i: "length i = NODE_ID_SIZE \<and> p = object_relative_path i"
  have l: "length (id_hex i) = 32" using i by (simp add: NODE_ID_SIZE_def)
  have a: "ascii ''objects/'' = [111, 98, 106, 101, 99, 116, 115, 47]" "ascii ''.osvo'' = [46, 111, 115, 118, 111]"
    "ascii ''/'' = [47]" by (simp_all add: ascii_def)
  show "parse_object_relative_path p = Some i"
    using i l by (simp add: parse_object_relative_path_def object_relative_path_def starts_with_def ends_with_def
        a Let_def nth_append read_hex_id)
next
  assume p: "parse_object_relative_path p = Some i"
  have f: "length p = 48" "take 8 p = ascii ''objects/''" "p ! 10 = 0x2F" "drop 43 p = ascii ''.osvo''"
    "take 2 (take 32 (drop 11 p)) = take 2 (drop 8 p)" "read_hex (take 32 (drop 11 p)) = Some i"
    using p by (simp_all add: parse_object_relative_path_def starts_with_def ends_with_def Let_def length_names
        split: if_splits)
  note h = read_hex_Some[OF f(6)]
  have piece: "drop n p = take k (drop n p) @ drop (n + k) p" for n k
    by (metis append_take_drop_id drop_drop add.commute)
  have "p = take 8 p @ take 2 (drop 8 p) @ take 1 (drop 10 p) @ take 32 (drop 11 p) @ drop 43 p"
    using piece[of 0 8] piece[of 8 2] piece[of 10 1] piece[of 11 32] by simp
  also have "take 1 (drop 10 p) = ascii ''/''"
    using f(1,3) by (simp add: take_Suc_conv_app_nth ascii_def hd_drop_conv_nth)
  finally have "p = object_relative_path i" using f h by (simp add: object_relative_path_def)
  moreover have "length i = NODE_ID_SIZE" using h f(1) by (simp add: NODE_ID_SIZE_def)
  ultimately show "length i = NODE_ID_SIZE \<and> p = object_relative_path i" by blast
qed

theorem object_path_canonical_witness:
  "parse_object_relative_path (object_relative_path (replicate 16 0xA7)) = Some (replicate 16 0xA7)"
  using object_path_canonical[of "object_relative_path (replicate 16 0xA7)" "replicate 16 0xA7"]
  by (simp add: NODE_ID_SIZE_def)

section \<open>The object tree\<close>

type_synonym object_files = "bytes \<Rightarrow> bytes option"

record vault_root =
  vr_visible :: object_files
  vr_durable :: object_files

text \<open>\<open>fsync\<close> of a shard directory: the entries whose name starts with the shard.\<close>

definition same_shard :: "bytes \<Rightarrow> bytes \<Rightarrow> bool" where
  "same_shard i j = (take 1 i = take 1 j)"

definition sync_shard :: "bytes \<Rightarrow> vault_root \<Rightarrow> vault_root" where
  "sync_shard i r = r\<lparr>vr_durable := (\<lambda>j. if same_shard i j then vr_visible r j else vr_durable r j)\<rparr>"

text \<open>What a crash can leave of the tree: each entry as it was or as it is.\<close>

definition crash_of :: "vault_root \<Rightarrow> object_files \<Rightarrow> bool" where
  "crash_of r m \<longleftrightarrow> (\<forall>i. m i = vr_visible r i \<or> m i = vr_durable r i)"

definition root_of :: "object_files \<Rightarrow> vault_root" where
  "root_of m = \<lparr>vr_visible = m, vr_durable = m\<rparr>"

record publish_env =
  pe_shard :: bool
  pe_rename :: bool
  pe_shard_sync :: bool
  pe_staging_sync :: bool

text \<open>
  \<open>VaultRoot::publish\<close> of a synced staging file with the given content: the result and the states the
  tree goes through, last one last.
\<close>

definition publish :: "publish_env \<Rightarrow> bytes \<Rightarrow> bytes \<Rightarrow> vault_root \<Rightarrow> bool \<times> vault_root list" where
  "publish e i content r =
     (if \<not> pe_shard e then (False, [r])
      else if \<not> pe_rename e \<or> vr_visible r i \<noteq> None then (False, [r])
      else let r1 = r\<lparr>vr_visible := (vr_visible r)(i \<mapsto> content)\<rparr>
           in if \<not> pe_shard_sync e then (False, [r, r1])
              else (pe_staging_sync e, [r, r1, sync_shard i r1]))"

record unlink_env =
  ue_open :: bool
  ue_unlink :: bool
  ue_sync :: bool

definition unlink_object :: "unlink_env \<Rightarrow> bytes \<Rightarrow> vault_root \<Rightarrow> bool \<times> vault_root list" where
  "unlink_object e i r =
     (if \<not> ue_open e then (False, [r])
      else if \<not> ue_unlink e \<or> vr_visible r i = None then (False, [r])
      else let r1 = r\<lparr>vr_visible := (vr_visible r)(i := None)\<rparr>
           in if \<not> ue_sync e then (False, [r, r1]) else (True, [r, r1, sync_shard i r1]))"

definition open_object :: "bool \<Rightarrow> bytes \<Rightarrow> vault_root \<Rightarrow> bytes option" where
  "open_object accessible i r =
     (if list_all (\<lambda>b. b = 0) i then None else if \<not> accessible then None else vr_visible r i)"

text \<open>\<open>pread\<close> until the buffer is full: nothing is read when it is empty.\<close>

definition object_read_at :: "bytes \<Rightarrow> nat \<Rightarrow> nat \<Rightarrow> bytes option" where
  "object_read_at file off n = (if n = 0 then Some [] else if off + n \<le> length file then Some (take n (drop off file)) else None)"

lemma publish_fail: "publish e i c r = (False, rs) \<Longrightarrow> s \<in> set rs \<Longrightarrow> j \<noteq> i \<Longrightarrow> vr_visible s j = vr_visible r j"
  by (auto simp: publish_def Let_def sync_shard_def split: if_splits)

lemma publish_states:
  assumes "publish e i c r = (ok, rs)"
  shows "rs \<noteq> []" "hd rs = r" "s \<in> set rs \<Longrightarrow> s = r \<or> vr_visible r i = None \<and> vr_visible s = (vr_visible r)(i \<mapsto> c)"
    "ok \<Longrightarrow> vr_visible r i = None \<and> vr_visible (last rs) = (vr_visible r)(i \<mapsto> c) \<and> vr_durable (last rs) i = Some c"
  using assms by (auto simp: publish_def Let_def sync_shard_def same_shard_def split: if_splits)

end
