(* ===== verification/V3_Object.thy ===== *)
theory V3_Object
  imports V3_Fs Chunk_Codec File_Store
begin

text \<open>
  Object files of a directory vault (\<open>src/vault/v3_object_store.h\<close>, \<open>v3_object_store.cpp\<close>): the
  streaming writer with its staging file and publication, the reader that validates preamble, header
  record, footer and seek table before it serves a byte, and random access over the frames.  The
  random source, system calls and the data source are inputs.  File offsets are naturals: the
  reader's tests keep every sum and difference of the source inside 64 bits, and the writer's sizes
  stay far below (\<open>object_size_small\<close>).  Allocation failure is not modelled.
\<close>

section \<open>Vocabulary\<close>

definition OBJECT_MAX_FRAME_PLAIN :: u32 where "OBJECT_MAX_FRAME_PLAIN = 1024 * 1024"
definition VIDEO_OBJECT_FRAME_PLAIN :: u32 where "VIDEO_OBJECT_FRAME_PLAIN = 1024 * 1024"
definition OBJECT_MAX_FRAMES :: u32 where "OBJECT_MAX_FRAMES = 1024 * 1024"
definition OBJECT_PREAMBLE_SIZE :: nat where "OBJECT_PREAMBLE_SIZE = 64"
definition HEADER_INDEX :: u32 where "HEADER_INDEX = 0xffffffff"
definition TABLE_INDEX :: u32 where "TABLE_INDEX = 0xfffffffe"
definition FOOTER_INDEX :: u32 where "FOOTER_INDEX = 0xfffffffd"
definition RECORD_OVERHEAD :: nat where "RECORD_OVERHEAD = NONCE_SIZE + TAG_SIZE"
definition HEADER_RECORD_SIZE :: nat where "HEADER_RECORD_SIZE = 64 + RECORD_OVERHEAD"
definition FOOTER_RECORD_SIZE :: nat where "FOOTER_RECORD_SIZE = 64 + RECORD_OVERHEAD"
definition OBJECT_MAGIC :: bytes where "OBJECT_MAGIC = ascii ''OSVOBJ'' @ [0, 0]"

datatype object_status = OsOk | OsInvalidArgument | OsIoError | OsAlreadyExists | OsCorrupt
  | OsAuthenticationFailed | OsOutOfMemory

record object_write_request =
  wr_vault :: bytes
  wr_owner :: bytes
  wr_role :: object_role
  wr_format :: byte
  wr_limit :: u32

record object_info =
  oi_object :: bytes
  oi_vault :: bytes
  oi_owner :: bytes
  oi_role :: object_role
  oi_format :: byte
  oi_plain :: u64
  oi_encrypted :: u64
  oi_limit :: u32
  oi_frames :: u32

record object_entry =
  en_offset :: u64
  en_length :: u64
  en_plain :: u32
  en_compression :: byte

record object_prims =
  op_aead :: aead_prims
  op_miniz :: miniz
  op_blake2b :: blake2b_keyed

definition valid_object_id :: "bytes \<Rightarrow> bool" where
  "valid_object_id i = list_ex (\<lambda>b. b \<noteq> 0) i"

definition object_frame_count :: "u64 \<Rightarrow> u32 \<Rightarrow> u32 option" where
  "object_frame_count plaintext_length frame_plain_limit =
     (if frame_plain_limit = 0 \<or> frame_plain_limit > OBJECT_MAX_FRAME_PLAIN then None
      else let count = (if plaintext_length = 0 then 0
                        else 1 + (plaintext_length - 1) div ucast frame_plain_limit)
           in if count > ucast OBJECT_MAX_FRAMES \<or> count > 0xffffffff then None
              else Some (ucast count))"

definition tag_for :: "object_info \<Rightarrow> u32 \<Rightarrow> object_frame_tag" where
  "tag_for info index =
     \<lparr>ft_role = oi_role info, ft_vault = oi_vault info, ft_object = oi_object info,
      ft_owner = oi_owner info, ft_index = index, ft_count = oi_frames info, ft_total = oi_plain info\<rparr>"

definition encrypt_record ::
  "object_prims \<Rightarrow> bytes option \<Rightarrow> bytes \<Rightarrow> object_info \<Rightarrow> u32 \<Rightarrow> bytes \<Rightarrow> bytes option" where
  "encrypt_record P nonce key info index plain =
     encrypt_chunk (op_aead P) nonce key plain (build_object_frame_ad (tag_for info index))"

definition decrypt_record ::
  "object_prims \<Rightarrow> bytes \<Rightarrow> bytes \<Rightarrow> object_info \<Rightarrow> u32 \<Rightarrow> nat \<Rightarrow> nat \<Rightarrow> object_status + bytes" where
  "decrypt_record P file key info index offset len =
     (if len < RECORD_OVERHEAD then Inl OsCorrupt
      else case object_read_at file offset len of
        None \<Rightarrow> Inl OsIoError
      | Some encrypted \<Rightarrow>
          (case decrypt_chunk_to (op_aead P) key encrypted (replicate (len - RECORD_OVERHEAD) 0)
                  (build_object_frame_ad (tag_for info index)) of
             (True, plain) \<Rightarrow> Inr plain
           | (False, _) \<Rightarrow> Inl OsAuthenticationFailed))"

definition table_digest :: "object_prims \<Rightarrow> bytes \<Rightarrow> bytes \<Rightarrow> bytes \<Rightarrow> bytes" where
  "table_digest P key header table =
     op_blake2b P 32 key (ascii ''OSV-V3-OBJECT-TABLE'' @ [0] @ header @ table)"

definition valid_write_request :: "object_write_request \<Rightarrow> bool" where
  "valid_write_request r \<longleftrightarrow> valid_object_id (wr_vault r) \<and> valid_object_id (wr_owner r) \<and>
     wr_limit r \<noteq> 0 \<and> wr_limit r \<le> OBJECT_MAX_FRAME_PLAIN"

definition valid_expected_info :: "object_info \<Rightarrow> bool" where
  "valid_expected_info e \<longleftrightarrow> valid_object_id (oi_object e) \<and> valid_object_id (oi_vault e) \<and>
     valid_object_id (oi_owner e) \<and> oi_limit e \<noteq> 0 \<and> oi_limit e \<le> OBJECT_MAX_FRAME_PLAIN \<and>
     oi_frames e \<le> OBJECT_MAX_FRAMES"

definition build_object_preamble :: "bytes \<Rightarrow> bytes \<Rightarrow> u32 \<Rightarrow> bytes" where
  "build_object_preamble vault_id object_id limit = (
     let out = replicate OBJECT_PREAMBLE_SIZE 0;
         out = put_bytes_at out 0 OBJECT_MAGIC;
         out = put_u16_at out 8 OBJECT_FORMAT_VERSION;
         out = put_u16_at out 10 (of_nat OBJECT_PREAMBLE_SIZE);
         out = put_bytes_at out 16 vault_id;
         out = put_bytes_at out 32 object_id
     in put_u32_at out 48 limit)"

section \<open>Writing\<close>

text \<open>
  The outcomes a write meets: the drawn identity, the staging file, the nonce of each record, each
  \<open>write_all\<close>, the final sync and the publication.  Records and writes are numbered in order.
\<close>

record write_env =
  we_id :: "bytes option"
  we_staging :: bool
  we_nonce :: "nat \<Rightarrow> bytes option"
  we_write :: "nat \<Rightarrow> bool"
  we_sync :: bool
  we_publish :: publish_env

definition generate_object_id :: "bytes option \<Rightarrow> bytes option" where
  "generate_object_id random =
     (case random of None \<Rightarrow> None | Some i \<Rightarrow> if valid_object_id i then Some i else None)"

text \<open>\<open>encrypt_record\<close> and \<open>write_all\<close> of one record, the pair every record goes through.\<close>

definition put_record ::
  "object_prims \<Rightarrow> write_env \<Rightarrow> bytes \<Rightarrow> object_info \<Rightarrow> nat \<Rightarrow> u32 \<Rightarrow> bytes \<Rightarrow> bytes \<Rightarrow> (bytes \<times> bytes) option" where
  "put_record P e key info k index plain staging =
     (case encrypt_record P (we_nonce e k) key info index plain of
        None \<Rightarrow> None
      | Some rec \<Rightarrow> if \<not> we_write e (Suc k) then None else Some (staging @ rec, rec))"

fun write_frames ::
  "object_prims \<Rightarrow> write_env \<Rightarrow> bytes \<Rightarrow> object_info \<Rightarrow> (nat \<Rightarrow> nat \<Rightarrow> bytes option) \<Rightarrow> nat list \<Rightarrow>
   bytes \<times> object_entry list \<times> nat \<Rightarrow> object_status + bytes \<times> object_entry list \<times> nat" where
  "write_frames P e key info read [] st = Inr st"
| "write_frames P e key info read (frame # frames) (staging, entries, file_offset) =
     (let start = frame * unat (oi_limit info);
          len = min (unat (oi_limit info)) (unat (oi_plain info) - start)
      in case read start len of
           None \<Rightarrow> Inl OsIoError
         | Some frame_plain \<Rightarrow>
             (let framed = encode_frame (op_miniz P) frame_plain
              in case put_record P e key info (Suc frame) (of_nat frame) framed staging of
                   None \<Rightarrow> Inl OsIoError
                 | Some (staging', rec) \<Rightarrow>
                     write_frames P e key info read frames
                       (staging',
                        entries @ [\<lparr>en_offset = of_nat file_offset, en_length = of_nat (length rec),
                                    en_plain = of_nat len, en_compression = framed ! 0\<rparr>],
                        file_offset + length rec)))"

definition object_header :: "object_info \<Rightarrow> bytes" where
  "object_header info = (
     let header = replicate 64 0;
         header = header[0 := 0];
         header = header[1 := role_byte (oi_role info)];
         header = header[2 := oi_format info];
         header = put_bytes_at header 4 (oi_owner info);
         header = put_u64_at header 20 (oi_plain info);
         header = put_u32_at header 28 (oi_limit info)
     in put_u32_at header 32 (oi_frames info))"

definition put_entry :: "object_entry list \<Rightarrow> nat \<Rightarrow> bytes \<Rightarrow> bytes" where
  "put_entry entries i table = (
     let at = 8 + i * 24;
         table = put_u64_at table at (en_offset (entries ! i));
         table = put_u64_at table (at + 8) (en_length (entries ! i));
         table = put_u32_at table (at + 16) (en_plain (entries ! i))
     in table[at + 20 := en_compression (entries ! i)])"

definition object_table :: "object_info \<Rightarrow> object_entry list \<Rightarrow> bytes" where
  "object_table info entries = (
     let table = replicate (8 + length entries * 24) 0;
         table = put_u16_at table 0 1;
         table = put_u16_at table 2 24;
         table = put_u32_at table 4 (oi_frames info)
     in fold (put_entry entries) [0..<length entries] table)"

definition object_footer :: "object_info \<Rightarrow> nat \<Rightarrow> nat \<Rightarrow> nat \<Rightarrow> bytes \<Rightarrow> bytes" where
  "object_footer info table_offset table_record_length file_offset digest = (
     let footer = replicate 64 0;
         footer = footer[0 := 2];
         footer = footer[1 := role_byte (oi_role info)];
         footer = put_u16_at footer 2 1;
         footer = put_u32_at footer 4 (oi_frames info);
         footer = put_u64_at footer 8 (of_nat table_offset);
         footer = put_u64_at footer 16 (of_nat table_record_length);
         footer = put_u64_at footer 24 (of_nat (file_offset + FOOTER_RECORD_SIZE))
     in put_bytes_at footer 32 digest)"

text \<open>The bytes of the staging file: \<open>Inl\<close> is the status of an early return.\<close>

definition write_staging ::
  "object_prims \<Rightarrow> write_env \<Rightarrow> bytes \<Rightarrow> object_info \<Rightarrow> (nat \<Rightarrow> nat \<Rightarrow> bytes option) \<Rightarrow> object_status + bytes" where
  "write_staging P e key info read =
     (if \<not> we_write e 0 then Inl OsIoError
      else let header = object_header info;
               n = unat (oi_frames info);
               preamble = build_object_preamble (oi_vault info) (oi_object info) (oi_limit info)
      in case put_record P e key info 0 HEADER_INDEX header preamble of
        None \<Rightarrow> Inl OsIoError
      | Some (staging, _) \<Rightarrow>
          (case write_frames P e key info read [0..<n] (staging, [], OBJECT_PREAMBLE_SIZE + HEADER_RECORD_SIZE) of
             Inl status \<Rightarrow> Inl status
           | Inr (staging, entries, file_offset) \<Rightarrow>
               (let table = object_table info entries; table_offset = file_offset
                in case put_record P e key info (Suc n) TABLE_INDEX table staging of
                     None \<Rightarrow> Inl OsIoError
                   | Some (staging, rec) \<Rightarrow>
                       (let file_offset = file_offset + length rec;
                            footer = object_footer info table_offset (length rec) file_offset
                              (table_digest P key header table)
                        in case put_record P e key info (Suc (Suc n)) FOOTER_INDEX footer staging of
                             None \<Rightarrow> Inl OsIoError
                           | Some (staging, rec) \<Rightarrow> if \<not> we_sync e then Inl OsIoError else Inr staging))))"

text \<open>
  \<open>write_object_stream\<close>: status, the info it reports and the states of the object tree.  A staging file
  is not part of the tree; its destructor removes it when it was not published.  On success the
  reported length is that of the file.
\<close>

definition write_object_stream ::
  "object_prims \<Rightarrow> write_env \<Rightarrow> bytes \<Rightarrow> object_write_request \<Rightarrow> u64 \<Rightarrow> (nat \<Rightarrow> nat \<Rightarrow> bytes option) \<Rightarrow>
   vault_root \<Rightarrow> object_status \<times> object_info option \<times> vault_root list" where
  "write_object_stream P e master_key request plaintext_length read root =
     (if \<not> valid_write_request request then (OsInvalidArgument, None, [root])
      else case object_frame_count plaintext_length (wr_limit request) of
        None \<Rightarrow> (OsInvalidArgument, None, [root])
      | Some frame_count \<Rightarrow>
          (case generate_object_id (we_id e) of
             None \<Rightarrow> (OsIoError, None, [root])
           | Some i \<Rightarrow>
               if \<not> we_staging e then (OsIoError, None, [root])
               else let info = \<lparr>oi_object = i, oi_vault = wr_vault request, oi_owner = wr_owner request,
                          oi_role = wr_role request, oi_format = wr_format request,
                          oi_plain = plaintext_length, oi_encrypted = 0, oi_limit = wr_limit request,
                          oi_frames = frame_count\<rparr>;
                        key = derive_object_key (op_blake2b P) master_key (wr_vault request) i
               in case write_staging P e key info read of
                    Inl status \<Rightarrow> (status, Some info, [root])
                  | Inr staging \<Rightarrow>
                      (let info = info\<lparr>oi_encrypted := of_nat (length staging)\<rparr>
                       in case publish (we_publish e) i staging root of
                            (False, roots) \<Rightarrow> (OsIoError, Some info, roots)
                          | (True, roots) \<Rightarrow> (OsOk, Some info, roots))))"

definition write_object ::
  "object_prims \<Rightarrow> write_env \<Rightarrow> bytes \<Rightarrow> object_write_request \<Rightarrow> bytes \<Rightarrow> vault_root \<Rightarrow>
   object_status \<times> object_info option \<times> vault_root list" where
  "write_object P e master_key request plaintext root =
     write_object_stream P e master_key request (of_nat (length plaintext))
       (\<lambda>offset n. if offset > length plaintext \<or> n > length plaintext - offset then None
                    else Some (take n (drop offset plaintext))) root"

definition write_video_object_stream ::
  "object_prims \<Rightarrow> write_env \<Rightarrow> bytes \<Rightarrow> bytes \<Rightarrow> bytes \<Rightarrow> byte \<Rightarrow> u64 \<Rightarrow> (nat \<Rightarrow> nat \<Rightarrow> bytes option) \<Rightarrow>
   vault_root \<Rightarrow> object_status \<times> object_info option \<times> vault_root list" where
  "write_video_object_stream P e master_key vault_id owner format plaintext_length read root =
     write_object_stream P e master_key
       \<lparr>wr_vault = vault_id, wr_owner = owner, wr_role = OriginalVideo, wr_format = format,
        wr_limit = VIDEO_OBJECT_FRAME_PLAIN\<rparr> plaintext_length read root"

section \<open>Reading\<close>

record object_reader =
  or_file :: bytes
  or_key :: bytes
  or_info :: object_info
  or_entries :: "object_entry list"

definition table_entry :: "bytes \<Rightarrow> nat \<Rightarrow> object_entry" where
  "table_entry table i = (
     let at = 8 + i * 24
     in \<lparr>en_offset = get_u64_at table at, en_length = get_u64_at table (at + 8),
         en_plain = get_u32_at table (at + 16), en_compression = table ! (at + 20)\<rparr>)"

fun check_entries ::
  "object_info \<Rightarrow> bytes \<Rightarrow> nat \<Rightarrow> nat list \<Rightarrow> nat \<times> nat \<times> object_entry list \<Rightarrow>
   (nat \<times> nat \<times> object_entry list) option" where
  "check_entries expected table table_offset [] st = Some st"
| "check_entries expected table table_offset (i # is) (prior_end, plain_sum, entries) =
     (let at = 8 + i * 24; entry = table_entry table i
      in if unat (en_offset entry) \<noteq> prior_end \<or> unat (en_length entry) < RECORD_OVERHEAD + 1 \<or>
            unat (en_length entry) > unat (oi_limit expected) + RECORD_OVERHEAD + DEFLATE_HDR + 64 \<or>
            en_plain entry > oi_limit expected \<or> en_compression entry > 1 \<or>
            table ! (at + 21) \<noteq> 0 \<or> table ! (at + 22) \<noteq> 0 \<or> table ! (at + 23) \<noteq> 0 \<or>
            unat (en_length entry) > table_offset - unat (en_offset entry) then None
         else check_entries expected table table_offset is
                (unat (en_offset entry) + unat (en_length entry), plain_sum + unat (en_plain entry),
                 entries @ [entry]))"

definition preamble_ok :: "object_info \<Rightarrow> bytes \<Rightarrow> bool" where
  "preamble_ok expected preamble \<longleftrightarrow> take 8 preamble = OBJECT_MAGIC \<and>
     get_u16_at preamble 8 = OBJECT_FORMAT_VERSION \<and> get_u16_at preamble 10 = 64 \<and>
     get_u32_at preamble 12 = 0 \<and> get_bytes_at preamble 16 16 = oi_vault expected \<and>
     get_bytes_at preamble 32 16 = oi_object expected \<and> get_u32_at preamble 48 = oi_limit expected \<and>
     list_all (\<lambda>b. b = 0) (drop 52 preamble)"

definition header_matches :: "object_info \<Rightarrow> bytes \<Rightarrow> bool" where
  "header_matches expected header \<longleftrightarrow> header ! 0 = 0 \<and> header ! 1 = role_byte (oi_role expected) \<and>
     header ! 2 = oi_format expected \<and> header ! 3 = 0 \<and>
     get_bytes_at header 4 16 = oi_owner expected \<and> get_u64_at header 20 = oi_plain expected \<and>
     get_u32_at header 28 = oi_limit expected \<and> get_u32_at header 32 = oi_frames expected \<and>
     list_all (\<lambda>b. b = 0) (drop 36 header)"

definition footer_matches :: "object_info \<Rightarrow> nat \<Rightarrow> bytes \<Rightarrow> bool" where
  "footer_matches expected file_size footer \<longleftrightarrow> footer ! 0 = 2 \<and> footer ! 1 = role_byte (oi_role expected) \<and>
     get_u16_at footer 2 = 1 \<and> get_u32_at footer 4 = oi_frames expected \<and>
     unat (get_u64_at footer 24) = file_size \<and> unat (get_u64_at footer 8) \<ge> 64 + HEADER_RECORD_SIZE \<and>
     unat (get_u64_at footer 16) = RECORD_OVERHEAD + 8 + unat (oi_frames expected) * 24 \<and>
     unat (get_u64_at footer 8) \<le> file_size - FOOTER_RECORD_SIZE \<and>
     unat (get_u64_at footer 16) = file_size - FOOTER_RECORD_SIZE - unat (get_u64_at footer 8)"

text \<open>\<open>ObjectReader::open\<close> on what \<open>open_object\<close> gave.\<close>

definition reader_open ::
  "object_prims \<Rightarrow> bytes \<Rightarrow> object_info \<Rightarrow> bytes option \<Rightarrow> object_status + object_reader" where
  "reader_open P master_key expected opened =
     (if \<not> valid_expected_info expected then Inl OsInvalidArgument
      else case opened of None \<Rightarrow> Inl OsIoError
      | Some file \<Rightarrow>
     let file_size = length file in
     if file_size < OBJECT_PREAMBLE_SIZE + HEADER_RECORD_SIZE + FOOTER_RECORD_SIZE \<or>
        (oi_encrypted expected \<noteq> 0 \<and> file_size \<noteq> unat (oi_encrypted expected)) then Inl OsCorrupt
     else case object_read_at file 0 OBJECT_PREAMBLE_SIZE of None \<Rightarrow> Inl OsIoError
     | Some preamble \<Rightarrow>
     if \<not> preamble_ok expected preamble then Inl OsCorrupt
     else let key = derive_object_key (op_blake2b P) master_key (oi_vault expected) (oi_object expected) in
     case decrypt_record P file key expected HEADER_INDEX 64 HEADER_RECORD_SIZE of Inl s \<Rightarrow> Inl s
     | Inr header \<Rightarrow>
     if \<not> header_matches expected header then Inl OsCorrupt
     else case decrypt_record P file key expected FOOTER_INDEX (file_size - FOOTER_RECORD_SIZE) FOOTER_RECORD_SIZE of
       Inl s \<Rightarrow> Inl s
     | Inr footer \<Rightarrow>
     if \<not> footer_matches expected file_size footer then Inl OsCorrupt
     else let table_offset = unat (get_u64_at footer 8); table_length = unat (get_u64_at footer 16) in
     case decrypt_record P file key expected TABLE_INDEX table_offset table_length of Inl s \<Rightarrow> Inl s
     | Inr table \<Rightarrow>
     if length table \<noteq> 8 + unat (oi_frames expected) * 24 \<or> get_u16_at table 0 \<noteq> 1 \<or>
        get_u16_at table 2 \<noteq> 24 \<or> get_u32_at table 4 \<noteq> oi_frames expected then Inl OsCorrupt
     else if table_digest P key header table \<noteq> get_bytes_at footer 32 32 then Inl OsCorrupt
     else case check_entries expected table table_offset [0..<unat (oi_frames expected)]
                 (64 + HEADER_RECORD_SIZE, 0, []) of
       None \<Rightarrow> Inl OsCorrupt
     | Some (prior_end, plain_sum, entries) \<Rightarrow>
         if prior_end \<noteq> table_offset \<or> plain_sum \<noteq> unat (oi_plain expected) then Inl OsCorrupt
         else Inr \<lparr>or_file = file, or_key = key, or_info = expected, or_entries = entries\<rparr>)"

definition read_frame :: "object_prims \<Rightarrow> object_reader \<Rightarrow> nat \<Rightarrow> object_status + bytes" where
  "read_frame P r index =
     (if index \<ge> length (or_entries r) then Inl OsInvalidArgument
      else let entry = or_entries r ! index in
        case decrypt_record P (or_file r) (or_key r) (or_info r) (of_nat index)
               (unat (en_offset entry)) (unat (en_length entry)) of
          Inl s \<Rightarrow> Inl s
        | Inr framed \<Rightarrow>
            (if framed = [] \<or> framed ! 0 \<noteq> en_compression entry then Inl OsCorrupt
             else case decode_frame (op_miniz P) framed of
               None \<Rightarrow> Inl OsCorrupt
             | Some out \<Rightarrow> if length out \<noteq> unat (en_plain entry) then Inl OsCorrupt else Inr out))"

text \<open>
  One round of the loop of \<open>read_range\<close>: what it copies from a frame that starts at \<open>frame_start\<close>,
  nothing when the frame does not meet the range.
\<close>

definition frame_part ::
  "object_prims \<Rightarrow> object_reader \<Rightarrow> nat \<Rightarrow> nat \<Rightarrow> nat \<Rightarrow> nat \<Rightarrow> object_status + bytes" where
  "frame_part P r offset wanted_end i frame_start =
     (let frame_end = frame_start + unat (en_plain (or_entries r ! i))
      in if frame_end > offset \<and> frame_start < wanted_end then
           (case read_frame P r i of
              Inl s \<Rightarrow> Inl s
            | Inr frame \<Rightarrow>
                (let frm = max offset frame_start - frame_start; til = min wanted_end frame_end - frame_start
                 in Inr (take (til - frm) (drop frm frame))))
         else Inr [])"

fun read_range_loop ::
  "object_prims \<Rightarrow> object_reader \<Rightarrow> nat \<Rightarrow> nat \<Rightarrow> nat list \<Rightarrow> nat \<Rightarrow> bytes \<Rightarrow> object_status + bytes" where
  "read_range_loop P r offset len [] frame_start out = Inr out"
| "read_range_loop P r offset len (i # is) frame_start out =
     (if \<not> length out < len then Inr out
      else case frame_part P r offset (offset + len) i frame_start of
        Inl s \<Rightarrow> Inl s
      | Inr part \<Rightarrow>
          read_range_loop P r offset len is (frame_start + unat (en_plain (or_entries r ! i))) (out @ part))"

definition read_range :: "object_prims \<Rightarrow> object_reader \<Rightarrow> nat \<Rightarrow> nat \<Rightarrow> object_status + bytes" where
  "read_range P r offset len =
     (let total = unat (oi_plain (or_info r))
      in if offset > total \<or> len > total - offset then Inl OsInvalidArgument
         else case read_range_loop P r offset len [0..<length (or_entries r)] 0 [] of
           Inl s \<Rightarrow> Inl s
         | Inr out \<Rightarrow> if length out = len then Inr out else Inl OsCorrupt)"

definition read_all :: "object_prims \<Rightarrow> object_reader \<Rightarrow> object_status + bytes" where
  "read_all P r = read_range P r 0 (unat (oi_plain (or_info r)))"

definition inspect_object ::
  "object_prims \<Rightarrow> bytes \<Rightarrow> object_info \<Rightarrow> bytes option \<Rightarrow> object_status \<times> object_info" where
  "inspect_object P master_key expected opened =
     (case reader_open P master_key expected opened of
        Inl s \<Rightarrow> (s, expected)
      | Inr r \<Rightarrow> (OsOk, or_info r))"
end
