(* ===== verification/V3_Object_Proofs.thy ===== *)
theory V3_Object_Proofs
  imports V3_Object
begin

text \<open>
  What the object files of \<open>V3_Object\<close> guarantee: the layouts as concatenations, random access as
  slices of the whole, and the round trip through the published file.
\<close>

section \<open>Buffers filled from the front\<close>

definition filled :: "nat \<Rightarrow> bytes \<Rightarrow> bytes" where
  "filled n xs = xs @ replicate (n - length xs) 0"

lemma filled_Nil: "replicate n 0 = filled n []"
  by (simp add: filled_def)

lemma length_filled: "length xs \<le> n \<Longrightarrow> length (filled n xs) = n"
  by (simp add: filled_def)

lemma put_filled:
  assumes "length xs \<le> off" "off + length bs \<le> n"
  shows "put_bytes_at (filled n xs) off bs = filled n (xs @ replicate (off - length xs) 0 @ bs)"
proof -
  have "n - length xs = (off - length xs) + length bs + (n - off - length bs)" using assms by simp
  then have "filled n xs = xs @ replicate (off - length xs) 0 @ replicate (length bs) 0 @ replicate (n - off - length bs) 0"
    by (simp add: filled_def replicate_add)
  then show ?thesis using assms by (simp add: put_bytes_at_def filled_def)
qed

lemma put_word_filled:
  "length xs \<le> off \<Longrightarrow> off + 1 \<le> n \<Longrightarrow> (filled n xs)[off := b] = filled n (xs @ replicate (off - length xs) 0 @ [b])"
  "length xs \<le> off \<Longrightarrow> off + 2 \<le> n \<Longrightarrow> put_u16_at (filled n xs) off v = filled n (xs @ replicate (off - length xs) 0 @ le_bytes 2 v)"
  "length xs \<le> off \<Longrightarrow> off + 4 \<le> n \<Longrightarrow> put_u32_at (filled n xs) off w = filled n (xs @ replicate (off - length xs) 0 @ le_bytes 4 w)"
  "length xs \<le> off \<Longrightarrow> off + 8 \<le> n \<Longrightarrow> put_u64_at (filled n xs) off x = filled n (xs @ replicate (off - length xs) 0 @ le_bytes 8 x)"
  using put_u8_at_slice[of off "filled n xs" b]
  by (simp_all add: put_u16_at_slice put_u32_at_slice put_u64_at_slice length_filled put_filled put_u8_at_def)

lemmas fill_simps = put_filled put_word_filled

lemma object_header_eq:
  assumes "length (oi_owner info) = 16"
  shows "object_header info = [0, role_byte (oi_role info), oi_format info, 0] @ oi_owner info @
    le_bytes 8 (oi_plain info) @ le_bytes 4 (oi_limit info) @ le_bytes 4 (oi_frames info) @ replicate 28 0"
  unfolding object_header_def Let_def filled_Nil
  by (simp add: fill_simps assms del: replicate.simps) (simp add: filled_def assms)

lemma object_footer_eq:
  assumes "length digest = 32"
  shows "object_footer info toff tlen fo digest = [2, role_byte (oi_role info)] @ le_bytes 2 (1 :: u16) @
    le_bytes 4 (oi_frames info) @ le_bytes 8 (of_nat toff :: u64) @ le_bytes 8 (of_nat tlen :: u64) @
    le_bytes 8 (of_nat (fo + FOOTER_RECORD_SIZE) :: u64) @ digest"
  unfolding object_footer_def Let_def filled_Nil
  by (simp add: fill_simps assms del: of_nat_add) (simp add: filled_def assms)

lemma preamble_eq:
  assumes "length vid = 16" "length i = 16"
  shows "build_object_preamble vid i limit = OBJECT_MAGIC @ le_bytes 2 OBJECT_FORMAT_VERSION @
    le_bytes 2 (of_nat OBJECT_PREAMBLE_SIZE :: u16) @ replicate 4 0 @ vid @ i @ le_bytes 4 limit @ replicate 12 0"
proof -
  have m: "length OBJECT_MAGIC = 8" by (simp add: OBJECT_MAGIC_def ascii_def)
  show ?thesis unfolding build_object_preamble_def Let_def OBJECT_PREAMBLE_SIZE_def filled_Nil[of 64]
    by (simp add: fill_simps m assms) (simp add: filled_def assms m)
qed

definition entry_bytes :: "object_entry \<Rightarrow> bytes" where
  "entry_bytes e = le_bytes 8 (en_offset e) @ le_bytes 8 (en_length e) @ le_bytes 4 (en_plain e) @
     [en_compression e] @ replicate 3 0"

lemma length_entry_bytes [simp]: "length (entry_bytes e) = 24"
  by (simp add: entry_bytes_def)

lemma length_entries_bytes [simp]: "length (concat (map entry_bytes es)) = length es * 24"
  by (induction es) simp_all

lemma put_entry_filled:
  assumes "i < length es" "length xs = 8 + i * 24" "8 + (i + 1) * 24 \<le> n"
  shows "put_entry es i (filled n xs) = filled n (xs @ entry_bytes (es ! i))"
proof -
  have "put_entry es i (filled n xs) = filled n (xs @ le_bytes 8 (en_offset (es ! i)) @ le_bytes 8 (en_length (es ! i)) @
      le_bytes 4 (en_plain (es ! i)) @ [en_compression (es ! i)])"
    using assms by (simp add: put_entry_def Let_def fill_simps)
  also have "\<dots> = filled n (xs @ entry_bytes (es ! i))"
  proof -
    let ?b = "le_bytes 8 (en_offset (es ! i)) @ le_bytes 8 (en_length (es ! i)) @ le_bytes 4 (en_plain (es ! i)) @
      [en_compression (es ! i)]"
    have n: "n - (8 + i * 24 + 21) = 3 + (n - (8 + i * 24 + 24))" using assms(3) by simp
    have l: "length (xs @ ?b) = 8 + i * 24 + 21" "length (xs @ ?b @ replicate 3 0) = 8 + i * 24 + 24"
      using assms(2) by simp_all
    have "filled n (xs @ ?b) = (xs @ ?b) @ replicate 3 0 @ replicate (n - (8 + i * 24 + 24)) 0"
      by (simp only: filled_def l n replicate_add)
    also have "\<dots> = filled n (xs @ ?b @ replicate 3 0)" unfolding filled_def l by (simp only: append_assoc)
    finally show ?thesis by (simp only: entry_bytes_def append_assoc)
  qed
  finally show ?thesis .
qed

lemma object_table_eq:
  "object_table info es = le_bytes 2 (1 :: u16) @ le_bytes 2 (24 :: u16) @ le_bytes 4 (oi_frames info) @
     concat (map entry_bytes es)"
proof -
  let ?n = "8 + length es * 24" and ?h = "le_bytes 2 (1 :: u16) @ le_bytes 2 (24 :: u16) @ le_bytes 4 (oi_frames info)"
  have loop: "k \<le> length es \<Longrightarrow> fold (put_entry es) [0..<k] (filled ?n ?h) = filled ?n (?h @ concat (map entry_bytes (take k es)))" for k
  proof (induction k)
    case (Suc k)
    then show ?case using put_entry_filled[of k es "?h @ concat (map entry_bytes (take k es))" ?n]
      by (simp add: take_Suc_conv_app_nth)
  qed simp
  have "put_u32_at (put_u16_at (put_u16_at (replicate ?n 0) 0 1) 2 24) 4 (oi_frames info) = filled ?n ?h"
    unfolding filled_Nil by (simp add: fill_simps)
  then have "object_table info es = filled ?n (?h @ concat (map entry_bytes es))"
    using loop[of "length es"] by (simp add: object_table_def Let_def)
  then show ?thesis by (simp add: filled_def)
qed

section \<open>Random access\<close>

text \<open>A reader whose frames all decode, with \<open>fs\<close> what they decode to.\<close>

definition frames_read :: "object_prims \<Rightarrow> object_reader \<Rightarrow> bytes list \<Rightarrow> bool" where
  "frames_read P r fs \<longleftrightarrow> length fs = length (or_entries r) \<and>
     (\<forall>i < length fs. read_frame P r i = Inr (fs ! i) \<and> length (fs ! i) = unat (en_plain (or_entries r ! i)))"

lemma frame_part_slice:
  assumes "frames_read P r fs" "i < length fs"
  shows "frame_part P r off stop i n = Inr (take (stop - max off n) (drop (off - n) (fs ! i)))"
proof -
  let ?f = "fs ! i"
  have f: "read_frame P r i = Inr ?f" "unat (en_plain (or_entries r ! i)) = length ?f"
    using assms by (auto simp: frames_read_def)
  show ?thesis
  proof (cases "n + length ?f > off \<and> n < stop")
    case True
    have "min stop (n + length ?f) - n - (max off n - n) = min (stop - max off n) (length ?f - (off - n))"
      using True by (cases "off \<le> n"; cases "stop \<le> n + length ?f") (auto simp: min_def max_def)
    moreover have "max off n - n = off - n" by (simp add: max_def)
    ultimately show ?thesis using True f by (simp add: frame_part_def Let_def take_take[symmetric] del: take_take)
  next
    case False
    then show ?thesis using f by (auto simp: frame_part_def Let_def not_less)
  qed
qed

lemma range_loop_slice:
  assumes "frames_read P r fs" "i \<le> length fs"
  shows "read_range_loop P r off len [i..<length fs] (length (concat (take i fs)))
      (take len (drop off (concat (take i fs)))) = Inr (take len (drop off (concat fs)))"
  using assms(2)
proof (induction "length fs - i" arbitrary: i)
  case 0
  then show ?case by simp
next
  case (Suc k)
  then have i: "i < length fs" by simp
  define c where "c = concat (take i fs)"
  have step: "concat (take (Suc i) fs) = c @ fs ! i" using i by (simp add: c_def take_Suc_conv_app_nth)
  have plain: "unat (en_plain (or_entries r ! i)) = length (fs ! i)" using assms(1) i by (auto simp: frames_read_def)
  show ?case
  proof (cases "length (take len (drop off c)) < len")
    case True
    then have short: "length c < off + len" by simp
    have "frame_part P r off (off + len) i (length c) = Inr (take (len - (length c - off)) (drop (off - length c) (fs ! i)))"
      using frame_part_slice[OF assms(1) i, of off "off + len" "length c"] short by (simp add: max_def add.commute)
    moreover have "take len (drop off c) @ take (len - (length c - off)) (drop (off - length c) (fs ! i)) =
        take len (drop off (c @ fs ! i))" using short by simp
    ultimately show ?thesis
      using True i Suc(1)[of "Suc i"] Suc(2) by (simp add: upt_rec c_def[symmetric] step plain)
  next
    case False
    have "concat fs = c @ concat (drop i fs)" by (simp add: c_def flip: concat_append)
    then have "take len (drop off (concat fs)) = take len (drop off c)" using False by simp
    then show ?thesis using False i by (simp add: upt_rec c_def[symmetric])
  qed
qed

lemma read_range_slice:
  assumes "frames_read P r fs" "length (concat fs) = unat (oi_plain (or_info r))"
  shows "read_range P r off len = (if off + len \<le> length (concat fs) then Inr (take len (drop off (concat fs)))
     else Inl OsInvalidArgument)"
  using range_loop_slice[OF assms(1), of 0 off len] assms(1)
  by (auto simp: read_range_def Let_def assms(2)[symmetric] frames_read_def)

section \<open>Records\<close>

lemma decrypt_good_record:
  assumes A: "aead_laws (op_aead P)" and n: "length nonce = NONCE_SIZE"
    and c: "encrypt_record P (Some nonce) key info index p = Some c"
    and f: "off + length c \<le> length content" "take (length c) (drop off content) = c"
  shows "decrypt_record P content key info index off (length c) = Inr p"
proof -
  let ?ad = "build_object_frame_ad (tag_for info index)"
  have e: "encrypt_chunk (op_aead P) (Some nonce) key p ?ad = Some c" using c by (simp add: encrypt_record_def)
  have l: "length c = NONCE_SIZE + length p + TAG_SIZE" by (rule length_encrypt_chunk[OF A e n])
  have "decrypt_chunk (op_aead P) key c ?ad = Some p" using decrypt_chunk_iff[OF A] n e by blast
  then have "decrypt_chunk_to (op_aead P) key c (replicate (length p) 0) ?ad = (True, p)"
    by (auto simp: decrypt_chunk_def chunk_plaintext_len_def l split: prod.splits bool.splits)
  then show ?thesis using f l by (simp add: decrypt_record_def object_read_at_def RECORD_OVERHEAD_def sizes)
qed

lemma tag_for_encrypted [simp]: "tag_for (info\<lparr>oi_encrypted := x\<rparr>) = tag_for info"
  by (rule ext) (simp add: tag_for_def)

lemma decrypt_record_encrypted [simp]:
  "decrypt_record P file key (info\<lparr>oi_encrypted := x\<rparr>) = decrypt_record P file key info"
  by (intro ext) (simp add: decrypt_record_def split: option.split)

section \<open>The seek table\<close>

lemma drop_entries: "i < length es \<Longrightarrow> drop (i * 24) (concat (map entry_bytes es)) = entry_bytes (es ! i) @ concat (map entry_bytes (drop (Suc i) es))"
proof (induction i arbitrary: es)
  case 0
  then show ?case by (cases es) simp_all
next
  case (Suc i)
  then obtain e es' where es: "es = e # es'" by (cases es) auto
  have "drop (Suc i * 24) (concat (map entry_bytes es)) = drop (i * 24) (concat (map entry_bytes es'))" by (simp add: es)
  then show ?case using Suc by (simp add: es)
qed

lemma table_entry_object_table:
  assumes "i < length es"
  shows "table_entry (object_table info es) i = es ! i"
    "object_table info es ! (8 + i * 24 + 21) = 0" "object_table info es ! (8 + i * 24 + 22) = 0"
    "object_table info es ! (8 + i * 24 + 23) = 0"
proof -
  let ?t = "object_table info es" and ?at = "8 + i * 24"
  have len: "length ?t = 8 + length es * 24" by (simp add: object_table_eq)
  have in_t: "?at + 24 \<le> length ?t" using assms len by simp
  have d: "drop ?at ?t = entry_bytes (es ! i) @ concat (map entry_bytes (drop (Suc i) es))"
    using drop_entries[OF assms] by (simp add: object_table_eq add.commute)
  have dk: "drop (?at + k) ?t = drop k (entry_bytes (es ! i) @ concat (map entry_bytes (drop (Suc i) es)))" for k
    by (metis d drop_drop add.commute)
  have nth: "?t ! (?at + k) = entry_bytes (es ! i) ! k" if "k < 24" for k
  proof -
    have "?t ! (?at + k) = drop ?at ?t ! k" using in_t by simp
    then show ?thesis using that by (simp only: d nth_append length_entry_bytes if_True)
  qed
  have slices: "get_bytes_at ?t ?at 8 = le_bytes 8 (en_offset (es ! i))"
    "get_bytes_at ?t (?at + 8) 8 = le_bytes 8 (en_length (es ! i))"
    "get_bytes_at ?t (?at + 16) 4 = le_bytes 4 (en_plain (es ! i))"
    by (simp_all only: get_bytes_at_def d dk) (simp_all add: entry_bytes_def)
  have e: "entry_bytes (es ! i) ! 20 = en_compression (es ! i)" "entry_bytes (es ! i) ! 21 = 0"
    "entry_bytes (es ! i) ! 22 = 0" "entry_bytes (es ! i) ! 23 = 0"
    by (simp_all add: entry_bytes_def nth_append)
  show "table_entry ?t i = es ! i"
    using in_t slices nth[of 20] e
    by (simp add: table_entry_def Let_def get_u64_at_slice get_u32_at_slice le_value_le_bytes)
  show "?t ! (?at + 21) = 0" "?t ! (?at + 22) = 0" "?t ! (?at + 23) = 0"
    using nth[of 21] nth[of 22] nth[of 23] e by simp_all
qed

text \<open>Entries that lie one after the other from \<open>n\<close> to \<open>m\<close>.\<close>

fun tiled :: "nat \<Rightarrow> object_entry list \<Rightarrow> nat \<Rightarrow> bool" where
  "tiled n [] m = (n = m)"
| "tiled n (e # es) m = (unat (en_offset e) = n \<and> tiled (n + unat (en_length e)) es m)"

lemma tiled_snoc: "tiled n (es @ [e]) m \<longleftrightarrow> (\<exists>p. tiled n es p \<and> unat (en_offset e) = p \<and> m = p + unat (en_length e))"
  by (induction es arbitrary: n) auto

lemma tiled_le: "tiled n es m \<Longrightarrow> n \<le> m"
  by (induction es arbitrary: n) force+

definition entry_ok :: "object_info \<Rightarrow> object_entry \<Rightarrow> bool" where
  "entry_ok info e \<longleftrightarrow> RECORD_OVERHEAD + 1 \<le> unat (en_length e) \<and>
     unat (en_length e) \<le> unat (oi_limit info) + RECORD_OVERHEAD + DEFLATE_HDR + 64 \<and>
     en_plain e \<le> oi_limit info \<and> en_compression e \<le> 1"

lemma check_entries_table:
  assumes "\<forall>e \<in> set es. entry_ok info e" "k \<le> length es" "tiled p (drop k es) m"
  shows "check_entries info (object_table info' es) m [k..<length es] (p, s, take k es) =
    Some (m, s + sum_list (map (unat \<circ> en_plain) (drop k es)), es)"
  using assms(2,3)
proof (induction "length es - k" arbitrary: k p s)
  case 0
  then show ?case by simp
next
  case (Suc d)
  then have k: "k < length es" by simp
  let ?e = "es ! k"
  have dr: "drop k es = ?e # drop (Suc k) es" using k by (simp add: Cons_nth_drop_Suc)
  have t: "unat (en_offset ?e) = p" "tiled (p + unat (en_length ?e)) (drop (Suc k) es) m"
    using Suc.prems(2) unfolding dr by simp_all
  have ok: "entry_ok info ?e" using assms(1) k by simp
  have le: "p + unat (en_length ?e) \<le> m" using tiled_le[OF t(2)] .
  have "check_entries info (object_table info' es) m [Suc k..<length es]
      (p + unat (en_length ?e), s + unat (en_plain ?e), take (Suc k) es) =
    Some (m, s + unat (en_plain ?e) + sum_list (map (unat \<circ> en_plain) (drop (Suc k) es)), es)"
    using Suc(1)[of "Suc k"] Suc(2) t(2) k by simp
  then show ?case
    using k ok le t(1) table_entry_object_table[OF k, of info']
    by (simp add: upt_rec Let_def entry_ok_def dr take_Suc_conv_app_nth not_less not_le)
qed

section \<open>What the writer leaves in the file\<close>

definition chunk :: "object_info \<Rightarrow> bytes \<Rightarrow> nat \<Rightarrow> bytes" where
  "chunk info plain i = take (unat (oi_limit info)) (drop (i * unat (oi_limit info)) plain)"

lemma concat_chunks: "concat (map (chunk info plain) [0..<n]) = take (n * unat (oi_limit info)) plain"
proof (induction n)
  case (Suc n)
  then show ?case
    using take_add[of "n * unat (oi_limit info)" "unat (oi_limit info)" plain] by (simp add: chunk_def add.commute)
qed simp

text \<open>A record of the file that the writer sealed.\<close>

definition record_at :: "object_prims \<Rightarrow> bytes \<Rightarrow> object_info \<Rightarrow> bytes \<Rightarrow> u32 \<Rightarrow> bytes \<Rightarrow> nat \<Rightarrow> nat \<Rightarrow> bool" where
  "record_at P key info file index p off len \<longleftrightarrow> off + len \<le> length file \<and> len = RECORD_OVERHEAD + length p \<and>
     (\<exists>nonce. length nonce = NONCE_SIZE \<and>
        encrypt_record P (Some nonce) key info index p = Some (take len (drop off file)))"

lemma record_at_append: "record_at P key info file index p off len \<Longrightarrow> record_at P key info (file @ x) index p off len"
  by (auto simp: record_at_def)

lemma decrypt_record_at:
  assumes "aead_laws (op_aead P)" "record_at P key info file index p off len"
  shows "decrypt_record P file key info index off len = Inr p"
proof -
  obtain nonce where n: "length nonce = NONCE_SIZE"
    "encrypt_record P (Some nonce) key info index p = Some (take len (drop off file))" "off + len \<le> length file"
    using assms(2) by (auto simp: record_at_def)
  then have "length (take len (drop off file)) = len" by simp
  then show ?thesis using decrypt_good_record[OF assms(1) n(1,2), where off = off and content = "file"] n(3) by simp
qed

lemma put_record_at:
  assumes "aead_laws (op_aead P)" "\<forall>k n. we_nonce e k = Some n \<longrightarrow> length n = NONCE_SIZE"
    and "put_record P e key info k index p st = Some (st', rec)"
  shows "st' = st @ rec" "length rec = RECORD_OVERHEAD + length p"
    "record_at P key info st' index p (length st) (length rec)"
proof -
  obtain nonce where n: "we_nonce e k = Some nonce" "encrypt_record P (Some nonce) key info index p = Some rec" "st' = st @ rec"
    using assms(3) by (cases "we_nonce e k") (auto simp: put_record_def encrypt_record_def encrypt_chunk_def Let_def split: option.splits if_splits prod.splits)
  have l: "length nonce = NONCE_SIZE" using assms(2) n(1) by blast
  show "st' = st @ rec" by (rule n(3))
  show len: "length rec = RECORD_OVERHEAD + length p"
    using length_encrypt_chunk[OF assms(1) n(2)[unfolded encrypt_record_def] l] by (simp add: RECORD_OVERHEAD_def)
  show "record_at P key info st' index p (length st) (length rec)"
    using n l len by (auto simp: record_at_def)
qed

definition frame_written :: "object_prims \<Rightarrow> bytes \<Rightarrow> object_info \<Rightarrow> bytes \<Rightarrow> bytes \<Rightarrow> nat \<Rightarrow> object_entry \<Rightarrow> bool" where
  "frame_written P key info plain file i e \<longleftrightarrow>
     record_at P key info file (of_nat i) (encode_frame (op_miniz P) (chunk info plain i))
       (unat (en_offset e)) (unat (en_length e)) \<and>
     unat (en_plain e) = length (chunk info plain i) \<and>
     en_compression e = encode_frame (op_miniz P) (chunk info plain i) ! 0"

definition frames_inv :: "object_prims \<Rightarrow> bytes \<Rightarrow> object_info \<Rightarrow> bytes \<Rightarrow> nat \<Rightarrow> bytes \<Rightarrow> object_entry list \<Rightarrow> nat \<Rightarrow> bool" where
  "frames_inv P key info plain k st es off \<longleftrightarrow> length es = k \<and> off = length st \<and>
     tiled (64 + HEADER_RECORD_SIZE) es off \<and> off \<le> 64 + HEADER_RECORD_SIZE + k * (unat (oi_limit info) + 41) \<and>
     (\<forall>i < k. frame_written P key info plain st i (es ! i))"

lemma encode_frame_shape: "encode_frame Z p \<noteq> []" "encode_frame Z p ! 0 \<le> 1"
  by (cases Z p rule: encode_frame_cases; simp add: codec_consts)+

lemma write_frames_inv:
  assumes A: "aead_laws (op_aead P)" "\<forall>k n. we_nonce e k = Some n \<longrightarrow> length n = NONCE_SIZE"
    and read: "\<forall>off len bs. read off len = Some bs \<longrightarrow> bs = take len (drop off plain)"
    and len: "length plain = unat (oi_plain info)"
    and bounds: "unat (oi_limit info) \<le> 2 ^ 20" "n \<le> 2 ^ 20"
    and run: "write_frames P e key info read [k..<n] (st, es, off) = Inr (st', es', off')"
    and k: "k \<le> n" and inv: "frames_inv P key info plain k st es off"
  shows "frames_inv P key info plain n st' es' off' \<and> take (length st) st' = st"
  using run k inv
proof (induction "n - k" arbitrary: k st es off)
  case 0
  then show ?case by simp
next
  case (Suc d)
  then have kn: "k < n" by simp
  let ?L = "unat (oi_limit info)" and ?c = "chunk info plain k"
  let ?len = "min ?L (unat (oi_plain info) - k * ?L)" and ?f = "encode_frame (op_miniz P) (chunk info plain k)"
  have upt: "[k..<n] = k # [Suc k..<n]" using kn by (simp add: upt_rec)
  obtain bs st1 rec where r: "read (k * ?L) ?len = Some bs"
    and p: "put_record P e key info (Suc k) (of_nat k) (encode_frame (op_miniz P) bs) st = Some (st1, rec)"
    and rest: "write_frames P e key info read [Suc k..<n] (st1, es @ [\<lparr>en_offset = of_nat off,
        en_length = of_nat (length rec), en_plain = of_nat ?len,
        en_compression = encode_frame (op_miniz P) bs ! 0\<rparr>], off + length rec) = Inr (st', es', off')"
    using Suc.prems(1) unfolding upt by (auto simp: Let_def split: option.splits)
  have "bs = take ?len (drop (k * ?L) plain)" using r read by blast
  then have bs: "bs = ?c" by (simp add: chunk_def min_def len[symmetric])
  note rec = put_record_at[OF A p[unfolded bs]]
  let ?e = "\<lparr>en_offset = of_nat off, en_length = of_nat (length rec), en_plain = of_nat ?len, en_compression = ?f ! 0\<rparr>"
  have inv: "length es = k" "off = length st" "tiled (64 + HEADER_RECORD_SIZE) es off"
    "off \<le> 64 + HEADER_RECORD_SIZE + k * (?L + 41)" "\<forall>i < k. frame_written P key info plain st i (es ! i)"
    using Suc.prems(3) by (auto simp: frames_inv_def)
  have clen: "length ?c = ?len" using len by (simp add: chunk_def)
  have small: "length rec \<le> ?L + 41"
    using rec(2) length_encode_frame[of "op_miniz P" ?c] clen by (simp add: RECORD_OVERHEAD_def sizes)
  have "k * (?L + 41) \<le> 2 ^ 20 * (2 ^ 20 + 41)" using kn bounds by (intro mult_le_mono) simp_all
  then have u: "unat (of_nat off :: u64) = off" "unat (of_nat (length rec) :: u64) = length rec" "unat (of_nat ?len :: u32) = ?len"
    using inv(4) small bounds(1) by (auto simp: HEADER_RECORD_SIZE_def RECORD_OVERHEAD_def sizes intro!: unat_of_nat_small)
  have "frame_written P key info plain st1 k ?e"
    using rec(3) by (simp add: frame_written_def u u[unfolded inv(2)] inv(2) clen)
  moreover have "frame_written P key info plain st1 i (es ! i)" if "i < k" for i
    using inv(5) that record_at_append rec(1) by (auto simp: frame_written_def)
  ultimately have "frames_inv P key info plain (Suc k) st1 (es @ [?e]) (off + length rec)"
    using inv(1-4) small rec(1) by (auto simp: frames_inv_def tiled_snoc u u[unfolded inv(2)] nth_append less_Suc_eq)
  then have "frames_inv P key info plain n st' es' off' \<and> take (length st1) st' = st1"
    using Suc(1)[of "Suc k"] Suc(2) kn rest[unfolded bs] by simp
  then show ?case using rec(1) by (metis append_eq_conv_conj take_append take_take min.absorb1 le_add1 length_append append_take_drop_id)
qed

text \<open>Everything the writer put into a staging file.\<close>

definition object_written :: "object_prims \<Rightarrow> bytes \<Rightarrow> object_info \<Rightarrow> bytes \<Rightarrow> bytes \<Rightarrow> object_entry list \<Rightarrow> nat \<Rightarrow> bool" where
  "object_written P key info plain file es toff \<longleftrightarrow>
     (let header = object_header info; table = object_table info es; tlen = RECORD_OVERHEAD + length table;
          footer = object_footer info toff tlen (toff + tlen) (table_digest P key header table) in
      length es = unat (oi_frames info) \<and> length file < 2 ^ 63 \<and>
      length file = toff + tlen + FOOTER_RECORD_SIZE \<and>
      take 64 file = build_object_preamble (oi_vault info) (oi_object info) (oi_limit info) \<and>
      record_at P key info file HEADER_INDEX header 64 HEADER_RECORD_SIZE \<and>
      record_at P key info file TABLE_INDEX table toff tlen \<and>
      record_at P key info file FOOTER_INDEX footer (toff + tlen) FOOTER_RECORD_SIZE \<and>
      tiled (64 + HEADER_RECORD_SIZE) es toff \<and>
      (\<forall>i < length es. frame_written P key info plain file i (es ! i)))"

lemma frame_written_append:
  "frame_written P key info plain file i e \<Longrightarrow> frame_written P key info plain (file @ x) i e"
  by (simp add: frame_written_def record_at_append)

lemma length_table: "length (object_table info es) = 8 + length es * 24"
  by (simp add: object_table_eq)

lemma write_staging_written:
  assumes A: "aead_laws (op_aead P)" "\<forall>k n. we_nonce e k = Some n \<longrightarrow> length n = NONCE_SIZE"
    and B: "\<forall>n k m. length (op_blake2b P n k m) = n"
    and read: "\<forall>off len bs. read off len = Some bs \<longrightarrow> bs = take len (drop off plain)"
    and len: "length plain = unat (oi_plain info)"
    and bounds: "unat (oi_limit info) \<le> 2 ^ 20" "unat (oi_frames info) \<le> 2 ^ 20"
    and ids: "length (oi_vault info) = 16" "length (oi_object info) = 16" "length (oi_owner info) = 16"
    and run: "write_staging P e key info read = Inr file"
  shows "\<exists>es toff. object_written P key info plain file es toff"
proof -
  let ?n = "unat (oi_frames info)" and ?h = "object_header info"
  let ?p = "build_object_preamble (oi_vault info) (oi_object info) (oi_limit info)"
  obtain s1 r1 s2 es off s3 r3 s4 r4 where
    h: "put_record P e key info 0 HEADER_INDEX ?h ?p = Some (s1, r1)"
    and f: "write_frames P e key info read [0..<?n] (s1, [], OBJECT_PREAMBLE_SIZE + HEADER_RECORD_SIZE) = Inr (s2, es, off)"
    and t: "put_record P e key info (Suc ?n) TABLE_INDEX (object_table info es) s2 = Some (s3, r3)"
    and o: "put_record P e key info (Suc (Suc ?n)) FOOTER_INDEX
        (object_footer info off (length r3) (off + length r3) (table_digest P key ?h (object_table info es))) s3 = Some (s4, r4)"
    and content: "file = s4"
    using run by (auto simp: write_staging_def Let_def split: if_splits option.splits sum.splits prod.splits)
  note h' = put_record_at[OF A h] and t' = put_record_at[OF A t] and o' = put_record_at[OF A o]
  have pl: "length ?p = 64" using ids preamble_eq by (simp add: OBJECT_MAGIC_def ascii_def)
  have hl: "length ?h = 64" using ids object_header_eq by simp
  have s1: "length s1 = 64 + HEADER_RECORD_SIZE" using h' pl hl by (simp add: HEADER_RECORD_SIZE_def)
  have "frames_inv P key info plain 0 s1 [] (OBJECT_PREAMBLE_SIZE + HEADER_RECORD_SIZE)"
    by (simp add: frames_inv_def OBJECT_PREAMBLE_SIZE_def s1)
  then have inv: "frames_inv P key info plain ?n s2 es off" and s2: "take (length s1) s2 = s1"
    using write_frames_inv[OF A read len bounds f] by blast+
  have e: "length es = ?n" "off = length s2" "tiled (64 + HEADER_RECORD_SIZE) es off"
    "off \<le> 64 + HEADER_RECORD_SIZE + ?n * (unat (oi_limit info) + 41)"
    "\<forall>i < ?n. frame_written P key info plain s2 i (es ! i)"
    using inv by (auto simp: frames_inv_def)
  define x where "x = drop (length s1) s2"
  have s2x: "s2 = s1 @ x" by (metis s2 x_def append_take_drop_id)
  have fl: "length (object_footer info off (length r3) (off + length r3) (table_digest P key ?h (object_table info es))) = 64"
    using B by (simp add: object_footer_eq table_digest_def)
  have all: "file = ?p @ r1 @ x @ r3 @ r4" using content h'(1) t'(1) o'(1) s2x by simp
  have "?n * (unat (oi_limit info) + 41) \<le> 2 ^ 20 * (2 ^ 20 + 41)" using bounds by (intro mult_le_mono) simp_all
  moreover have "length file = off + length r3 + FOOTER_RECORD_SIZE"
    using content t'(1) o'(1,2) e(2) fl by (simp add: FOOTER_RECORD_SIZE_def)
  moreover have "length r3 = RECORD_OVERHEAD + (8 + ?n * 24)" using t'(2) e(1) by (simp add: length_table)
  ultimately have big: "length file < 2 ^ 63" "length file = off + length r3 + FOOTER_RECORD_SIZE"
    using e(4) bounds by (simp_all add: HEADER_RECORD_SIZE_def FOOTER_RECORD_SIZE_def RECORD_OVERHEAD_def sizes)
  have tl: "length r3 = RECORD_OVERHEAD + length (object_table info es)" by (rule t'(2))
  have "record_at P key info file HEADER_INDEX ?h 64 HEADER_RECORD_SIZE"
    using record_at_append[OF h'(3), of "x @ r3 @ r4"] h'(1,2) all pl hl
    by (simp add: HEADER_RECORD_SIZE_def add.commute)
  moreover have "record_at P key info file TABLE_INDEX (object_table info es) off (length r3)"
    using record_at_append[OF t'(3), of r4] t'(1) o'(1) content e(2) by simp
  moreover have "record_at P key info file FOOTER_INDEX
      (object_footer info off (length r3) (off + length r3) (table_digest P key ?h (object_table info es)))
      (off + length r3) FOOTER_RECORD_SIZE"
    using o'(2,3) t'(1) content e(2) fl by (simp add: FOOTER_RECORD_SIZE_def add.commute)
  moreover have "\<forall>i < length es. frame_written P key info plain file i (es ! i)"
    using e(1,5) frame_written_append[of P key info plain s2 _ _ "r3 @ r4"] content t'(1) o'(1) by simp
  moreover have "take 64 file = ?p" using all pl by simp
  ultimately have "object_written P key info plain file es off"
    using e(1,3) big by (simp add: object_written_def Let_def tl)
  then show ?thesis by blast
qed

section \<open>Opening what was written\<close>

lemma nth_Cons_slice: "get_bytes_at (xs @ ys) (length xs) n = take n ys"
  by (simp add: get_bytes_at_def)

lemma preamble_ok_written:
  assumes "length (oi_vault info) = 16" "length (oi_object info) = 16"
  shows "preamble_ok info (build_object_preamble (oi_vault info) (oi_object info) (oi_limit info))"
proof -
  let ?p = "build_object_preamble (oi_vault info) (oi_object info) (oi_limit info)"
  have m: "length OBJECT_MAGIC = 8" by (simp add: OBJECT_MAGIC_def ascii_def)
  note p = preamble_eq[OF assms, of "oi_limit info"]
  have l: "length ?p = 64" by (simp add: p m assms)
  have s: "get_bytes_at ?p 8 2 = le_bytes 2 OBJECT_FORMAT_VERSION" "get_bytes_at ?p 10 2 = le_bytes 2 (64 :: u16)"
    "get_bytes_at ?p 12 4 = le_bytes 4 (0 :: u32)" "get_bytes_at ?p 16 16 = oi_vault info" "get_bytes_at ?p 32 16 = oi_object info"
    "get_bytes_at ?p 48 4 = le_bytes 4 (oi_limit info)" "drop 52 ?p = replicate 12 0" "take 8 ?p = OBJECT_MAGIC"
    by (simp_all add: p m assms get_bytes_at_def OBJECT_PREAMBLE_SIZE_def del: replicate.simps)
      (simp_all add: le_bytes_def upt_rec numeral_eq_Suc)
  have "get_u16_at ?p 8 = OBJECT_FORMAT_VERSION" "get_u16_at ?p 10 = 64" "get_u32_at ?p 12 = 0" "get_u32_at ?p 48 = oi_limit info"
    using l by (simp_all add: get_u16_at_slice get_u32_at_slice s le_value_le_bytes)
  then show ?thesis using s(4,5,7,8) by (simp add: preamble_ok_def list_all_iff)
qed

lemma header_matches_written:
  assumes "length (oi_owner info) = 16"
  shows "header_matches info (object_header info)"
proof -
  let ?h = "object_header info"
  note h = object_header_eq[OF assms]
  have l: "length ?h = 64" by (simp add: h assms)
  have n: "?h ! 0 = 0" "?h ! 1 = role_byte (oi_role info)" "?h ! 2 = oi_format info" "?h ! 3 = 0" by (simp_all add: h)
  have s: "get_bytes_at ?h 4 16 = oi_owner info" "get_bytes_at ?h 20 8 = le_bytes 8 (oi_plain info)"
    "get_bytes_at ?h 28 4 = le_bytes 4 (oi_limit info)" "get_bytes_at ?h 32 4 = le_bytes 4 (oi_frames info)"
    "drop 36 ?h = replicate 28 0"
    by (simp_all add: h assms get_bytes_at_def numeral_eq_Suc del: replicate.simps) 
  have "get_u64_at ?h 20 = oi_plain info" "get_u32_at ?h 28 = oi_limit info" "get_u32_at ?h 32 = oi_frames info"
    using l by (simp_all add: get_u64_at_slice get_u32_at_slice s le_value_le_bytes)
  then show ?thesis using n s(1,5) by (simp add: header_matches_def list_all_iff)
qed

lemma footer_read:
  assumes "length digest = 32" "toff < 2 ^ 64" "tlen < 2 ^ 64" "fo + FOOTER_RECORD_SIZE < 2 ^ 64"
    and "footer = object_footer info toff tlen fo digest"
  shows "footer ! 0 = 2" "footer ! 1 = role_byte (oi_role info)" "get_u16_at footer 2 = 1"
    "get_u32_at footer 4 = oi_frames info" "unat (get_u64_at footer 8) = toff" "unat (get_u64_at footer 16) = tlen"
    "unat (get_u64_at footer 24) = fo + FOOTER_RECORD_SIZE" "get_bytes_at footer 32 32 = digest"
proof -
  have f: "footer = [2, role_byte (oi_role info)] @ le_bytes 2 (1 :: u16) @
    le_bytes 4 (oi_frames info) @ le_bytes 8 (of_nat toff :: u64) @ le_bytes 8 (of_nat tlen :: u64) @
    le_bytes 8 (of_nat (fo + FOOTER_RECORD_SIZE) :: u64) @ digest"
    unfolding assms(5) by (rule object_footer_eq[OF assms(1)])
  have l: "length footer = 64" by (simp add: f assms(1))
  have s: "get_bytes_at footer 2 2 = le_bytes 2 (1 :: u16)" "get_bytes_at footer 4 4 = le_bytes 4 (oi_frames info)"
    "get_bytes_at footer 8 8 = le_bytes 8 (of_nat toff :: u64)" "get_bytes_at footer 16 8 = le_bytes 8 (of_nat tlen :: u64)"
    "get_bytes_at footer 24 8 = le_bytes 8 (of_nat (fo + FOOTER_RECORD_SIZE) :: u64)" "get_bytes_at footer 32 32 = digest"
    by (simp_all add: f assms(1) get_bytes_at_def numeral_eq_Suc del: of_nat_add)
  show "footer ! 0 = 2" "footer ! 1 = role_byte (oi_role info)" by (simp_all add: f)
  show "get_u16_at footer 2 = 1" "get_u32_at footer 4 = oi_frames info" "unat (get_u64_at footer 8) = toff"
    "unat (get_u64_at footer 16) = tlen" "unat (get_u64_at footer 24) = fo + FOOTER_RECORD_SIZE"
    "get_bytes_at footer 32 32 = digest"
    using l assms(2-4)
    by (simp_all add: get_u64_at_slice get_u32_at_slice get_u16_at_slice s le_value_le_bytes unat_of_nat_small del: of_nat_add)
qed

lemma frame_count_bounds:
  assumes "object_frame_count pl limit = Some n"
  shows "limit \<noteq> 0" "unat limit \<le> 2 ^ 20" "unat n \<le> 2 ^ 20" "unat pl \<le> unat n * unat limit"
proof -
  define count :: u64 where "count = (if pl = 0 then 0 else 1 + (pl - 1) div ucast limit)"
  have c: "limit \<noteq> 0" "limit \<le> OBJECT_MAX_FRAME_PLAIN" "count \<le> ucast OBJECT_MAX_FRAMES" "n = ucast count"
    using assms by (auto simp: object_frame_count_def Let_def count_def not_less split: if_splits)
  show "limit \<noteq> 0" "unat limit \<le> 2 ^ 20" using c by (simp_all add: OBJECT_MAX_FRAME_PLAIN_def word_le_nat_alt)
  have cn: "unat count \<le> 2 ^ 20" using c(3) by (simp add: OBJECT_MAX_FRAMES_def word_le_nat_alt unsigned_ucast_eq)
  then have n: "unat n = unat count" by (simp add: c(4) unsigned_ucast_eq take_bit_nat_eq_self)
  show "unat n \<le> 2 ^ 20" using cn n by simp
  let ?L = "unat limit"
  have L: "0 < ?L" using c(1) by (simp add: unat_gt_0)
  show "unat pl \<le> unat n * ?L"
  proof (cases "pl = 0")
    case False
    then have p: "0 < unat pl" by (simp add: unat_gt_0)
    have u: "unat (ucast limit :: u64) = ?L" using \<open>unat limit \<le> 2 ^ 20\<close> by (simp add: unsigned_ucast_eq take_bit_nat_eq_self)
    have "unat (pl - 1) = unat pl - 1" using False by (simp add: unat_minus_one)
    then have q: "unat ((pl - 1) div ucast limit) = (unat pl - 1) div ?L" by (simp add: unat_div u)
    have "(unat pl - 1) div ?L \<le> unat pl - 1" by (rule div_le_dividend)
    moreover have "unat pl < 2 ^ 64" using unsigned_less[of pl] by simp
    ultimately have "1 + (unat pl - 1) div ?L < 2 ^ 64" using p by linarith
    then have "unat count = 1 + (unat pl - 1) div ?L"
      using False q by (simp add: count_def unat_word_ariths take_bit_nat_eq_self)
    moreover have "unat pl - 1 < ((unat pl - 1) div ?L + 1) * ?L"
      using L by (metis Suc_eq_plus1 dividend_less_times_div mult.commute div_mult_mod_eq mod_less_divisor add.commute mult_Suc nat_add_left_cancel_less)
    ultimately show ?thesis using p n by (simp add: add.commute)
  qed simp
qed

lemma written_opens:
  assumes A: "aead_laws (op_aead P)" and B: "\<forall>n k m. length (op_blake2b P n k m) = n"
    and valid: "valid_expected_info info"
    and ids: "length (oi_vault info) = 16" "length (oi_object info) = 16" "length (oi_owner info) = 16"
    and key: "key = derive_object_key (op_blake2b P) mk (oi_vault info) (oi_object info)"
    and w: "object_written P key info plain file es toff"
    and cover: "length plain = unat (oi_plain info)" "unat (oi_plain info) \<le> unat (oi_frames info) * unat (oi_limit info)"
      "unat (oi_limit info) \<le> 2 ^ 20" "unat (oi_frames info) \<le> 2 ^ 20"
  defines "sealed \<equiv> info\<lparr>oi_encrypted := of_nat (length file)\<rparr>"
  shows "reader_open P mk sealed (Some file) = Inr \<lparr>or_file = file, or_key = key, or_info = sealed, or_entries = es\<rparr>"
proof -
  let ?h = "object_header info" and ?t = "object_table info es" and ?n = "unat (oi_frames info)"
  let ?tlen = "RECORD_OVERHEAD + length ?t" and ?dig = "table_digest P key ?h ?t"
  let ?f = "object_footer info toff ?tlen (toff + ?tlen) ?dig"
  have o: "length es = ?n" "length file < 2 ^ 63" "length file = toff + ?tlen + FOOTER_RECORD_SIZE"
    "take 64 file = build_object_preamble (oi_vault info) (oi_object info) (oi_limit info)"
    "record_at P key info file HEADER_INDEX ?h 64 HEADER_RECORD_SIZE" "record_at P key info file TABLE_INDEX ?t toff ?tlen"
    "record_at P key info file FOOTER_INDEX ?f (toff + ?tlen) FOOTER_RECORD_SIZE"
    "tiled (64 + HEADER_RECORD_SIZE) es toff" "\<forall>i < length es. frame_written P key info plain file i (es ! i)"
    using w by (simp_all add: object_written_def Let_def)
  have t: "length ?t = 8 + ?n * 24" by (simp add: length_table o(1))
  have dig: "length ?dig = 32" using B by (simp add: table_digest_def)
  have sz: "unat (of_nat (length file) :: u64) = length file" using o(2) by (simp add: unat_of_nat_small)
  have lo: "64 + HEADER_RECORD_SIZE \<le> toff" using tiled_le[OF o(8)] .
  note fr = footer_read[OF dig, of toff ?tlen "toff + ?tlen" ?f info, simplified]
  have fr': "?f ! 0 = 2" "?f ! 1 = role_byte (oi_role info)" "get_u16_at ?f 2 = 1" "get_u32_at ?f 4 = oi_frames info"
    "unat (get_u64_at ?f 8) = toff" "unat (get_u64_at ?f 16) = ?tlen" "unat (get_u64_at ?f 24) = length file" "get_bytes_at ?f 32 32 = ?dig"
    using footer_read[OF dig _ _ _ refl, of toff ?tlen "toff + ?tlen" info] o(2,3) by simp_all
  have tw: "get_u16_at ?t 0 = 1" "get_u16_at ?t 2 = 24" "get_u32_at ?t 4 = oi_frames info"
    using t by (simp_all add: get_u16_at_slice get_u32_at_slice)
      (simp_all add: object_table_eq get_bytes_at_def le_value_le_bytes)
  have ok: "\<forall>e \<in> set es. entry_ok info e"
  proof
    fix e assume "e \<in> set es"
    then obtain i where i: "i < length es" "e = es ! i" by (auto simp: in_set_conv_nth)
    let ?c = "chunk info plain i" and ?fr = "encode_frame (op_miniz P) (chunk info plain i)"
    have fw: "frame_written P key info plain file i e" using o(9) i by blast
    have l: "unat (en_length e) = RECORD_OVERHEAD + length ?fr" using fw by (simp add: frame_written_def record_at_def)
    have "0 < length ?fr" "length ?fr \<le> length ?c + 1" "length ?c \<le> unat (oi_limit info)"
      using encode_frame_shape(1)[of "op_miniz P" ?c] length_encode_frame[of "op_miniz P" ?c]
      by (simp_all) (simp add: chunk_def)
    then show "entry_ok info e"
      using fw l encode_frame_shape(2)[of "op_miniz P" ?c]
      by (simp add: entry_ok_def frame_written_def word_le_nat_alt DEFLATE_HDR_def Suc_le_eq)
  qed
  have "map (unat \<circ> en_plain) es = map (length \<circ> chunk info plain) [0..<?n]"
    using o(1,9) by (intro nth_equalityI) (simp_all add: frame_written_def)
  then have "sum_list (map (unat \<circ> en_plain) es) = length (concat (map (chunk info plain) [0..<?n]))"
    by (simp add: length_concat)
  also have "\<dots> = unat (oi_plain info)" using cover(1,2) by (simp add: concat_chunks)
  finally have sum: "sum_list (map (unat \<circ> en_plain) es) = unat (oi_plain info)" .
  have same: "valid_expected_info sealed" "oi_vault sealed = oi_vault info" "oi_object sealed = oi_object info"
    "oi_frames sealed = oi_frames info" "oi_plain sealed = oi_plain info" "oi_encrypted sealed = of_nat (length file)"
    "decrypt_record P file key sealed = decrypt_record P file key info"
    using valid by (simp_all add: sealed_def valid_expected_info_def)
  have matches: "preamble_ok sealed (take 64 file)" "header_matches sealed ?h" "footer_matches sealed (length file) ?f"
    using preamble_ok_written[OF ids(1,2)] header_matches_written[OF ids(3)] fr' o(3) lo t o(4)
    by (simp_all add: sealed_def preamble_ok_def header_matches_def footer_matches_def)
  have "check_entries info ?t toff [0..<length es] (64 + HEADER_RECORD_SIZE, 0, take 0 es) =
      Some (toff, 0 + sum_list (map (unat \<circ> en_plain) (drop 0 es)), es)"
    by (rule check_entries_table[OF ok]) (simp_all add: o(8))
  moreover have "check_entries sealed ?t toff is st = check_entries info ?t toff is st" for "is" st
    by (induction "is" arbitrary: st) (auto simp: sealed_def Let_def split: prod.splits)
  ultimately have entries: "check_entries sealed ?t toff [0..<?n] (64 + HEADER_RECORD_SIZE, 0, []) = Some (toff, unat (oi_plain info), es)"
    using o(1) sum by simp
  define ft where "ft = ?f"
  have "object_read_at file 0 64 = Some (take 64 file)" using o(3) lo by (simp add: object_read_at_def)
  moreover have "toff + ?tlen = length file - FOOTER_RECORD_SIZE" using o(3) by simp
  then have "decrypt_record P file key info FOOTER_INDEX (length file - FOOTER_RECORD_SIZE) FOOTER_RECORD_SIZE = Inr ft"
    using decrypt_record_at[OF A o(7)] by (simp add: ft_def)
  moreover have "decrypt_record P file key info TABLE_INDEX toff ?tlen = Inr ?t"
    using decrypt_record_at[OF A o(6)] by simp
  moreover have "\<not> length file < 64 + HEADER_RECORD_SIZE + FOOTER_RECORD_SIZE" using o(3) lo by simp
  ultimately show ?thesis
    using t tw fr'(5,6,8)[folded ft_def] matches(3)[folded ft_def]
    by (simp add: reader_open_def same OBJECT_PREAMBLE_SIZE_def matches(1,2) key[symmetric] sz Let_def
        decrypt_record_at[OF A o(5)] entries del: of_nat_add)
qed

lemma written_frames_read:
  assumes A: "aead_laws (op_aead P)" and Z: "miniz_laws (op_miniz P)"
    and w: "object_written P key info plain file es toff"
  shows "frames_read P \<lparr>or_file = file, or_key = key, or_info = info\<lparr>oi_encrypted := x\<rparr>, or_entries = es\<rparr>
    (map (chunk info plain) [0..<length es])"
proof -
  let ?r = "\<lparr>or_file = file, or_key = key, or_info = info\<lparr>oi_encrypted := x\<rparr>, or_entries = es\<rparr>"
  have "read_frame P ?r i = Inr (chunk info plain i) \<and> length (chunk info plain i) = unat (en_plain (es ! i))"
    if i: "i < length es" for i
  proof -
    let ?f = "encode_frame (op_miniz P) (chunk info plain i)"
    have fw: "frame_written P key info plain file i (es ! i)" using w i by (simp add: object_written_def Let_def)
    then have "decrypt_record P file key info (of_nat i) (unat (en_offset (es ! i))) (unat (en_length (es ! i))) = Inr ?f"
      using decrypt_record_at[OF A] by (simp add: frame_written_def)
    then show ?thesis
      using fw i decode_encode_frame[OF Z] encode_frame_shape(1)[of "op_miniz P"]
      by (simp add: read_frame_def Let_def frame_written_def)
  qed
  then show ?thesis by (simp add: frames_read_def)
qed

lemma write_frames_status: "write_frames P e key info read fs st = Inl s \<Longrightarrow> s = OsIoError"
proof (induction fs arbitrary: st)
  case (Cons f fs)
  obtain a b c where "st = (a, b, c)" by (cases st)
  then show ?case using Cons by (auto simp: Let_def split: option.splits)
qed simp

lemma write_staging_status: "write_staging P e key info read = Inl s \<Longrightarrow> s = OsIoError"
  by (auto simp: write_staging_def Let_def split: if_splits option.splits sum.splits prod.splits
      dest: write_frames_status)

lemma write_object_stream_Ok:
  assumes "write_object_stream P e mk request pl read root = (OsOk, Some info, roots)"
  obtains info0 content n where "info = info0\<lparr>oi_encrypted := of_nat (length content)\<rparr>" "valid_write_request request"
    "object_frame_count pl (wr_limit request) = Some n" "valid_object_id (oi_object info0)"
    "oi_vault info0 = wr_vault request" "oi_owner info0 = wr_owner request" "oi_plain info0 = pl" 
    "oi_limit info0 = wr_limit request" "oi_frames info0 = n" "we_id e = Some (oi_object info0)"
    "write_staging P e (derive_object_key (op_blake2b P) mk (oi_vault info0) (oi_object info0)) info0 read = Inr content"
    "publish (we_publish e) (oi_object info0) content root = (True, roots)"
proof -
  obtain n where v: "valid_write_request request" and n: "object_frame_count pl (wr_limit request) = Some n"
    using assms by (auto simp: write_object_stream_def split: if_splits option.splits)
  obtain i where i: "we_id e = Some i" "valid_object_id i"
    using assms v n by (auto simp: write_object_stream_def generate_object_id_def split: if_splits option.splits)
  let ?info = "\<lparr>oi_object = i, oi_vault = wr_vault request, oi_owner = wr_owner request,
      oi_role = wr_role request, oi_format = wr_format request, oi_plain = pl, oi_encrypted = 0,
      oi_limit = wr_limit request, oi_frames = n\<rparr>"
  let ?key = "derive_object_key (op_blake2b P) mk (wr_vault request) i"
  obtain content where f: "write_staging P e ?key ?info read = Inr content"
    using assms v n i
    by (auto simp: write_object_stream_def generate_object_id_def Let_def dest: write_staging_status split: if_splits sum.splits)
  have "publish (we_publish e) i content root = (True, roots) \<and> info = ?info\<lparr>oi_encrypted := of_nat (length content)\<rparr>"
    using assms v n i f
    by (auto simp: write_object_stream_def generate_object_id_def Let_def split: if_splits prod.splits bool.splits)
  then show ?thesis using that[of content ?info n] v n i f by simp
qed

lemma written_object_frames:
  assumes A: "aead_laws (op_aead P)" "\<forall>k n. we_nonce e k = Some n \<longrightarrow> length n = NONCE_SIZE"
    and Z: "miniz_laws (op_miniz P)" and B: "\<forall>n k m. length (op_blake2b P n k m) = n"
    and ids: "length (wr_vault request) = NODE_ID_SIZE" "length (wr_owner request) = NODE_ID_SIZE"
      "\<forall>i. we_id e = Some i \<longrightarrow> length i = NODE_ID_SIZE"
    and read: "\<forall>off len bs. read off len = Some bs \<longrightarrow> bs = take len (drop off plain)" "length plain < 2 ^ 64"
    and run: "write_object_stream P e mk request (of_nat (length plain)) read root = (OsOk, Some info, roots)"
  obtains content reader fs where "publish (we_publish e) (oi_object info) content root = (True, roots)"
    "reader_open P mk info (Some content) = Inr reader" "or_info reader = info" "frames_read P reader fs" "concat fs = plain"
    "unat (oi_plain info) = length plain" "unat (oi_encrypted info) = length content" "valid_object_id (oi_object info)"
    "fs = map (chunk info plain) [0..<length fs]" "oi_limit info = wr_limit request" "oi_limit info \<noteq> 0"
    "unat (oi_plain info) \<le> 2 ^ 20 * unat (oi_limit info)"
proof -
  obtain info0 content n where i: "info = info0\<lparr>oi_encrypted := of_nat (length content)\<rparr>" "valid_write_request request"
    and n: "object_frame_count (of_nat (length plain)) (wr_limit request) = Some n" and vid: "valid_object_id (oi_object info0)"
    and f: "oi_vault info0 = wr_vault request" "oi_owner info0 = wr_owner request" "oi_plain info0 = of_nat (length plain)"
      "oi_limit info0 = wr_limit request" "oi_frames info0 = n" "we_id e = Some (oi_object info0)"
    and w: "write_staging P e (derive_object_key (op_blake2b P) mk (oi_vault info0) (oi_object info0)) info0 read = Inr content"
    and pub: "publish (we_publish e) (oi_object info0) content root = (True, roots)"
    using write_object_stream_Ok[OF run] by metis
  let ?key = "derive_object_key (op_blake2b P) mk (oi_vault info0) (oi_object info0)"
  note fb = frame_count_bounds[OF n]
  have pl: "unat (of_nat (length plain) :: u64) = length plain" using read(2) by (simp add: unat_of_nat_small)
  have ids': "length (oi_vault info0) = 16" "length (oi_object info0) = 16" "length (oi_owner info0) = 16"
    using ids f by (simp_all add: NODE_ID_SIZE_def)
  obtain es toff where ow: "object_written P ?key info0 plain content es toff"
    using write_staging_written[OF A B read(1) _ _ _ ids' w] fb f pl by auto
  have valid: "valid_expected_info info0"
    using i(2) vid f fb by (simp add: valid_expected_info_def valid_write_request_def OBJECT_MAX_FRAMES_def word_le_nat_alt)
  have fl: "length content < 2 ^ 63" "length es = unat n" using ow f by (simp_all add: object_written_def Let_def)
  let ?reader = "\<lparr>or_file = content, or_key = ?key, or_info = info, or_entries = es\<rparr>"
  have opened: "reader_open P mk info (Some content) = Inr ?reader"
    unfolding i(1) using fb f pl by (intro written_opens[OF A(1) B valid ids' refl ow]) simp_all
  let ?fs = "map (chunk info0 plain) [0..<length es]"
  have fr: "frames_read P ?reader ?fs" unfolding i(1) by (rule written_frames_read[OF A(1) Z ow])
  have all: "concat ?fs = plain" using fb(4) f pl fl(2) by (simp add: concat_chunks)
  have ch: "chunk info plain = chunk info0 plain" by (simp add: i(1) chunk_def fun_eq_iff)
  have "unat (oi_plain info0) \<le> 2 ^ 20 * unat (oi_limit info0)"
    using fb(3,4) f(3,4) by (metis mult_le_mono1 le_trans)
  then show ?thesis
    by (intro that[of content ?reader ?fs]) (use pub opened fr all f(3,4) pl i(1) vid fl(1) fb(1) ch in \<open>simp_all add: unat_of_nat_small\<close>)
qed

lemma written_object_opens:
  assumes A: "aead_laws (op_aead P)" "\<forall>k n. we_nonce e k = Some n \<longrightarrow> length n = NONCE_SIZE"
    and Z: "miniz_laws (op_miniz P)" and B: "\<forall>n k m. length (op_blake2b P n k m) = n"
    and ids: "length (wr_vault request) = NODE_ID_SIZE" "length (wr_owner request) = NODE_ID_SIZE"
      "\<forall>i. we_id e = Some i \<longrightarrow> length i = NODE_ID_SIZE"
    and read: "\<forall>off len bs. read off len = Some bs \<longrightarrow> bs = take len (drop off plain)" "length plain < 2 ^ 64"
    and run: "write_object_stream P e mk request (of_nat (length plain)) read root = (OsOk, Some info, roots)"
  obtains content reader fs where "publish (we_publish e) (oi_object info) content root = (True, roots)"
    "reader_open P mk info (Some content) = Inr reader" "or_info reader = info" "frames_read P reader fs" "concat fs = plain"
    "unat (oi_plain info) = length plain" "unat (oi_encrypted info) = length content" "valid_object_id (oi_object info)"
  using written_object_frames[OF assms] that by metis

text \<open>
  Property C30.  An object that was written and published reads back: the file that the object tree then
  shows opens under the reported info, its length is the one reported, every range inside the plaintext
  gives exactly those bytes and every other range is refused.  The source of the plaintext may be any
  callback, the frames any size up to a mebibyte, and their compression any mix.
\<close>

theorem written_object_reads_back:
  assumes A: "aead_laws (op_aead P)" "\<forall>k n. we_nonce e k = Some n \<longrightarrow> length n = NONCE_SIZE"
    and Z: "miniz_laws (op_miniz P)" and B: "\<forall>n k m. length (op_blake2b P n k m) = n"
    and ids: "length (wr_vault request) = NODE_ID_SIZE" "length (wr_owner request) = NODE_ID_SIZE"
      "\<forall>i. we_id e = Some i \<longrightarrow> length i = NODE_ID_SIZE"
    and read: "\<forall>off len bs. read off len = Some bs \<longrightarrow> bs = take len (drop off plain)" "length plain < 2 ^ 64"
    and run: "write_object_stream P e mk request (of_nat (length plain)) read root = (OsOk, Some info, roots)"
  shows "\<exists>file reader. vr_visible (last roots) (oi_object info) = Some file \<and>
     vr_durable (last roots) (oi_object info) = Some file \<and> vr_visible root (oi_object info) = None \<and>
     unat (oi_encrypted info) = length file \<and>
     reader_open P mk info (open_object True (oi_object info) (last roots)) = Inr reader \<and>
     (\<forall>off len. read_range P reader off len =
        (if off + len \<le> length plain then Inr (take len (drop off plain)) else Inl OsInvalidArgument))"
proof -
  obtain content reader fs where pub: "publish (we_publish e) (oi_object info) content root = (True, roots)"
    and o: "reader_open P mk info (Some content) = Inr reader" "or_info reader = info" "frames_read P reader fs" "concat fs = plain"
    and n: "unat (oi_plain info) = length plain" "unat (oi_encrypted info) = length content" "valid_object_id (oi_object info)"
    by (rule written_object_opens[OF A Z B ids read run])
  have "read_range P reader off len =
      (if off + len \<le> length plain then Inr (take len (drop off plain)) else Inl OsInvalidArgument)" for off len
    using read_range_slice[OF o(3)] o(2,4) n(1) by simp
  moreover note publish_states(4)[OF pub]
  moreover have "open_object True (oi_object info) (last roots) = Some content"
    using calculation(2) n(3) by (auto simp: open_object_def valid_object_id_def list_ex_iff list_all_iff)
  ultimately show ?thesis using o(1) n(2) by auto
qed

text \<open>With working calls the writer returns.\<close>

definition env_works :: "write_env \<Rightarrow> bool" where
  "env_works e \<longleftrightarrow> (\<forall>k. we_nonce e k \<noteq> None) \<and> (\<forall>k. we_write e k) \<and> we_sync e \<and> we_staging e \<and>
     we_publish e = \<lparr>pe_shard = True, pe_rename = True, pe_shard_sync = True, pe_staging_sync = True\<rparr>"

lemma put_record_works: "env_works e \<Longrightarrow> \<exists>st' rec. put_record P e key info k index p st = Some (st', rec)"
  by (auto simp: env_works_def put_record_def encrypt_record_def encrypt_chunk_def Let_def split: option.splits prod.splits)

lemma write_frames_works:
  assumes "env_works e" "\<forall>f \<in> set fs. \<exists>bs. read (f * unat (oi_limit info)) (min (unat (oi_limit info)) (unat (oi_plain info) - f * unat (oi_limit info))) = Some bs"
  shows "\<exists>a b c. write_frames P e key info read fs st = Inr (a, b, c)"
  using assms(2)
proof (induction fs arbitrary: st)
  case Nil
  show ?case by (cases st) simp
next
  case (Cons f fs)
  obtain a b c where st: "st = (a, b, c)" by (cases st)
  obtain bs where bs: "read (f * unat (oi_limit info)) (min (unat (oi_limit info)) (unat (oi_plain info) - f * unat (oi_limit info))) = Some bs"
    using Cons.prems by auto
  obtain st' rec where "put_record P e key info (Suc f) (of_nat f) (encode_frame (op_miniz P) bs) a = Some (st', rec)"
    using put_record_works[OF assms(1)] by blast
  moreover have "\<exists>a b c. write_frames P e key info read fs x = Inr (a, b, c)" for x
    by (rule Cons.IH) (use Cons.prems in auto)
  ultimately show ?case using bs by (simp only: st write_frames.simps Let_def option.case prod.case)
qed

lemma write_staging_works:
  assumes "env_works e" "\<forall>f < unat (oi_frames info). \<exists>bs. read (f * unat (oi_limit info)) (min (unat (oi_limit info)) (unat (oi_plain info) - f * unat (oi_limit info))) = Some bs"
  shows "\<exists>content. write_staging P e key info read = Inr content"
proof -
  let ?n = "unat (oi_frames info)"
  let ?p = "build_object_preamble (oi_vault info) (oi_object info) (oi_limit info)"
  obtain s1 r1 where 1: "put_record P e key info 0 HEADER_INDEX (object_header info) ?p = Some (s1, r1)"
    using put_record_works[OF assms(1)] by blast
  obtain st where "write_frames P e key info read [0..<?n] (s1, [], OBJECT_PREAMBLE_SIZE + HEADER_RECORD_SIZE) = Inr st"
    using write_frames_works[OF assms(1), of "[0..<?n]" read info P key "(s1, [], OBJECT_PREAMBLE_SIZE + HEADER_RECORD_SIZE)"] assms(2)
    by auto
  moreover obtain s2 es off where "st = (s2, es, off)" by (cases st) auto
  ultimately have 2: "write_frames P e key info read [0..<?n] (s1, [], OBJECT_PREAMBLE_SIZE + HEADER_RECORD_SIZE) = Inr (s2, es, off)"
    by simp
  obtain s3 r3 where 3: "put_record P e key info (Suc ?n) TABLE_INDEX (object_table info es) s2 = Some (s3, r3)"
    using put_record_works[OF assms(1)] by blast
  obtain s4 r4 where 4: "put_record P e key info (Suc (Suc ?n)) FOOTER_INDEX
        (object_footer info off (length r3) (off + length r3) (table_digest P key (object_header info) (object_table info es))) s3 = Some (s4, r4)"
    using put_record_works[OF assms(1)] by blast
  show ?thesis using assms(1) 1 2 3 4 by (auto simp: write_staging_def Let_def env_works_def)
qed

definition sample_prims :: object_prims where
  "sample_prims = \<lparr>op_aead = sample_aead, op_miniz = sample_miniz, op_blake2b = (\<lambda>n k m. replicate n (sum_list (k @ m)))\<rparr>"

definition sample_env :: write_env where
  "sample_env = \<lparr>we_id = Some (replicate 16 9), we_staging = True, we_nonce = (\<lambda>k. Some (replicate 24 (of_nat k))),
     we_write = (\<lambda>k. True), we_sync = True,
     we_publish = \<lparr>pe_shard = True, pe_rename = True, pe_shard_sync = True, pe_staging_sync = True\<rparr>\<rparr>"

definition sample_request :: object_write_request where
  "sample_request = \<lparr>wr_vault = replicate 16 1, wr_owner = replicate 16 2, wr_role = Thumbnail, wr_format = 1, wr_limit = 2\<rparr>"

lemma sample_write:
  assumes "vr_visible root (replicate 16 9) = None"
  shows "\<exists>info roots. write_object sample_prims sample_env [3] sample_request [10, 20, 30] root = (OsOk, Some info, roots) \<and>
    oi_object info = replicate 16 9"
proof -
  let ?read = "\<lambda>offset n. if offset > length [10, 20, 30 :: byte] \<or> n > length [10, 20, 30 :: byte] - offset then None
                    else Some (take n (drop offset [10, 20, 30 :: byte]))"
  have v: "valid_write_request sample_request" "valid_object_id (replicate 16 9)"
    by (simp_all add: valid_write_request_def sample_request_def valid_object_id_def list_ex_iff OBJECT_MAX_FRAME_PLAIN_def)
  have n: "object_frame_count 3 2 = Some 2"
    by (simp add: object_frame_count_def OBJECT_MAX_FRAME_PLAIN_def OBJECT_MAX_FRAMES_def Let_def)
  have e: "env_works sample_env" by (simp add: env_works_def sample_env_def)
  let ?info = "\<lparr>oi_object = replicate 16 9, oi_vault = wr_vault sample_request, oi_owner = wr_owner sample_request,
      oi_role = wr_role sample_request, oi_format = wr_format sample_request, oi_plain = 3, oi_encrypted = 0,
      oi_limit = 2, oi_frames = 2\<rparr>"
  have reads: "\<forall>f < unat (oi_frames ?info). \<exists>bs. ?read (f * unat (oi_limit ?info))
      (min (unat (oi_limit ?info)) (unat (oi_plain ?info) - f * unat (oi_limit ?info))) = Some bs"
  proof (intro allI impI)
    fix f assume "f < unat (oi_frames ?info)"
    then have "f = 0 \<or> f = 1" by auto
    then show "\<exists>bs. ?read (f * unat (oi_limit ?info))
      (min (unat (oi_limit ?info)) (unat (oi_plain ?info) - f * unat (oi_limit ?info))) = Some bs" by auto
  qed
  obtain content where "write_staging sample_prims sample_env
      (derive_object_key (op_blake2b sample_prims) [3] (wr_vault sample_request) (replicate 16 9)) ?info ?read = Inr content"
    using write_staging_works[of sample_env ?info ?read, OF e reads] by blast
  then show ?thesis using v n assms
    by (auto simp: write_object_def write_object_stream_def generate_object_id_def sample_request_def sample_env_def
        publish_def Let_def)
qed

lemma sample_calls:
  "aead_laws (op_aead sample_prims)" "\<forall>k n. we_nonce sample_env k = Some n \<longrightarrow> length n = NONCE_SIZE"
  "miniz_laws (op_miniz sample_prims)" "\<forall>n k m. length (op_blake2b sample_prims n k m) = n"
  "length (wr_vault sample_request) = NODE_ID_SIZE" "length (wr_owner sample_request) = NODE_ID_SIZE"
  "\<forall>i. we_id sample_env = Some i \<longrightarrow> length i = NODE_ID_SIZE"
  by (simp_all add: sample_prims_def sample_aead_laws sample_miniz_laws sample_request_def NODE_ID_SIZE_def sample_env_def NONCE_SIZE_def)

lemma sample_read:
  "\<forall>off len bs. (if off > length plain \<or> len > length plain - off then None else Some (take len (drop off plain))) = Some bs \<longrightarrow>
     bs = take len (drop off plain)"
  by simp

theorem written_object_reads_back_witness:
  "\<exists>info roots reader. write_object sample_prims sample_env [3] sample_request [10, 20, 30] (root_of Map.empty) = (OsOk, Some info, roots) \<and>
     reader_open sample_prims [3] info (open_object True (oi_object info) (last roots)) = Inr reader \<and>
     read_range sample_prims reader 1 2 = Inr [20, 30]"
proof -
  obtain info roots where w: "write_object sample_prims sample_env [3] sample_request [10, 20, 30] (root_of Map.empty) = (OsOk, Some info, roots)"
    using sample_write[of "root_of Map.empty"] by (auto simp: root_of_def)
  show ?thesis
    using written_object_reads_back[OF sample_calls sample_read _ w[unfolded write_object_def]] w by fastforce
qed

section \<open>Any file the reader accepts\<close>

lemma decrypt_record_sealed:
  assumes A: "aead_laws (op_aead P)" and d: "decrypt_record P content key info index off len = Inr p"
  shows "record_at P key info content index p off len"
proof -
  let ?ad = "build_object_frame_ad (tag_for info index)"
  obtain c where c: "object_read_at content off len = Some c" "RECORD_OVERHEAD \<le> len"
    and dc: "decrypt_chunk_to (op_aead P) key c (replicate (len - RECORD_OVERHEAD) 0) ?ad = (True, p)"
    using d by (auto simp: decrypt_record_def split: if_splits option.splits prod.splits bool.splits)
  have cs: "c = take len (drop off content)" "off + len \<le> length content" "length c = len"
    using c by (auto simp: object_read_at_def RECORD_OVERHEAD_def sizes split: if_splits)
  have "decrypt_chunk (op_aead P) key c ?ad = Some p"
    using dc cs(3) c(2) by (simp add: decrypt_chunk_def chunk_plaintext_len_def RECORD_OVERHEAD_def)
  then obtain nonce where n: "length nonce = NONCE_SIZE" "encrypt_chunk (op_aead P) (Some nonce) key p ?ad = Some c"
    using decrypt_chunk_iff[OF A] by blast
  then show ?thesis
    using cs length_encrypt_chunk[OF A n(2,1)] by (auto simp: record_at_def encrypt_record_def RECORD_OVERHEAD_def)
qed

lemma check_entries_Some:
  assumes "check_entries info table m is (p, s, es) = Some (q, t, es')" "p \<le> m"
  shows "\<exists>new. es' = es @ new \<and> length new = length is \<and> tiled p new q \<and> q \<le> m \<and>
     t = s + sum_list (map (unat \<circ> en_plain) new) \<and> (\<forall>e \<in> set new. entry_ok info e)"
  using assms
proof (induction "is" arbitrary: p s es)
  case (Cons i "is")
  let ?e = "table_entry table i"
  have c: "unat (en_offset ?e) = p" "unat (en_length ?e) \<le> m - p" "entry_ok info ?e"
    and rest: "check_entries info table m is (p + unat (en_length ?e), s + unat (en_plain ?e), es @ [?e]) = Some (q, t, es')"
    using Cons.prems(1) by (auto simp: Let_def entry_ok_def not_less split: if_splits)
  have le: "p + unat (en_length ?e) \<le> m" using c(2) Cons.prems(2) by simp
  obtain new where "es' = (es @ [?e]) @ new" "length new = length is" "tiled (p + unat (en_length ?e)) new q" "q \<le> m"
    "t = s + unat (en_plain ?e) + sum_list (map (unat \<circ> en_plain) new)" "\<forall>e \<in> set new. entry_ok info e"
    using Cons.IH[OF rest le] by blast
  then show ?case using c by (intro exI[of _ "?e # new"]) (auto simp: comp_def)
qed simp

lemma reader_open_facts:
  assumes "reader_open P mk expected (Some content) = Inr r"
  obtains footer table where "footer_matches expected (length content) footer"
    "check_entries expected table (unat (get_u64_at footer 8)) [0..<unat (oi_frames expected)]
        (64 + HEADER_RECORD_SIZE, 0, []) = Some (unat (get_u64_at footer 8), unat (oi_plain expected), or_entries r)"
    "or_file r = content" "or_key r = derive_object_key (op_blake2b P) mk (oi_vault expected) (oi_object expected)"
    "or_info r = expected" "\<not> length content < 64 + HEADER_RECORD_SIZE + FOOTER_RECORD_SIZE"
  using assms
  by (auto simp: reader_open_def Let_def OBJECT_PREAMBLE_SIZE_def split: if_splits option.splits sum.splits prod.splits)

lemma footer_positions:
  assumes "footer_matches expected n footer"
  shows "64 + HEADER_RECORD_SIZE \<le> unat (get_u64_at footer 8)" "unat (get_u64_at footer 8) \<le> n - FOOTER_RECORD_SIZE"
    "RECORD_OVERHEAD + 8 + unat (oi_frames expected) * 24 = n - FOOTER_RECORD_SIZE - unat (get_u64_at footer 8)"
  using assms by (auto simp: footer_matches_def)

lemma reader_open_entries:
  assumes "reader_open P mk expected (Some content) = Inr r"
  shows "or_info r = expected \<and> length (or_entries r) = unat (oi_frames expected) \<and>
    sum_list (map (unat \<circ> en_plain) (or_entries r)) = unat (oi_plain expected)"
proof -
  obtain footer table where f: "footer_matches expected (length content) footer"
    and c: "check_entries expected table (unat (get_u64_at footer 8)) [0..<unat (oi_frames expected)]
        (64 + HEADER_RECORD_SIZE, 0, []) = Some (unat (get_u64_at footer 8), unat (oi_plain expected), or_entries r)"
    and i: "or_info r = expected"
    by (rule reader_open_facts[OF assms])
  show ?thesis using check_entries_Some[OF c footer_positions(1)[OF f]] i by auto
qed

text \<open>
  Property C31.  Whatever bytes an object file holds, opening it and reading it stay inside it and inside
  what the reader was told to expect: the entries it accepts tile the space between header record and
  seek table, with frames no larger than the expected limit whose plaintexts add up to the expected
  length; a read never returns anything but exactly the bytes asked for or an error; and what
  a frame decodes to was sealed, under the key derived for this vault and object, for this owner, role,
  frame number, frame count and total length, so that a frame of another object or another place is a
  forgery of the authenticator.
\<close>

theorem accepted_object_is_bound:
  assumes A: "aead_laws (op_aead P)" and opened: "reader_open P mk expected (Some content) = Inr r"
  shows "\<exists>toff. or_info r = expected \<and> length (or_entries r) = unat (oi_frames expected) \<and>
     tiled (64 + HEADER_RECORD_SIZE) (or_entries r) toff \<and>
     length content = toff + (RECORD_OVERHEAD + 8 + unat (oi_frames expected) * 24) + FOOTER_RECORD_SIZE \<and>
     sum_list (map (unat \<circ> en_plain) (or_entries r)) = unat (oi_plain expected) \<and>
     (\<forall>e \<in> set (or_entries r). en_plain e \<le> oi_limit expected) \<and>
     (\<forall>off len out. read_range P r off len = Inr out \<longrightarrow> length out = len \<and> off + len \<le> unat (oi_plain expected)) \<and>
     (\<forall>i p. read_frame P r i = Inr p \<longrightarrow> (\<exists>framed. decode_frame (op_miniz P) framed = Some p \<and>
        length p = unat (en_plain (or_entries r ! i)) \<and>
        record_at P (derive_object_key (op_blake2b P) mk (oi_vault expected) (oi_object expected)) expected content
          (of_nat i) framed (unat (en_offset (or_entries r ! i))) (unat (en_length (or_entries r ! i)))))"
proof -
  let ?key = "derive_object_key (op_blake2b P) mk (oi_vault expected) (oi_object expected)"
  obtain footer table where f: "footer_matches expected (length content) footer"
    and c: "check_entries expected table (unat (get_u64_at footer 8)) [0..<unat (oi_frames expected)]
        (64 + HEADER_RECORD_SIZE, 0, []) = Some (unat (get_u64_at footer 8), unat (oi_plain expected), or_entries r)"
    and r: "or_file r = content" "or_key r = ?key" "or_info r = expected"
    and size: "\<not> length content < 64 + HEADER_RECORD_SIZE + FOOTER_RECORD_SIZE"
    by (rule reader_open_facts[OF opened])
  let ?toff = "unat (get_u64_at footer 8)"
  note fm = footer_positions[OF f]
  obtain es where es: "or_entries r = [] @ es" "length es = length [0..<unat (oi_frames expected)]"
    "tiled (64 + HEADER_RECORD_SIZE) es ?toff" "unat (oi_plain expected) = 0 + sum_list (map (unat \<circ> en_plain) es)"
    "\<forall>e \<in> set es. entry_ok expected e"
    using check_entries_Some[OF c fm(1)] by (elim exE conjE) (rule that)
  have "length content = ?toff + (RECORD_OVERHEAD + 8 + unat (oi_frames expected) * 24) + FOOTER_RECORD_SIZE"
    using fm size by linarith
  moreover have "length out = len \<and> off + len \<le> unat (oi_plain expected)" if "read_range P r off len = Inr out" for off len out
    using that r(3) by (auto simp: read_range_def Let_def not_less split: if_splits sum.splits)
  moreover have "\<exists>framed. decode_frame (op_miniz P) framed = Some p \<and> length p = unat (en_plain (or_entries r ! i)) \<and>
      record_at P ?key expected content (of_nat i) framed (unat (en_offset (or_entries r ! i))) (unat (en_length (or_entries r ! i)))"
    if "read_frame P r i = Inr p" for i p
    using that decrypt_record_sealed[OF A] r
    by (auto simp: read_frame_def Let_def split: if_splits sum.splits option.splits)
  moreover have "en_plain e \<le> oi_limit expected" if "e \<in> set (or_entries r)" for e
    using that es(1,5) by (auto simp: entry_ok_def)
  ultimately show ?thesis using es r(3) by (intro exI[of _ ?toff]) (simp add: comp_def)
qed

theorem accepted_object_is_bound_witness:
  "\<exists>info roots content r. write_object sample_prims sample_env [3] sample_request [10, 20, 30] (root_of Map.empty) = (OsOk, Some info, roots) \<and>
     reader_open sample_prims [3] info (Some content) = Inr r \<and> or_info r = info \<and>
     sum_list (map (unat \<circ> en_plain) (or_entries r)) = unat (oi_plain info)"
proof -
  obtain info roots where w: "write_object sample_prims sample_env [3] sample_request [10, 20, 30] (root_of Map.empty) = (OsOk, Some info, roots)"
    using sample_write[of "root_of Map.empty"] by (auto simp: root_of_def)
  obtain content r where "reader_open sample_prims [3] info (Some content) = Inr r"
    by (rule written_object_opens[OF sample_calls sample_read _ w[unfolded write_object_def]]) simp_all
  then show ?thesis using w accepted_object_is_bound[OF sample_calls(1)] by blast
qed
end
