(* ===== verification/V3_Db.thy ===== *)
theory V3_Db
  imports V3_Header "HOL-Library.List_Lexorder" "HOL-Library.Multiset"
begin

text \<open>
  The relational part of a directory vault (\<open>src/vault/v3_db.cpp\<close>, \<open>v3_schema.h\<close>): the \<open>nodes\<close>, \<open>objects\<close>
  and \<open>vault_meta\<close> tables with the constraints of the schema, and the operations over them.  A column
  holds a signed 64-bit integer, which the operations bind from and read back to the record types; a
  statement either fails with a status that is an input, or does what its SQL says, refusing a row that
  breaks a constraint.  A transaction that does not commit leaves the tables as they were.  The database
  handle is open.
\<close>

section \<open>Tables\<close>

datatype db_status = DbOk | DbInvalidArgument | DbIoError | DbWrongKeyOrCorrupt | DbBusy | DbDiskFull
  | DbConstraint | DbUnsupportedVersion

datatype node_kind = GalleryNode | ImageNode | VideoNode

fun kind_code :: "node_kind \<Rightarrow> int" where
  "kind_code GalleryNode = 0" | "kind_code ImageNode = 1" | "kind_code VideoNode = 2"

record node_record =
  nd_id :: bytes
  nd_parent :: "bytes option"
  nd_kind :: node_kind
  nd_name :: bytes
  nd_order :: u64
  nd_favorite :: bool
  nd_created :: u64
  nd_format :: "u32 option"
  nd_width :: "u32 option"
  nd_height :: "u32 option"
  nd_duration :: "u64 option"
  nd_codec :: "u32 option"
  nd_original :: "u64 option"
  nd_sort :: "byte option"
  nd_animated :: "bool option"

record node_row =
  nw_id :: bytes
  nw_parent :: "bytes option"
  nw_kind :: int
  nw_name :: bytes
  nw_order :: int
  nw_favorite :: int
  nw_created :: int
  nw_format :: "int option"
  nw_width :: "int option"
  nw_height :: "int option"
  nw_duration :: "int option"
  nw_codec :: "int option"
  nw_original :: "int option"
  nw_sort :: "int option"
  nw_animated :: "int option"

record object_record =
  rec_object :: bytes
  rec_node :: bytes
  rec_role :: object_role
  rec_encrypted :: u64
  rec_plain :: u64
  rec_limit :: u32
  rec_frames :: u32
  rec_generation :: u64

record object_row =
  row_object :: bytes
  row_node :: bytes
  row_role :: int
  row_encrypted :: int
  row_plain :: int
  row_limit :: int
  row_frames :: int
  row_generation :: int

record settings_record =
  st_generation :: u64
  st_default_sort :: byte
  st_tiles_show_tags :: bool
  st_index_version :: byte
  st_probe_caps :: u16
  st_thumb_side :: u16

record meta_row =
  meta_generation :: int
  meta_default_sort :: int
  meta_tiles :: int
  meta_index_version :: int
  meta_probe_caps :: int
  meta_thumb_side :: int

record database =
  db_nodes :: "node_row list"
  db_objects :: "object_row list"
  db_meta :: meta_row

definition INT64_MAX :: int where "INT64_MAX = 2 ^ 63 - 1"

definition id_valid :: "bytes \<Rightarrow> bool" where
  "id_valid i = list_ex (\<lambda>b. b \<noteq> 0) i"

section \<open>Columns\<close>

definition bool_column :: "bool \<Rightarrow> int" where
  "bool_column b = (if b then 1 else 0)"

text \<open>\<open>optional_integer\<close>: a value outside the target type reads as absent.\<close>

definition optional_integer :: "int \<Rightarrow> int option \<Rightarrow> int option" where
  "optional_integer maximum column =
     (case column of None \<Rightarrow> None | Some v \<Rightarrow> if v < 0 \<or> v > maximum then None else Some v)"

definition bind_node :: "node_record \<Rightarrow> node_row" where
  "bind_node n =
     \<lparr>nw_id = nd_id n, nw_parent = nd_parent n, nw_kind = kind_code (nd_kind n), nw_name = nd_name n,
      nw_order = sint (nd_order n), nw_favorite = bool_column (nd_favorite n), nw_created = sint (nd_created n),
      nw_format = map_option sint (nd_format n), nw_width = map_option uint (nd_width n),
      nw_height = map_option uint (nd_height n), nw_duration = map_option sint (nd_duration n),
      nw_codec = map_option sint (nd_codec n), nw_original = map_option sint (nd_original n),
      nw_sort = map_option uint (nd_sort n), nw_animated = map_option bool_column (nd_animated n)\<rparr>"

definition kind_of_code :: "int \<Rightarrow> node_kind" where
  "kind_of_code c = (if c = 0 then GalleryNode else if c = 1 then ImageNode else VideoNode)"

definition node_of_row :: "node_row \<Rightarrow> node_record" where
  "node_of_row w =
     \<lparr>nd_id = nw_id w, nd_parent = nw_parent w, nd_kind = kind_of_code (nw_kind w), nd_name = nw_name w,
      nd_order = word_of_int (nw_order w), nd_favorite = (nw_favorite w \<noteq> 0), nd_created = word_of_int (nw_created w),
      nd_format = map_option word_of_int (optional_integer (2 ^ 31 - 1) (nw_format w)),
      nd_width = map_option word_of_int (optional_integer (2 ^ 32 - 1) (nw_width w)),
      nd_height = map_option word_of_int (optional_integer (2 ^ 32 - 1) (nw_height w)),
      nd_duration = map_option word_of_int (optional_integer (2 ^ 64 - 1) (nw_duration w)),
      nd_codec = map_option word_of_int (optional_integer (2 ^ 31 - 1) (nw_codec w)),
      nd_original = map_option word_of_int (optional_integer (2 ^ 64 - 1) (nw_original w)),
      nd_sort = map_option word_of_int (optional_integer (2 ^ 8 - 1) (nw_sort w)),
      nd_animated = map_option (\<lambda>v. v \<noteq> 0) (nw_animated w)\<rparr>"

definition read_node_row :: "node_row \<Rightarrow> node_record option" where
  "read_node_row w =
     (if length (nw_id w) \<noteq> NODE_ID_SIZE \<or> \<not> id_valid (nw_id w) then None
      else if nw_kind w < 0 \<or> nw_kind w > 2 \<or> length (nw_name w) < 1 \<or> nw_order w < 0 \<or> nw_created w < 0 then None
      else case nw_parent w of
        None \<Rightarrow> Some (node_of_row w)
      | Some p \<Rightarrow> if length p \<noteq> NODE_ID_SIZE then None else Some (node_of_row w))"

definition bind_object :: "object_record \<Rightarrow> object_row" where
  "bind_object r =
     \<lparr>row_object = rec_object r, row_node = rec_node r, row_role = uint (role_byte (rec_role r)),
      row_encrypted = sint (rec_encrypted r), row_plain = sint (rec_plain r), row_limit = sint (rec_limit r),
      row_frames = sint (rec_frames r), row_generation = sint (rec_generation r)\<rparr>"

definition role_of_code :: "int \<Rightarrow> object_role" where
  "role_of_code c = (if c = 1 then OriginalImage else if c = 2 then Thumbnail else if c = 3 then Poster else OriginalVideo)"

text \<open>One row of \<open>object_references\<close>.\<close>

definition read_object :: "object_row \<Rightarrow> object_record option" where
  "read_object w =
     (if length (row_object w) \<noteq> NODE_ID_SIZE \<or> length (row_node w) \<noteq> NODE_ID_SIZE then None
      else case (optional_integer (2 ^ 8 - 1) (Some (row_role w)), optional_integer (2 ^ 64 - 1) (Some (row_encrypted w)),
                 optional_integer (2 ^ 64 - 1) (Some (row_plain w)), optional_integer (2 ^ 32 - 1) (Some (row_limit w)),
                 optional_integer (2 ^ 32 - 1) (Some (row_frames w)), optional_integer (2 ^ 64 - 1) (Some (row_generation w))) of
        (Some role, Some encrypted, Some plain, Some limit, Some frames, Some generation) \<Rightarrow>
          if role < 1 \<or> role > 4 \<or> encrypted = 0 \<or> limit = 0 \<or> limit > 1048576 \<or> frames = 0 \<or> frames > 1048576 then None
          else Some \<lparr>rec_object = row_object w, rec_node = row_node w, rec_role = role_of_code role,
                     rec_encrypted = word_of_int encrypted, rec_plain = word_of_int plain, rec_limit = word_of_int limit,
                     rec_frames = word_of_int frames, rec_generation = word_of_int generation\<rparr>
      | _ \<Rightarrow> None)"

section \<open>Schema constraints\<close>

text \<open>The \<open>CHECK\<close>s of each table, with the range of a column where a row could leave it.\<close>

definition null_or :: "int \<Rightarrow> int \<Rightarrow> int option \<Rightarrow> bool" where
  "null_or low high v = (case v of None \<Rightarrow> True | Some x \<Rightarrow> low \<le> x \<and> x \<le> high)"

definition node_checks :: "node_row \<Rightarrow> bool" where
  "node_checks w \<longleftrightarrow> length (nw_id w) = NODE_ID_SIZE \<and> nw_id w \<noteq> replicate NODE_ID_SIZE 0 \<and>
     0 \<le> nw_kind w \<and> nw_kind w \<le> 2 \<and> 1 \<le> length (nw_name w) \<and> length (nw_name w) \<le> 255 \<and> 0 \<le> nw_order w \<and> nw_order w \<le> INT64_MAX \<and>
     (nw_favorite w = 0 \<or> nw_favorite w = 1) \<and> nw_created w \<ge> 0 \<and> null_or 0 1000000 (nw_width w) \<and>
     null_or 0 1000000 (nw_height w) \<and> null_or 0 INT64_MAX (nw_duration w) \<and> null_or 0 INT64_MAX (nw_original w) \<and>
     null_or 0 7 (nw_sort w) \<and> null_or 0 1 (nw_animated w)"

definition object_checks :: "object_row \<Rightarrow> bool" where
  "object_checks w \<longleftrightarrow> length (row_object w) = NODE_ID_SIZE \<and> row_object w \<noteq> replicate NODE_ID_SIZE 0 \<and>
     1 \<le> row_role w \<and> row_role w \<le> 4 \<and> row_encrypted w > 0 \<and> row_plain w \<ge> 0 \<and> 1 \<le> row_limit w \<and>
     row_limit w \<le> 1048576 \<and> row_frames w > 0 \<and> row_generation w \<ge> 0"

definition meta_checks :: "meta_row \<Rightarrow> bool" where
  "meta_checks m \<longleftrightarrow> meta_generation m \<ge> 0 \<and> 0 \<le> meta_default_sort m \<and> meta_default_sort m \<le> 7 \<and>
     (meta_tiles m = 0 \<or> meta_tiles m = 1) \<and> 0 \<le> meta_index_version m \<and> meta_index_version m \<le> 13 \<and>
     0 \<le> meta_probe_caps m \<and> meta_probe_caps m \<le> 65535 \<and> 0 \<le> meta_thumb_side m \<and> meta_thumb_side m \<le> 65535"

definition find_row :: "node_row list \<Rightarrow> bytes \<Rightarrow> node_row option" where
  "find_row nodes i = find (\<lambda>w. nw_id w = i) nodes"

text \<open>An \<open>INSERT\<close> of a row under the primary key, the checks, the unique indexes and the foreign key.\<close>

definition insert_node_row :: "node_row \<Rightarrow> database \<Rightarrow> database option" where
  "insert_node_row w d =
     (if node_checks w \<and> list_all (\<lambda>v. nw_id v \<noteq> nw_id w) (db_nodes d) \<and>
         (case nw_parent w of
            None \<Rightarrow> list_all (\<lambda>v. nw_parent v \<noteq> None) (db_nodes d)
          | Some p \<Rightarrow> list_all (\<lambda>v. nw_parent v \<noteq> Some p \<or> nw_name v \<noteq> nw_name w \<and> nw_order v \<noteq> nw_order w) (db_nodes d) \<and>
              find_row (db_nodes d @ [w]) p \<noteq> None)
      then Some (d\<lparr>db_nodes := db_nodes d @ [w]\<rparr>) else None)"

definition insert_object_row :: "object_row \<Rightarrow> database \<Rightarrow> database option" where
  "insert_object_row w d =
     (if object_checks w \<and> find_row (db_nodes d) (row_node w) \<noteq> None \<and>
         list_all (\<lambda>v. row_object v \<noteq> row_object w \<and> (row_node v \<noteq> row_node w \<or> row_role v \<noteq> row_role w)) (db_objects d)
      then Some (d\<lparr>db_objects := db_objects d @ [w]\<rparr>) else None)"

text \<open>What \<open>sqlite3_prepare\<close> and \<open>sqlite3_step\<close> of a writing statement report, through \<open>map_status\<close>.\<close>

definition run_statement :: "db_status \<Rightarrow> (database \<Rightarrow> database option) \<Rightarrow> database \<Rightarrow> db_status \<times> database" where
  "run_statement outcome sql d =
     (if outcome \<noteq> DbOk then (outcome, d)
      else case sql d of None \<Rightarrow> (DbConstraint, d) | Some d' \<Rightarrow> (DbOk, d'))"

section \<open>Nodes\<close>

text \<open>
  The recursive query of \<open>parent_depth_allowed\<close>: the number of ancestors above a node, counted up to 128;
  no row when there is no such node.
\<close>

fun ancestor_depth :: "node_row list \<Rightarrow> nat \<Rightarrow> bytes \<Rightarrow> nat option" where
  "ancestor_depth nodes fuel i =
     (case find_row nodes i of
        None \<Rightarrow> None
      | Some w \<Rightarrow>
          (case (nw_parent w, fuel) of
             (Some p, Suc fuel') \<Rightarrow>
               (case ancestor_depth nodes fuel' p of None \<Rightarrow> Some 0 | Some k \<Rightarrow> Some (Suc k))
           | _ \<Rightarrow> Some 0))"

declare ancestor_depth.simps [simp del]

definition parent_depth_allowed :: "bool \<Rightarrow> node_row list \<Rightarrow> bytes \<Rightarrow> bool" where
  "parent_depth_allowed query nodes p =
     (query \<and> (case ancestor_depth nodes 128 p of None \<Rightarrow> False | Some depth \<Rightarrow> depth < 128))"

definition insert_node :: "bool \<Rightarrow> db_status \<Rightarrow> node_record \<Rightarrow> database \<Rightarrow> db_status \<times> database" where
  "insert_node query outcome n d =
     (if \<not> id_valid (nd_id n) \<or> nd_parent n = None \<or> \<not> id_valid (the (nd_parent n)) \<or> nd_name n = [] \<or>
         length (nd_name n) > 255 \<or> nd_order n > word_of_int INT64_MAX \<or> nd_created n > word_of_int INT64_MAX
      then (DbInvalidArgument, d)
      else if \<not> parent_depth_allowed query (db_nodes d) (the (nd_parent n)) then (DbConstraint, d)
      else run_statement outcome (insert_node_row (bind_node n)) d)"

definition find_node :: "db_status \<Rightarrow> bytes \<Rightarrow> database \<Rightarrow> db_status \<times> node_record option" where
  "find_node outcome i d =
     (if \<not> id_valid i then (DbInvalidArgument, None)
      else if outcome \<noteq> DbOk then (outcome, None)
      else case find_row (db_nodes d) i of
        None \<Rightarrow> (DbOk, None)
      | Some w \<Rightarrow> (case read_node_row w of None \<Rightarrow> (DbWrongKeyOrCorrupt, None) | Some n \<Rightarrow> (DbOk, Some n)))"

fun read_rows :: "('w \<Rightarrow> 'r option) \<Rightarrow> 'w list \<Rightarrow> 'r list option" where
  "read_rows read [] = Some []"
| "read_rows read (w # ws) =
     (case read w of None \<Rightarrow> None | Some r \<Rightarrow> map_option ((#) r) (read_rows read ws))"

definition list_children :: "db_status \<Rightarrow> bytes \<Rightarrow> database \<Rightarrow> db_status \<times> node_record list" where
  "list_children outcome parent d =
     (if \<not> id_valid parent then (DbInvalidArgument, [])
      else if outcome \<noteq> DbOk then (outcome, [])
      else case read_rows read_node_row (sort_key nw_order (filter (\<lambda>w. nw_parent w = Some parent) (db_nodes d))) of
        None \<Rightarrow> (DbWrongKeyOrCorrupt, [])
      | Some ns \<Rightarrow> (DbOk, ns))"

section \<open>Objects\<close>

definition insert_object :: "db_status \<Rightarrow> object_record \<Rightarrow> database \<Rightarrow> db_status \<times> database" where
  "insert_object outcome r d =
     (if \<not> id_valid (rec_object r) \<or> \<not> id_valid (rec_node r) \<or> rec_encrypted r = 0 \<or> rec_limit r = 0 \<or>
         rec_limit r > 1048576 \<or> rec_frames r = 0
      then (DbInvalidArgument, d)
      else run_statement outcome (insert_object_row (bind_object r)) d)"

definition object_references :: "db_status \<Rightarrow> database \<Rightarrow> db_status \<times> object_record list" where
  "object_references outcome d =
     (if outcome \<noteq> DbOk then (outcome, [])
      else if length (db_objects d) > 3000000 then (DbWrongKeyOrCorrupt, [])
      else case read_rows read_object (sort_key row_object (db_objects d)) of
        None \<Rightarrow> (DbWrongKeyOrCorrupt, [])
      | Some rs \<Rightarrow> (DbOk, rs))"

definition object_is_referenced :: "db_status \<Rightarrow> bytes \<Rightarrow> database \<Rightarrow> db_status \<times> bool" where
  "object_is_referenced outcome i d =
     (if \<not> id_valid i then (DbInvalidArgument, False)
      else if outcome \<noteq> DbOk then (outcome, False)
      else (DbOk, list_ex (\<lambda>w. row_object w = i) (db_objects d)))"

text \<open>The rows of \<open>incomplete_media_nodes\<close>, in table order.\<close>

definition incomplete_media :: "object_row list \<Rightarrow> node_row \<Rightarrow> bool" where
  "incomplete_media objects n \<longleftrightarrow>
     (nw_kind n = 1 \<or> nw_kind n = 2) \<and>
       \<not> list_ex (\<lambda>v. row_node v = nw_id n \<and> row_role v = (if nw_kind n = 1 then 1 else 4) \<and>
                     Some (row_plain v) = nw_original n) objects
     \<or> list_ex (\<lambda>v. row_node v = nw_id n \<and>
          \<not> (nw_kind n = 1 \<and> (row_role v = 1 \<or> row_role v = 2) \<or> nw_kind n = 2 \<and> (row_role v = 3 \<or> row_role v = 4))) objects"

definition incomplete_media_nodes :: "db_status \<Rightarrow> database \<Rightarrow> db_status \<times> bytes list" where
  "incomplete_media_nodes outcome d =
     (if outcome \<noteq> DbOk then (outcome, [])
      else (DbOk, map nw_id (filter (incomplete_media (db_objects d)) (db_nodes d))))"

section \<open>Settings\<close>

definition settings :: "db_status \<Rightarrow> database \<Rightarrow> db_status \<times> settings_record" where
  "settings outcome d =
     (if outcome \<noteq> DbOk
      then (outcome, \<lparr>st_generation = 0, st_default_sort = 7, st_tiles_show_tags = True, st_index_version = 0,
                      st_probe_caps = 0, st_thumb_side = 0\<rparr>)
      else (DbOk,
       \<lparr>st_generation = word_of_int (meta_generation (db_meta d)),
        st_default_sort = word_of_int (meta_default_sort (db_meta d)),
        st_tiles_show_tags = (meta_tiles (db_meta d) \<noteq> 0),
        st_index_version = word_of_int (meta_index_version (db_meta d)),
        st_probe_caps = word_of_int (meta_probe_caps (db_meta d)),
        st_thumb_side = word_of_int (meta_thumb_side (db_meta d))\<rparr>))"

definition update_meta :: "meta_row \<Rightarrow> database \<Rightarrow> database option" where
  "update_meta m d = (if meta_checks m then Some (d\<lparr>db_meta := m\<rparr>) else None)"

definition set_settings :: "db_status \<Rightarrow> settings_record \<Rightarrow> database \<Rightarrow> db_status \<times> database" where
  "set_settings outcome r d =
     (if st_default_sort r > 7 \<or> st_index_version r > 13 then (DbInvalidArgument, d)
      else run_statement outcome
        (update_meta \<lparr>meta_generation = sint (st_generation r), meta_default_sort = uint (st_default_sort r),
           meta_tiles = bool_column (st_tiles_show_tags r), meta_index_version = uint (st_index_version r),
           meta_probe_caps = uint (st_probe_caps r), meta_thumb_side = uint (st_thumb_side r)\<rparr>) d)"

section \<open>Object transactions\<close>

text \<open>The status of each statement, were its constraints met.\<close>

record db_env =
  de_begin :: db_status
  de_find :: db_status
  de_settings :: db_status
  de_erase :: db_status
  de_insert :: db_status
  de_update :: db_status
  de_commit :: db_status

text \<open>\<open>COMMIT\<close> at the end of a transaction, or the \<open>ROLLBACK\<close> to the tables it began with.\<close>

definition end_transaction :: "db_env \<Rightarrow> database \<Rightarrow> db_status \<times> database \<Rightarrow> db_status \<times> database" where
  "end_transaction e before r =
     (case r of (status, d) \<Rightarrow>
        if status \<noteq> DbOk then (status, before)
        else if de_commit e \<noteq> DbOk then (de_commit e, before) else (DbOk, d))"

definition set_generation :: "int \<Rightarrow> database \<Rightarrow> database option" where
  "set_generation g d = update_meta ((db_meta d)\<lparr>meta_generation := g\<rparr>) d"

text \<open>\<open>if (status == Ok) status = \<dots>\<close>, the next statement of a transaction.\<close>

definition and_then :: "db_status \<times> database \<Rightarrow> (database \<Rightarrow> db_status \<times> database) \<Rightarrow> db_status \<times> database" where
  "and_then r f = (if fst r = DbOk then f (snd r) else r)"

definition commit_object_create :: "db_env \<Rightarrow> object_record \<Rightarrow> database \<Rightarrow> db_status \<times> database" where
  "commit_object_create e r d =
     (if de_begin e \<noteq> DbOk then (de_begin e, d)
      else let current = settings (de_settings e) d; g = st_generation (snd current) + 1
        in if fst current \<noteq> DbOk \<or> st_generation (snd current) = word_of_int INT64_MAX
        then (if fst current = DbOk then DbConstraint else fst current, d)
        else end_transaction e d
               (and_then (insert_object (de_insert e) (r\<lparr>rec_generation := g\<rparr>) d)
                  (run_statement (de_update e) (set_generation (sint g)))))"

definition find_object :: "bytes \<Rightarrow> object_role \<Rightarrow> database \<Rightarrow> bytes option" where
  "find_object n role d =
     map_option row_object (find (\<lambda>w. row_node w = n \<and> row_role w = uint (role_byte role)) (db_objects d))"

definition erase_object :: "bytes \<Rightarrow> database \<Rightarrow> database option" where
  "erase_object i d = Some (d\<lparr>db_objects := filter (\<lambda>w. row_object w \<noteq> i) (db_objects d)\<rparr>)"

definition erase_old :: "db_env \<Rightarrow> bytes option \<Rightarrow> database \<Rightarrow> db_status \<times> database" where
  "erase_old e old d =
     (case old of None \<Rightarrow> (DbOk, d) | Some i \<Rightarrow> run_statement (de_erase e) (erase_object i) d)"

definition next_generation :: "db_env \<Rightarrow> database \<Rightarrow> db_status \<times> database" where
  "next_generation e d = run_statement (de_update e) (set_generation (meta_generation (db_meta d) + 1)) d"

definition commit_object_replace :: "db_env \<Rightarrow> object_record \<Rightarrow> database \<Rightarrow> (db_status \<times> database) \<times> bytes option" where
  "commit_object_replace e r d =
     (if \<not> id_valid (rec_node r) then ((DbInvalidArgument, d), None)
      else if de_begin e \<noteq> DbOk then ((de_begin e, d), None)
      else let old = find_object (rec_node r) (rec_role r) d;
               current = settings (de_settings e) d;
               g = st_generation (snd current) + 1;
               status = (if de_find e \<noteq> DbOk then de_find e
                         else if fst current \<noteq> DbOk then fst current
                         else if st_generation (snd current) = word_of_int INT64_MAX then DbConstraint else DbOk);
               result = end_transaction e d
                 (and_then (and_then (and_then (status, d)
                    (erase_old e old))
                    (insert_object (de_insert e) (r\<lparr>rec_generation := g\<rparr>)))
                    (next_generation e))
           in (result, if fst result = DbOk then old else None))"

definition commit_object_delete :: "db_env \<Rightarrow> bytes \<Rightarrow> object_role \<Rightarrow> database \<Rightarrow> (db_status \<times> database) \<times> bytes option" where
  "commit_object_delete e n role d =
     (if \<not> id_valid n then ((DbInvalidArgument, d), None)
      else if de_begin e \<noteq> DbOk then ((de_begin e, d), None)
      else let old = find_object n role d;
               result = end_transaction e d
                 (and_then (and_then (de_find e, d)
                    (erase_old e old))
                    (if old = None then Pair DbOk else next_generation e))
           in (result, if fst result = DbOk then old else None))"

section \<open>The node tree\<close>

fun up :: "node_row list \<Rightarrow> nat \<Rightarrow> bytes \<Rightarrow> bool" where
  "up nodes 0 i = (\<exists>w. find_row nodes i = Some w \<and> nw_parent w = None)"
| "up nodes (Suc k) i = (\<exists>w p. find_row nodes i = Some w \<and> nw_parent w = Some p \<and> up nodes k p)"

text \<open>Distinct identities, checked rows, siblings with distinct names and positions, and a root above each node.\<close>

definition nodes_ok :: "node_row list \<Rightarrow> bool" where
  "nodes_ok nodes \<longleftrightarrow> distinct (map nw_id nodes) \<and> (\<forall>w \<in> set nodes. node_checks w) \<and>
     (\<forall>v \<in> set nodes. \<forall>w \<in> set nodes. v \<noteq> w \<and> nw_parent v = nw_parent w \<longrightarrow>
        nw_parent v \<noteq> None \<and> nw_name v \<noteq> nw_name w \<and> nw_order v \<noteq> nw_order w) \<and>
     (\<forall>w \<in> set nodes. \<exists>k \<le> 128. up nodes k (nw_id w))"

lemma find_row_Some: "find_row nodes i = Some w \<Longrightarrow> w \<in> set nodes \<and> nw_id w = i"
  by (auto simp: find_row_def find_Some_iff)

lemma find_row_None: "find_row nodes i = None \<longleftrightarrow> (\<forall>w \<in> set nodes. nw_id w \<noteq> i)"
  by (auto simp: find_row_def find_None_iff)

lemma find_row_append:
  "find_row (nodes @ [w]) i = (case find_row nodes i of Some v \<Rightarrow> Some v | None \<Rightarrow> if nw_id w = i then Some w else None)"
  by (induction nodes) (auto simp: find_row_def)

lemma find_row_member: "distinct (map nw_id nodes) \<Longrightarrow> w \<in> set nodes \<Longrightarrow> find_row nodes (nw_id w) = Some w"
  by (induction nodes) (auto simp: find_row_def rev_image_eqI)

lemma up_append: "up nodes k i \<Longrightarrow> up (nodes @ [w]) k i"
  by (induction nodes k i rule: up.induct) (auto simp: find_row_append)

lemma ancestor_depth_up: "up nodes k i \<Longrightarrow> k \<le> fuel \<Longrightarrow> ancestor_depth nodes fuel i = Some k"
proof (induction nodes k i arbitrary: fuel rule: up.induct)
  case (1 nodes i)
  then show ?case by (auto simp: ancestor_depth.simps[of nodes fuel i])
next
  case (2 nodes k i)
  then obtain f where f: "fuel = Suc f" by (cases fuel) auto
  obtain w p where w: "find_row nodes i = Some w" "nw_parent w = Some p" "up nodes k p" using 2(2) by auto
  then have "ancestor_depth nodes f p = Some k" using 2 f by blast
  then show ?case using w f by (simp add: ancestor_depth.simps[of nodes "Suc f" i])
qed

lemma insert_node_Ok:
  assumes "insert_node query outcome n d = (DbOk, d')"
  obtains p where "nd_parent n = Some p" "d' = d\<lparr>db_nodes := db_nodes d @ [bind_node n]\<rparr>" "node_checks (bind_node n)"
    "\<forall>v \<in> set (db_nodes d). nw_id v \<noteq> nd_id n"
    "\<forall>v \<in> set (db_nodes d). nw_parent v = Some p \<longrightarrow> nw_name v \<noteq> nd_name n \<and> nw_order v \<noteq> sint (nd_order n)"
    "parent_depth_allowed query (db_nodes d) p" "id_valid (nd_id n)" "id_valid p"
proof -
  obtain p where p: "nd_parent n = Some p" "parent_depth_allowed query (db_nodes d) p" "id_valid (nd_id n)" "id_valid p"
    and r: "run_statement outcome (insert_node_row (bind_node n)) d = (DbOk, d')"
    using assms by (auto simp: insert_node_def split: if_splits)
  have "nw_parent (bind_node n) = Some p" using p(1) by (simp add: bind_node_def)
  then show ?thesis
    using r p by (intro that[of p])
      (auto simp: run_statement_def insert_node_row_def bind_node_def list_all_iff split: if_splits option.splits)
qed

lemma inserted_node_tree:
  assumes "nodes_ok (db_nodes d)" and run: "insert_node query outcome n d = (DbOk, d')"
  shows "nodes_ok (db_nodes d')"
proof -
  obtain p where p: "nd_parent n = Some p" "d' = d\<lparr>db_nodes := db_nodes d @ [bind_node n]\<rparr>" "node_checks (bind_node n)"
    and new: "\<forall>v \<in> set (db_nodes d). nw_id v \<noteq> nd_id n"
    and sib: "\<forall>v \<in> set (db_nodes d). nw_parent v = Some p \<longrightarrow> nw_name v \<noteq> nd_name n \<and> nw_order v \<noteq> sint (nd_order n)"
    and dep: "parent_depth_allowed query (db_nodes d) p"
    by (rule insert_node_Ok[OF run])
  let ?w = "bind_node n"
  have w: "nw_id ?w = nd_id n" "nw_parent ?w = Some p" "nw_name ?w = nd_name n" "nw_order ?w = sint (nd_order n)"
    using p(1) by (simp_all add: bind_node_def)
  have "ancestor_depth (db_nodes d) 128 p \<noteq> None" using dep by (auto simp: parent_depth_allowed_def split: option.splits)
  then have "find_row (db_nodes d) p \<noteq> None" by (cases "find_row (db_nodes d) p") (simp_all add: ancestor_depth.simps[of "db_nodes d" 128 p])
  then obtain v where v: "v \<in> set (db_nodes d)" "nw_id v = p" using find_row_Some by blast
  then obtain k where k: "k \<le> 128" "up (db_nodes d) k p" using assms(1) by (auto simp: nodes_ok_def)
  then have "k < 128" using dep ancestor_depth_up[OF k(2,1)] by (simp add: parent_depth_allowed_def)
  moreover have found: "find_row (db_nodes d @ [?w]) (nd_id n) = Some ?w"
    using new w(1) find_row_None[of "db_nodes d" "nd_id n"] by (simp add: find_row_append)
  moreover have "up (db_nodes d @ [?w]) (Suc k) (nd_id n)"
    using w found up_append[OF k(2)] by simp
  ultimately have top: "\<exists>k \<le> 128. up (db_nodes d @ [?w]) k (nd_id n)" by (intro exI[of _ "Suc k"]) simp
  have old: "\<exists>k \<le> 128. up (db_nodes d @ [?w]) k (nw_id v)" if "v \<in> set (db_nodes d)" for v
    using assms(1) that up_append by (meson nodes_ok_def)
  have sibs: "nw_parent v \<noteq> None \<and> nw_name v \<noteq> nw_name x \<and> nw_order v \<noteq> nw_order x"
    if "v \<in> set (db_nodes d @ [?w])" "x \<in> set (db_nodes d @ [?w])" "v \<noteq> x" "nw_parent v = nw_parent x" for v x
    using that assms(1) sib w unfolding nodes_ok_def by (metis Un_iff empty_iff insert_iff list.set(1,2) option.distinct(1) set_append)
  have "distinct (map nw_id (db_nodes d @ [?w]))" "\<forall>v \<in> set (db_nodes d @ [?w]). node_checks v"
    using assms(1) new w(1) p(3) by (auto simp: nodes_ok_def)
  moreover have "\<forall>v \<in> set (db_nodes d @ [?w]). \<exists>k \<le> 128. up (db_nodes d @ [?w]) k (nw_id v)"
    using top old w(1) by auto
  moreover have "db_nodes d' = db_nodes d @ [?w]" using p(2) by simp
  ultimately show ?thesis using sibs unfolding nodes_ok_def by metis
qed

text \<open>
  Property C32.  Adding a node keeps the node table a tree: identities stay distinct, siblings keep distinct
  names and positions, there is one root, and the root is at most 128 steps above every node.  In particular
  no sequence of insertions makes a cycle or an orphan.
\<close>

theorem insert_node_keeps_tree:
  assumes "nodes_ok (db_nodes d)" "insert_node query outcome n d = (status, d')"
  shows "nodes_ok (db_nodes d')"
  using assms inserted_node_tree[of d query outcome n d']
  by (cases "status = DbOk") (auto simp: insert_node_def run_statement_def split: if_splits option.splits)

section \<open>Columns read back\<close>

lemma sint_uint_nonneg:
  assumes "0 \<le> sint x" shows "sint x = uint (x :: 'a :: len word)"
proof -
  have "sint x < 2 ^ (LENGTH('a) - 1)" by (rule sint_lt)
  also have "\<dots> \<le> (2 :: int) ^ LENGTH('a)" by (rule power_increasing) simp_all
  finally show ?thesis using assms by (simp add: uint_sint take_bit_int_eq_self)
qed

lemma column_uint:
  "map_option word_of_int (optional_integer (2 ^ LENGTH('a) - 1) (map_option uint x)) = (x :: 'a :: len word option)"
  using uint_lt2p by (cases x) (auto simp: optional_integer_def not_less zle_diff1_eq)

lemma column_sint:
  "null_or 0 m (map_option sint x) \<Longrightarrow> m \<le> n \<Longrightarrow> map_option word_of_int (optional_integer n (map_option sint x)) = x"
  by (cases x) (auto simp: optional_integer_def null_or_def not_less)

definition drop_negative :: "u32 option \<Rightarrow> u32 option" where
  "drop_negative x = (case x of None \<Rightarrow> None | Some v \<Rightarrow> if sint v < 0 then None else Some v)"

lemma column_int:
  "map_option word_of_int (optional_integer (2 ^ 31 - 1) (map_option sint x)) = drop_negative x"
proof (cases x)
  case (Some v)
  have "sint v < 2 ^ 31" using sint_lt[of v] by simp
  then show ?thesis using Some by (simp add: optional_integer_def drop_negative_def)
qed (simp add: optional_integer_def drop_negative_def)

text \<open>What a node reads back as: formats and codecs below zero are lost.\<close>

definition stored_node :: "node_record \<Rightarrow> node_record" where
  "stored_node n = n\<lparr>nd_format := drop_negative (nd_format n), nd_codec := drop_negative (nd_codec n)\<rparr>"

lemma read_bind_node:
  assumes "node_checks (bind_node n)" "id_valid (nd_id n)" "\<forall>p. nd_parent n = Some p \<longrightarrow> length p = NODE_ID_SIZE"
  shows "read_node_row (bind_node n) = Some (stored_node n)"
proof -
  note c = assms(1)[unfolded node_checks_def bind_node_def node_row.simps]
  have "kind_of_code (kind_code k) = k" for k by (cases k) (simp_all add: kind_of_code_def)
  moreover note column_uint[where 'a=32, simplified] column_uint[where 'a=8, simplified]
  moreover have "map_option word_of_int (optional_integer (2 ^ 64 - 1) (map_option sint x)) = x"
    if "null_or 0 INT64_MAX (map_option sint x)" for x :: "u64 option"
    by (rule column_sint[OF that]) (simp add: INT64_MAX_def)
  moreover have "map_option (\<lambda>v. v \<noteq> 0) (map_option bool_column x) = x" for x by (cases x) (simp_all add: bool_column_def)
  moreover have "(bool_column b \<noteq> 0) = b" for b by (simp add: bool_column_def)
  moreover note column_int
  ultimately have "node_of_row (bind_node n) = stored_node n"
    using c by (simp add: node_of_row_def bind_node_def stored_node_def)
  then show ?thesis
    using c assms(2,3) by (cases "nd_parent n") (auto simp: read_node_row_def bind_node_def)
qed

lemma row_parent_length:
  assumes "nodes_ok nodes" "w \<in> set nodes" "nw_parent w = Some p"
  shows "length p = NODE_ID_SIZE"
proof -
  obtain k where k: "up nodes k (nw_id w)" using assms by (auto simp: nodes_ok_def)
  have f: "find_row nodes (nw_id w) = Some w" using assms by (auto simp: nodes_ok_def intro: find_row_member)
  obtain j where "k = Suc j" using k f assms(3) by (cases k) auto
  then have "up nodes j p" using k f assms(3) by auto
  then obtain v where "find_row nodes p = Some v" by (cases j) auto
  then show ?thesis using assms(1) find_row_Some[of nodes p v] by (auto simp: nodes_ok_def node_checks_def)
qed

lemma zero_id_valid: "length i = NODE_ID_SIZE \<Longrightarrow> id_valid i \<longleftrightarrow> i \<noteq> replicate NODE_ID_SIZE 0"
proof -
  assume l: "length i = NODE_ID_SIZE"
  have "id_valid i \<longleftrightarrow> \<not> (\<forall>b \<in> set i. b = 0)" by (simp add: id_valid_def list_ex_iff)
  also have "(\<forall>b \<in> set i. b = 0) \<longleftrightarrow> i = replicate (length i) 0"
    by (metis in_set_replicate replicate_length_same)
  finally show ?thesis by (simp add: l)
qed

lemma read_node_ok:
  assumes "nodes_ok nodes" "w \<in> set nodes"
  shows "read_node_row w = Some (node_of_row w)"
proof -
  have c: "node_checks w" using assms by (simp add: nodes_ok_def)
  then have "length (nw_id w) = NODE_ID_SIZE" "id_valid (nw_id w)" using zero_id_valid by (auto simp: node_checks_def)
  moreover have "\<not> (nw_kind w < 0 \<or> nw_kind w > 2 \<or> length (nw_name w) < 1 \<or> nw_order w < 0 \<or> nw_created w < 0)"
    using c by (auto simp: node_checks_def)
  ultimately show ?thesis
    using row_parent_length[OF assms] by (cases "nw_parent w") (simp_all add: read_node_row_def)
qed

lemma read_rows_map: "(\<And>w. w \<in> set ws \<Longrightarrow> read w = Some (f w)) \<Longrightarrow> read_rows read ws = Some (map f ws)"
  by (induction ws) auto

lemma map_insort_key:
  "(\<And>v. v \<in> set xs \<Longrightarrow> f w \<le> f v \<longleftrightarrow> g (h w) \<le> g (h v)) \<Longrightarrow> map h (insort_key f w xs) = insort_key g (h w) (map h xs)"
  by (induction xs) auto

lemma order_column: "0 \<le> nw_order v \<Longrightarrow> nw_order v \<le> INT64_MAX \<Longrightarrow> uint (word_of_int (nw_order v) :: u64) = nw_order v"
  by (simp add: INT64_MAX_def take_bit_int_eq_self unsigned_of_int)

lemma children_sorted:
  assumes "nodes_ok nodes" "w \<notin> set nodes" "nodes_ok (nodes @ [w])" "nw_parent w = Some p"
  shows "sort_key nw_order (filter (\<lambda>v. nw_parent v = Some p) (nodes @ [w])) =
    insort_key nw_order w (sort_key nw_order (filter (\<lambda>v. nw_parent v = Some p) nodes))"
proof (rule sort_key_inj_key_eq)
  show "inj_on nw_order (set (filter (\<lambda>v. nw_parent v = Some p) (nodes @ [w])))"
  proof (rule inj_onI, rule ccontr)
    fix a b assume "a \<in> set (filter (\<lambda>v. nw_parent v = Some p) (nodes @ [w]))"
      "b \<in> set (filter (\<lambda>v. nw_parent v = Some p) (nodes @ [w]))" "nw_order a = nw_order b" "a \<noteq> b"
    moreover from this have "nw_parent a = nw_parent b" by (auto split: if_splits)
    ultimately show False using assms(3) unfolding nodes_ok_def by (meson filter_is_subset subsetD)
  qed
qed (use assms in \<open>auto simp: sorted_insort_key\<close>)

text \<open>
  Property C33.  A node that was inserted reads back: looking it up gives its record, apart from a format or
  codec below zero, which the column does not keep; and the children of its parent are the earlier ones
  with it at its position.
\<close>

theorem inserted_node_reads_back:
  assumes ok: "nodes_ok (db_nodes d)" and run: "insert_node query outcome n d = (DbOk, d')"
    and p: "nd_parent n = Some p" and id: "length p = NODE_ID_SIZE"
  shows "find_node DbOk (nd_id n) d' = (DbOk, Some (stored_node n)) \<and>
    (\<exists>ns. list_children DbOk p d = (DbOk, ns) \<and> list_children DbOk p d' = (DbOk, insort_key nd_order (stored_node n) ns))"
proof -
  let ?w = "bind_node n"
  obtain q where "nd_parent n = Some q" and d': "d' = d\<lparr>db_nodes := db_nodes d @ [?w]\<rparr>" "node_checks ?w"
    and new: "\<forall>v \<in> set (db_nodes d). nw_id v \<noteq> nd_id n" and v: "id_valid (nd_id n)" "id_valid q"
    by (rule insert_node_Ok[OF run])
  then have pv: "id_valid p" using p by simp
  have ok': "nodes_ok (db_nodes d @ [?w])" using inserted_node_tree[OF ok run] d'(1) by simp
  have r: "read_node_row ?w = Some (stored_node n)" using read_bind_node[OF d'(2) v(1)] p id by simp
  have w: "nw_id ?w = nd_id n" "nw_parent ?w = Some p" using p by (simp_all add: bind_node_def)
  have "find_row (db_nodes d @ [?w]) (nd_id n) = Some ?w"
    using new w(1) find_row_None[of "db_nodes d" "nd_id n"] by (simp add: find_row_append)
  then have found: "find_node DbOk (nd_id n) d' = (DbOk, Some (stored_node n))" using v(1) r d'(1) by (simp add: find_node_def)
  let ?cs = "sort_key nw_order (filter (\<lambda>v. nw_parent v = Some p) (db_nodes d))"
  have old: "read_rows read_node_row ?cs = Some (map node_of_row ?cs)"
    by (rule read_rows_map) (use read_node_ok[OF ok] in auto)
  have cs: "sort_key nw_order (filter (\<lambda>v. nw_parent v = Some p) (db_nodes d @ [?w])) = insort_key nw_order ?w ?cs"
    using new w by (intro children_sorted ok ok') auto
  have "read_rows read_node_row (insort_key nw_order ?w ?cs) = Some (map node_of_row (insort_key nw_order ?w ?cs))"
    by (rule read_rows_map) (use read_node_ok[OF ok'] in \<open>auto simp: set_insort_key\<close>)
  also have "map node_of_row (insort_key nw_order ?w ?cs) = insort_key nd_order (node_of_row ?w) (map node_of_row ?cs)"
  proof (rule map_insort_key)
    fix v assume "v \<in> set ?cs"
    then have "node_checks v" using ok by (auto simp: nodes_ok_def)
    then show "nw_order ?w \<le> nw_order v \<longleftrightarrow> nd_order (node_of_row ?w) \<le> nd_order (node_of_row v)"
      using d'(2) order_column[of v] order_column[of ?w] by (simp add: node_of_row_def word_le_def node_checks_def)
  qed
  also have "node_of_row ?w = stored_node n" using r read_node_ok[OF ok', of ?w] by simp
  finally show ?thesis using found old cs pv d'(1) by (simp add: list_children_def)
qed

section \<open>Object rows\<close>

definition objects_ok :: "database \<Rightarrow> bool" where
  "objects_ok d \<longleftrightarrow> distinct (map row_object (db_objects d)) \<and>
     distinct (map (\<lambda>w. (row_node w, row_role w)) (db_objects d)) \<and>
     (\<forall>w \<in> set (db_objects d). object_checks w \<and> find_row (db_nodes d) (row_node w) \<noteq> None)"

definition tables_ok :: "database \<Rightarrow> bool" where
  "tables_ok d \<longleftrightarrow> nodes_ok (db_nodes d) \<and> objects_ok d \<and> meta_checks (db_meta d) \<and>
     meta_generation (db_meta d) \<le> INT64_MAX"

definition without :: "bytes option \<Rightarrow> object_row list \<Rightarrow> object_row list" where
  "without old ws = (case old of None \<Rightarrow> ws | Some i \<Rightarrow> filter (\<lambda>w. row_object w \<noteq> i) ws)"

lemma without_None [simp]: "without None ws = ws"
  by (simp add: without_def)

lemma set_without: "w \<in> set (without old ws) \<longleftrightarrow> w \<in> set ws \<and> Some (row_object w) \<noteq> old"
  by (auto simp: without_def split: option.splits)

lemma run_statement_cases:
  assumes "run_statement outcome sql d = (s, d')"
  obtains "s = DbOk" "sql d = Some d'" | "s \<noteq> DbOk" "d' = d"
  using assms by (auto simp: run_statement_def split: if_splits option.splits)

lemma insert_object_Ok:
  assumes "insert_object outcome r d = (DbOk, d')"
  shows "d' = d\<lparr>db_objects := db_objects d @ [bind_object r]\<rparr> \<and> object_checks (bind_object r) \<and>
    find_row (db_nodes d) (rec_node r) \<noteq> None \<and> rec_frames r \<noteq> 0 \<and>
    (\<forall>v \<in> set (db_objects d). row_object v \<noteq> rec_object r \<and>
       (row_node v \<noteq> rec_node r \<or> row_role v \<noteq> uint (role_byte (rec_role r))))"
  using assms
  by (auto simp: insert_object_def run_statement_def insert_object_row_def list_all_iff bind_object_def
      split: if_splits option.splits)

lemma insert_object_ok:
  "objects_ok d \<Longrightarrow> insert_object outcome r d = (DbOk, d') \<Longrightarrow> objects_ok d'"
  using insert_object_Ok[of outcome r d d'] by (auto simp: objects_ok_def bind_object_def)

lemma objects_ok_without: "objects_ok d \<Longrightarrow> objects_ok (d\<lparr>db_objects := without old (db_objects d)\<rparr>)"
  by (auto simp: objects_ok_def without_def distinct_map_filter split: option.splits)

lemma find_last: "(\<And>v. v \<in> set xs \<Longrightarrow> \<not> P v) \<Longrightarrow> P w \<Longrightarrow> find P (xs @ [w]) = Some w"
  by (induction xs) auto

lemma find_object_Some: "find_object n role d = Some i \<Longrightarrow>
  \<exists>w \<in> set (db_objects d). row_object w = i \<and> row_node w = n \<and> row_role w = uint (role_byte role)"
  by (auto simp: find_object_def find_Some_iff)

lemma find_object_None: "find_object n role d = None \<Longrightarrow> w \<in> set (db_objects d) \<Longrightarrow>
  row_node w \<noteq> n \<or> row_role w \<noteq> uint (role_byte role)"
  by (auto simp: find_object_def find_None_iff)

lemma generation_step:
  assumes "meta_checks (db_meta d)" "meta_generation (db_meta d) \<le> INT64_MAX"
    and "word_of_int (meta_generation (db_meta d)) \<noteq> (word_of_int INT64_MAX :: u64)"
  shows "meta_generation (db_meta d) + 1 \<le> INT64_MAX"
    "sint (word_of_int (meta_generation (db_meta d)) + 1 :: u64) = meta_generation (db_meta d) + 1"
proof -
  let ?g = "meta_generation (db_meta d)"
  have g: "0 \<le> ?g" "?g \<noteq> INT64_MAX" using assms by (auto simp: meta_checks_def)
  then show le: "?g + 1 \<le> INT64_MAX" using assms(2) by simp
  have "sint (word_of_int (?g + 1) :: u64) = signed_take_bit 63 (?g + 1)" by (simp only: signed_of_int) simp
  also have "\<dots> = ?g + 1" using g(1) le by (intro signed_take_bit_int_eq_self) (simp_all add: INT64_MAX_def)
  finally show "sint (word_of_int ?g + 1 :: u64) = ?g + 1" by simp
qed

text \<open>The effect of a transaction that commits: the rows it leaves and the generation, one higher.\<close>

definition stepped :: "database \<Rightarrow> object_row list \<Rightarrow> database" where
  "stepped d rows = d\<lparr>db_objects := rows, db_meta := (db_meta d)\<lparr>meta_generation := meta_generation (db_meta d) + 1\<rparr>\<rparr>"

lemma next_generation_Ok:
  "next_generation e d = (DbOk, d') \<Longrightarrow> d' = stepped d (db_objects d)"
  by (auto simp: next_generation_def run_statement_def set_generation_def update_meta_def stepped_def
      split: if_splits option.splits)

lemma end_transaction_Ok: "end_transaction e d r = (DbOk, d') \<Longrightarrow> r = (DbOk, d')"
  by (cases r) (auto simp: end_transaction_def split: if_splits)

lemma end_transaction_fail: "end_transaction e d r = (s, d') \<Longrightarrow> s \<noteq> DbOk \<Longrightarrow> d' = d"
  by (cases r) (auto simp: end_transaction_def split: if_splits)

lemma and_then_Ok: "and_then r f = (DbOk, d') \<Longrightarrow> \<exists>d1. r = (DbOk, d1) \<and> f d1 = (DbOk, d')"
  by (cases r) (auto simp: and_then_def split: if_splits)

lemma settings_simps [simp]:
  "fst (settings outcome d) = outcome"
  "st_generation (snd (settings DbOk d)) = word_of_int (meta_generation (db_meta d))"
  by (simp_all add: settings_def)

lemma erase_old_Ok: "erase_old e old d = (DbOk, d1) \<Longrightarrow> d1 = d\<lparr>db_objects := without old (db_objects d)\<rparr>"
  by (auto simp: erase_old_def without_def run_statement_def erase_object_def split: option.splits if_splits)

lemma commit_create_cases:
  assumes ok: "meta_checks (db_meta d)" "meta_generation (db_meta d) \<le> INT64_MAX"
    and run: "commit_object_create e r d = (s, d')"
  obtains g d1 where "s = DbOk" "g = word_of_int (meta_generation (db_meta d)) + 1"
      "insert_object (de_insert e) (r\<lparr>rec_generation := g\<rparr>) d = (DbOk, d1)" "meta_generation (db_meta d) + 1 \<le> INT64_MAX"
      "d' = stepped d (db_objects d @ [bind_object (r\<lparr>rec_generation := g\<rparr>)])"
  | "s \<noteq> DbOk" "d' = d"
proof (cases "s = DbOk")
  case True
  let ?g = "word_of_int (meta_generation (db_meta d)) + 1 :: u64"
  have c: "de_settings e = DbOk" using run True by (auto simp: commit_object_create_def Let_def split: if_splits)
  have c2: "word_of_int (meta_generation (db_meta d)) \<noteq> (word_of_int INT64_MAX :: u64)"
    and t: "end_transaction e d (and_then (insert_object (de_insert e) (r\<lparr>rec_generation := ?g\<rparr>) d)
                  (run_statement (de_update e) (set_generation (sint ?g)))) = (DbOk, d')"
    using run True c by (auto simp: commit_object_create_def Let_def split: if_splits)
  obtain d1 where i: "insert_object (de_insert e) (r\<lparr>rec_generation := ?g\<rparr>) d = (DbOk, d1)"
    and u: "run_statement (de_update e) (set_generation (sint ?g)) d1 = (DbOk, d')"
    using and_then_Ok[OF end_transaction_Ok[OF t]] by blast
  note gs = generation_step[OF ok c2]
  have "d' = stepped d (db_objects d @ [bind_object (r\<lparr>rec_generation := ?g\<rparr>)])"
    using insert_object_Ok[OF i] u unfolding gs(2)
    by (auto simp: run_statement_def set_generation_def update_meta_def stepped_def split: if_splits)
  then show ?thesis using that(1)[OF True refl i] gs by simp
next
  case False
  have "d' = d" using run False
    by (auto simp: commit_object_create_def Let_def split: if_splits dest: end_transaction_fail)
  then show ?thesis using that(2) False by blast
qed

lemma commit_replace_cases:
  assumes run: "commit_object_replace e r d = ((s, d'), old)"
  obtains g d1 where "s = DbOk" "old = find_object (rec_node r) (rec_role r) d"
      "g = word_of_int (meta_generation (db_meta d)) + 1" "word_of_int (meta_generation (db_meta d)) \<noteq> (word_of_int INT64_MAX :: u64)"
      "insert_object (de_insert e) (r\<lparr>rec_generation := g\<rparr>) (d\<lparr>db_objects := without old (db_objects d)\<rparr>) = (DbOk, d1)"
      "d' = stepped d (without old (db_objects d) @ [bind_object (r\<lparr>rec_generation := g\<rparr>)])"
  | "s \<noteq> DbOk" "d' = d" "old = None"
proof (cases "s = DbOk")
  case True
  let ?g = "st_generation (snd (settings (de_settings e) d)) + 1"
  let ?old = "find_object (rec_node r) (rec_role r) d"
  let ?status = "if de_find e \<noteq> DbOk then de_find e else if de_settings e \<noteq> DbOk then de_settings e
      else if st_generation (snd (settings (de_settings e) d)) = word_of_int INT64_MAX then DbConstraint else DbOk"
  have old: "old = ?old" and t: "end_transaction e d (and_then (and_then (and_then (?status, d) (erase_old e ?old))
      (insert_object (de_insert e) (r\<lparr>rec_generation := ?g\<rparr>))) (next_generation e)) = (DbOk, d')"
    using run True unfolding commit_object_replace_def Let_def settings_simps(1) by (auto split: if_splits)
  obtain d1 d2 where st: "?status = DbOk" and e: "erase_old e ?old d = (DbOk, d1)"
    and i: "insert_object (de_insert e) (r\<lparr>rec_generation := ?g\<rparr>) d1 = (DbOk, d2)" and n: "next_generation e d2 = (DbOk, d')"
    using end_transaction_Ok[OF t] by (auto dest!: and_then_Ok)
  have s: "de_settings e = DbOk" "word_of_int (meta_generation (db_meta d)) \<noteq> (word_of_int INT64_MAX :: u64)"
    using st by (auto split: if_splits)
  have g: "?g = word_of_int (meta_generation (db_meta d)) + 1" by (simp add: s)
  note d1 = erase_old_Ok[OF e]
  have "d' = stepped d (without ?old (db_objects d) @ [bind_object (r\<lparr>rec_generation := ?g\<rparr>)])"
    using insert_object_Ok[OF i] next_generation_Ok[OF n] d1 by (simp add: stepped_def)
  then show ?thesis using that(1)[OF True old refl s(2)] i d1 old unfolding g by simp
next
  case False
  then have "d' = d \<and> old = None" using run
    by (auto simp: commit_object_replace_def Let_def split: if_splits dest: end_transaction_fail)
  then show ?thesis using that(2) False by blast
qed

lemma commit_delete_cases:
  assumes run: "commit_object_delete e n role d = ((s, d'), old)"
  obtains "s = DbOk" "old = find_object n role d" "d' = (if old = None then d else stepped d (without old (db_objects d)))"
  | "s \<noteq> DbOk" "d' = d" "old = None"
proof (cases "s = DbOk")
  case True
  let ?old = "find_object n role d"
  have old: "old = ?old" and t: "end_transaction e d (and_then (and_then (de_find e, d) (erase_old e ?old))
      (if ?old = None then Pair DbOk else next_generation e)) = (DbOk, d')"
    using run True unfolding commit_object_delete_def Let_def by (auto split: if_splits)
  obtain d1 where e: "erase_old e ?old d = (DbOk, d1)" and n: "(if ?old = None then Pair DbOk else next_generation e) d1 = (DbOk, d')"
    using end_transaction_Ok[OF t] by (auto dest!: and_then_Ok)
  have "d' = (if ?old = None then d else stepped d (without ?old (db_objects d)))"
    using erase_old_Ok[OF e] n next_generation_Ok[of e d1 d'] by (auto simp: stepped_def split: if_splits)
  then show ?thesis using that(1) True old by simp
next
  case False
  then have "d' = d \<and> old = None" using run
    by (auto simp: commit_object_delete_def Let_def split: if_splits dest: end_transaction_fail)
  then show ?thesis using that(2) False by blast
qed

lemma stepped_simps [simp]:
  "db_objects (stepped d ws) = ws" "db_nodes (stepped d ws) = db_nodes d"
  "meta_generation (db_meta (stepped d ws)) = meta_generation (db_meta d) + 1"
  by (simp_all add: stepped_def)

lemma tables_ok_stepped:
  assumes "tables_ok d" "meta_generation (db_meta d) + 1 \<le> INT64_MAX" "objects_ok (d\<lparr>db_objects := ws\<rparr>)"
  shows "tables_ok (stepped d ws)"
  using assms by (simp add: tables_ok_def stepped_def objects_ok_def meta_checks_def)

lemma tables_ok_meta: "tables_ok d \<Longrightarrow> meta_checks (db_meta d)" "tables_ok d \<Longrightarrow> meta_generation (db_meta d) \<le> INT64_MAX"
  by (simp_all add: tables_ok_def)

lemma inserted_rows_ok:
  assumes "objects_ok d0" "insert_object outcome r d0 = (DbOk, d1)" "db_nodes d0 = db_nodes d"
  shows "objects_ok (d\<lparr>db_objects := db_objects d0 @ [bind_object r]\<rparr>)"
  using insert_object_ok[OF assms(1,2)] insert_object_Ok[OF assms(2)] assms(3) by (simp add: objects_ok_def)

lemma create_tables_ok:
  assumes "tables_ok d" "commit_object_create e r d = (s, d')"
  shows "tables_ok d'"
  using tables_ok_meta[OF assms(1)] assms(2)
proof (cases rule: commit_create_cases)
  case (1 g d1)
  have o: "objects_ok d" using assms(1) by (simp add: tables_ok_def)
  show ?thesis unfolding 1(5) by (rule tables_ok_stepped[OF assms(1) 1(4) inserted_rows_ok[OF o 1(3) refl]])
qed (use assms in simp)

lemma replace_tables_ok:
  assumes "tables_ok d" "commit_object_replace e r d = ((s, d'), old)"
  shows "tables_ok d'"
  using assms(2)
proof (cases rule: commit_replace_cases)
  case (1 g d1)
  have o: "objects_ok d" using assms(1) by (simp add: tables_ok_def)
  have "objects_ok (d\<lparr>db_objects := without old (db_objects d) @ [bind_object (r\<lparr>rec_generation := g\<rparr>)]\<rparr>)"
    using inserted_rows_ok[OF objects_ok_without[OF o] 1(5), of d] by simp
  moreover have "meta_generation (db_meta d) + 1 \<le> INT64_MAX"
    using generation_step(1) 1(4) tables_ok_meta[OF assms(1)] by blast
  ultimately show ?thesis unfolding 1(6) using tables_ok_stepped[OF assms(1)] by blast
qed (use assms in simp)

text \<open>
  Property C34.  Replacing an object is one transaction: it either leaves every table as it was and reports
  no object to reclaim, or the node's object in that role is the new one, the object it replaced is reported
  and, unless it is the new one, no longer referenced, every other reference stays, and the generation is one higher.  The schema
  constraints hold either way.
\<close>

theorem replace_transaction:
  assumes ok: "tables_ok d" and run: "commit_object_replace e r d = ((s, d'), old)"
  shows "tables_ok d' \<and>
    (if s = DbOk
     then old = find_object (rec_node r) (rec_role r) d \<and> find_object (rec_node r) (rec_role r) d' = Some (rec_object r) \<and>
       meta_generation (db_meta d') = meta_generation (db_meta d) + 1 \<and>
       (\<forall>i. i \<in> row_object ` set (db_objects d') \<longleftrightarrow> i = rec_object r \<or> i \<in> row_object ` set (db_objects d) \<and> old \<noteq> Some i)
     else d' = d \<and> old = None)"
  using run
proof (cases rule: commit_replace_cases)
  case (1 g d1)
  let ?w = "bind_object (r\<lparr>rec_generation := g\<rparr>)"
  have w: "row_object ?w = rec_object r" "row_node ?w = rec_node r" "row_role ?w = uint (role_byte (rec_role r))"
    by (simp_all add: bind_object_def)
  have new: "\<forall>v \<in> set (without old (db_objects d)). row_object v \<noteq> rec_object r \<and>
      (row_node v \<noteq> rec_node r \<or> row_role v \<noteq> uint (role_byte (rec_role r)))"
    using insert_object_Ok[OF 1(5)] by simp
  have "find (\<lambda>v. row_node v = rec_node r \<and> row_role v = uint (role_byte (rec_role r))) (without old (db_objects d) @ [?w]) = Some ?w"
    using new w by (intro find_last) auto
  then have "find_object (rec_node r) (rec_role r) d' = Some (rec_object r)" using 1(6) w by (simp add: find_object_def)
  moreover have "i \<in> row_object ` set (db_objects d') \<longleftrightarrow> i = rec_object r \<or> i \<in> row_object ` set (db_objects d) \<and> old \<noteq> Some i" for i
    using 1(6) w by (auto simp: set_without)
  ultimately show ?thesis using 1 replace_tables_ok[OF ok run] by simp
qed (use ok in simp)
lemma delete_tables_ok:
  assumes "tables_ok d" "commit_object_delete e n role d = ((s, d'), old)" "meta_generation (db_meta d) < INT64_MAX"
  shows "tables_ok d'"
  using assms(2)
proof (cases rule: commit_delete_cases)
  case 1
  have "objects_ok (d\<lparr>db_objects := without old (db_objects d)\<rparr>)"
    using assms(1) objects_ok_without by (simp add: tables_ok_def)
  then show ?thesis using 1(3) assms(1,3) tables_ok_stepped[OF assms(1)] by simp
qed (use assms in simp)

section \<open>Object rows read back\<close>

lemma role_code [simp]: "role_of_code (uint (role_byte r)) = r" "1 \<le> uint (role_byte r)" "uint (role_byte r) \<le> 4"
  by (cases r; simp add: role_of_code_def)+

lemma read_bind_object:
  assumes "object_checks (bind_object r)" "length (rec_node r) = NODE_ID_SIZE" "rec_frames r \<le> 1048576"
  shows "read_object (bind_object r) = Some r"
proof -
  note c = assms(1)[unfolded object_checks_def bind_object_def object_row.simps]
  have z: "0 \<le> sint x \<Longrightarrow> optional_integer (2 ^ LENGTH('a) - 1) (Some (sint x)) = Some (sint x)" for x :: "'a :: len word"
    using uint_lt2p[of x] sint_uint_nonneg[of x] by (auto simp: optional_integer_def not_less zle_diff1_eq)
  have f: "sint (rec_frames r) \<le> 1048576"
    using assms(3) c sint_uint_nonneg[of "rec_frames r"] by (simp add: word_le_def)
  have "optional_integer (2 ^ 8 - 1) (Some (uint (role_byte (rec_role r)))) = Some (uint (role_byte (rec_role r)))"
    using role_code(2,3)[of "rec_role r"] by (simp add: optional_integer_def del: role_code)
  moreover note z[of "rec_encrypted r"] z[of "rec_plain r"] z[of "rec_limit r"] z[of "rec_frames r"] z[of "rec_generation r"]
  ultimately show ?thesis
    using c f assms(2) by (cases "rec_role r") (auto simp: read_object_def bind_object_def role_of_code_def)
qed

section \<open>Sample tables\<close>

definition sample_root :: node_row where
  "sample_root = \<lparr>nw_id = replicate 16 1, nw_parent = None, nw_kind = 0, nw_name = ascii ''root'', nw_order = 0,
     nw_favorite = 0, nw_created = 0, nw_format = None, nw_width = None, nw_height = None, nw_duration = None,
     nw_codec = None, nw_original = None, nw_sort = None, nw_animated = None\<rparr>"

definition sample_image :: node_record where
  "sample_image = \<lparr>nd_id = replicate 16 2, nd_parent = Some (replicate 16 1), nd_kind = ImageNode, nd_name = ascii ''a.png'',
     nd_order = 0, nd_favorite = False, nd_created = 0, nd_format = Some 1, nd_width = Some 4, nd_height = Some 3,
     nd_duration = None, nd_codec = None, nd_original = Some 3, nd_sort = None, nd_animated = None\<rparr>"

definition sample_row :: object_row where
  "sample_row = \<lparr>row_object = replicate 16 7, row_node = replicate 16 2, row_role = 2, row_encrypted = 100, row_plain = 3,
     row_limit = 2, row_frames = 2, row_generation = 1\<rparr>"

definition sample_meta :: meta_row where
  "sample_meta = \<lparr>meta_generation = 1, meta_default_sort = 7, meta_tiles = 1, meta_index_version = 0, meta_probe_caps = 0,
     meta_thumb_side = 0\<rparr>"

definition empty_tables :: database where
  "empty_tables = \<lparr>db_nodes = [sample_root], db_objects = [], db_meta = sample_meta\<rparr>"

definition sample_tables :: database where
  "sample_tables = \<lparr>db_nodes = [sample_root, bind_node sample_image], db_objects = [sample_row], db_meta = sample_meta\<rparr>"

definition db_works :: db_env where
  "db_works = \<lparr>de_begin = DbOk, de_find = DbOk, de_settings = DbOk, de_erase = DbOk, de_insert = DbOk, de_update = DbOk,
     de_commit = DbOk\<rparr>"

lemma empty_tables_ok: "nodes_ok (db_nodes empty_tables)"
proof -
  have "up [sample_root] 0 (nw_id sample_root)" by (simp add: find_row_def sample_root_def)
  then have "\<exists>k \<le> 128. up [sample_root] k (nw_id sample_root)" by (intro exI[of _ 0]) simp
  moreover have "node_checks sample_root"
    by (simp add: node_checks_def sample_root_def NODE_ID_SIZE_def ascii_def null_or_def INT64_MAX_def)
  ultimately show ?thesis by (simp add: nodes_ok_def empty_tables_def)
qed

lemma sample_insert: "insert_node True DbOk sample_image empty_tables = (DbOk, sample_tables\<lparr>db_objects := []\<rparr>)"
proof -
  have "ancestor_depth [sample_root] 128 (replicate 16 1) = Some 0"
    by (subst ancestor_depth.simps) (simp add: find_row_def sample_root_def)
  then show ?thesis
    by (simp add: insert_node_def empty_tables_def sample_tables_def run_statement_def insert_node_row_def
        parent_depth_allowed_def node_checks_def bind_node_def sample_image_def find_row_def sample_root_def
        id_valid_def list_ex_iff ascii_def NODE_ID_SIZE_def null_or_def INT64_MAX_def bool_column_def)
qed

theorem insert_node_keeps_tree_witness: "nodes_ok (db_nodes (sample_tables\<lparr>db_objects := []\<rparr>))"
  by (rule insert_node_keeps_tree[OF empty_tables_ok sample_insert])

theorem inserted_node_reads_back_witness:
  "find_node DbOk (replicate 16 2) (sample_tables\<lparr>db_objects := []\<rparr>) = (DbOk, Some sample_image)"
  using inserted_node_reads_back[OF empty_tables_ok sample_insert, of "replicate 16 1"]
  by (simp add: sample_image_def NODE_ID_SIZE_def stored_node_def drop_negative_def)

lemma sample_tables_ok: "tables_ok sample_tables"
proof -
  have "nodes_ok (db_nodes sample_tables)"
    using inserted_node_tree[OF empty_tables_ok sample_insert] by simp
  then show ?thesis
    by (simp add: tables_ok_def objects_ok_def sample_tables_def sample_row_def sample_meta_def object_checks_def
        NODE_ID_SIZE_def find_row_def bind_node_def sample_image_def sample_root_def meta_checks_def INT64_MAX_def)
qed

definition sample_record :: object_record where
  "sample_record = \<lparr>rec_object = replicate 16 9, rec_node = replicate 16 2, rec_role = Thumbnail, rec_encrypted = 200,
     rec_plain = 4, rec_limit = 2, rec_frames = 2, rec_generation = 0\<rparr>"

lemma sample_replace:
  "commit_object_replace db_works sample_record sample_tables =
     ((DbOk, stepped sample_tables [bind_object (sample_record\<lparr>rec_generation := 2\<rparr>)]), Some (replicate 16 7))"
  by (simp add: commit_object_replace_def db_works_def sample_record_def sample_tables_def sample_row_def sample_meta_def
      find_object_def settings_def and_then_def end_transaction_def erase_old_def erase_object_def run_statement_def
      insert_object_def insert_object_row_def object_checks_def bind_object_def find_row_def sample_root_def
      bind_node_def sample_image_def NODE_ID_SIZE_def id_valid_def list_ex_iff Let_def INT64_MAX_def next_generation_def
      set_generation_def update_meta_def meta_checks_def stepped_def word_le_nat_alt)

theorem replace_transaction_witness:
  "find_object (replicate 16 2) Thumbnail (stepped sample_tables [bind_object (sample_record\<lparr>rec_generation := 2\<rparr>)]) =
     Some (replicate 16 9)"
  using replace_transaction[OF sample_tables_ok sample_replace] by (simp add: sample_record_def)

end
