(* ===== verification/V3_Mutation.thy ===== *)
theory V3_Mutation
  imports V3_Db V3_Object_Proofs
begin

text \<open>
  Mutations of a directory vault (\<open>src/vault/v3_mutation.cpp\<close>, \<open>v3_transaction_model.h\<close>): an immutable
  object file is published before the transaction that refers to it, and reclaimed after the one that
  no longer does.  An operation gives its status and the states the vault goes through; a crash in any of
  them leaves the committed tables and, of each file, what was visible or what had reached the disk.
\<close>

section \<open>The coordinator\<close>

datatype mutation_status = MOk | MInvalidArgument | MBusy | MObjectWriteFailed | MDatabaseFailed | MCleanupPending

definition mutation_committed :: "mutation_status \<Rightarrow> bool" where
  "mutation_committed status = (status = MOk \<or> status = MCleanupPending)"

text \<open>The tables as the process sees them and as a restart would find them, and the object tree.\<close>

record vault_state =
  vs_db :: database
  vs_db_disk :: database
  vs_root :: vault_root

text \<open>The calls an operation makes; \<open>me_durable\<close> tells that the \<open>COMMIT\<close> had reached the disk when it returned.\<close>

record mutation_env =
  me_write :: write_env
  me_db :: db_env
  me_durable :: bool
  me_unlink :: unlink_env

definition record_for :: "object_info \<Rightarrow> object_record" where
  "record_for info =
     \<lparr>rec_object = oi_object info, rec_node = oi_owner info, rec_role = oi_role info, rec_encrypted = oi_encrypted info,
      rec_plain = oi_plain info, rec_limit = oi_limit info, rec_frames = oi_frames info, rec_generation = 0\<rparr>"

definition in_roots :: "vault_state \<Rightarrow> vault_root list \<Rightarrow> vault_state list" where
  "in_roots s roots = map (\<lambda>r. s\<lparr>vs_root := r\<rparr>) roots"

definition commit_to :: "bool \<Rightarrow> database \<Rightarrow> vault_state \<Rightarrow> vault_state" where
  "commit_to durable d s = s\<lparr>vs_db := d, vs_db_disk := if durable then d else vs_db_disk s\<rparr>"

definition written_id :: "object_info option \<Rightarrow> bytes" where
  "written_id info = (case info of None \<Rightarrow> zero_id | Some i \<Rightarrow> oi_object i)"

definition mutation_create ::
  "object_prims \<Rightarrow> mutation_env \<Rightarrow> bytes \<Rightarrow> object_write_request \<Rightarrow> bytes \<Rightarrow> vault_state \<Rightarrow>
   (mutation_status \<times> bytes) \<times> vault_state list" where
  "mutation_create P e mk request plain s =
     (case write_object P (me_write e) mk request plain (vs_root s) of
        (OsOk, Some info, roots) \<Rightarrow>
          (let states = in_roots s roots
           in case commit_object_create (me_db e) (record_for info) (vs_db s) of
                (db, d) \<Rightarrow>
                  if db \<noteq> DbOk then ((MDatabaseFailed, oi_object info), states)
                  else ((MOk, oi_object info), states @ [commit_to (me_durable e) d (last states)]))
      | (_, info, roots) \<Rightarrow> ((MObjectWriteFailed, written_id info), in_roots s roots))"

text \<open>The removal of the file that a committed transaction no longer refers to.\<close>

definition reclaim_old :: "unlink_env \<Rightarrow> bytes option \<Rightarrow> vault_state list \<Rightarrow> mutation_status \<times> vault_state list" where
  "reclaim_old e old states =
     (case old of
        None \<Rightarrow> (MOk, states)
      | Some i \<Rightarrow>
          (case unlink_object e i (vs_root (last states)) of
             (ok, roots) \<Rightarrow> (if ok then MOk else MCleanupPending, states @ in_roots (last states) roots)))"

definition mutation_replace ::
  "object_prims \<Rightarrow> mutation_env \<Rightarrow> bytes \<Rightarrow> object_write_request \<Rightarrow> bytes \<Rightarrow> vault_state \<Rightarrow>
   (mutation_status \<times> bytes) \<times> vault_state list" where
  "mutation_replace P e mk request plain s =
     (case write_object P (me_write e) mk request plain (vs_root s) of
        (OsOk, Some info, roots) \<Rightarrow>
          (let states = in_roots s roots
           in case commit_object_replace (me_db e) (record_for info) (vs_db s) of
                ((db, d), old) \<Rightarrow>
                  if db \<noteq> DbOk then ((MDatabaseFailed, oi_object info), states)
                  else case reclaim_old (me_unlink e) old (states @ [commit_to (me_durable e) d (last states)]) of
                    (status, states) \<Rightarrow> ((status, oi_object info), states))
      | (_, info, roots) \<Rightarrow> ((MObjectWriteFailed, written_id info), in_roots s roots))"

definition mutation_remove ::
  "mutation_env \<Rightarrow> bytes \<Rightarrow> object_role \<Rightarrow> vault_state \<Rightarrow> mutation_status \<times> vault_state list" where
  "mutation_remove e n role s =
     (case commit_object_delete (me_db e) n role (vs_db s) of
        ((db, d), old) \<Rightarrow>
          if db \<noteq> DbOk then (MDatabaseFailed, [s])
          else reclaim_old (me_unlink e) old [s, commit_to (me_durable e) d s])"

section \<open>Crashes\<close>

definition crash_vault :: "vault_state \<Rightarrow> database \<Rightarrow> object_files \<Rightarrow> bool" where
  "crash_vault s d m \<longleftrightarrow> (d = vs_db s \<or> d = vs_db_disk s) \<and> crash_of (vs_root s) m"

definition restart :: "database \<Rightarrow> object_files \<Rightarrow> vault_state" where
  "restart d m = \<lparr>vs_db = d, vs_db_disk = d, vs_root = root_of m\<rparr>"

text \<open>Every reference has its file, whole.\<close>

definition resolves :: "database \<Rightarrow> object_files \<Rightarrow> bool" where
  "resolves d m \<longleftrightarrow> (\<forall>w \<in> set (db_objects d). \<exists>f. m (row_object w) = Some f \<and> row_encrypted w = int (length f))"

text \<open>A vault at rest: committed tables under their constraints, and referenced files that reached the disk.\<close>

definition at_rest :: "vault_state \<Rightarrow> bool" where
  "at_rest s \<longleftrightarrow> tables_ok (vs_db s) \<and> vs_db_disk s = vs_db s \<and> resolves (vs_db s) (vr_visible (vs_root s)) \<and>
     (\<forall>w \<in> set (db_objects (vs_db s)). vr_durable (vs_root s) (row_object w) = vr_visible (vs_root s) (row_object w))"

lemma settled_crash:
  assumes "at_rest s" "crash_vault s d m"
  shows "d = vs_db s" "resolves d m" "at_rest (restart d m)"
proof -
  show d: "d = vs_db s" using assms by (auto simp: at_rest_def crash_vault_def)
  have "m (row_object w) = vr_visible (vs_root s) (row_object w)" if "w \<in> set (db_objects d)" for w
    using assms that d by (auto simp: at_rest_def crash_vault_def crash_of_def)
  then show r: "resolves d m" using assms(1) d by (simp add: at_rest_def resolves_def)
  then show "at_rest (restart d m)" using assms(1) d by (simp add: at_rest_def restart_def root_of_def)
qed

section \<open>Each state of an operation is at rest\<close>

text \<open>What the primitives and the arrays of the calls guarantee.\<close>

definition calls_ok :: "object_prims \<Rightarrow> write_env \<Rightarrow> bool" where
  "calls_ok P e \<longleftrightarrow> aead_laws (op_aead P) \<and> (\<forall>k n. we_nonce e k = Some n \<longrightarrow> length n = NONCE_SIZE) \<and>
     miniz_laws (op_miniz P) \<and> (\<forall>n k m. length (op_blake2b P n k m) = n) \<and>
     (\<forall>i. we_id e = Some i \<longrightarrow> length i = NODE_ID_SIZE)"

definition request_ok :: "object_write_request \<Rightarrow> bytes \<Rightarrow> bool" where
  "request_ok request plain \<longleftrightarrow> length (wr_vault request) = NODE_ID_SIZE \<and> length (wr_owner request) = NODE_ID_SIZE \<and>
     length plain < 2 ^ 64"

lemma write_object_published:
  assumes "calls_ok P e" "request_ok request plain"
    and "write_object P e mk request plain root = (OsOk, Some info, roots)"
  obtains content where "publish (we_publish e) (oi_object info) content root = (True, roots)"
    "unat (oi_encrypted info) = length content"
proof -
  have r: "\<forall>off len bs. (if off > length plain \<or> len > length plain - off then None else Some (take len (drop off plain))) = Some bs \<longrightarrow>
     bs = take len (drop off plain)" by simp
  show ?thesis
    using assms that unfolding calls_ok_def request_ok_def write_object_def
    by (elim conjE) (rule written_object_opens[OF _ _ _ _ _ _ _ r], assumption+)
qed

lemma write_object_roots:
  assumes "write_object P e mk request plain root = (status, info, roots)"
  obtains "roots = [root]" | i content ok where "publish (we_publish e) i content root = (ok, roots)"
  using assms unfolding write_object_def write_object_stream_def
  by (auto simp: Let_def split: if_splits option.splits sum.splits prod.splits bool.splits)

lemma publish_keeps:
  assumes "publish e i c r = (ok, rs)" "s \<in> set rs" "vr_visible r j = Some f" "vr_durable r j = Some f"
  shows "vr_visible s j = Some f" "vr_durable s j = Some f"
  using assms by (auto simp: publish_def Let_def sync_shard_def split: if_splits)

lemma unlink_keeps:
  assumes "unlink_object e i r = (ok, rs)" "s \<in> set rs" "vr_visible r j = Some f" "vr_durable r j = Some f" "j \<noteq> i"
  shows "vr_visible s j = Some f" "vr_durable s j = Some f"
  using assms by (auto simp: unlink_object_def Let_def sync_shard_def split: if_splits)

lemma settled_root:
  assumes "at_rest s" "\<And>j f. vr_visible (vs_root s) j = Some f \<Longrightarrow> vr_durable (vs_root s) j = Some f \<Longrightarrow>
      j \<in> row_object ` set (db_objects (vs_db s)) \<Longrightarrow> vr_visible r j = Some f \<and> vr_durable r j = Some f"
  shows "at_rest (s\<lparr>vs_root := r\<rparr>)"
proof -
  have "vr_visible r (row_object w) = vr_visible (vs_root s) (row_object w) \<and>
      vr_durable r (row_object w) = vr_visible (vs_root s) (row_object w)" if w: "w \<in> set (db_objects (vs_db s))" for w
  proof -
    obtain f where "vr_visible (vs_root s) (row_object w) = Some f" "vr_durable (vs_root s) (row_object w) = Some f"
      using assms(1) w unfolding at_rest_def resolves_def by metis
    then show ?thesis using assms(2) w by (metis image_eqI)
  qed
  then show ?thesis using assms(1) by (simp add: at_rest_def resolves_def)
qed

lemma published_settled:
  assumes "at_rest s" "publish e i c (vs_root s) = (ok, roots)" "t \<in> set (in_roots s roots)"
  shows "at_rest t"
  using assms publish_keeps[OF assms(2)] by (auto simp: in_roots_def intro!: settled_root)

lemma written_settled:
  assumes "at_rest s" "write_object P e mk request plain (vs_root s) = (status, info, roots)" "t \<in> set (in_roots s roots)"
  shows "at_rest t"
  using assms(2)
proof (cases rule: write_object_roots)
  case 1
  then show ?thesis using assms by (simp add: in_roots_def)
next
  case (2 i content ok)
  then show ?thesis using published_settled assms by blast
qed

lemma reclaim_states:
  assumes "reclaim_old e old states = (status, all)" "\<forall>t \<in> set states. at_rest t" "states \<noteq> []"
    and "\<forall>i. old = Some i \<longrightarrow> i \<notin> row_object ` set (db_objects (vs_db (last states)))"
  shows "\<forall>t \<in> set all. at_rest t"
proof (cases old)
  case None
  then show ?thesis using assms by (simp add: reclaim_old_def)
next
  case (Some i)
  obtain ok roots where u: "unlink_object e i (vs_root (last states)) = (ok, roots)" by fastforce
  have "at_rest (last states)" using assms by simp
  moreover have "j \<noteq> i" if "j \<in> row_object ` set (db_objects (vs_db (last states)))" for j
    using assms(4) Some that by blast
  ultimately have "at_rest ((last states)\<lparr>vs_root := r\<rparr>)" if "r \<in> set roots" for r
    using unlink_keeps[OF u that] by (intro settled_root) auto
  then show ?thesis using assms(1,2) Some u by (auto simp: reclaim_old_def in_roots_def split: if_splits)
qed

lemma commit_settled:
  assumes "at_rest t" "tables_ok d"
    and "\<And>w. w \<in> set (db_objects d) \<Longrightarrow> w \<in> set (db_objects (vs_db t)) \<or>
      (\<exists>f. vr_visible (vs_root t) (row_object w) = Some f \<and> vr_durable (vs_root t) (row_object w) = Some f \<and>
         row_encrypted w = int (length f))"
  shows "at_rest (commit_to True d t)"
proof -
  have "\<exists>f. vr_visible (vs_root t) (row_object w) = Some f \<and> vr_durable (vs_root t) (row_object w) = Some f \<and>
      row_encrypted w = int (length f)" if "w \<in> set (db_objects d)" for w
    using assms(1) assms(3)[OF that] unfolding at_rest_def resolves_def by metis
  then show ?thesis using assms(2) by (fastforce simp: at_rest_def resolves_def commit_to_def)
qed

lemma new_row_resolves:
  assumes "publish e (oi_object info) content root = (True, roots)" "unat (oi_encrypted info) = length content"
    and "object_checks (bind_object ((record_for info)\<lparr>rec_generation := g\<rparr>))"
  shows "vr_visible (last roots) (oi_object info) = Some content \<and> vr_durable (last roots) (oi_object info) = Some content \<and>
    row_encrypted (bind_object ((record_for info)\<lparr>rec_generation := g\<rparr>)) = int (length content)"
proof -
  have "0 \<le> sint (oi_encrypted info)" using assms(3) by (simp add: object_checks_def bind_object_def record_for_def)
  then have "sint (oi_encrypted info) = int (unat (oi_encrypted info))" by (simp add: sint_uint_nonneg)
  then show ?thesis using publish_states(4)[OF assms(1)] assms(2) by (simp add: bind_object_def record_for_def)
qed

lemma last_in_roots: "roots \<noteq> [] \<Longrightarrow> last (in_roots s roots) = s\<lparr>vs_root := last roots\<rparr>"
  by (simp add: in_roots_def last_map)

lemma write_phase:
  assumes "at_rest s" "calls_ok P e" "request_ok request plain"
    and w: "write_object P e mk request plain (vs_root s) = (status, info, roots)"
  obtains "\<nexists>i. status = OsOk \<and> info = Some i" "\<forall>t \<in> set (in_roots s roots). at_rest t"
  | i content where "status = OsOk" "info = Some i" "publish (we_publish e) (oi_object i) content (vs_root s) = (True, roots)"
      "unat (oi_encrypted i) = length content" "\<forall>t \<in> set (in_roots s roots). at_rest t"
      "last (in_roots s roots) = s\<lparr>vs_root := last roots\<rparr>" "at_rest (s\<lparr>vs_root := last roots\<rparr>)"
proof (cases "\<exists>i. status = OsOk \<and> info = Some i")
  case True
  then obtain i where i: "status = OsOk" "info = Some i" by blast
  obtain content where pub: "publish (we_publish e) (oi_object i) content (vs_root s) = (True, roots)"
    and n: "unat (oi_encrypted i) = length content"
    using write_object_published[OF assms(2,3)] w i by metis
  have "last (in_roots s roots) \<in> set (in_roots s roots)" "last (in_roots s roots) = s\<lparr>vs_root := last roots\<rparr>"
    using publish_states(1)[OF pub] last_in_roots by (simp_all add: in_roots_def last_map)
  then show ?thesis using that(2)[OF i pub n] written_settled[OF assms(1) w] by metis
qed (use that(1) written_settled[OF assms(1) w] in blast)

lemma settled_tables: "at_rest s \<Longrightarrow> tables_ok (vs_db s)"
  by (simp add: at_rest_def)

lemma create_settled:
  assumes s: "at_rest s" and c: "calls_ok P (me_write e)" "request_ok request plain" and D: "me_durable e"
    and run: "mutation_create P e mk request plain s = (result, states)"
  shows "\<forall>t \<in> set states. at_rest t"
proof -
  obtain status info roots where w: "write_object P (me_write e) mk request plain (vs_root s) = (status, info, roots)"
    by (cases "write_object P (me_write e) mk request plain (vs_root s)")
  note tab = settled_tables[OF s]
  from s c w show ?thesis
  proof (cases rule: write_phase)
    case 1
    then show ?thesis using run w by (auto simp: mutation_create_def split: object_status.splits option.splits)
  next
    case (2 i content)
    obtain db d where cd: "commit_object_create (me_db e) (record_for i) (vs_db s) = (db, d)" by fastforce
    from tables_ok_meta[OF tab] cd show ?thesis
    proof (cases rule: commit_create_cases)
      case c: (1 g d1)
      have "at_rest (commit_to True d (s\<lparr>vs_root := last roots\<rparr>))"
        using new_row_resolves[OF 2(3,4)] insert_object_Ok[OF c(3)] c(5)
        by (intro commit_settled[OF 2(7) create_tables_ok[OF tab cd]]) (auto simp: bind_object_def record_for_def)
      then show ?thesis using run w 2 cd c(1) D by (auto simp: mutation_create_def Let_def)
    qed (use run w 2 cd in \<open>auto simp: mutation_create_def Let_def\<close>)
  qed
qed

lemma replace_settled:
  assumes s: "at_rest s" and c: "calls_ok P (me_write e)" "request_ok request plain" and D: "me_durable e"
    and run: "mutation_replace P e mk request plain s = (result, states)"
  shows "\<forall>t \<in> set states. at_rest t"
proof -
  obtain status info roots where w: "write_object P (me_write e) mk request plain (vs_root s) = (status, info, roots)"
    by (cases "write_object P (me_write e) mk request plain (vs_root s)")
  note tab = settled_tables[OF s]
  from s c w show ?thesis
  proof (cases rule: write_phase)
    case 1
    then show ?thesis using run w by (auto simp: mutation_replace_def split: object_status.splits option.splits)
  next
    case (2 i content)
    obtain db d old where cd: "commit_object_replace (me_db e) (record_for i) (vs_db s) = ((db, d), old)"
      by (metis prod.exhaust)
    from cd show ?thesis
    proof (cases rule: commit_replace_cases)
      case c: (1 g d1)
      let ?row = "bind_object ((record_for i)\<lparr>rec_generation := g\<rparr>)"
      let ?t = "commit_to True d (s\<lparr>vs_root := last roots\<rparr>)"
      have row: "row_object ?row = oi_object i" by (simp add: bind_object_def record_for_def)
      have t: "at_rest ?t"
        using new_row_resolves[OF 2(3,4)] insert_object_Ok[OF c(5)] c(6) row
        by (intro commit_settled[OF 2(7) replace_tables_ok[OF tab cd]]) (auto simp: set_without)
      have "oi_object i \<notin> row_object ` set (db_objects (vs_db s))"
        using s publish_states(4)[OF 2(3)] by (auto simp: at_rest_def resolves_def)
      then have "old \<noteq> Some (oi_object i)" using c(2) find_object_Some by (metis image_eqI)
      then have free: "\<forall>j. old = Some j \<longrightarrow> j \<notin> row_object ` set (db_objects (vs_db ?t))"
        using c(6) row by (auto simp: commit_to_def set_without)
      obtain st all where r: "reclaim_old (me_unlink e) old (in_roots s roots @ [?t]) = (st, all)" by fastforce
      have "\<forall>t \<in> set all. at_rest t" using reclaim_states[OF r] 2(5) t free by auto
      then show ?thesis using run w 2(1,2,6) cd c(1) D r by (simp add: mutation_replace_def Let_def)
    qed (use run w 2 cd in \<open>auto simp: mutation_replace_def Let_def\<close>)
  qed
qed

lemma remove_settled:
  assumes s: "at_rest s" and D: "me_durable e" and g: "meta_generation (db_meta (vs_db s)) < INT64_MAX"
    and run: "mutation_remove e n role s = (result, states)"
  shows "\<forall>t \<in> set states. at_rest t"
proof -
  note tab = settled_tables[OF s]
  obtain db d old where cd: "commit_object_delete (me_db e) n role (vs_db s) = ((db, d), old)" by (metis prod.exhaust)
  from cd show ?thesis
  proof (cases rule: commit_delete_cases)
    case c: 1
    have t: "at_rest (commit_to True d s)"
      using c(3) by (intro commit_settled[OF s delete_tables_ok[OF tab cd g]]) (auto simp: set_without split: if_splits)
    have free: "\<forall>j. old = Some j \<longrightarrow> j \<notin> row_object ` set (db_objects (vs_db (commit_to True d s)))"
      using c(3) by (auto simp: commit_to_def set_without)
    obtain st all where r: "reclaim_old (me_unlink e) old [s, commit_to True d s] = (st, all)" by fastforce
    have "\<forall>t \<in> set all. at_rest t" using reclaim_states[OF r] s t free by auto
    then show ?thesis using run cd c(1) D r by (simp add: mutation_remove_def)
  qed (use run cd s in \<open>auto simp: mutation_remove_def\<close>)
qed

section \<open>The recovery model\<close>

datatype mutation_kind = MkCreate | MkReplace | MkDelete

datatype mutation_step = MsInitial | MsStaged | MsPublished | MsDatabaseCommitted | MsCleaned

fun step_code :: "mutation_step \<Rightarrow> nat" where
  "step_code MsInitial = 0" | "step_code MsStaged = 1" | "step_code MsPublished = 2"
| "step_code MsDatabaseCommitted = 3" | "step_code MsCleaned = 4"

instantiation mutation_step :: linorder
begin

definition less_eq_mutation_step :: "mutation_step \<Rightarrow> mutation_step \<Rightarrow> bool" where
  "less_eq_mutation_step a b = (step_code a \<le> step_code b)"

definition less_mutation_step :: "mutation_step \<Rightarrow> mutation_step \<Rightarrow> bool" where
  "less_mutation_step a b = (step_code a < step_code b)"

instance
proof
  fix a b :: mutation_step
  show "a \<le> b \<Longrightarrow> b \<le> a \<Longrightarrow> a = b" by (cases a; cases b) (simp_all add: less_eq_mutation_step_def)
qed (auto simp: less_eq_mutation_step_def less_mutation_step_def)

end

lemmas step_order = less_eq_mutation_step_def less_mutation_step_def

record recovery_state =
  rm_references_old :: bool
  rm_references_new :: bool
  rm_old_exists :: bool
  rm_new_exists :: bool

definition has_missing_reference :: "recovery_state \<Rightarrow> bool" where
  "has_missing_reference m \<longleftrightarrow> (rm_references_old m \<and> \<not> rm_old_exists m) \<or> (rm_references_new m \<and> \<not> rm_new_exists m)"

definition has_reclaimable_garbage :: "recovery_state \<Rightarrow> bool" where
  "has_reclaimable_garbage m \<longleftrightarrow> (rm_old_exists m \<and> \<not> rm_references_old m) \<or> (rm_new_exists m \<and> \<not> rm_references_new m)"

definition recovery_model :: "mutation_kind \<Rightarrow> mutation_step \<Rightarrow> recovery_state" where
  "recovery_model kind st =
     (case kind of
        MkCreate \<Rightarrow> \<lparr>rm_references_old = False, rm_references_new = (st \<ge> MsDatabaseCommitted), rm_old_exists = False,
          rm_new_exists = (st \<ge> MsPublished)\<rparr>
      | MkReplace \<Rightarrow> \<lparr>rm_references_old = (st < MsDatabaseCommitted), rm_references_new = (st \<ge> MsDatabaseCommitted),
          rm_old_exists = (st < MsCleaned), rm_new_exists = (st \<ge> MsPublished)\<rparr>
      | MkDelete \<Rightarrow> \<lparr>rm_references_old = (st < MsDatabaseCommitted), rm_references_new = False,
          rm_old_exists = (st < MsCleaned), rm_new_exists = False\<rparr>)"

lemma recovery_model_never_misses: "\<not> has_missing_reference (recovery_model kind st)"
  by (cases kind; cases st) (simp_all add: has_missing_reference_def recovery_model_def step_order)

text \<open>The recovery state of a vault, seen through the object that goes and the one that comes.\<close>

definition references :: "database \<Rightarrow> bytes \<Rightarrow> bool" where
  "references d i = list_ex (\<lambda>w. row_object w = i) (db_objects d)"

definition observe :: "bytes option \<Rightarrow> bytes option \<Rightarrow> vault_state \<Rightarrow> recovery_state" where
  "observe old new s =
     (let refers = (\<lambda>i. case i of None \<Rightarrow> False | Some j \<Rightarrow> references (vs_db s) j);
          exists = (\<lambda>i. case i of None \<Rightarrow> False | Some j \<Rightarrow> vr_visible (vs_root s) j \<noteq> None)
      in \<lparr>rm_references_old = refers old, rm_references_new = refers new, rm_old_exists = exists old, rm_new_exists = exists new\<rparr>)"

lemma references_iff: "references d i \<longleftrightarrow> i \<in> row_object ` set (db_objects d)"
  by (auto simp: references_def list_ex_iff)

lemma publish_observed:
  assumes "publish e i content (vs_root s) = (ok, roots)" "vr_visible (vs_root s) i = None"
    and "observe old (Some i) s = recovery_model kind MsInitial" "old \<noteq> Some i" "kind \<noteq> MkDelete"
  obtains steps where "sorted steps" "last steps \<in> {MsInitial, MsPublished}"
    "map (observe old (Some i)) (in_roots s roots) = map (recovery_model kind) steps"
    "ok \<longrightarrow> steps = [MsInitial, MsPublished, MsPublished]"
proof -
  let ?all = "[MsInitial, MsPublished, MsPublished]"
  have "observe old (Some i) (s\<lparr>vs_root := r\<rparr>) = recovery_model kind MsPublished"
    if "vr_visible r = (vr_visible (vs_root s))(i \<mapsto> content)" for r
    using assms(2-5) that by (cases kind) (auto simp: observe_def recovery_model_def step_order Let_def split: option.splits)
  then have "map (observe old (Some i)) (in_roots s roots) = map (recovery_model kind) (take (length roots) ?all)"
    using assms(1,3) by (auto simp: publish_def in_roots_def Let_def sync_shard_def split: if_splits)
  moreover have "length roots \<in> {1, 2, 3}" "ok \<longrightarrow> length roots = 3"
    using assms(1) by (auto simp: publish_def Let_def split: if_splits)
  moreover have "sorted (take n ?all)" for n by (cases n; cases "n - 1"; cases "n - 2") (auto simp: step_order)
  moreover have "last (take (length roots) ?all) \<in> {MsInitial, MsPublished}" using calculation(2) by (auto simp: numeral_3_eq_3)
  ultimately show ?thesis by (intro that[of "take (length roots) ?all"]) auto
qed

lemma write_object_info:
  assumes "write_object P e mk request plain root = (status, Some info, roots)"
  shows "oi_owner info = wr_owner request \<and> oi_role info = wr_role request"
  using assms unfolding write_object_def write_object_stream_def
  by (auto simp: Let_def split: if_splits option.splits sum.splits prod.splits bool.splits)

lemma write_object_failed:
  assumes "write_object P e mk request plain root = (status, info, roots)" "status \<noteq> OsOk"
  shows "roots = [root] \<or> (\<exists>c. publish (we_publish e) (written_id info) c root = (False, roots))"
  using assms unfolding write_object_def write_object_stream_def
  by (auto simp: Let_def written_id_def split: if_splits option.splits sum.splits prod.splits bool.splits)

lemma sorted_le_last: "sorted xs \<Longrightarrow> x \<in> set xs \<Longrightarrow> x \<le> last xs"
  by (induction xs) (auto split: if_splits)

lemma reclaim_observed:
  assumes "reclaim_old e (Some i) states = (status, all)" "states \<noteq> []" "old = Some i"
    and "map (observe old new) states = map (recovery_model kind) steps" "last steps = MsDatabaseCommitted" "sorted steps"
    and "kind \<noteq> MkCreate" "\<not> references (vs_db (last states)) i" "new \<noteq> old"
  shows "\<exists>steps'. sorted steps' \<and> map (observe old new) all = map (recovery_model kind) steps' \<and>
    MsDatabaseCommitted \<le> last steps' \<and> (status = MOk \<longrightarrow> last steps' = MsCleaned) \<and> mutation_committed status"
proof -
  let ?s = "last states"
  let ?all = "[MsDatabaseCommitted, MsCleaned, MsCleaned]"
  obtain ok roots where u: "unlink_object e i (vs_root ?s) = (ok, roots)" by fastforce
  have st: "steps \<noteq> []" using assms(2,4) by auto
  have "observe old new ?s = recovery_model kind MsDatabaseCommitted"
    using assms(2,4,5) st last_map[of states "observe old new"] last_map[of steps "recovery_model kind"] by metis
  moreover from this have "observe old new (?s\<lparr>vs_root := r\<rparr>) = recovery_model kind MsCleaned"
    if "vr_visible r = (vr_visible (vs_root ?s))(i := None)" for r
    using that assms(3,7,8,9) by (cases kind) (auto simp: observe_def recovery_model_def step_order Let_def split: option.splits)
  ultimately have "map (observe old new) (in_roots ?s roots) = map (recovery_model kind) (take (length roots) ?all)"
    using u by (auto simp: unlink_object_def in_roots_def Let_def sync_shard_def split: if_splits)
  moreover have n: "length roots \<in> {1, 2, 3}" "ok \<longrightarrow> length roots = 3"
    using u by (auto simp: unlink_object_def Let_def split: if_splits)
  moreover have "sorted (steps @ take n ?all)" for n
  proof -
    have "sorted (take n ?all)" by (cases n; cases "n - 1"; cases "n - 2") (auto simp: step_order)
    moreover have "x \<le> y" if "x \<in> set steps" "y \<in> set (take n ?all)" for x y
    proof -
      have "x \<le> MsDatabaseCommitted" using sorted_le_last[OF assms(6) that(1)] assms(5) by simp
      moreover have "y \<in> set ?all" using that(2) set_take_subset by (rule subsetD[rotated])
      ultimately show ?thesis by (auto simp: step_order)
    qed
    ultimately show ?thesis using assms(6) by (auto simp: sorted_append)
  qed
  moreover have "last (take (length roots) ?all) \<in> {MsDatabaseCommitted, MsCleaned}" "take (length roots) ?all \<noteq> []"
    "ok \<longrightarrow> last (take (length roots) ?all) = MsCleaned"
    using n by (auto simp: numeral_3_eq_3)
  moreover have "status = (if ok then MOk else MCleanupPending)" "all = states @ in_roots ?s roots"
    using assms(1) u by (auto simp: reclaim_old_def)
  ultimately show ?thesis
    using assms(4) by (intro exI[of _ "steps @ take (length roots) ?all"]) (auto simp: mutation_committed_def step_order)
qed

text \<open>
  Property C35.  Replacing an object refines the recovery model: whatever calls fail, the states the vault goes
  through are, seen through the old and the new object, states of the model in its order; the operation
  reports a commit exactly when it got as far as the database commit, and success only when the old
  file is gone.  As the model never refers to a missing object, neither does the vault.
\<close>

theorem replace_refines_model:
  assumes s: "at_rest s" and c: "calls_ok P (me_write e)" "request_ok request plain"
    and run: "mutation_replace P e mk request plain s = ((status, i), states)"
    and old: "find_object (wr_owner request) (wr_role request) (vs_db s) = Some old" and new: "vr_visible (vs_root s) i = None"
  shows "\<exists>steps. sorted steps \<and> map (observe (Some old) (Some i)) states = map (recovery_model MkReplace) steps \<and>
    (mutation_committed status \<longleftrightarrow> MsDatabaseCommitted \<le> last steps) \<and> (status = MOk \<longrightarrow> last steps = MsCleaned) \<and>
    (\<forall>t \<in> set states. \<not> has_missing_reference (observe (Some old) (Some i) t))"
proof -
  let ?obs = "observe (Some old) (Some i)"
  let ?good = "\<lambda>steps. sorted steps \<and> map ?obs states = map (recovery_model MkReplace) steps \<and>
    (mutation_committed status \<longleftrightarrow> MsDatabaseCommitted \<le> last steps) \<and> (status = MOk \<longrightarrow> last steps = MsCleaned)"
  obtain st info roots where w: "write_object P (me_write e) mk request plain (vs_root s) = (st, info, roots)"
    by (cases "write_object P (me_write e) mk request plain (vs_root s)")
  note tab = settled_tables[OF s]
  have refs: "references (vs_db s) old" using find_object_Some[OF old] by (auto simp: references_iff)
  then have vis: "vr_visible (vs_root s) old \<noteq> None" using s by (auto simp: references_iff at_rest_def resolves_def)
  then have ne: "Some old \<noteq> Some i" using new by auto
  have "i \<notin> row_object ` set (db_objects (vs_db s))" using s new by (auto simp: at_rest_def resolves_def)
  then have init: "?obs s = recovery_model MkReplace MsInitial"
    using refs vis new by (simp add: observe_def recovery_model_def step_order references_iff)
  from s c w have "\<exists>steps. ?good steps"
  proof (cases rule: write_phase)
    case failed: 1
    then have r: "status = MObjectWriteFailed" "i = written_id info" "states = in_roots s roots"
      using run w by (auto simp: mutation_replace_def split: object_status.splits option.splits)
    consider "roots = [vs_root s]" | c where "publish (we_publish (me_write e)) i c (vs_root s) = (False, roots)"
      | "st = OsOk"
      using write_object_failed[OF w] r(2) by auto
    then show ?thesis
    proof cases
      case 1
      then show ?thesis using r init by (intro exI[of _ "[MsInitial]"]) (simp add: in_roots_def mutation_committed_def step_order)
    next
      case (2 c)
      obtain steps where "sorted steps" "last steps \<in> {MsInitial, MsPublished}"
        "map ?obs (in_roots s roots) = map (recovery_model MkReplace) steps"
        by (rule publish_observed[OF 2 new init ne]) auto
      then show ?thesis using r by (intro exI[of _ steps]) (auto simp: mutation_committed_def step_order)
    next
      case 3
      then show ?thesis using w failed(1) by (auto simp: write_object_def write_object_stream_def Let_def
          split: if_splits option.splits sum.splits prod.splits bool.splits)
    qed
  next
    case (2 j content)
    obtain db d old' where cd: "commit_object_replace (me_db e) (record_for j) (vs_db s) = ((db, d), old')"
      by (metis prod.exhaust)
    have i: "i = oi_object j" using run w 2(1,2) cd by (auto simp: mutation_replace_def Let_def split: if_splits prod.splits)
    obtain steps where p: "map ?obs (in_roots s roots) = map (recovery_model MkReplace) [MsInitial, MsPublished, MsPublished]"
      by (rule publish_observed[OF 2(3)[folded i] new init ne]) auto
    from cd show ?thesis
    proof (cases rule: commit_replace_cases)
      case 2
      then have "status = MDatabaseFailed" "states = in_roots s roots"
        using run w \<open>st = OsOk\<close> \<open>info = Some j\<close> cd by (auto simp: mutation_replace_def Let_def)
      then show ?thesis using p by (intro exI[of _ "[MsInitial, MsPublished, MsPublished]"]) (simp add: mutation_committed_def step_order)
    next
      case c: (1 g d1)
      have req: "rec_node (record_for j) = wr_owner request" "rec_role (record_for j) = wr_role request"
        using write_object_info w 2(1,2) by (auto simp: record_for_def)
      have o: "old' = Some old" using c(2) req old by simp
      let ?t = "commit_to (me_durable e) d (s\<lparr>vs_root := last roots\<rparr>)"
      have dr: "references d k \<longleftrightarrow> k = i \<or> references (vs_db s) k \<and> k \<noteq> old" for k
        using c(6) o i by (auto simp: references_iff set_without bind_object_def record_for_def)
      have "vr_visible (last roots) = (vr_visible (vs_root s))(i \<mapsto> content)" using publish_states(4)[OF 2(3)] i by simp
      then have t: "?obs ?t = recovery_model MkReplace MsDatabaseCommitted"
        using dr vis ne by (simp add: observe_def commit_to_def recovery_model_def step_order)
      obtain st' all where r: "reclaim_old (me_unlink e) old' (in_roots s roots @ [?t]) = (st', all)" by fastforce
      have "status = st'" "states = all" using run w 2(1,2,6) cd c(1) r by (simp_all add: mutation_replace_def Let_def)
      moreover have "\<exists>steps'. sorted steps' \<and> map ?obs all = map (recovery_model MkReplace) steps' \<and>
          MsDatabaseCommitted \<le> last steps' \<and> (st' = MOk \<longrightarrow> last steps' = MsCleaned) \<and> mutation_committed st'"
        using p t dr ne
        by (intro reclaim_observed[OF r[unfolded o], of _ _ _ "[MsInitial, MsPublished, MsPublished, MsDatabaseCommitted]"])
          (auto simp: step_order commit_to_def)
      ultimately show ?thesis by blast
    qed
  qed
  then obtain steps where st: "?good steps" ..
  have "?obs t \<in> range (recovery_model MkReplace)" if "t \<in> set states" for t
  proof -
    have "?obs t \<in> set (map ?obs states)" using that by simp
    then show ?thesis using st by auto
  qed
  then show ?thesis using st recovery_model_never_misses by fastforce
qed

text \<open>
  An empty plaintext has no frames, and a row without frames is refused: such an object is written and
  published, but no transaction can refer to it.
\<close>

lemma empty_object_is_refused:
  assumes "write_object P e mk request [] root = (OsOk, Some info, roots)" "tables_ok d"
  shows "fst (commit_object_create db (record_for info) d) \<noteq> DbOk"
proof -
  have "oi_frames info = 0"
    using assms(1) unfolding write_object_def write_object_stream_def
    by (auto simp: Let_def object_frame_count_def split: if_splits option.splits sum.splits prod.splits bool.splits)
  moreover obtain s d' where r: "commit_object_create db (record_for info) d = (s, d')" by fastforce
  from tables_ok_meta[OF assms(2)] r show ?thesis
  proof (cases rule: commit_create_cases)
    case (1 g d1)
    then show ?thesis using insert_object_Ok[OF 1(3)] calculation by (simp add: record_for_def)
  qed (use r in simp)
qed

section \<open>A sample vault\<close>

definition sample_directory :: vault_state where
  "sample_directory = \<lparr>vs_db = sample_tables, vs_db_disk = sample_tables,
     vs_root = root_of [replicate 16 7 \<mapsto> replicate 100 0]\<rparr>"

definition sample_mutation :: mutation_env where
  "sample_mutation = \<lparr>me_write = sample_env, me_db = db_works, me_durable = True,
     me_unlink = \<lparr>ue_open = True, ue_unlink = True, ue_sync = True\<rparr>\<rparr>"

lemma sample_vault_settled: "at_rest sample_directory"
  using sample_tables_ok
  by (simp add: at_rest_def sample_directory_def resolves_def root_of_def sample_tables_def sample_row_def)

lemma sample_calls_ok: "calls_ok sample_prims (me_write sample_mutation)" "request_ok sample_request [10, 20, 30]"
  using sample_calls by (simp_all add: calls_ok_def request_ok_def sample_mutation_def)

lemma mutation_replace_id:
  assumes "write_object P (me_write e) mk request plain (vs_root s) = (OsOk, Some info, roots)"
  shows "\<exists>status states. mutation_replace P e mk request plain s = ((status, oi_object info), states)"
proof -
  obtain db d old where cd: "commit_object_replace (me_db e) (record_for info) (vs_db s) = ((db, d), old)" by (metis prod.exhaust)
  obtain st all where r: "reclaim_old (me_unlink e) old (in_roots s roots @ [commit_to (me_durable e) d (last (in_roots s roots))]) = (st, all)"
    by fastforce
  show ?thesis using assms cd r by (cases "db = DbOk") (simp_all add: mutation_replace_def Let_def)
qed

theorem replace_refines_model_witness:
  "\<exists>status states. mutation_replace sample_prims sample_mutation [3] sample_request [10, 20, 30] sample_directory =
       ((status, replicate 16 9), states) \<and>
     list_all (\<lambda>t. \<not> has_missing_reference (observe (Some (replicate 16 7)) (Some (replicate 16 9)) t)) states"
proof -
  have new: "vr_visible (vs_root sample_directory) (replicate 16 9) = None"
    by (simp add: sample_directory_def root_of_def fun_upd_def)
  obtain info roots where "write_object sample_prims sample_env [3] sample_request [10, 20, 30] (vs_root sample_directory) =
      (OsOk, Some info, roots)" "oi_object info = replicate 16 9"
    using sample_write[OF new] by blast
  then obtain status states where run: "mutation_replace sample_prims sample_mutation [3] sample_request [10, 20, 30] sample_directory =
       ((status, replicate 16 9), states)"
    using mutation_replace_id[of sample_prims sample_mutation "[3]" sample_request "[10, 20, 30]" sample_directory info roots]
    by (auto simp: sample_mutation_def)
  have "find_object (wr_owner sample_request) (wr_role sample_request) (vs_db sample_directory) = Some (replicate 16 7)"
    by (simp add: find_object_def sample_request_def sample_directory_def sample_tables_def sample_row_def)
  then show ?thesis
    using replace_refines_model[OF sample_vault_settled sample_calls_ok run _ new] run unfolding list_all_iff by blast
qed

lemma sample_remove:
  "\<exists>states. mutation_remove (sample_mutation\<lparr>me_durable := b\<rparr>) (replicate 16 2) Thumbnail sample_directory = (MOk, states) \<and>
     states \<noteq> [] \<and>
     last states = \<lparr>vs_db = stepped sample_tables [], vs_db_disk = (if b then stepped sample_tables [] else sample_tables),
       vs_root = root_of Map.empty\<rparr>"
proof -
  let ?d = "stepped sample_tables []"
  have "commit_object_delete db_works (replicate 16 2) Thumbnail sample_tables = ((DbOk, ?d), Some (replicate 16 7))"
    by (simp add: commit_object_delete_def db_works_def sample_tables_def sample_row_def sample_meta_def find_object_def
        and_then_def end_transaction_def erase_old_def erase_object_def run_statement_def id_valid_def list_ex_iff Let_def
        next_generation_def set_generation_def update_meta_def meta_checks_def stepped_def)
  moreover have "unlink_object (me_unlink sample_mutation) (replicate 16 7) (vs_root sample_directory) =
      (True, [vs_root sample_directory, (vs_root sample_directory)\<lparr>vr_visible := Map.empty\<rparr>, root_of Map.empty])"
    by (auto simp: unlink_object_def sample_mutation_def sample_directory_def root_of_def sync_shard_def same_shard_def fun_eq_iff Let_def)
  ultimately show ?thesis
    by (simp add: mutation_remove_def sample_mutation_def sample_directory_def commit_to_def reclaim_old_def in_roots_def)
qed

text \<open>
  Why \<open>me_durable\<close> matters: were a \<open>COMMIT\<close> rolled back by a crash after it returned, the file of the object
  it removed could be gone while the tables found at restart still refer to it.
\<close>

lemma lost_commit_dangles:
  "\<exists>states m. mutation_remove (sample_mutation\<lparr>me_durable := False\<rparr>) (replicate 16 2) Thumbnail sample_directory = (MOk, states) \<and>
     crash_vault (last states) sample_tables m \<and> \<not> resolves sample_tables m"
proof -
  obtain states where r: "mutation_remove (sample_mutation\<lparr>me_durable := False\<rparr>) (replicate 16 2) Thumbnail sample_directory = (MOk, states)"
    and l: "last states = \<lparr>vs_db = stepped sample_tables [], vs_db_disk = sample_tables, vs_root = root_of Map.empty\<rparr>"
    using sample_remove[of False] by auto
  have "crash_vault (last states) sample_tables Map.empty" unfolding l by (simp add: crash_vault_def crash_of_def root_of_def)
  moreover have "\<not> resolves sample_tables Map.empty" by (simp add: resolves_def sample_tables_def)
  ultimately show ?thesis using r by blast
qed
end
