(* ===== verification/V3_Recovery.thy ===== *)
theory V3_Recovery
  imports V3_Mutation
begin

text \<open>
  Recovery and verification of a directory vault (\<open>src/vault/v3_recovery.cpp\<close>, the directory scan of
  \<open>v3_fs.cpp\<close>): the objects on disk against the references of the database, the collection of what is
  not referenced, and the quick and deep verification reports.  Directory listings, clocks, failing
  calls and cancellation are inputs; observers of a scan are not modelled.
\<close>

section \<open>Listing the object tree\<close>

record dir_entry =
  oe_id :: bytes
  oe_size :: u64
  oe_modified :: int

text \<open>Size and modification time of a file that opens as a private regular file.\<close>

record file_metadata =
  fm_size :: u64
  fm_modified :: int

definition dot_name :: "bytes \<Rightarrow> bool" where
  "dot_name name = (name = ascii ''.'' \<or> name = ascii ''..'')"

fun scan_entries :: "bytes \<Rightarrow> (bytes \<times> file_metadata option) list \<Rightarrow> dir_entry list \<Rightarrow> dir_entry list option" where
  "scan_entries shard [] acc = Some acc"
| "scan_entries shard ((name, metadata) # entries) acc =
     (if dot_name name then scan_entries shard entries acc
      else case (parse_object_relative_path (ascii ''objects/'' @ shard @ ascii ''/'' @ name), metadata) of
        (Some i, Some m) \<Rightarrow> scan_entries shard entries (acc @ [\<lparr>oe_id = i, oe_size = fm_size m, oe_modified = fm_modified m\<rparr>])
      | _ \<Rightarrow> None)"

text \<open>A directory that opens, with whether reading it ended in an error.\<close>

record 'a directory =
  dir_entries :: "(bytes \<times> 'a) list"
  dir_error :: bool

type_synonym shard_directory = "file_metadata option directory"

definition scan_object_shard :: "bytes \<Rightarrow> shard_directory option \<Rightarrow> dir_entry list \<Rightarrow> dir_entry list option" where
  "scan_object_shard shard d acc =
     (if length shard \<noteq> 2 \<or> hex_value (shard ! 0) < 0 \<or> hex_value (shard ! 1) < 0 then None
      else case d of None \<Rightarrow> None
      | Some d \<Rightarrow>
          (case scan_entries shard (dir_entries d) acc of None \<Rightarrow> None | Some acc' \<Rightarrow> if dir_error d then None else Some acc'))"

fun scan_shards :: "(bytes \<times> shard_directory option) list \<Rightarrow> dir_entry list \<Rightarrow> dir_entry list option" where
  "scan_shards [] acc = Some acc"
| "scan_shards ((name, d) # shards) acc =
     (if dot_name name then scan_shards shards acc
      else case scan_object_shard name d acc of None \<Rightarrow> None | Some acc' \<Rightarrow> scan_shards shards acc')"

definition list_objects :: "shard_directory option directory option \<Rightarrow> dir_entry list option" where
  "list_objects objects =
     (case objects of None \<Rightarrow> None
      | Some d \<Rightarrow>
          (case scan_shards (dir_entries d) [] of None \<Rightarrow> None | Some acc \<Rightarrow> if dir_error d then None else Some acc))"

section \<open>Reconciliation\<close>

datatype recovery_status = RcOk | RcDatabaseError | RcFilesystemError | RcCorrupt | RcCancelled
datatype verify_depth = Quick | Deep
datatype finding_kind = MissingReferencedObject | ReferencedObjectSizeMismatch | UnauthenticObject | MalformedObject
  | UnreferencedGarbage | InvalidMediaReferences

record garbage_object =
  go_id :: bytes
  go_length :: u64
  go_modified :: int

record reconciliation =
  rr_status :: recovery_status
  rr_referenced :: u64
  rr_garbage_bytes :: u64
  rr_missing :: "bytes list"
  rr_mismatches :: "bytes list"
  rr_garbage :: "garbage_object list"

definition empty_reconciliation :: "recovery_status \<Rightarrow> reconciliation" where
  "empty_reconciliation status =
     \<lparr>rr_status = status, rr_referenced = 0, rr_garbage_bytes = 0, rr_missing = [], rr_mismatches = [], rr_garbage = []\<rparr>"

fun reconcile_references :: "object_record list \<Rightarrow> dir_entry list \<Rightarrow> reconciliation \<Rightarrow> dir_entry list \<times> reconciliation" where
  "reconcile_references [] physical rep = (physical, rep)"
| "reconcile_references (r # refs) physical rep =
     (case find (\<lambda>e. oe_id e = rec_object r) physical of
        None \<Rightarrow> reconcile_references refs physical (rep\<lparr>rr_missing := rr_missing rep @ [rec_object r]\<rparr>)
      | Some e \<Rightarrow>
          reconcile_references refs (filter (\<lambda>e. oe_id e \<noteq> rec_object r) physical)
            (if oe_size e \<noteq> rec_encrypted r
             then rep\<lparr>rr_mismatches := rr_mismatches rep @ [rec_object r]\<rparr>
             else rep\<lparr>rr_referenced := rr_referenced rep + oe_size e\<rparr>))"

definition add_garbage :: "dir_entry \<Rightarrow> reconciliation \<Rightarrow> reconciliation" where
  "add_garbage e rep =
     rep\<lparr>rr_garbage := rr_garbage rep @ [\<lparr>go_id = oe_id e, go_length = oe_size e, go_modified = oe_modified e\<rparr>],
         rr_garbage_bytes := rr_garbage_bytes rep + oe_size e\<rparr>"

text \<open>The map of physical objects is kept in the order of their identities.\<close>

definition reconcile_objects :: "db_status \<Rightarrow> dir_entry list option \<Rightarrow> database \<Rightarrow> reconciliation" where
  "reconcile_objects outcome listed d =
     (case object_references outcome d of (status, refs) \<Rightarrow>
        if status \<noteq> DbOk then empty_reconciliation RcDatabaseError
        else case listed of None \<Rightarrow> empty_reconciliation RcFilesystemError
        | Some entries \<Rightarrow>
            if \<not> distinct (map oe_id entries) then empty_reconciliation RcCorrupt
            else case reconcile_references refs (sort_key oe_id entries) (empty_reconciliation RcOk) of
              (physical, rep) \<Rightarrow> fold add_garbage physical rep)"

section \<open>Garbage collection\<close>

record gc_env =
  ge_now :: int
  ge_referenced :: "bytes \<Rightarrow> db_status"
  ge_open :: "bytes \<Rightarrow> bool"
  ge_size :: "bytes \<Rightarrow> bool"
  ge_unlink :: "bytes \<Rightarrow> unlink_env"

record gc_result =
  gr_status :: recovery_status
  gr_deleted :: nat
  gr_reclaimed :: u64

text \<open>One candidate: whether the collection stops there, its result so far and the states of the tree.\<close>

definition collect_one ::
  "gc_env \<Rightarrow> u64 \<Rightarrow> database \<Rightarrow> garbage_object \<Rightarrow> gc_result \<Rightarrow> vault_root \<Rightarrow> bool \<times> gc_result \<times> vault_root list" where
  "collect_one e grace d c res root =
     (if go_modified c > ge_now e \<or> ge_now e - go_modified c < uint grace then (False, res, [root])
      else case object_is_referenced (ge_referenced e (go_id c)) (go_id c) d of (status, referenced) \<Rightarrow>
        if status \<noteq> DbOk then (True, res\<lparr>gr_status := RcDatabaseError\<rparr>, [root])
        else if referenced then (False, res, [root])
        else case open_object (ge_open e (go_id c)) (go_id c) root of
          None \<Rightarrow> (False, res, [root])
        | Some f \<Rightarrow>
            if \<not> ge_size e (go_id c) \<or> of_nat (length f) \<noteq> go_length c then (False, res, [root])
            else case unlink_object (ge_unlink e (go_id c)) (go_id c) root of
              (False, roots) \<Rightarrow> (True, res\<lparr>gr_status := RcFilesystemError\<rparr>, roots)
            | (True, roots) \<Rightarrow>
                (False, res\<lparr>gr_deleted := gr_deleted res + 1, gr_reclaimed := gr_reclaimed res + go_length c\<rparr>, roots))"

fun collect_loop ::
  "gc_env \<Rightarrow> u64 \<Rightarrow> database \<Rightarrow> garbage_object list \<Rightarrow> gc_result \<Rightarrow> vault_root \<Rightarrow> gc_result \<times> vault_root list" where
  "collect_loop e grace d [] res root = (res, [root])"
| "collect_loop e grace d (c # cs) res root =
     (case collect_one e grace d c res root of (stop, res', roots) \<Rightarrow>
        if stop then (res', roots)
        else case collect_loop e grace d cs res' (last roots) of (res'', rest) \<Rightarrow> (res'', roots @ rest))"

definition collect_garbage ::
  "gc_env \<Rightarrow> u64 \<Rightarrow> database \<Rightarrow> garbage_object list \<Rightarrow> vault_root \<Rightarrow> gc_result \<times> vault_root list" where
  "collect_garbage e grace d candidates root =
     collect_loop e grace d candidates \<lparr>gr_status = RcOk, gr_deleted = 0, gr_reclaimed = 0\<rparr> root"

section \<open>Verification\<close>

record verification =
  vp_status :: recovery_status
  vp_depth :: verify_depth
  vp_referenced :: u64
  vp_authenticated :: u64
  vp_garbage_bytes :: u64
  vp_checked :: nat
  vp_garbage_objects :: nat
  vp_findings :: "(finding_kind \<times> bytes) list"

definition has_corruption :: "verification \<Rightarrow> bool" where
  "has_corruption rep = list_ex (\<lambda>f. fst f \<noteq> UnreferencedGarbage) (vp_findings rep)"

record verify_env =
  ve_healthy :: bool
  ve_deep_healthy :: bool
  ve_references :: db_status
  ve_incomplete :: db_status
  ve_references_again :: db_status
  ve_find :: "bytes \<Rightarrow> db_status"
  ve_open :: "bytes \<Rightarrow> bool"
  ve_cancel :: "bytes \<Rightarrow> nat \<Rightarrow> bool"

definition media_format_for :: "db_status \<Rightarrow> database \<Rightarrow> object_record \<Rightarrow> byte option" where
  "media_format_for outcome d r =
     (case find_node outcome (rec_node r) d of
        (DbOk, Some n) \<Rightarrow>
          (case nd_format n of
             None \<Rightarrow> None
           | Some v \<Rightarrow> if sint v < 0 \<or> sint v > 255 then None else Some (ucast v))
      | _ \<Rightarrow> None)"

definition finding_for :: "object_status \<Rightarrow> finding_kind" where
  "finding_for status = (if status = OsAuthenticationFailed then UnauthenticObject else MalformedObject)"

definition is_unreadable :: "reconciliation \<Rightarrow> bytes \<Rightarrow> bool" where
  "is_unreadable rec i = (list_ex (\<lambda>j. j = i) (rr_missing rec) \<or> list_ex (\<lambda>j. j = i) (rr_mismatches rec))"

definition add_finding :: "finding_kind \<Rightarrow> bytes \<Rightarrow> verification \<Rightarrow> verification" where
  "add_finding kind i rep = rep\<lparr>vp_findings := vp_findings rep @ [(kind, i)]\<rparr>"

text \<open>The frames of an object: whether all were read, and the report.\<close>

fun authenticate_frames ::
  "object_prims \<Rightarrow> (nat \<Rightarrow> bool) \<Rightarrow> object_reader \<Rightarrow> bytes \<Rightarrow> nat list \<Rightarrow> verification \<Rightarrow> bool \<times> verification" where
  "authenticate_frames P cancel r i [] rep = (True, rep)"
| "authenticate_frames P cancel r i (frame # frames) rep =
     (if cancel frame then (False, rep\<lparr>vp_status := RcCancelled\<rparr>)
      else case read_frame P r frame of
        Inl status \<Rightarrow> (False, add_finding (finding_for status) i rep)
      | Inr plain \<Rightarrow>
          authenticate_frames P cancel r i frames (rep\<lparr>vp_authenticated := vp_authenticated rep + of_nat (length plain)\<rparr>))"

definition expected_info :: "bytes \<Rightarrow> byte \<Rightarrow> object_record \<Rightarrow> object_info" where
  "expected_info vault_id format r =
     \<lparr>oi_object = rec_object r, oi_vault = vault_id, oi_owner = rec_node r, oi_role = rec_role r, oi_format = format,
      oi_plain = rec_plain r, oi_encrypted = rec_encrypted r, oi_limit = rec_limit r, oi_frames = rec_frames r\<rparr>"

definition authenticate_object ::
  "object_prims \<Rightarrow> verify_env \<Rightarrow> bytes \<Rightarrow> bytes \<Rightarrow> vault_root \<Rightarrow> database \<Rightarrow> object_record \<Rightarrow> verification \<Rightarrow> verification" where
  "authenticate_object P e mk vault_id root d r rep =
     (case media_format_for (ve_find e (rec_object r)) d r of
        None \<Rightarrow> add_finding MalformedObject (rec_object r) rep
      | Some format \<Rightarrow>
          (case reader_open P mk (expected_info vault_id format r) (open_object (ve_open e (rec_object r)) (rec_object r) root) of
             Inl status \<Rightarrow> add_finding (finding_for status) (rec_object r) rep
           | Inr reader \<Rightarrow>
               (case authenticate_frames P (ve_cancel e (rec_object r)) reader (rec_object r) [0..<unat (rec_frames r)] rep of
                  (False, rep) \<Rightarrow> rep
                | (True, rep) \<Rightarrow> rep\<lparr>vp_checked := vp_checked rep + 1\<rparr>)))"

fun authenticate_all ::
  "object_prims \<Rightarrow> verify_env \<Rightarrow> bytes \<Rightarrow> bytes \<Rightarrow> vault_root \<Rightarrow> database \<Rightarrow> reconciliation \<Rightarrow> object_record list \<Rightarrow>
   verification \<Rightarrow> verification" where
  "authenticate_all P e mk vault_id root d rec [] rep = rep"
| "authenticate_all P e mk vault_id root d rec (r # rs) rep =
     (if is_unreadable rec (rec_object r) then authenticate_all P e mk vault_id root d rec rs rep
      else let rep = authenticate_object P e mk vault_id root d r rep
           in if vp_status rep = RcCancelled then rep else authenticate_all P e mk vault_id root d rec rs rep)"

text \<open>The findings of the quick checks, in the order they are reported.\<close>

definition quick_findings :: "bytes list \<Rightarrow> reconciliation \<Rightarrow> (finding_kind \<times> bytes) list" where
  "quick_findings incomplete rec =
     map (Pair InvalidMediaReferences) incomplete @ map (Pair MissingReferencedObject) (rr_missing rec) @
     map (Pair ReferencedObjectSizeMismatch) (rr_mismatches rec) @ map (\<lambda>g. (UnreferencedGarbage, go_id g)) (rr_garbage rec)"

definition empty_report :: "recovery_status \<Rightarrow> verify_depth \<Rightarrow> verification" where
  "empty_report status depth =
     \<lparr>vp_status = status, vp_depth = depth, vp_referenced = 0, vp_authenticated = 0, vp_garbage_bytes = 0, vp_checked = 0,
      vp_garbage_objects = 0, vp_findings = []\<rparr>"

definition finish_report :: "verification \<Rightarrow> verification" where
  "finish_report rep = (if has_corruption rep then rep\<lparr>vp_status := RcCorrupt\<rparr> else rep)"

definition verify_vault ::
  "object_prims \<Rightarrow> verify_env \<Rightarrow> bytes \<Rightarrow> bytes \<Rightarrow> verify_depth \<Rightarrow> dir_entry list option \<Rightarrow> vault_root \<Rightarrow> database \<Rightarrow>
   verification" where
  "verify_vault P e mk vault_id depth listed root d =
     (let rep = empty_report RcOk depth
      in if \<not> (if depth = Deep then ve_deep_healthy e else ve_healthy e) then rep\<lparr>vp_status := RcDatabaseError\<rparr>
      else let rec = reconcile_objects (ve_references e) listed d
      in if rr_status rec \<noteq> RcOk then rep\<lparr>vp_status := rr_status rec\<rparr>
      else let rep = rep\<lparr>vp_referenced := rr_referenced rec\<rparr>
      in case incomplete_media_nodes (ve_incomplete e) d of (status, incomplete) \<Rightarrow>
        if status \<noteq> DbOk then rep\<lparr>vp_status := RcDatabaseError\<rparr>
        else let rep = rep\<lparr>vp_findings := quick_findings incomplete rec, vp_garbage_bytes := rr_garbage_bytes rec,
                 vp_garbage_objects := length (rr_garbage rec)\<rparr>
          in if depth = Quick then finish_report rep
          else case object_references (ve_references_again e) d of (status, refs) \<Rightarrow>
            if status \<noteq> DbOk then rep\<lparr>vp_status := RcDatabaseError\<rparr>
            else finish_report (authenticate_all P e mk vault_id root d rec refs rep))"

section \<open>What reconciliation finds\<close>

lemma read_rows_Some: "read_rows read ws = Some rs \<Longrightarrow> list_all2 (\<lambda>w r. read w = Some r) ws rs"
  by (induction ws arbitrary: rs) (auto split: option.splits)

lemma list_all2_sets:
  assumes "list_all2 P xs ys"
  shows "x \<in> set xs \<Longrightarrow> \<exists>y \<in> set ys. P x y" "y \<in> set ys \<Longrightarrow> \<exists>x \<in> set xs. P x y"
  using assms by (induction rule: list_all2_induct) auto

lemma read_object_Some:
  "read_object w = Some r \<Longrightarrow> rec_object r = row_object w \<and> rec_encrypted r = word_of_int (row_encrypted w) \<and>
     rec_plain r = word_of_int (row_plain w) \<and> 0 \<le> row_encrypted w \<and> row_encrypted w < 2 ^ 64 \<and> 0 \<le> row_plain w \<and> row_plain w < 2 ^ 64"
  by (auto simp: read_object_def optional_integer_def split: if_splits option.splits)

lemma object_references_Ok:
  assumes "object_references outcome d = (DbOk, rs)"
  shows "outcome = DbOk" "list_all2 (\<lambda>w r. read_object w = Some r) (sort_key row_object (db_objects d)) rs"
  using assms by (auto simp: object_references_def intro!: read_rows_Some split: if_splits option.splits)

lemma references_rows:
  assumes "object_references outcome d = (DbOk, rs)"
  shows "map rec_object rs = map row_object (sort_key row_object (db_objects d))"
    "\<And>w. w \<in> set (db_objects d) \<Longrightarrow> \<exists>r \<in> set rs. read_object w = Some r"
    "\<And>r. r \<in> set rs \<Longrightarrow> \<exists>w \<in> set (db_objects d). read_object w = Some r"
proof -
  note a = object_references_Ok(2)[OF assms]
  have "row_object w = rec_object r" if "read_object w = Some r" for w r using read_object_Some[OF that] by simp
  with a have "map row_object (sort_key row_object (db_objects d)) = map rec_object rs"
    by (induction rule: list_all2_induct) auto
  then show "map rec_object rs = map row_object (sort_key row_object (db_objects d))" by simp
  show "\<exists>r \<in> set rs. read_object w = Some r" if "w \<in> set (db_objects d)" for w
    using list_all2_sets(1)[OF a] that by simp
  show "\<exists>w \<in> set (db_objects d). read_object w = Some r" if "r \<in> set rs" for r
    using list_all2_sets(2)[OF a] that by simp
qed

lemma reconcile_references_result:
  assumes "reconcile_references refs physical rep = (left, rep')" "distinct (map rec_object refs)" "distinct (map oe_id physical)"
  shows "left = filter (\<lambda>e. oe_id e \<notin> rec_object ` set refs) physical \<and>
    rr_missing rep' = rr_missing rep @ map rec_object (filter (\<lambda>r. rec_object r \<notin> oe_id ` set physical) refs) \<and>
    rr_mismatches rep' = rr_mismatches rep @ map rec_object
      (filter (\<lambda>r. \<exists>e \<in> set physical. oe_id e = rec_object r \<and> oe_size e \<noteq> rec_encrypted r) refs) \<and>
    rr_status rep' = rr_status rep \<and> rr_garbage rep' = rr_garbage rep"
  using assms
proof (induction refs physical rep arbitrary: left rep' rule: reconcile_references.induct)
  case (2 r refs physical rep)
  let ?rest = "filter (\<lambda>e. oe_id e \<noteq> rec_object r) physical"
  show ?case
  proof (cases "find (\<lambda>e. oe_id e = rec_object r) physical")
    case None
    then have none: "rec_object r \<notin> oe_id ` set physical" by (auto simp: find_None_iff)
    have "reconcile_references refs physical (rep\<lparr>rr_missing := rr_missing rep @ [rec_object r]\<rparr>) = (left, rep')"
      using 2(3) None by simp
    note IH = 2(1)[OF None this]
    have "filter (\<lambda>e. oe_id e \<notin> rec_object ` set (r # refs)) physical = filter (\<lambda>e. oe_id e \<notin> rec_object ` set refs) physical"
      using none by (intro filter_cong) (auto simp: image_iff)
    moreover have "\<not> (\<exists>e \<in> set physical. oe_id e = rec_object r \<and> oe_size e \<noteq> rec_encrypted r)"
      using none by (metis image_eqI)
    ultimately show ?thesis using IH 2(4,5) none by simp
  next
    case (Some e)
    then have e: "e \<in> set physical" "oe_id e = rec_object r" by (auto simp: find_Some_iff)
    let ?rep = "if oe_size e \<noteq> rec_encrypted r then rep\<lparr>rr_mismatches := rr_mismatches rep @ [rec_object r]\<rparr>
        else rep\<lparr>rr_referenced := rr_referenced rep + oe_size e\<rparr>"
    have run: "reconcile_references refs ?rest ?rep = (left, rep')" using 2(3) Some by simp
    have d: "distinct (map rec_object refs)" "distinct (map oe_id ?rest)" using 2(4,5) by (auto simp: distinct_map_filter)
    note IH = 2(2)[OF Some run d]
    have unique: "x = e" if "x \<in> set physical" "oe_id x = rec_object r" for x
      using 2(5) that e by (simp add: distinct_map inj_on_def)
    have other: "rec_object x \<noteq> rec_object r" if "x \<in> set refs" for x using 2(4) that by (metis distinct.simps(2) image_eqI list.map(2) list.set_map)
    have "filter (\<lambda>x. rec_object x \<notin> oe_id ` set ?rest) refs = filter (\<lambda>x. rec_object x \<notin> oe_id ` set physical) refs"
      using other by (intro filter_cong) auto
    moreover have "filter (\<lambda>x. \<exists>e \<in> set ?rest. oe_id e = rec_object x \<and> oe_size e \<noteq> rec_encrypted x) refs =
        filter (\<lambda>x. \<exists>e \<in> set physical. oe_id e = rec_object x \<and> oe_size e \<noteq> rec_encrypted x) refs"
      using other by (intro filter_cong refl) (metis (mono_tags, lifting) filter_set mem_Collect_eq set_filter)
    moreover have "filter (\<lambda>x. oe_id x \<notin> rec_object ` set refs) ?rest = filter (\<lambda>x. oe_id x \<notin> rec_object ` set (r # refs)) physical"
      by (auto intro!: filter_cong)
    moreover have "(\<exists>x \<in> set physical. oe_id x = rec_object r \<and> oe_size x \<noteq> rec_encrypted r) \<longleftrightarrow> oe_size e \<noteq> rec_encrypted r"
      using unique e by blast
    moreover have "rec_object r \<in> oe_id ` set physical" using e by (metis image_eqI)
    ultimately show ?thesis using IH by auto
  qed
qed auto

lemma fold_add_garbage:
  "rr_garbage (fold add_garbage es rep) =
     rr_garbage rep @ map (\<lambda>e. \<lparr>go_id = oe_id e, go_length = oe_size e, go_modified = oe_modified e\<rparr>) es \<and>
   rr_status (fold add_garbage es rep) = rr_status rep \<and> rr_missing (fold add_garbage es rep) = rr_missing rep \<and>
   rr_mismatches (fold add_garbage es rep) = rr_mismatches rep"
  by (induction es arbitrary: rep) (auto simp: add_garbage_def)

text \<open>A listing that shows the files of the tree.\<close>

definition lists :: "dir_entry list \<Rightarrow> object_files \<Rightarrow> bool" where
  "lists entries m \<longleftrightarrow> distinct (map oe_id entries) \<and> (\<forall>i. m i \<noteq> None \<longleftrightarrow> i \<in> oe_id ` set entries) \<and>
     (\<forall>e \<in> set entries. \<exists>f. m (oe_id e) = Some f \<and> oe_size e = of_nat (length f) \<and> length f < 2 ^ 64)"

lemma reconcile_parts:
  assumes "objects_ok d" "distinct (map oe_id entries)" "rr_status (reconcile_objects outcome (Some entries) d) = RcOk"
  obtains refs where "object_references outcome d = (DbOk, refs)"
    "rr_missing (reconcile_objects outcome (Some entries) d) =
       map rec_object (filter (\<lambda>r. rec_object r \<notin> oe_id ` set entries) refs)"
    "rr_mismatches (reconcile_objects outcome (Some entries) d) = map rec_object
       (filter (\<lambda>r. \<exists>e \<in> set entries. oe_id e = rec_object r \<and> oe_size e \<noteq> rec_encrypted r) refs)"
    "rr_garbage (reconcile_objects outcome (Some entries) d) =
       map (\<lambda>e. \<lparr>go_id = oe_id e, go_length = oe_size e, go_modified = oe_modified e\<rparr>)
         (filter (\<lambda>e. oe_id e \<notin> row_object ` set (db_objects d)) (sort_key oe_id entries))"
proof -
  obtain refs where r: "object_references outcome d = (DbOk, refs)"
    using assms(3) by (cases "object_references outcome d") (auto simp: reconcile_objects_def empty_reconciliation_def split: if_splits)
  obtain left rep where rr: "reconcile_references refs (sort_key oe_id entries) (empty_reconciliation RcOk) = (left, rep)" by fastforce
  have ids: "map rec_object refs = map row_object (sort_key row_object (db_objects d))" by (rule references_rows(1)[OF r])
  have "distinct (map row_object (sort_key row_object (db_objects d)))"
    using assms(1) by (simp add: objects_ok_def distinct_map)
  then have d: "distinct (map rec_object refs)" "distinct (map oe_id (sort_key oe_id entries))"
    using ids assms(2) by (simp_all add: distinct_map)
  have "rec_object ` set refs = row_object ` set (db_objects d)"
    using arg_cong[OF ids, of set] by simp
  then show ?thesis
    using that[OF r] reconcile_references_result[OF rr d] fold_add_garbage[of left rep] r rr assms(2)
    by (simp add: reconcile_objects_def empty_reconciliation_def)
qed

lemma reconcile_sets:
  assumes ok: "objects_ok d" and l: "lists entries m" and run: "reconcile_objects outcome (Some entries) d = rep" "rr_status rep = RcOk"
  shows "set (rr_missing rep) = {i \<in> row_object ` set (db_objects d). m i = None}"
    "set (rr_mismatches rep) = row_object ` {w \<in> set (db_objects d). \<exists>f. m (row_object w) = Some f \<and> row_encrypted w \<noteq> int (length f)}"
    "set (map go_id (rr_garbage rep)) = {i. m i \<noteq> None \<and> i \<notin> row_object ` set (db_objects d)}"
proof -
  have dist: "distinct (map oe_id entries)" and dom: "\<And>i. m i \<noteq> None \<longleftrightarrow> i \<in> oe_id ` set entries"
    and size: "\<And>e. e \<in> set entries \<Longrightarrow> \<exists>f. m (oe_id e) = Some f \<and> oe_size e = of_nat (length f) \<and> length f < 2 ^ 64"
    using l by (auto simp: lists_def)
  have st: "rr_status (reconcile_objects outcome (Some entries) d) = RcOk" using run by simp
  obtain refs where r: "object_references outcome d = (DbOk, refs)"
    and parts: "rr_missing rep = map rec_object (filter (\<lambda>r. rec_object r \<notin> oe_id ` set entries) refs)"
      "rr_mismatches rep = map rec_object (filter (\<lambda>r. \<exists>e \<in> set entries. oe_id e = rec_object r \<and> oe_size e \<noteq> rec_encrypted r) refs)"
      "rr_garbage rep = map (\<lambda>e. \<lparr>go_id = oe_id e, go_length = oe_size e, go_modified = oe_modified e\<rparr>)
         (filter (\<lambda>e. oe_id e \<notin> row_object ` set (db_objects d)) (sort_key oe_id entries))"
    by (rule reconcile_parts[OF ok dist st, unfolded run(1)])
  have ids: "rec_object ` set refs = row_object ` set (db_objects d)"
    using arg_cong[OF references_rows(1)[OF r], of set] by simp
  have dom': "m i = None \<longleftrightarrow> i \<notin> oe_id ` set entries" for i using dom[of i] by blast
  have missing: "set (rr_missing rep) = {i \<in> row_object ` set (db_objects d). m i = None}"
    unfolding parts(1) ids[symmetric] by (auto simp: dom')
  have bad: "(\<exists>e \<in> set entries. oe_id e = rec_object r \<and> oe_size e \<noteq> rec_encrypted r) \<longleftrightarrow>
      (\<exists>f. m (row_object w) = Some f \<and> row_encrypted w \<noteq> int (length f))" if w: "read_object w = Some r" for w r
  proof -
    have eq: "of_nat (length f) = rec_encrypted r \<longleftrightarrow> row_encrypted w = int (length f)" if "length f < 2 ^ 64" for f :: bytes
    proof -
      have "uint (of_nat (length f) :: u64) = int (length f)" using that by (simp add: unsigned_of_nat take_bit_nat_eq_self)
      moreover have "uint (rec_encrypted r) = row_encrypted w"
        using read_object_Some[OF w] by (simp add: unsigned_of_int take_bit_int_eq_self)
      ultimately show ?thesis by (metis word_eq_iff_unsigned)
    qed
    have i: "rec_object r = row_object w" using read_object_Some[OF w] by simp
    show ?thesis
    proof
      assume "\<exists>e \<in> set entries. oe_id e = rec_object r \<and> oe_size e \<noteq> rec_encrypted r"
      then obtain e where e: "e \<in> set entries" "oe_id e = row_object w" "oe_size e \<noteq> rec_encrypted r" using i by auto
      obtain f where "m (oe_id e) = Some f" "oe_size e = of_nat (length f)" "length f < 2 ^ 64" using size[OF e(1)] by blast
      then show "\<exists>f. m (row_object w) = Some f \<and> row_encrypted w \<noteq> int (length f)" using eq[of f] e by auto
    next
      assume "\<exists>f. m (row_object w) = Some f \<and> row_encrypted w \<noteq> int (length f)"
      then obtain f where f: "m (row_object w) = Some f" "row_encrypted w \<noteq> int (length f)" by blast
      then obtain e where e: "e \<in> set entries" "oe_id e = row_object w" using dom[of "row_object w"] by auto
      then obtain f' where "m (oe_id e) = Some f'" "oe_size e = of_nat (length f')" "length f' < 2 ^ 64" using size by blast
      then show "\<exists>e \<in> set entries. oe_id e = rec_object r \<and> oe_size e \<noteq> rec_encrypted r"
        using f e i eq[of f'] by auto
    qed
  qed
  have mism: "set (rr_mismatches rep) =
      row_object ` {w \<in> set (db_objects d). \<exists>f. m (row_object w) = Some f \<and> row_encrypted w \<noteq> int (length f)}"
  proof (intro equalityI subsetI)
    fix i assume "i \<in> set (rr_mismatches rep)"
    then obtain x where x: "x \<in> set refs" "i = rec_object x" "\<exists>e \<in> set entries. oe_id e = rec_object x \<and> oe_size e \<noteq> rec_encrypted x"
      by (auto simp: parts(2))
    obtain w where "w \<in> set (db_objects d)" "read_object w = Some x" using references_rows(3)[OF r x(1)] by blast
    then show "i \<in> row_object ` {w \<in> set (db_objects d). \<exists>f. m (row_object w) = Some f \<and> row_encrypted w \<noteq> int (length f)}"
      using x bad read_object_Some by (intro image_eqI[of _ _ w]) auto
  next
    fix i assume "i \<in> row_object ` {w \<in> set (db_objects d). \<exists>f. m (row_object w) = Some f \<and> row_encrypted w \<noteq> int (length f)}"
    then obtain w where w: "w \<in> set (db_objects d)" "i = row_object w" "\<exists>f. m (row_object w) = Some f \<and> row_encrypted w \<noteq> int (length f)"
      by auto
    then obtain x where x: "x \<in> set refs" "read_object w = Some x" using references_rows(2)[OF r w(1)] by blast
    then show "i \<in> set (rr_mismatches rep)"
      using w bad[OF x(2)] read_object_Some[OF x(2)] unfolding parts(2) by (auto intro!: image_eqI[of _ _ x])
  qed
  have garb: "set (map go_id (rr_garbage rep)) = {i. m i \<noteq> None \<and> i \<notin> row_object ` set (db_objects d)}"
    unfolding parts(3) using dom by (auto simp: comp_def image_iff)
  show "set (rr_missing rep) = {i \<in> row_object ` set (db_objects d). m i = None}" by (rule missing)
  show "set (rr_mismatches rep) = row_object ` {w \<in> set (db_objects d). \<exists>f. m (row_object w) = Some f \<and> row_encrypted w \<noteq> int (length f)}"
    by (rule mism)
  show "set (map go_id (rr_garbage rep)) = {i. m i \<noteq> None \<and> i \<notin> row_object ` set (db_objects d)}" by (rule garb)
qed

lemma reconcile_clean:
  assumes "objects_ok d" "lists entries m" "reconcile_objects outcome (Some entries) d = rep" "rr_status rep = RcOk"
  shows "rr_missing rep = [] \<and> rr_mismatches rep = [] \<longleftrightarrow> resolves d m"
proof -
  have "rr_missing rep = [] \<and> rr_mismatches rep = [] \<longleftrightarrow> set (rr_missing rep) = {} \<and> set (rr_mismatches rep) = {}" by simp
  also have "\<dots> \<longleftrightarrow> resolves d m" unfolding reconcile_sets[OF assms] by (auto simp: resolves_def)
  finally show ?thesis .
qed

text \<open>
  Property C38.  Reconciliation reports exactly what is wrong: the missing objects are the referenced
  identities without a file, the size mismatches those whose file has another length than the row says,
  and the garbage the files that no row refers to.  So a report without missing objects and mismatches
  means that every reference resolves, and the other way round.
\<close>

theorem reconcile_is_exact:
  assumes ok: "objects_ok d" and l: "lists entries m" and run: "reconcile_objects outcome (Some entries) d = rep" "rr_status rep = RcOk"
  shows "set (rr_missing rep) = {i \<in> row_object ` set (db_objects d). m i = None} \<and>
    set (rr_mismatches rep) = row_object ` {w \<in> set (db_objects d). \<exists>f. m (row_object w) = Some f \<and> row_encrypted w \<noteq> int (length f)} \<and>
    set (map go_id (rr_garbage rep)) = {i. m i \<noteq> None \<and> i \<notin> row_object ` set (db_objects d)} \<and>
    (rr_missing rep = [] \<and> rr_mismatches rep = [] \<longleftrightarrow> resolves d m)"
  using reconcile_sets[OF assms] reconcile_clean[OF assms] by blast

section \<open>Collection is safe\<close>

lemma collect_one_keeps:
  assumes "collect_one e grace d c res root = (stop, res', roots)"
    and "references d j" "vr_visible root j = Some f" "vr_durable root j = Some f"
  shows "roots \<noteq> [] \<and> (\<forall>r \<in> set roots. vr_visible r j = Some f \<and> vr_durable r j = Some f)"
proof (cases "roots = [root]")
  case False
  obtain ok where u: "unlink_object (ge_unlink e (go_id c)) (go_id c) root = (ok, roots)" and n: "\<not> references d (go_id c)"
    using assms(1) False
    by (auto simp: collect_one_def object_is_referenced_def references_def split: if_splits option.splits prod.splits bool.splits)
  have "roots \<noteq> []" using u by (auto simp: unlink_object_def Let_def split: if_splits)
  moreover have "j \<noteq> go_id c" using n assms(2) by auto
  ultimately show ?thesis using unlink_keeps[OF u _ assms(3,4)] by blast
qed (use assms in simp)

lemma collect_loop_keeps:
  assumes "collect_loop e grace d cs res root = (res', roots)" "references d j" "vr_visible root j = Some f" "vr_durable root j = Some f"
  shows "\<forall>r \<in> set roots. vr_visible r j = Some f \<and> vr_durable r j = Some f"
  using assms
proof (induction cs arbitrary: res root res' roots)
  case (Cons c cs)
  obtain stop r1 rs1 where o: "collect_one e grace d c res root = (stop, r1, rs1)" by (metis prod.exhaust)
  note k = collect_one_keeps[OF o Cons.prems(2-4)]
  obtain r2 rs2 where l: "collect_loop e grace d cs r1 (last rs1) = (r2, rs2)" by fastforce
  have "vr_visible (last rs1) j = Some f" "vr_durable (last rs1) j = Some f" using k by auto
  note IH = Cons.IH[OF l Cons.prems(2) this]
  show ?case using Cons.prems(1) o l k IH by (auto split: if_splits)
qed simp

lemma collect_settled:
  assumes "at_rest s" "collect_garbage e grace (vs_db s) candidates (vs_root s) = (res, roots)" "r \<in> set roots"
  shows "at_rest (s\<lparr>vs_root := r\<rparr>)"
proof (rule settled_root[OF assms(1)])
  fix j f assume v: "vr_visible (vs_root s) j = Some f" "vr_durable (vs_root s) j = Some f"
    and "j \<in> row_object ` set (db_objects (vs_db s))"
  then have "references (vs_db s) j" by (simp add: references_iff)
  from collect_loop_keeps[OF assms(2)[unfolded collect_garbage_def] this v]
  show "vr_visible r j = Some f \<and> vr_durable r j = Some f" using assms(3) by blast
qed

text \<open>
  Property C39.  Collecting garbage never costs a referenced object: whatever the list of candidates,
  however old the scan it came from and whichever calls fail, in every state the collection goes through
  each reference still has its file, and a crash there leaves it.
\<close>

theorem collection_is_safe:
  assumes s: "at_rest s" and run: "collect_garbage e grace (vs_db s) candidates (vs_root s) = (res, roots)" and r: "r \<in> set roots"
  shows "resolves (vs_db s) (vr_visible r) \<and> (\<forall>m. crash_of r m \<longrightarrow> resolves (vs_db s) m) \<and>
    (\<forall>w \<in> set (db_objects (vs_db s)). vr_visible r (row_object w) = vr_visible (vs_root s) (row_object w))"
proof -
  note t = collect_settled[OF assms]
  have "vr_visible r (row_object w) = vr_visible (vs_root s) (row_object w)" if w: "w \<in> set (db_objects (vs_db s))" for w
  proof -
    obtain f where v: "vr_visible (vs_root s) (row_object w) = Some f" "vr_durable (vs_root s) (row_object w) = Some f"
      using s w unfolding at_rest_def resolves_def by metis
    have "references (vs_db s) (row_object w)" using w by (auto simp: references_iff)
    from collect_loop_keeps[OF run[unfolded collect_garbage_def] this v] show ?thesis using r v by simp
  qed
  moreover have "resolves (vs_db s) m" if "crash_of r m" for m
    using settled_crash(2)[OF t, of "vs_db s" m] that by (simp add: crash_vault_def)
  ultimately show ?thesis using t by (simp add: at_rest_def)
qed

section \<open>Any sequence of operations and crashes\<close>

inductive operation :: "object_prims \<Rightarrow> vault_state \<Rightarrow> vault_state list \<Rightarrow> bool" for P where
  create: "calls_ok P (me_write e) \<Longrightarrow> request_ok request plain \<Longrightarrow> me_durable e \<Longrightarrow>
    mutation_create P e mk request plain s = (result, states) \<Longrightarrow> operation P s states"
| replace: "calls_ok P (me_write e) \<Longrightarrow> request_ok request plain \<Longrightarrow> me_durable e \<Longrightarrow>
    mutation_replace P e mk request plain s = (result, states) \<Longrightarrow> operation P s states"
| remove: "me_durable e \<Longrightarrow> meta_generation (db_meta (vs_db s)) < INT64_MAX \<Longrightarrow>
    mutation_remove e n role s = (status, states) \<Longrightarrow> operation P s states"
| collect: "collect_garbage g grace (vs_db s) candidates (vs_root s) = (res, roots) \<Longrightarrow> operation P s (in_roots s roots)"


lemma operation_settled:
  assumes "operation P s states" "at_rest s"
  shows "\<forall>t \<in> set states. at_rest t"
  using assms
proof (cases rule: operation.cases)
  case (create e request plain mk result)
  then show ?thesis using create_settled assms(2) by blast
next
  case (replace e request plain mk result)
  then show ?thesis using replace_settled assms(2) by blast
next
  case (remove e n role status)
  then show ?thesis using remove_settled assms(2) by blast
next
  case (collect g grace candidates res roots)
  then show ?thesis using collect_settled[OF assms(2)] by (auto simp: in_roots_def)
qed

text \<open>
  What makes a set of operations crash safe: each keeps the invariant in every state it goes through, and
  so does a crash.
\<close>

locale crash_safe =
  fixes run :: "'s \<Rightarrow> 's list \<Rightarrow> bool" and crash :: "'s \<Rightarrow> 's \<Rightarrow> bool" and inv :: "'s \<Rightarrow> bool"
  assumes run_keeps: "run s states \<Longrightarrow> inv s \<Longrightarrow> t \<in> set states \<Longrightarrow> inv t"
    and crash_keeps: "inv t \<Longrightarrow> crash t u \<Longrightarrow> inv u"
begin

lemma reachable:
  assumes "R\<^sup>*\<^sup>* s t" "inv s" and steps: "\<And>s t. R s t \<Longrightarrow> \<exists>states. run s states \<and> (\<exists>u \<in> set states. t = u \<or> crash u t)"
  shows "inv t"
  using assms(1,2)
proof (induction rule: rtranclp_induct)
  case (step t u)
  then show ?case using steps run_keeps crash_keeps by blast
qed

end

interpretation directory: crash_safe "operation P" "\<lambda>t u. \<exists>d m. crash_vault t d m \<and> u = restart d m" at_rest for P
  by unfold_locales (use operation_settled settled_crash(3) in blast)+



section \<open>Collection is complete\<close>






section \<open>Deep verification\<close>

text \<open>An object whose file opens under a format of its node and reads, at every position, as one plaintext.\<close>

definition readable :: "object_prims \<Rightarrow> bytes \<Rightarrow> bytes \<Rightarrow> vault_root \<Rightarrow> object_record \<Rightarrow> bool" where
  "readable P mk vault_id root r \<longleftrightarrow> (\<exists>format content reader plain.
     vr_visible root (rec_object r) = Some content \<and> reader_open P mk (expected_info vault_id format r) (Some content) = Inr reader \<and>
     length plain = unat (rec_plain r) \<and>
     (\<forall>off len. read_range P reader off len =
        (if off + len \<le> length plain then Inr (take len (drop off plain)) else Inl OsInvalidArgument)))"

lemma read_frame_length: "read_frame P r i = Inr p \<Longrightarrow> length p = unat (en_plain (or_entries r ! i))"
  by (auto simp: read_frame_def Let_def split: if_splits sum.splits option.splits)

lemma frames_readable:
  assumes o: "reader_open P mk expected (Some content) = Inr r"
    and f: "\<forall>i < unat (oi_frames expected). \<exists>p. read_frame P r i = Inr p"
  shows "\<exists>plain. length plain = unat (oi_plain expected) \<and> (\<forall>off len. read_range P r off len =
        (if off + len \<le> length plain then Inr (take len (drop off plain)) else Inl OsInvalidArgument))"
proof -
  note e = reader_open_entries[OF o]
  let ?fs = "map (\<lambda>i. projr (read_frame P r i)) [0..<length (or_entries r)]"
  have get: "read_frame P r i = Inr (projr (read_frame P r i))" if "i < length (or_entries r)" for i
    using f e that by (metis sum.sel(2))
  have fr: "frames_read P r ?fs" using get read_frame_length by (auto simp: frames_read_def)
  have "length (concat ?fs) = sum_list (map length ?fs)" by (simp add: length_concat)
  also have "map length ?fs = map (unat \<circ> en_plain) (or_entries r)"
    using fr by (intro nth_equalityI) (auto simp: frames_read_def)
  finally have "length (concat ?fs) = unat (oi_plain (or_info r))" using e by simp
  then show ?thesis using read_range_slice[OF fr] e by auto
qed

lemma frames_authenticated:
  "authenticate_frames P cancel r i fs rep = (True, rep') \<Longrightarrow>
     (\<forall>f \<in> set fs. \<exists>p. read_frame P r f = Inr p) \<and> vp_findings rep' = vp_findings rep \<and> vp_status rep' = vp_status rep"
  by (induction fs arbitrary: rep) (force split: if_splits sum.splits)+

lemma frames_stopped:
  "authenticate_frames P cancel r i fs rep = (False, rep') \<Longrightarrow>
     vp_status rep' = RcCancelled \<and> vp_findings rep' = vp_findings rep \<or>
     (\<exists>k. k \<noteq> UnreferencedGarbage \<and> vp_findings rep' = vp_findings rep @ [(k, i)])"
  by (induction fs arbitrary: rep) (force simp: add_finding_def finding_for_def split: if_splits sum.splits)+

lemma object_authenticated:
  assumes "authenticate_object P e mk vault_id root d r rep = rep'"
  obtains "vp_status rep' = RcCancelled" "vp_findings rep' = vp_findings rep"
  | k where "k \<noteq> UnreferencedGarbage" "vp_findings rep' = vp_findings rep @ [(k, rec_object r)]"
  | "readable P mk vault_id root r" "vp_findings rep' = vp_findings rep"
proof (cases "media_format_for (ve_find e (rec_object r)) d r")
  case None
  then show ?thesis using assms that(2)[of MalformedObject] by (auto simp: authenticate_object_def add_finding_def)
next
  case (Some format)
  let ?x = "expected_info vault_id format r"
  show ?thesis
  proof (cases "reader_open P mk ?x (open_object (ve_open e (rec_object r)) (rec_object r) root)")
    case (Inl st)
    then show ?thesis using assms Some that(2)[of "finding_for st"]
      by (auto simp: authenticate_object_def add_finding_def finding_for_def split: if_splits)
  next
    case (Inr reader)
    obtain content where c: "open_object (ve_open e (rec_object r)) (rec_object r) root = Some content"
      using Inr by (cases "open_object (ve_open e (rec_object r)) (rec_object r) root") (auto simp: reader_open_def split: if_splits)
    have vis: "vr_visible root (rec_object r) = Some content" using c by (auto simp: open_object_def split: if_splits)
    obtain all rep1 where a: "authenticate_frames P (ve_cancel e (rec_object r)) reader (rec_object r) [0..<unat (rec_frames r)] rep = (all, rep1)"
      by fastforce
    show ?thesis
    proof (cases all)
      case True
      then have at: "authenticate_frames P (ve_cancel e (rec_object r)) reader (rec_object r) [0..<unat (rec_frames r)] rep = (True, rep1)"
        using a by simp
      have "\<exists>plain. length plain = unat (oi_plain ?x) \<and> (\<forall>off len. read_range P reader off len =
          (if off + len \<le> length plain then Inr (take len (drop off plain)) else Inl OsInvalidArgument))"
        by (rule frames_readable[OF Inr[unfolded c]]) (use frames_authenticated[OF at] in \<open>auto simp: expected_info_def\<close>)
      then obtain plain where "length plain = unat (rec_plain r)" "\<forall>off len. read_range P reader off len =
          (if off + len \<le> length plain then Inr (take len (drop off plain)) else Inl OsInvalidArgument)"
        by (auto simp: expected_info_def)
      then have "readable P mk vault_id root r"
        using vis Inr[unfolded c] unfolding readable_def by blast
      then show ?thesis using that(3) assms Some Inr a True frames_authenticated[OF at]
        by (auto simp: authenticate_object_def)
    next
      case False
      have "rep' = rep1" using assms Some Inr a False by (simp add: authenticate_object_def)
      then show ?thesis using frames_stopped[of P _ reader _ _ rep rep1] a False that(1,2) by auto
    qed
  qed
qed

lemma corruption_stays:
  "\<exists>new. vp_findings (authenticate_all P e mk vault_id root d rec rs rep) = vp_findings rep @ new"
proof (induction rs arbitrary: rep)
  case (Cons r rs)
  let ?rep = "authenticate_object P e mk vault_id root d r rep"
  have "\<exists>new. vp_findings ?rep = vp_findings rep @ new" by (rule object_authenticated[OF refl, of P e mk vault_id root d r rep]) auto
  then show ?case using Cons.IH[of rep] Cons.IH[of ?rep] by (auto simp: Let_def)
qed simp

lemma all_authenticated:
  assumes "\<not> has_corruption (authenticate_all P e mk vault_id root d rec rs rep)"
    and "vp_status (authenticate_all P e mk vault_id root d rec rs rep) \<noteq> RcCancelled" "r \<in> set rs"
  shows "is_unreadable rec (rec_object r) \<or> readable P mk vault_id root r"
  using assms
proof (induction rs arbitrary: rep)
  case (Cons x rs)
  let ?rep = "authenticate_object P e mk vault_id root d x rep"
  show ?case
  proof (cases "is_unreadable rec (rec_object x)")
    case True
    then show ?thesis using Cons by auto
  next
    case False
    have nc: "vp_status ?rep \<noteq> RcCancelled" using Cons.prems(2) False by (auto simp: Let_def)
    then have run: "authenticate_all P e mk vault_id root d rec (x # rs) rep = authenticate_all P e mk vault_id root d rec rs ?rep"
      using False by (simp add: Let_def)
    obtain new where "vp_findings (authenticate_all P e mk vault_id root d rec rs ?rep) = vp_findings ?rep @ new"
      using corruption_stays by blast
    then have "\<not> has_corruption ?rep" using Cons.prems(1) run by (auto simp: has_corruption_def)
    then have "readable P mk vault_id root x"
      using nc by (cases rule: object_authenticated[OF refl, of P e mk vault_id root d x rep]) (auto simp: has_corruption_def)
    moreover have "is_unreadable rec (rec_object r) \<or> readable P mk vault_id root r" if "r \<in> set rs"
      using Cons.IH[of ?rep] Cons.prems run that by simp
    ultimately show ?thesis using Cons.prems(3) by auto
  qed
qed simp

lemma quick_findings_clean:
  "\<forall>f \<in> set (quick_findings bad rec). fst f = UnreferencedGarbage \<Longrightarrow> bad = [] \<and> rr_missing rec = [] \<and> rr_mismatches rec = []"
  by (cases bad; cases "rr_missing rec"; cases "rr_mismatches rec") (auto simp: quick_findings_def)

text \<open>
  Property C37.  A deep verification that reports success has read everything: each object the database
  refers to has its file, the file opens under the record and a format of its node, its frames all
  authenticate, and every range of it reads; and no media node lacks its original or owns an object of
  another kind of media.
\<close>

theorem deep_verification_reads_everything:
  assumes "vp_status (verify_vault P e mk vault_id Deep listed root d) = RcOk"
  shows "(\<forall>w \<in> set (db_objects d). \<exists>r. read_object w = Some r \<and> readable P mk vault_id root r) \<and>
    (\<forall>n \<in> set (db_nodes d). \<not> incomplete_media (db_objects d) n)"
proof -
  let ?rec = "reconcile_objects (ve_references e) listed d"
  let ?bad = "map nw_id (filter (incomplete_media (db_objects d)) (db_nodes d))"
  obtain refs rep where refs: "object_references (ve_references_again e) d = (DbOk, refs)"
    and rep: "vp_findings rep = quick_findings ?bad ?rec" "vp_status (finish_report (authenticate_all P e mk vault_id root d ?rec refs rep)) = RcOk"
  proof -
    let ?rep = "(empty_report RcOk Deep)\<lparr>vp_referenced := rr_referenced ?rec, vp_findings := quick_findings ?bad ?rec,
        vp_garbage_bytes := rr_garbage_bytes ?rec, vp_garbage_objects := length (rr_garbage ?rec)\<rparr>"
    show ?thesis
      using assms that[of _ ?rep]
      by (auto simp: verify_vault_def Let_def incomplete_media_nodes_def empty_report_def split: if_splits prod.splits)
  qed
  let ?final = "authenticate_all P e mk vault_id root d ?rec refs rep"
  have clean: "\<not> has_corruption ?final" "vp_status ?final \<noteq> RcCancelled"
    using rep(2) by (auto simp: finish_report_def split: if_splits)
  obtain new where "vp_findings ?final = quick_findings ?bad ?rec @ new" using corruption_stays rep(1) by metis
  then have "\<forall>f \<in> set (quick_findings ?bad ?rec). fst f = UnreferencedGarbage"
    using clean(1) by (simp add: has_corruption_def list_ex_iff)
  from quick_findings_clean[OF this] have quick: "\<not> is_unreadable ?rec i" "filter (incomplete_media (db_objects d)) (db_nodes d) = []" for i
    by (simp_all add: is_unreadable_def del: set_filter)
  have "\<exists>r. read_object w = Some r \<and> readable P mk vault_id root r" if "w \<in> set (db_objects d)" for w
    using references_rows(2)[OF refs that] all_authenticated[OF clean] quick(1) by blast
  then show ?thesis using quick(2) by (auto simp: filter_empty_conv)
qed
section \<open>Sample runs\<close>

definition sample_entries :: "dir_entry list" where
  "sample_entries = [\<lparr>oe_id = replicate 16 8, oe_size = 1, oe_modified = 50\<rparr>, \<lparr>oe_id = replicate 16 7, oe_size = 100, oe_modified = 40\<rparr>]"

definition sample_files :: object_files where
  "sample_files = [replicate 16 7 \<mapsto> replicate 100 0, replicate 16 8 \<mapsto> [0]]"

definition sample_gc :: gc_env where
  "sample_gc = \<lparr>ge_now = 1000, ge_referenced = (\<lambda>i. DbOk), ge_open = (\<lambda>i. True), ge_size = (\<lambda>i. True),
     ge_unlink = (\<lambda>i. \<lparr>ue_open = True, ue_unlink = True, ue_sync = True\<rparr>)\<rparr>"

lemma sample_lists: "lists sample_entries sample_files"
  by (auto simp: lists_def sample_entries_def sample_files_def)

lemma sample_objects_ok: "objects_ok sample_tables"
  using sample_tables_ok by (simp add: tables_ok_def)

lemma sample_reconciled: "rr_status (reconcile_objects DbOk (Some sample_entries) sample_tables) = RcOk"
proof -
  have "object_references DbOk sample_tables = (DbOk, [\<lparr>rec_object = replicate 16 7, rec_node = replicate 16 2, rec_role = Thumbnail,
      rec_encrypted = 100, rec_plain = 3, rec_limit = 2, rec_frames = 2, rec_generation = 1\<rparr>])"
    by (simp add: object_references_def sample_tables_def sample_row_def read_object_def optional_integer_def NODE_ID_SIZE_def role_of_code_def)
  then show ?thesis
    by (simp add: reconcile_objects_def sample_entries_def empty_reconciliation_def add_garbage_def split: prod.splits option.splits)
qed

theorem reconcile_is_exact_witness:
  "set (map go_id (rr_garbage (reconcile_objects DbOk (Some sample_entries) sample_tables))) = {replicate 16 8} \<and>
   rr_missing (reconcile_objects DbOk (Some sample_entries) sample_tables) = []"
proof -
  have "resolves sample_tables sample_files"
    by (simp add: resolves_def sample_tables_def sample_row_def sample_files_def)
  moreover have "{i. sample_files i \<noteq> None \<and> i \<notin> row_object ` set (db_objects sample_tables)} = {replicate 16 8}"
    by (auto simp: sample_files_def sample_tables_def sample_row_def split: if_splits)
  ultimately show ?thesis using reconcile_is_exact[OF sample_objects_ok sample_lists refl sample_reconciled] by simp
qed

theorem collection_is_safe_witness:
  "list_all (\<lambda>r. vr_visible r (replicate 16 7) = Some (replicate 100 0))
     (snd (collect_garbage sample_gc 60 sample_tables [\<lparr>go_id = replicate 16 7, go_length = 100, go_modified = 40\<rparr>]
      (vs_root sample_directory)))"
  unfolding list_all_iff
proof
  let ?c = "[\<lparr>go_id = replicate 16 7, go_length = 100, go_modified = 40\<rparr>]"
  obtain res roots where run: "collect_garbage sample_gc 60 (vs_db sample_directory) ?c (vs_root sample_directory) = (res, roots)"
    by fastforce
  fix r assume "r \<in> set (snd (collect_garbage sample_gc 60 sample_tables ?c (vs_root sample_directory)))"
  then have "r \<in> set roots" using run by (simp add: sample_directory_def)
  then show "vr_visible r (replicate 16 7) = Some (replicate 100 0)"
    using collection_is_safe[OF sample_vault_settled run]
    by (auto simp: sample_directory_def sample_tables_def sample_row_def root_of_def)
qed



definition sample_verify :: verify_env where
  "sample_verify = \<lparr>ve_healthy = True, ve_deep_healthy = True, ve_references = DbOk, ve_incomplete = DbOk, ve_references_again = DbOk,
     ve_find = (\<lambda>i. DbOk), ve_open = (\<lambda>i. True), ve_cancel = (\<lambda>i n. False)\<rparr>"

theorem deep_verification_reads_everything_witness:
  "vp_status (verify_vault sample_prims sample_verify [3] (replicate 16 1) Deep (Some []) (root_of Map.empty) empty_tables) = RcOk \<and>
   list_all (\<lambda>n. \<not> incomplete_media (db_objects empty_tables) n) (db_nodes empty_tables)"
proof -
  have "vp_status (verify_vault sample_prims sample_verify [3] (replicate 16 1) Deep (Some []) (root_of Map.empty) empty_tables) = RcOk"
    by (simp add: verify_vault_def sample_verify_def empty_report_def reconcile_objects_def object_references_def empty_tables_def
        incomplete_media_nodes_def incomplete_media_def sample_root_def quick_findings_def empty_reconciliation_def
        finish_report_def has_corruption_def Let_def)
  then show ?thesis using deep_verification_reads_everything unfolding list_all_iff by blast
qed
end
