(* ===== verification/Text_Field.thy ===== *)
theory Text_Field
  imports Prelude
begin

text \<open>
  Text fields (\<open>src/ui/text_input_model.cpp\<close>, \<open>src/ui/secure_text_input.cpp\<close>): a byte buffer with a caret
  and a selection, edited by whole UTF-8 characters.  \<open>TextInputBase\<close> is written over two storage
  operations that a backend overrides; the record \<open>backend\<close> holds those of a backend, and the locale
  \<open>text_storage\<close> what the base class expects of them.  Both backends of the program interpret it.
\<close>

section \<open>Bytes of a character\<close>

definition is_continuation :: "byte \<Rightarrow> bool" where
  "is_continuation b \<longleftrightarrow> b AND 0xC0 = 0x80"

definition sequence_length :: "byte \<Rightarrow> nat" where
  "sequence_length b =
     (if b < 0x80 then 1
      else if 0xC2 \<le> b \<and> b \<le> 0xDF then 2
      else if 0xE0 \<le> b \<and> b \<le> 0xEF then 3
      else if 0xF0 \<le> b \<and> b \<le> 0xF4 then 4
      else 0)"

datatype char_class = SpaceClass | WordClass | PunctClass

definition classify :: "byte \<Rightarrow> char_class" where
  "classify lead =
     (if 0x80 \<le> lead then WordClass
      else if lead \<in> {0x20, 0x09, 0x0A, 0x0D, 0x0B, 0x0C} then SpaceClass
      else if 0x30 \<le> lead \<and> lead \<le> 0x39 \<or> 0x41 \<le> lead \<and> lead \<le> 0x5A \<or> 0x61 \<le> lead \<and> lead \<le> 0x7A \<or> lead = 0x5F
      then WordClass else PunctClass)"

text \<open>\<open>p\<close> is the rest of the text, which the pointer and \<open>avail\<close> of the code stand for.\<close>

definition sequence_is_valid :: "bytes \<Rightarrow> nat \<Rightarrow> bool" where
  "sequence_is_valid p len =
     (if len = 0 \<or> length p < len then False
      else if len = 1 then True
      else if list_ex (\<lambda>b. \<not> is_continuation b) (take (len - 1) (drop 1 p)) then False
      else let b0 = p ! 0; b1 = p ! 1 in
        \<not> (b0 = 0xE0 \<and> b1 < 0xA0) \<and> \<not> (b0 = 0xED \<and> 0xA0 \<le> b1) \<and>
        \<not> (b0 = 0xF0 \<and> b1 < 0x90) \<and> \<not> (b0 = 0xF4 \<and> 0x90 \<le> b1))"

definition acceptable_at :: "bytes \<Rightarrow> nat \<Rightarrow> nat" where
  "acceptable_at text pos =
     (let b = text ! pos; len = sequence_length b in
      if \<not> sequence_is_valid (drop pos text) len then 0
      else if len = 1 \<and> (b < 0x20 \<or> b = 0x7F) then 0
      else len)"

section \<open>Boundaries of characters and words\<close>

text \<open>
  A \<open>pos\<close> past the start of an empty buffer makes the code decrement zero and read outside the span;
  the fields never ask for it, because a caret stays within its buffer.
\<close>

fun prev_from :: "bytes \<Rightarrow> nat \<Rightarrow> nat" where
  "prev_from buf 0 = 0"
| "prev_from buf (Suc i) = (if is_continuation (buf ! Suc i) then prev_from buf i else Suc i)"

definition utf8_prev_boundary :: "bytes \<Rightarrow> nat \<Rightarrow> nat" where
  "utf8_prev_boundary buf pos = (if pos = 0 then 0 else prev_from buf (min pos (length buf) - 1))"

function next_from :: "bytes \<Rightarrow> nat \<Rightarrow> nat" where
  "next_from buf i = (if i < length buf \<and> is_continuation (buf ! i) then next_from buf (Suc i) else i)"
  by pat_completeness auto
termination by (relation "measure (\<lambda>(buf, i). length buf - i)") auto

declare next_from.simps [simp del]

definition utf8_next_boundary :: "bytes \<Rightarrow> nat \<Rightarrow> nat" where
  "utf8_next_boundary buf pos = (if length buf \<le> pos then length buf else next_from buf (pos + 1))"

definition utf8_char_count :: "bytes \<Rightarrow> nat" where
  "utf8_char_count buf = length (filter (\<lambda>b. \<not> is_continuation b) buf)"

lemma prev_from_le: "prev_from buf i \<le> i"
  by (induction buf i rule: prev_from.induct) auto

lemma next_from_ge: "i \<le> next_from buf i"
  by (induction buf i rule: next_from.induct) (subst next_from.simps, auto)

lemma next_from_le: "i \<le> length buf \<Longrightarrow> next_from buf i \<le> length buf"
  by (induction buf i rule: next_from.induct) (subst next_from.simps, auto)

lemma prev_boundary_less: "0 < pos \<Longrightarrow> utf8_prev_boundary buf pos < pos"
  using prev_from_le[of buf "min pos (length buf) - 1"] by (auto simp: utf8_prev_boundary_def)

lemma next_boundary_greater: "pos < length buf \<Longrightarrow> pos < utf8_next_boundary buf pos"
  using next_from_ge[of "pos + 1" buf] by (auto simp: utf8_next_boundary_def)

lemma next_boundary_le: "utf8_next_boundary buf pos \<le> length buf"
  using next_from_le[of "pos + 1" buf] by (auto simp: utf8_next_boundary_def)

definition class_at :: "bytes \<Rightarrow> nat \<Rightarrow> char_class" where
  "class_at buf pos = classify (buf ! pos)"

definition class_before :: "bytes \<Rightarrow> nat \<Rightarrow> char_class" where
  "class_before buf pos = classify (buf ! utf8_prev_boundary buf pos)"

function left_while :: "char_class \<Rightarrow> bytes \<Rightarrow> nat \<Rightarrow> nat" where
  "left_while cls buf i =
     (if 0 < i \<and> class_before buf i = cls then left_while cls buf (utf8_prev_boundary buf i) else i)"
  by pat_completeness auto
termination by (relation "measure (\<lambda>(cls, buf, i). i)") (auto simp: prev_boundary_less)

function right_while :: "char_class \<Rightarrow> bytes \<Rightarrow> nat \<Rightarrow> nat" where
  "right_while cls buf i =
     (if i < length buf \<and> class_at buf i = cls then right_while cls buf (utf8_next_boundary buf i) else i)"
  by pat_completeness auto
termination
  by (relation "measure (\<lambda>(cls, buf, i). length buf - i)") (auto intro!: diff_less_mono2 next_boundary_greater)

declare left_while.simps [simp del] right_while.simps [simp del]

definition word_boundary_left :: "bytes \<Rightarrow> nat \<Rightarrow> nat" where
  "word_boundary_left buf pos =
     (let i = left_while SpaceClass buf (min pos (length buf)) in
      if i = 0 then 0 else left_while (class_before buf i) buf i)"

definition word_boundary_right :: "bytes \<Rightarrow> nat \<Rightarrow> nat" where
  "word_boundary_right buf pos =
     (let i = right_while SpaceClass buf (min pos (length buf)) in
      if length buf \<le> i then length buf else right_while (class_at buf i) buf i)"

section \<open>Acceptable input\<close>

function run_from :: "bytes \<Rightarrow> nat \<Rightarrow> nat" where
  "run_from text i =
     (if i < length text then if acceptable_at text i = 0 then i else run_from text (i + acceptable_at text i) else i)"
  by pat_completeness auto
termination by (relation "measure (\<lambda>(text, i). length text - i)") auto

declare run_from.simps [simp del]

definition acceptable_input_run :: "bytes \<Rightarrow> nat" where
  "acceptable_input_run text = run_from text 0"

function skip_unacceptable :: "bytes \<Rightarrow> nat \<Rightarrow> nat" where
  "skip_unacceptable text i =
     (if i < length text \<and> acceptable_at text i = 0 then skip_unacceptable text (i + 1) else i)"
  by pat_completeness auto
termination by (relation "measure (\<lambda>(text, i). length text - i)") auto

declare skip_unacceptable.simps [simp del]

lemma skip_ge: "i \<le> skip_unacceptable t i"
  by (induction t i rule: skip_unacceptable.induct) (subst skip_unacceptable.simps, auto)

section \<open>The field over a backend\<close>

record 'm backend =
  be_bytes :: "'m \<Rightarrow> bytes"
  be_byte_cap :: "'m \<Rightarrow> nat"
  be_splice :: "'m \<Rightarrow> nat \<Rightarrow> nat \<Rightarrow> bytes \<Rightarrow> 'm"
  be_clear :: "'m \<Rightarrow> 'm"
  be_secure :: bool

record 'm text_input =
  ti_store :: 'm
  ti_caret :: nat
  ti_anchor :: nat
  ti_revision :: u64

definition field_bytes :: "'m backend \<Rightarrow> 'm text_input \<Rightarrow> bytes" where
  "field_bytes B f = be_bytes B (ti_store f)"

definition field_size :: "'m backend \<Rightarrow> 'm text_input \<Rightarrow> nat" where
  "field_size B f = length (field_bytes B f)"

definition sel_begin :: "'m text_input \<Rightarrow> nat" where "sel_begin f = min (ti_caret f) (ti_anchor f)"
definition sel_end :: "'m text_input \<Rightarrow> nat" where "sel_end f = max (ti_caret f) (ti_anchor f)"
definition has_selection :: "'m text_input \<Rightarrow> bool" where "has_selection f \<longleftrightarrow> sel_begin f \<noteq> sel_end f"

definition apply_splice :: "'m backend \<Rightarrow> nat \<Rightarrow> nat \<Rightarrow> bytes \<Rightarrow> 'm text_input \<Rightarrow> 'm text_input" where
  "apply_splice B start end' ins f =
     f\<lparr>ti_store := be_splice B (ti_store f) start end' ins, ti_revision := ti_revision f + 1\<rparr>"

definition set_caret :: "nat \<Rightarrow> 'm text_input \<Rightarrow> 'm text_input" where
  "set_caret p f = f\<lparr>ti_caret := p, ti_anchor := p\<rparr>"

definition place_caret :: "'m backend \<Rightarrow> nat \<Rightarrow> bool \<Rightarrow> 'm text_input \<Rightarrow> 'm text_input" where
  "place_caret B pos keep f =
     (let c = min pos (field_size B f) in f\<lparr>ti_caret := c, ti_anchor := if keep then ti_anchor f else c\<rparr>)"

fun back_off :: "bytes \<Rightarrow> nat \<Rightarrow> nat" where
  "back_off run 0 = 0"
| "back_off run (Suc n) = (if is_continuation (run ! Suc n) then back_off run n else Suc n)"

definition insert_run :: "'m backend \<Rightarrow> bytes \<Rightarrow> 'm text_input \<Rightarrow> 'm text_input" where
  "insert_run B run f =
     (let start = sel_begin f; end' = sel_end f;
          cap = be_byte_cap B (ti_store f);
          room = cap - min cap (field_size B f - (end' - start));
          take0 = min (length run) room;
          n = (if take0 < length run then back_off run take0 else take0)
      in if n = 0 \<and> start = end' then f
         else set_caret (start + n) (apply_splice B start end' (take n run) f))"

function insert_from :: "'m backend \<Rightarrow> bytes \<Rightarrow> nat \<Rightarrow> 'm text_input \<Rightarrow> 'm text_input" where
  "insert_from B text i f =
     (if i < length text
      then let run = acceptable_input_run (drop i text) in
        if run = 0 then f
        else insert_from B text (skip_unacceptable text (i + run)) (insert_run B (take run (drop i text)) f)
      else f)"
  by pat_completeness auto
termination
proof (relation "measure (\<lambda>(B, text, i, f). length text - i)")
  fix B :: "'m backend" and t :: bytes and i :: nat and f :: "'m text_input" and run :: nat
  assume "i < length t" "run = acceptable_input_run (drop i t)" "run \<noteq> 0"
  then show "((B, t, skip_unacceptable t (i + run), insert_run B (take run (drop i t)) f), B, t, i, f)
      \<in> measure (\<lambda>(B, t, i, f). length t - i)"
    using skip_ge[of "i + run" t] by auto
qed simp

declare insert_from.simps [simp del]

definition insert_text :: "'m backend \<Rightarrow> bytes \<Rightarrow> 'm text_input \<Rightarrow> 'm text_input" where
  "insert_text B text f = insert_from B text (skip_unacceptable text 0) f"

definition delete_selection :: "'m backend \<Rightarrow> 'm text_input \<Rightarrow> 'm text_input" where
  "delete_selection B f =
     (if \<not> has_selection f then f
      else let start = sel_begin f in set_caret start (apply_splice B start (sel_end f) [] f))"

definition backspace :: "'m backend \<Rightarrow> 'm text_input \<Rightarrow> 'm text_input" where
  "backspace B f =
     (if has_selection f then delete_selection B f
      else if ti_caret f = 0 then f
      else let from' = utf8_prev_boundary (field_bytes B f) (ti_caret f)
           in set_caret from' (apply_splice B from' (ti_caret f) [] f))"

definition del_char :: "'m backend \<Rightarrow> 'm text_input \<Rightarrow> 'm text_input" where
  "del_char B f =
     (if has_selection f then delete_selection B f
      else if field_size B f \<le> ti_caret f then f
      else let g = apply_splice B (ti_caret f) (utf8_next_boundary (field_bytes B f) (ti_caret f)) [] f
           in g\<lparr>ti_anchor := ti_caret g\<rparr>)"

definition move_left :: "'m backend \<Rightarrow> bool \<Rightarrow> bool \<Rightarrow> 'm text_input \<Rightarrow> 'm text_input" where
  "move_left B by_word keep f =
     (if \<not> keep \<and> has_selection f \<and> \<not> by_word then place_caret B (sel_begin f) False f
      else place_caret B (if by_word then word_boundary_left (field_bytes B f) (ti_caret f)
                          else utf8_prev_boundary (field_bytes B f) (ti_caret f)) keep f)"

definition move_right :: "'m backend \<Rightarrow> bool \<Rightarrow> bool \<Rightarrow> 'm text_input \<Rightarrow> 'm text_input" where
  "move_right B by_word keep f =
     (if \<not> keep \<and> has_selection f \<and> \<not> by_word then place_caret B (sel_end f) False f
      else place_caret B (if by_word then word_boundary_right (field_bytes B f) (ti_caret f)
                          else utf8_next_boundary (field_bytes B f) (ti_caret f)) keep f)"

definition move_home :: "'m backend \<Rightarrow> bool \<Rightarrow> 'm text_input \<Rightarrow> 'm text_input" where
  "move_home B keep f = place_caret B 0 keep f"

definition move_end :: "'m backend \<Rightarrow> bool \<Rightarrow> 'm text_input \<Rightarrow> 'm text_input" where
  "move_end B keep f = place_caret B (field_size B f) keep f"

definition select_everything :: "'m backend \<Rightarrow> 'm text_input \<Rightarrow> 'm text_input" where
  "select_everything B f = f\<lparr>ti_anchor := 0, ti_caret := field_size B f\<rparr>"

definition reset_caret :: "'m text_input \<Rightarrow> 'm text_input" where
  "reset_caret f = f\<lparr>ti_caret := 0, ti_anchor := 0, ti_revision := ti_revision f + 1\<rparr>"

definition clear_field :: "'m backend \<Rightarrow> 'm text_input \<Rightarrow> 'm text_input" where
  "clear_field B f = reset_caret (f\<lparr>ti_store := be_clear B (ti_store f)\<rparr>)"

definition set_text :: "'m backend \<Rightarrow> bytes \<Rightarrow> 'm text_input \<Rightarrow> 'm text_input" where
  "set_text B text f = insert_text B text (clear_field B f)"

definition new_field :: "'m \<Rightarrow> 'm text_input" where
  "new_field m = \<lparr>ti_store = m, ti_caret = 0, ti_anchor = 0, ti_revision = 0\<rparr>"

section \<open>The two backends\<close>

record text_model =
  tm_buf :: bytes
  tm_cap :: nat

definition text_model_splice :: "text_model \<Rightarrow> nat \<Rightarrow> nat \<Rightarrow> bytes \<Rightarrow> text_model" where
  "text_model_splice m start end' ins = m\<lparr>tm_buf := take start (tm_buf m) @ ins @ drop end' (tm_buf m)\<rparr>"

definition text_input_model :: "text_model backend" where
  "text_input_model = \<lparr>be_bytes = tm_buf, be_byte_cap = tm_cap, be_splice = text_model_splice,
     be_clear = (\<lambda>m. m\<lparr>tm_buf := []\<rparr>), be_secure = False\<rparr>"

text \<open>The locked buffer of a password field: all bytes of the allocation, and how many of them are text.\<close>

record secure_model =
  sm_buf :: bytes
  sm_len :: nat

definition store_at :: "nat \<Rightarrow> bytes \<Rightarrow> bytes \<Rightarrow> bytes" where
  "store_at off xs mem = take off mem @ xs @ drop (off + length xs) mem"

definition secure_splice :: "secure_model \<Rightarrow> nat \<Rightarrow> nat \<Rightarrow> bytes \<Rightarrow> secure_model" where
  "secure_splice m start end' ins =
     (if sm_buf m = [] then m
      else let old_len = sm_len m; tail = old_len - end';
               new_len = old_len - (end' - start) + length ins;
               p = sm_buf m;
               p = (if 0 < tail then store_at (start + length ins) (take tail (drop end' p)) p else p);
               p = (if ins \<noteq> [] then store_at start ins p else p);
               p = (if new_len < old_len then store_at new_len (replicate (old_len - new_len) 0) p else p)
           in \<lparr>sm_buf = p, sm_len = new_len\<rparr>)"

definition secure_text_input :: "secure_model backend" where
  "secure_text_input = \<lparr>be_bytes = (\<lambda>m. take (sm_len m) (sm_buf m)), be_byte_cap = (\<lambda>m. length (sm_buf m)),
     be_splice = secure_splice, be_clear = (\<lambda>m. \<lparr>sm_buf = replicate (length (sm_buf m)) 0, sm_len = 0\<rparr>),
     be_secure = True\<rparr>"

text \<open>The constructor; \<open>allocated\<close> says whether the locked memory could be had.\<close>

definition new_secure :: "nat \<Rightarrow> bool \<Rightarrow> secure_model" where
  "new_secure capacity allocated = \<lparr>sm_buf = (if allocated then replicate capacity 0 else []), sm_len = 0\<rparr>"

section \<open>Edits\<close>

datatype edit = Insert bytes | Backspace | Delete | MoveLeft bool bool | MoveRight bool bool
  | MoveHome bool | MoveEnd bool | SelectAll | DeleteSelection | SetText bytes | Clear

fun apply_edit :: "'m backend \<Rightarrow> edit \<Rightarrow> 'm text_input \<Rightarrow> 'm text_input" where
  "apply_edit B (Insert t) f = insert_text B t f"
| "apply_edit B Backspace f = backspace B f"
| "apply_edit B Delete f = del_char B f"
| "apply_edit B (MoveLeft w e) f = move_left B w e f"
| "apply_edit B (MoveRight w e) f = move_right B w e f"
| "apply_edit B (MoveHome e) f = move_home B e f"
| "apply_edit B (MoveEnd e) f = move_end B e f"
| "apply_edit B SelectAll f = select_everything B f"
| "apply_edit B DeleteSelection f = delete_selection B f"
| "apply_edit B (SetText t) f = set_text B t f"
| "apply_edit B Clear f = clear_field B f"

definition apply_edits :: "'m backend \<Rightarrow> edit list \<Rightarrow> 'm text_input \<Rightarrow> 'm text_input" where
  "apply_edits B es f = foldl (\<lambda>f e. apply_edit B e f) f es"

end
