(* ===== verification/Text_Field_Proofs.thy ===== *)
theory Text_Field_Proofs
  imports Text_Field
begin

text \<open>
  What a text field keeps: its bytes are the UTF-8 encoding of printable Unicode scalar values, the caret and
  the other end of the selection stand between characters, and a password field leaves no old byte behind.
  The facts are proved once for any storage that obeys the locale \<open>text_storage\<close>.
\<close>

section \<open>UTF-8 as the Unicode standard defines it\<close>

definition scalar_value :: "nat \<Rightarrow> bool" where
  "scalar_value c \<longleftrightarrow> c < 0xD800 \<or> 0xE000 \<le> c \<and> c < 0x110000"

definition printable :: "nat \<Rightarrow> bool" where
  "printable c \<longleftrightarrow> scalar_value c \<and> 0x20 \<le> c \<and> c \<noteq> 0x7F"

definition utf8_encode :: "nat \<Rightarrow> bytes" where
  "utf8_encode c = map of_nat
     (if c < 0x80 then [c]
      else if c < 0x800 then [0xC0 + c div 64, 0x80 + c mod 64]
      else if c < 0x10000 then [0xE0 + c div 4096, 0x80 + c div 64 mod 64, 0x80 + c mod 64]
      else [0xF0 + c div 262144, 0x80 + c div 4096 mod 64, 0x80 + c div 64 mod 64, 0x80 + c mod 64])"

definition utf8_text :: "bytes \<Rightarrow> bool" where
  "utf8_text bs \<longleftrightarrow> (\<exists>cs. list_all printable cs \<and> bs = concat (map utf8_encode cs))"

definition at_boundary :: "bytes \<Rightarrow> nat \<Rightarrow> bool" where
  "at_boundary buf p \<longleftrightarrow> p \<le> length buf \<and> utf8_text (take p buf) \<and> utf8_text (drop p buf)"

subsection \<open>The checks of the code accept exactly the encodings\<close>

lemma continuation_iff: "is_continuation b \<longleftrightarrow> 0x80 \<le> unat b \<and> unat b < 0xC0"
proof -
  have "is_continuation b \<longleftrightarrow> unat b div 64 = 2"
  proof -
    have "(b AND 0xC0 = 0x80) \<longleftrightarrow> drop_bit 6 b = 2"
    proof -
      have "(b AND 0xC0 = 0x80) \<longleftrightarrow> (\<forall>n < 8. bit (b AND 0xC0) n = bit (0x80 :: byte) n)"
        by (auto simp: bit_eq_iff)
      also have "\<dots> \<longleftrightarrow> (\<forall>n < 8. bit (drop_bit 6 b) n = bit (2 :: byte) n)"
        by (simp add: All_less_Suc numeral_eq_Suc bit_simps) (auto dest: bit_imp_le_length)
      also have "\<dots> \<longleftrightarrow> drop_bit 6 b = 2"
        by (auto simp: bit_eq_iff)
      finally show ?thesis .
    qed
    also have "\<dots> \<longleftrightarrow> unat b div 64 = 2"
      by (simp add: drop_bit_eq_div word_unat_eq_iff unat_div)
    finally show ?thesis unfolding is_continuation_def .
  qed
  then show ?thesis by auto
qed

lemma byte_unat: "n < 256 \<Longrightarrow> unat (of_nat n :: byte) = n"
  by (simp add: unat_of_nat_small)

lemma byte_less: "unat (b :: byte) < 256"
  using unsigned_less[of b] by simp

lemmas byte_compare = word_less_nat_alt word_le_nat_alt continuation_iff word_unat_eq_iff


lemma scalar_cases:
  assumes "scalar_value c"
  obtains "c < 0x80" | "0x80 \<le> c" "c < 0x800" | "0x800 \<le> c" "c < 0x10000" "c < 0xD800 \<or> 0xE000 \<le> c"
    | "0x10000 \<le> c" "c < 0x110000"
  using assms unfolding scalar_value_def by linarith

lemma length_encode: "length (utf8_encode c) = (if c < 0x80 then 1 else if c < 0x800 then 2 else if c < 0x10000 then 3 else 4)"
  by (simp add: utf8_encode_def)

lemma base64_digits:
  "(c :: nat) div 4096 * 4096 + c div 64 mod 64 * 64 + c mod 64 = c"
  "c div 262144 * 262144 + c div 4096 mod 64 * 4096 + c div 64 mod 64 * 64 + c mod 64 = c"
proof -
  have "c div 4096 = c div 64 div 64" "c div 262144 = c div 4096 div 64"
    by (simp_all add: div_mult2_eq[symmetric])
  then show "c div 4096 * 4096 + c div 64 mod 64 * 64 + c mod 64 = c"
    and "c div 262144 * 262144 + c div 4096 mod 64 * 4096 + c div 64 mod 64 * 64 + c mod 64 = c"
    using div_mult_mod_eq[of c 64] div_mult_mod_eq[of "c div 64" 64] div_mult_mod_eq[of "c div 4096" 64] by linarith+
qed

lemma base64_join:
  "w < 64 \<Longrightarrow> (u * 64 + w) div 64 = (u :: nat)" "w < 64 \<Longrightarrow> (u * 64 + w) mod 64 = (w :: nat)"
  by simp_all

lemma sequence_length_iff:
  "sequence_length b = 1 \<longleftrightarrow> unat b < 0x80"
  "sequence_length b = 2 \<longleftrightarrow> 0xC2 \<le> unat b \<and> unat b \<le> 0xDF"
  "sequence_length b = 3 \<longleftrightarrow> 0xE0 \<le> unat b \<and> unat b \<le> 0xEF"
  "sequence_length b = 4 \<longleftrightarrow> 0xF0 \<le> unat b \<and> unat b \<le> 0xF4"
  by (auto simp: sequence_length_def byte_compare)

lemma sequence_length_range: "sequence_length b \<in> {0, 1, 2, 3, 4}"
  by (simp add: sequence_length_def)

lemma accept_1: "sequence_length b = 1 \<Longrightarrow> acceptable_at (b # p) 0 = (if 0x20 \<le> unat b \<and> unat b \<noteq> 0x7F then 1 else 0)"
  by (auto simp: acceptable_at_def sequence_is_valid_def byte_compare)

lemma accept_2:
  "sequence_length b = 2 \<Longrightarrow> acceptable_at (b # p) 0 =
     (case p of x # _ \<Rightarrow> if is_continuation x then 2 else 0 | [] \<Rightarrow> 0)"
  using sequence_length_iff(2)[of b]
  by (auto simp: acceptable_at_def sequence_is_valid_def Let_def split: list.splits)

lemma accept_3:
  assumes l: "sequence_length b = 3"
  shows "acceptable_at (b # p) 0 =
     (case p of x # y # _ \<Rightarrow> if is_continuation x \<and> is_continuation y \<and> (unat b = 0xE0 \<longrightarrow> 0xA0 \<le> unat x) \<and>
        (unat b = 0xED \<longrightarrow> unat x < 0xA0) then 3 else 0 | _ \<Rightarrow> 0)"
proof -
  have "unat b \<le> 0xEF" using l by (simp add: sequence_length_iff)
  then have ne: "unat b \<noteq> 0xF0" "unat b \<noteq> 0xF4" by auto
  show ?thesis
  proof (cases "\<exists>x y q. p = x # y # q")
    case True
    then obtain x y q where p: "p = x # y # q" by blast
    show ?thesis
      by (simp add: p acceptable_at_def sequence_is_valid_def Let_def l ne word_unat_eq_iff[of b] word_less_nat_alt word_le_nat_alt not_less)
  next
    case False
    then have "length p < 2" by (cases p; cases "tl p") auto
    then show ?thesis using False
      by (auto simp: acceptable_at_def sequence_is_valid_def l split: list.splits)
  qed
qed

lemma accept_4:
  assumes l: "sequence_length b = 4"
  shows "acceptable_at (b # p) 0 =
     (case p of x # y # z # _ \<Rightarrow> if is_continuation x \<and> is_continuation y \<and> is_continuation z \<and>
        (unat b = 0xF0 \<longrightarrow> 0x90 \<le> unat x) \<and> (unat b = 0xF4 \<longrightarrow> unat x < 0x90) then 4 else 0 | _ \<Rightarrow> 0)"
proof -
  have "0xF0 \<le> unat b" using l by (simp add: sequence_length_iff)
  then have ne: "unat b \<noteq> 0xE0" "unat b \<noteq> 0xED" by auto
  show ?thesis
  proof (cases "\<exists>x y z q. p = x # y # z # q")
    case True
    then obtain x y z q where p: "p = x # y # z # q" by blast
    show ?thesis
      by (simp add: p acceptable_at_def sequence_is_valid_def Let_def l ne word_unat_eq_iff[of b] word_less_nat_alt word_le_nat_alt not_less)
  next
    case False
    then have "length p < 3" by (cases p; cases "tl p"; cases "tl (tl p)") auto
    then show ?thesis using False
      by (auto simp: acceptable_at_def sequence_is_valid_def l split: list.splits)
  qed
qed

lemma encode_accepted:
  assumes "printable c"
  shows "acceptable_at (utf8_encode c @ rest) 0 = length (utf8_encode c)"
proof -
  have s: "scalar_value c" and p: "0x20 \<le> c" "c \<noteq> 0x7F" using assms by (auto simp: printable_def)
  show ?thesis
    using s
  proof (cases rule: scalar_cases)
    case 1
    then show ?thesis using p
      by (simp add: utf8_encode_def accept_1 sequence_length_iff byte_unat del: of_nat_add One_nat_def)
  next
    case 2
    then have "c div 64 < 32" "2 \<le> c div 64" "c mod 64 < 64" by auto
    with 2 show ?thesis
      by (simp add: utf8_encode_def accept_2 sequence_length_iff byte_unat continuation_iff del: of_nat_add)
  next
    case 3
    then have d: "c div 4096 < 16" "c div 64 mod 64 < 64" "c mod 64 < 64" by auto
    have e: "c div 4096 = 0 \<Longrightarrow> 32 \<le> c div 64 mod 64" "c div 4096 = 13 \<Longrightarrow> c div 64 mod 64 < 32"
      using 3 d base64_digits(1)[of c] by linarith+
    from 3 d e show ?thesis
      by (simp add: utf8_encode_def accept_3 sequence_length_iff byte_unat continuation_iff del: of_nat_add)
  next
    case 4
    then have d: "c div 262144 < 5" "c div 4096 mod 64 < 64" "c div 64 mod 64 < 64" "c mod 64 < 64" by auto
    have e: "c div 262144 = 0 \<Longrightarrow> 16 \<le> c div 4096 mod 64" "c div 262144 = 4 \<Longrightarrow> c div 4096 mod 64 < 16"
      using 4 d base64_digits(2)[of c] by linarith+
    from 4 d e show ?thesis
      by (simp add: utf8_encode_def accept_4 sequence_length_iff byte_unat continuation_iff del: of_nat_add)
  qed
qed

lemma of_nat_unat_byte: "n = unat b \<Longrightarrow> of_nat n = (b :: byte)"
  by simp

lemma accepted_decodes:
  assumes "acceptable_at (b # p) 0 = n" "n \<noteq> 0"
  shows "\<exists>c. printable c \<and> take n (b # p) = utf8_encode c"
proof -
  have "sequence_length b \<in> {1, 2, 3, 4}"
    using assms sequence_length_range[of b] by (auto simp: acceptable_at_def sequence_is_valid_def Let_def split: if_splits)
  then consider "sequence_length b = 1" | "sequence_length b = 2" | "sequence_length b = 3" | "sequence_length b = 4" by blast
  then show ?thesis
  proof cases
    case 1
    have "unat b < 0x80" using 1 unfolding sequence_length_iff .
    moreover have "n = 1" "0x20 \<le> unat b" "unat b \<noteq> 0x7F"
      using assms 1 by (auto simp: accept_1 split: if_splits)
    ultimately have b: "unat b < 0x80" "n = 1" "0x20 \<le> unat b" "unat b \<noteq> 0x7F" by blast+
    from b have "printable (unat b) \<and> take n (b # p) = utf8_encode (unat b)"
      by (simp add: printable_def scalar_value_def utf8_encode_def)
    then show ?thesis by blast
  next
    case 2
    then obtain x q where p: "p = x # q" "is_continuation x" and n: "n = 2"
      using assms by (auto simp: accept_2 split: list.splits if_splits)
    define u v where "u = unat b - 0xC0" and "v = unat x - 0x80"
    have b: "unat b = 0xC0 + u" "2 \<le> u" "u < 32" and x: "unat x = 0x80 + v" "v < 64"
      using 2 p by (auto simp: u_def v_def sequence_length_iff continuation_iff)
    have "utf8_encode (u * 64 + v) = [b, x]"
      using b x by (simp add: utf8_encode_def of_nat_unat_byte del: of_nat_add)
    moreover have "printable (u * 64 + v)" using b x by (simp add: printable_def scalar_value_def)
    ultimately show ?thesis using p n by (intro exI[of _ "u * 64 + v"]) simp
  next
    case 3
    then obtain x y q where p: "p = x # y # q" "is_continuation x" "is_continuation y"
      and lim: "unat b = 0xE0 \<longrightarrow> 0xA0 \<le> unat x" "unat b = 0xED \<longrightarrow> unat x < 0xA0" and n: "n = 3"
      using assms by (auto simp: accept_3 split: list.splits if_splits)
    define u v w where "u = unat b - 0xE0" and "v = unat x - 0x80" and "w = unat y - 0x80"
    have b: "unat b = 0xE0 + u" "u < 16" and x: "unat x = 0x80 + v" "v < 64" and y: "unat y = 0x80 + w" "w < 64"
      using 3 p by (auto simp: u_def v_def w_def sequence_length_iff continuation_iff)
    define c where "c = (u * 64 + v) * 64 + w"
    have d1: "c div 64 = u * 64 + v" "c mod 64 = w"
      using base64_join[OF y(2), of "u * 64 + v"] unfolding c_def .
    have d: "c div 4096 = u" "c div 64 = u * 64 + v" "c mod 64 = w"
      using d1 base64_join(1)[OF x(2), of u] by (simp_all add: div_mult2_eq[of c 64 64, simplified])
    have lim': "u = 0 \<longrightarrow> 32 \<le> v" "u = 13 \<longrightarrow> v < 32" using lim b x by auto
    have c: "c = u * 4096 + v * 64 + w" by (simp add: c_def)
    have "0x800 \<le> c" using lim' c by (cases "u = 0") linarith+
    moreover have "c < 0x10000" using b x y c by linarith
    moreover have "c < 0xD800 \<or> 0xE000 \<le> c"
    proof (cases "u = 13")
      case False
      then have "u \<le> 12 \<or> 14 \<le> u" by linarith
      then show ?thesis using x y c by linarith
    qed (use lim' y c in linarith)
    ultimately have r: "0x800 \<le> c" "c < 0x10000" "c < 0xD800 \<or> 0xE000 \<le> c" by blast+
    have "utf8_encode c = [b, x, y]"
      using b x y r d by (simp add: utf8_encode_def of_nat_unat_byte del: of_nat_add)
    moreover have "printable c" using r by (auto simp: printable_def scalar_value_def)
    ultimately show ?thesis using p n by (intro exI[of _ c]) simp
  next
    case 4
    then obtain x y z q where p: "p = x # y # z # q" "is_continuation x" "is_continuation y" "is_continuation z"
      and lim: "unat b = 0xF0 \<longrightarrow> 0x90 \<le> unat x" "unat b = 0xF4 \<longrightarrow> unat x < 0x90" and n: "n = 4"
      using assms by (auto simp: accept_4 split: list.splits if_splits)
    define u v w t where "u = unat b - 0xF0" and "v = unat x - 0x80" and "w = unat y - 0x80" and "t = unat z - 0x80"
    have b: "unat b = 0xF0 + u" "u < 5" and x: "unat x = 0x80 + v" "v < 64" and y: "unat y = 0x80 + w" "w < 64"
      and z: "unat z = 0x80 + t" "t < 64"
      using 4 p by (auto simp: u_def v_def w_def t_def sequence_length_iff continuation_iff)
    define c where "c = ((u * 64 + v) * 64 + w) * 64 + t"
    have d1: "c div 64 = (u * 64 + v) * 64 + w" "c mod 64 = t"
      using base64_join[OF z(2), of "(u * 64 + v) * 64 + w"] unfolding c_def .
    have d2: "c div 4096 = u * 64 + v"
      using base64_join(1)[OF y(2), of "u * 64 + v"] unfolding d1(1)[symmetric] by (simp add: div_mult2_eq[of c 64 64, simplified])
    have d: "c div 262144 = u" "c div 4096 mod 64 = v" "c div 64 mod 64 = w" "c mod 64 = t"
      by (simp_all only: d1 d2 div_mult2_eq[of c 4096 64, simplified] base64_join[OF x(2)] base64_join(2)[OF y(2)])
    have lim': "u = 0 \<longrightarrow> 16 \<le> v" "u = 4 \<longrightarrow> v < 16" using lim b x by auto
    have c: "c = u * 262144 + v * 4096 + w * 64 + t" by (simp add: c_def)
    have "0x10000 \<le> c" using lim' c by (cases "u = 0") linarith+
    moreover have "c < 0x110000" using lim' b x y z c by (cases "u = 4") linarith+
    ultimately have r: "0x10000 \<le> c" "c < 0x110000" by blast+
    have "utf8_encode c = [b, x, y, z]"
      using b x y z r d by (simp add: utf8_encode_def of_nat_unat_byte del: of_nat_add)
    moreover have "printable c" using r by (auto simp: printable_def scalar_value_def)
    ultimately show ?thesis using p n by (intro exI[of _ c]) simp
  qed
qed

subsection \<open>Texts and boundaries\<close>

definition utf8_char :: "bytes \<Rightarrow> bool" where
  "utf8_char ch \<longleftrightarrow> (\<exists>c. printable c \<and> ch = utf8_encode c)"

lemma utf8_text_iff: "utf8_text bs \<longleftrightarrow> (\<exists>chs. list_all utf8_char chs \<and> bs = concat chs)"
proof
  assume "utf8_text bs"
  then obtain cs where "list_all printable cs" "bs = concat (map utf8_encode cs)" by (auto simp: utf8_text_def)
  then show "\<exists>chs. list_all utf8_char chs \<and> bs = concat chs"
    by (intro exI[of _ "map utf8_encode cs"]) (auto simp: list_all_iff utf8_char_def)
next
  assume "\<exists>chs. list_all utf8_char chs \<and> bs = concat chs"
  then obtain chs where c: "list_all utf8_char chs" "bs = concat chs" by blast
  from c(1) have "\<exists>cs. list_all printable cs \<and> chs = map utf8_encode cs"
  proof (induction chs)
    case (Cons ch chs)
    then obtain c cs where "printable c" "ch = utf8_encode c" "list_all printable cs" "chs = map utf8_encode cs"
      by (auto simp: utf8_char_def)
    then show ?case by (intro exI[of _ "c # cs"]) simp
  qed simp
  then show "utf8_text bs" using c(2) by (auto simp: utf8_text_def)
qed

lemma utf8_text_Nil [simp]: "utf8_text []"
  by (auto simp: utf8_text_iff intro: exI[of _ "[]"])

lemma utf8_text_append: "utf8_text a \<Longrightarrow> utf8_text b \<Longrightarrow> utf8_text (a @ b)"
  unfolding utf8_text_iff
proof (elim exE conjE)
  fix x y assume "list_all utf8_char x" "a = concat x" "list_all utf8_char y" "b = concat y"
  then show "\<exists>chs. list_all utf8_char chs \<and> a @ b = concat chs" by (intro exI[of _ "x @ y"]) simp
qed

lemma utf8_char_text: "utf8_char ch \<Longrightarrow> utf8_text ch"
  unfolding utf8_text_iff by (rule exI[of _ "[ch]"]) simp

lemma utf8_text_induct [consumes 1, case_names Nil Char]:
  assumes "utf8_text bs" "P []" "\<And>ch rest. utf8_char ch \<Longrightarrow> utf8_text rest \<Longrightarrow> P rest \<Longrightarrow> P (ch @ rest)"
  shows "P bs"
proof -
  obtain chs where "list_all utf8_char chs" "bs = concat chs" using assms(1) by (auto simp: utf8_text_iff)
  then show ?thesis
  proof (induction chs arbitrary: bs)
    case (Cons ch chs)
    then show ?case using assms(3)[of ch "concat chs"] by (auto simp: utf8_text_iff)
  qed (simp add: assms(2))
qed

lemma utf8_char_shape:
  assumes "utf8_char ch"
  obtains b cs where "ch = b # cs" "\<not> is_continuation b" "list_all is_continuation cs"
proof -
  obtain c where c: "printable c" "ch = utf8_encode c" using assms by (auto simp: utf8_char_def)
  have m: "is_continuation (of_nat (0x80 + n mod 64))" for n
    by (simp add: continuation_iff byte_unat del: of_nat_add)
  have "scalar_value c" using c(1) by (simp add: printable_def)
  then have "\<exists>b cs. ch = b # cs \<and> \<not> is_continuation b \<and> list_all is_continuation cs"
  proof (cases rule: scalar_cases)
    case 1 then show ?thesis using c(2) by (simp add: utf8_encode_def continuation_iff byte_unat)
  next
    case 2 then show ?thesis using c(2) m by (simp add: utf8_encode_def continuation_iff byte_unat del: of_nat_add)
  next
    case 3 then show ?thesis using c(2) m by (simp add: utf8_encode_def continuation_iff byte_unat del: of_nat_add)
  next
    case 4
    then have "0xF0 + c div 262144 < 256" by simp
    with 4 show ?thesis using c(2) m by (simp add: utf8_encode_def continuation_iff byte_unat del: of_nat_add)
  qed
  then show thesis using that by blast
qed

lemma boundary_0 [simp]: "at_boundary buf 0 \<longleftrightarrow> utf8_text buf"
  by (simp add: at_boundary_def)

lemma boundary_end [simp]: "at_boundary buf (length buf) \<longleftrightarrow> utf8_text buf"
  by (simp add: at_boundary_def)

lemma boundary_le: "at_boundary buf p \<Longrightarrow> p \<le> length buf"
  by (simp add: at_boundary_def)

lemma boundary_append_left: "utf8_text a \<Longrightarrow> at_boundary b p \<Longrightarrow> at_boundary (a @ b) (length a + p)"
  by (auto simp: at_boundary_def intro: utf8_text_append)

lemma lead_boundary:
  assumes "utf8_text buf" "p < length buf" "\<not> is_continuation (buf ! p)"
  shows "at_boundary buf p"
  using assms
proof (induction buf arbitrary: p rule: utf8_text_induct)
  case (Char ch rest)
  obtain b cs where ch: "ch = b # cs" "list_all is_continuation cs" using utf8_char_shape[OF Char(1)] by blast
  show ?case
  proof (cases "p < length ch")
    case True
    then have "p = 0" using Char(5) ch by (cases p) (auto simp: list_all_length nth_append)
    then show ?thesis using Char(1,2) by (simp add: utf8_text_append utf8_char_text)
  next
    case False
    then have "at_boundary rest (p - length ch)" using Char(3)[of "p - length ch"] Char(4,5) by (auto simp: nth_append)
    then show ?thesis using boundary_append_left[OF utf8_char_text[OF Char(1)], of rest "p - length ch"] False by simp
  qed
qed simp

lemma utf8_text_hd: "utf8_text bs \<Longrightarrow> bs \<noteq> [] \<Longrightarrow> \<not> is_continuation (hd bs)"
  by (induction bs rule: utf8_text_induct) (auto elim!: utf8_char_shape)

lemma boundary_lead: "at_boundary buf p \<Longrightarrow> p < length buf \<Longrightarrow> \<not> is_continuation (buf ! p)"
  using utf8_text_hd[of "drop p buf"] by (simp add: at_boundary_def hd_drop_conv_nth)

subsection \<open>What the walks return\<close>

lemma prev_from_boundary: "utf8_text buf \<Longrightarrow> i < length buf \<Longrightarrow> at_boundary buf (prev_from buf i)"
  by (induction buf i rule: prev_from.induct) (auto intro: lead_boundary)

lemma prev_boundary: "utf8_text buf \<Longrightarrow> p \<le> length buf \<Longrightarrow> at_boundary buf (utf8_prev_boundary buf p)"
  by (cases "p = 0") (auto simp: utf8_prev_boundary_def intro!: prev_from_boundary)

lemma next_from_boundary: "utf8_text buf \<Longrightarrow> i \<le> length buf \<Longrightarrow> at_boundary buf (next_from buf i)"
proof (induction buf i rule: next_from.induct)
  case (1 buf i)
  show ?case
  proof (cases "i < length buf \<and> is_continuation (buf ! i)")
    case True
    then show ?thesis using 1 by (simp add: next_from.simps[of buf i])
  next
    case False
    then have "i = length buf \<or> i < length buf \<and> \<not> is_continuation (buf ! i)" using 1(3) by auto
    then show ?thesis using 1(2) False by (auto simp: next_from.simps[of buf i] intro: lead_boundary)
  qed
qed

lemma next_boundary: "utf8_text buf \<Longrightarrow> at_boundary buf (utf8_next_boundary buf p)"
  by (simp add: utf8_next_boundary_def next_from_boundary)

lemma left_while_boundary: "utf8_text buf \<Longrightarrow> at_boundary buf i \<Longrightarrow> at_boundary buf (left_while cls buf i)"
proof (induction cls buf i rule: left_while.induct)
  case (1 cls buf i)
  then show ?case
    by (subst left_while.simps) (simp add: prev_boundary boundary_le)
qed

lemma right_while_boundary: "utf8_text buf \<Longrightarrow> at_boundary buf i \<Longrightarrow> at_boundary buf (right_while cls buf i)"
proof (induction cls buf i rule: right_while.induct)
  case (1 cls buf i)
  then show ?case by (subst right_while.simps) (simp add: next_boundary)
qed

lemma word_left_boundary: "utf8_text buf \<Longrightarrow> at_boundary buf p \<Longrightarrow> at_boundary buf (word_boundary_left buf p)"
  by (simp add: word_boundary_left_def Let_def left_while_boundary boundary_le min_absorb1)

lemma word_right_boundary: "utf8_text buf \<Longrightarrow> at_boundary buf p \<Longrightarrow> at_boundary buf (word_boundary_right buf p)"
  by (simp add: word_boundary_right_def Let_def right_while_boundary boundary_le min_absorb1)

lemma acceptable_drop: "i < length t \<Longrightarrow> acceptable_at t i = acceptable_at (drop i t) 0"
  by (simp add: acceptable_at_def)

lemma acceptable_le: "acceptable_at t i \<le> length t - i"
  by (auto simp: acceptable_at_def sequence_is_valid_def Let_def)

lemma acceptable_char:
  assumes "i < length t" "acceptable_at t i \<noteq> 0"
  shows "utf8_char (take (acceptable_at t i) (drop i t))"
proof -
  obtain b p where d: "drop i t = b # p" using assms(1) by (cases "drop i t") auto
  have "acceptable_at (b # p) 0 = acceptable_at t i" using acceptable_drop[OF assms(1)] d by simp
  from accepted_decodes[OF this assms(2)] show ?thesis by (auto simp: utf8_char_def d)
qed

lemma run_from_text:
  "i \<le> length t \<Longrightarrow> i \<le> run_from t i \<and> run_from t i \<le> length t \<and> utf8_text (take (run_from t i - i) (drop i t))"
proof (induction t i rule: run_from.induct)
  case (1 t i)
  show ?case
  proof (cases "i < length t \<and> acceptable_at t i \<noteq> 0")
    case True
    define n where "n = acceptable_at t i"
    have n: "n \<noteq> 0" "i + n \<le> length t" using True acceptable_le[of t i] by (auto simp: n_def)
    have IH: "i + n \<le> run_from t (i + n)" "run_from t (i + n) \<le> length t"
      "utf8_text (take (run_from t (i + n) - (i + n)) (drop (i + n) t))"
      using 1(1) True n by (auto simp: n_def)
    have r: "run_from t i = run_from t (i + n)" using True by (simp add: run_from.simps[of t i] n_def)
    have "take (run_from t (i + n) - i) (drop i t) =
        take n (drop i t) @ take (run_from t (i + n) - (i + n)) (drop (i + n) t)"
      using take_add[of n "run_from t (i + n) - (i + n)" "drop i t"] IH(1) by (simp add: add.commute)
    then show ?thesis
      using IH r acceptable_char[of i t] True by (auto simp: n_def intro: utf8_text_append utf8_char_text)
  next
    case False
    then show ?thesis using 1(2) by (auto simp: run_from.simps[of t i])
  qed
qed

lemma acceptable_run_text: "utf8_text (take (acceptable_input_run t) t)" "acceptable_input_run t \<le> length t"
  using run_from_text[of 0 t] by (simp_all add: acceptable_input_run_def)

lemma back_off_le: "back_off run n \<le> n"
  by (induction run n rule: back_off.induct) auto

lemma back_off_text: "utf8_text run \<Longrightarrow> n < length run \<Longrightarrow> utf8_text (take (back_off run n) run)"
proof (induction run n rule: back_off.induct)
  case (2 run n)
  then show ?case using lead_boundary[of run "Suc n"] by (auto simp: at_boundary_def)
qed simp

section \<open>The field as a text with a caret\<close>

text \<open>The invariant of an ordinary field, which the other backend refines.\<close>

definition text_ok :: "text_model text_input \<Rightarrow> bool" where
  "text_ok f \<longleftrightarrow> (let buf = tm_buf (ti_store f) in
     length buf \<le> tm_cap (ti_store f) \<and> utf8_text buf \<and> at_boundary buf (ti_caret f) \<and> at_boundary buf (ti_anchor f))"

lemma model_simps [simp]:
  "field_bytes text_input_model f = tm_buf (ti_store f)"
  "field_size text_input_model f = length (tm_buf (ti_store f))"
  "be_byte_cap text_input_model m = tm_cap m"
  "be_bytes text_input_model m = tm_buf m"
  "ti_store (apply_splice text_input_model s e ins f) = text_model_splice (ti_store f) s e ins"
  "ti_caret (apply_splice B' s e ins f') = ti_caret f'"
  "ti_anchor (apply_splice B' s e ins f') = ti_anchor f'"
  "tm_buf (text_model_splice m s e ins) = take s (tm_buf m) @ ins @ drop e (tm_buf m)"
  "tm_cap (text_model_splice m s e ins) = tm_cap m"
  "be_clear text_input_model m = m\<lparr>tm_buf := []\<rparr>"
  by (simp_all add: text_input_model_def field_bytes_def field_size_def apply_splice_def text_model_splice_def)

lemma caret_simps [simp]:
  "ti_store (set_caret p f) = ti_store f" "ti_caret (set_caret p f) = p" "ti_anchor (set_caret p f) = p"
  "ti_revision (set_caret p f) = ti_revision f"
  by (simp_all add: set_caret_def)

lemma text_ok_selection:
  assumes "text_ok f"
  shows "at_boundary (tm_buf (ti_store f)) (sel_begin f)" "at_boundary (tm_buf (ti_store f)) (sel_end f)"
    "sel_begin f \<le> sel_end f" "sel_end f \<le> length (tm_buf (ti_store f))"
  using assms by (auto simp: text_ok_def Let_def sel_begin_def sel_end_def min_def max_def dest: boundary_le)

lemma text_ok_splice:
  assumes "text_ok f" "at_boundary (tm_buf (ti_store f)) s" "at_boundary (tm_buf (ti_store f)) e" "s \<le> e"
    and "utf8_text ins" "length (tm_buf (ti_store f)) - (e - s) + length ins \<le> tm_cap (ti_store f)"
  shows "text_ok (set_caret (s + length ins) (apply_splice text_input_model s e ins f))"
  using assms by (auto simp: text_ok_def Let_def at_boundary_def intro!: utf8_text_append)

lemma text_ok_cut:
  assumes "text_ok f" "at_boundary (tm_buf (ti_store f)) s" "at_boundary (tm_buf (ti_store f)) e" "s \<le> e"
  shows "text_ok (set_caret s (apply_splice text_input_model s e [] f))"
proof -
  have "length (tm_buf (ti_store f)) - (e - s) + length ([] :: bytes) \<le> tm_cap (ti_store f)"
    using assms(1) by (auto simp: text_ok_def Let_def)
  from text_ok_splice[OF assms(1-4) utf8_text_Nil this] show ?thesis by simp
qed

lemma text_ok_place:
  assumes "text_ok f" "at_boundary (tm_buf (ti_store f)) p"
  shows "text_ok (place_caret text_input_model p keep f)"
  using assms boundary_le[OF assms(2)] by (auto simp: text_ok_def place_caret_def Let_def min_absorb1)

definition room_for :: "'m backend \<Rightarrow> 'm text_input \<Rightarrow> nat" where
  "room_for B f = be_byte_cap B (ti_store f) - min (be_byte_cap B (ti_store f)) (field_size B f - (sel_end f - sel_begin f))"

definition run_taken :: "bytes \<Rightarrow> nat \<Rightarrow> nat" where
  "run_taken run room = (if min (length run) room < length run then back_off run (min (length run) room) else min (length run) room)"

lemma insert_run_alt:
  "insert_run B run f = (let n = run_taken run (room_for B f) in
     if n = 0 \<and> sel_begin f = sel_end f then f
     else set_caret (sel_begin f + n) (apply_splice B (sel_begin f) (sel_end f) (take n run) f))"
  unfolding insert_run_def room_for_def run_taken_def Let_def ..

lemma run_taken_le: "run_taken run room \<le> length run" "run_taken run room \<le> room"
  using back_off_le[of run "min (length run) room"] by (auto simp: run_taken_def)

lemma run_taken_text: "utf8_text run \<Longrightarrow> utf8_text (take (run_taken run room) run)"
  using back_off_text[of run "min (length run) room"] by (auto simp: run_taken_def min_def)

lemma room_fits:
  assumes "text_ok f" "n \<le> room_for text_input_model f"
  shows "length (tm_buf (ti_store f)) - (sel_end f - sel_begin f) + n \<le> tm_cap (ti_store f)"
proof -
  have "length (tm_buf (ti_store f)) - (sel_end f - sel_begin f) \<le> tm_cap (ti_store f)"
    using assms(1) by (auto simp: text_ok_def Let_def)
  then show ?thesis using assms(2) by (simp add: room_for_def)
qed

lemma text_ok_insert_run:
  assumes "text_ok f" "utf8_text run"
  shows "text_ok (insert_run text_input_model run f)"
proof -
  let ?n = "run_taken run (room_for text_input_model f)"
  have l: "length (take ?n run) = ?n" using run_taken_le(1)[of run] by simp
  have "text_ok (set_caret (sel_begin f + ?n) (apply_splice text_input_model (sel_begin f) (sel_end f) (take ?n run) f))"
    using text_ok_splice[OF assms(1) text_ok_selection(1,2,3)[OF assms(1)]
        run_taken_text[OF assms(2), of "room_for text_input_model f"], unfolded l]
      room_fits[OF assms(1) run_taken_le(2)] by blast
  then show ?thesis using assms(1) unfolding insert_run_alt Let_def by simp
qed

lemma text_ok_insert_from: "text_ok f \<Longrightarrow> text_ok (insert_from text_input_model t i f)"
proof (induction text_input_model t i f rule: insert_from.induct)
  case (1 t i f)
  then show ?case
    by (subst insert_from.simps) (simp add: Let_def text_ok_insert_run acceptable_run_text)
qed

lemma text_ok_clear: "text_ok (clear_field text_input_model f)"
  by (simp add: text_ok_def clear_field_def reset_caret_def)

lemma text_ok_delete_selection: "text_ok f \<Longrightarrow> text_ok (delete_selection text_input_model f)"
  by (simp add: delete_selection_def Let_def text_ok_cut text_ok_selection)

lemma text_okD:
  assumes "text_ok f"
  shows "at_boundary (tm_buf (ti_store f)) (ti_caret f)" "utf8_text (tm_buf (ti_store f))"
    "ti_caret f \<le> length (tm_buf (ti_store f))"
  using assms by (auto simp: text_ok_def Let_def dest: boundary_le)

lemma text_ok_apply: "text_ok f \<Longrightarrow> text_ok (apply_edit text_input_model e f)"
proof (cases e)
  case Backspace
  assume ok: "text_ok f"
  let ?p = "utf8_prev_boundary (tm_buf (ti_store f)) (ti_caret f)"
  have "at_boundary (tm_buf (ti_store f)) ?p" by (rule prev_boundary) (rule text_okD[OF ok])+
  then have "text_ok (set_caret ?p (apply_splice text_input_model ?p (ti_caret f) [] f))" if "ti_caret f \<noteq> 0"
    using text_ok_cut[OF ok _ text_okD(1)[OF ok]] prev_boundary_less[of "ti_caret f"] that by (simp add: less_imp_le)
  then show ?thesis using ok by (simp add: Backspace backspace_def text_ok_delete_selection Let_def)
next
  case Delete
  assume ok: "text_ok f"
  have g: "(apply_splice text_input_model c n [] f)\<lparr>ti_anchor := ti_caret f\<rparr>
      = set_caret (ti_caret f) (apply_splice text_input_model c n [] f)" for c n
    by (simp add: set_caret_def apply_splice_def)
  let ?p = "utf8_next_boundary (tm_buf (ti_store f)) (ti_caret f)"
  have "at_boundary (tm_buf (ti_store f)) ?p" by (rule next_boundary) (rule text_okD[OF ok])
  then have "text_ok (set_caret (ti_caret f) (apply_splice text_input_model (ti_caret f) ?p [] f))"
    if "ti_caret f < length (tm_buf (ti_store f))"
    using text_ok_cut[OF ok text_okD(1)[OF ok]] next_boundary_greater[OF that] by (simp add: less_imp_le)
  then show ?thesis using ok by (simp add: Delete del_char_def text_ok_delete_selection Let_def g)
next
  case (MoveLeft w k)
  assume ok: "text_ok f"
  then show ?thesis
    using text_ok_selection(1)[OF ok]
    by (auto simp: MoveLeft move_left_def intro!: text_ok_place word_left_boundary prev_boundary)
      (auto simp: text_ok_def Let_def dest: boundary_le)
next
  case (MoveRight w k)
  assume ok: "text_ok f"
  then show ?thesis
    using text_ok_selection(2)[OF ok]
    by (auto simp: MoveRight move_right_def intro!: text_ok_place word_right_boundary next_boundary)
      (auto simp: text_ok_def Let_def dest: boundary_le)
next
  case SelectAll
  assume "text_ok f"
  then show ?thesis by (auto simp: SelectAll select_everything_def text_ok_def Let_def)
qed (auto simp: insert_text_def set_text_def move_home_def move_end_def text_ok_insert_from text_ok_clear
    text_ok_delete_selection text_ok_place text_ok_def[of f] Let_def intro!: text_ok_place text_ok_insert_from)

section \<open>What a backend owes the field\<close>

definition as_text :: "'m backend \<Rightarrow> 'm text_input \<Rightarrow> text_model text_input" where
  "as_text B f = \<lparr>ti_store = \<lparr>tm_buf = be_bytes B (ti_store f), tm_cap = be_byte_cap B (ti_store f)\<rparr>,
     ti_caret = ti_caret f, ti_anchor = ti_anchor f, ti_revision = ti_revision f\<rparr>"

lemma as_text_simps [simp]:
  "tm_buf (ti_store (as_text B f)) = field_bytes B f" "tm_cap (ti_store (as_text B f)) = be_byte_cap B (ti_store f)"
  "ti_caret (as_text B f) = ti_caret f" "ti_anchor (as_text B f) = ti_anchor f"
  "sel_begin (as_text B f) = sel_begin f" "sel_end (as_text B f) = sel_end f"
  "has_selection (as_text B f) = has_selection f" "length (field_bytes B f) = field_size B f"
  "room_for text_input_model (as_text B f) = room_for B f"
  by (simp_all add: as_text_def field_bytes_def sel_begin_def sel_end_def has_selection_def field_size_def room_for_def)

lemma as_text_caret [simp]: "as_text B (set_caret p f) = set_caret p (as_text B f)"
  by (simp add: as_text_def set_caret_def)

lemma as_text_place [simp]: "as_text B (place_caret B p keep f) = place_caret text_input_model p keep (as_text B f)"
  by (simp add: place_caret_def Let_def field_bytes_def field_size_def) (simp add: as_text_def)

lemma place_store [simp]: "ti_store (place_caret B p keep f) = ti_store f"
  by (simp add: place_caret_def Let_def)

locale text_storage =
  fixes B :: "'m backend" and ok :: "'m \<Rightarrow> bool"
  assumes splice_law: "\<lbrakk>ok m; s \<le> e; e \<le> length (be_bytes B m);
      length (be_bytes B m) - (e - s) + length ins \<le> be_byte_cap B m\<rbrakk> \<Longrightarrow>
      ok (be_splice B m s e ins) \<and> be_byte_cap B (be_splice B m s e ins) = be_byte_cap B m \<and>
      be_bytes B (be_splice B m s e ins) = take s (be_bytes B m) @ ins @ drop e (be_bytes B m)"
    and clear_law: "ok m \<Longrightarrow> ok (be_clear B m) \<and> be_byte_cap B (be_clear B m) = be_byte_cap B m \<and> be_bytes B (be_clear B m) = []"
begin

definition field_ok :: "'m text_input \<Rightarrow> bool" where
  "field_ok f \<longleftrightarrow> ok (ti_store f) \<and> text_ok (as_text B f)"

lemma sim_splice:
  assumes "field_ok f" "s \<le> e" "e \<le> field_size B f" "field_size B f - (e - s) + length ins \<le> be_byte_cap B (ti_store f)"
  shows "as_text B (apply_splice B s e ins f) = apply_splice text_input_model s e ins (as_text B f)"
    "ok (ti_store (apply_splice B s e ins f))"
  using splice_law[of "ti_store f" s e ins] assms
  by (simp_all add: field_ok_def field_size_def field_bytes_def as_text_def apply_splice_def text_model_splice_def
      text_input_model_def)

lemma sim_cut:
  assumes "field_ok f" "s \<le> e" "e \<le> field_size B f"
  shows "as_text B (apply_splice B s e [] f) = apply_splice text_input_model s e [] (as_text B f)"
    "ok (ti_store (apply_splice B s e [] f))"
proof -
  have "field_size B f \<le> be_byte_cap B (ti_store f)"
    using assms(1) by (simp add: field_ok_def text_ok_def Let_def)
  then show "as_text B (apply_splice B s e [] f) = apply_splice text_input_model s e [] (as_text B f)"
    and "ok (ti_store (apply_splice B s e [] f))"
    using sim_splice[OF assms, of "[]"] by simp_all
qed

lemma selection_bounds:
  assumes "field_ok f"
  shows "sel_begin f \<le> sel_end f" "sel_end f \<le> field_size B f" "ti_caret f \<le> field_size B f"
  using assms text_ok_selection(3,4)[of "as_text B f"] text_okD(3)[of "as_text B f"] by (simp_all add: field_ok_def)

lemma sim_insert_run:
  assumes "field_ok f" "utf8_text run"
  shows "field_ok (insert_run B run f) \<and> as_text B (insert_run B run f) = insert_run text_input_model run (as_text B f)"
proof -
  let ?n = "run_taken run (room_for B f)"
  have l: "length (take ?n run) = ?n" using run_taken_le(1)[of run] by simp
  have "field_size B f - (sel_end f - sel_begin f) + length (take ?n run) \<le> be_byte_cap B (ti_store f)"
    using room_fits[of "as_text B f", OF _ run_taken_le(2)] assms(1) unfolding l by (simp add: field_ok_def)
  note sim = sim_splice[OF assms(1) selection_bounds(1,2)[OF assms(1)] this]
  have "as_text B (insert_run B run f) = insert_run text_input_model run (as_text B f)"
    unfolding insert_run_alt Let_def using sim(1) by simp
  moreover have "ok (ti_store (insert_run B run f))"
    unfolding insert_run_alt Let_def using sim(2) assms(1) by (simp add: field_ok_def)
  ultimately show ?thesis
    using text_ok_insert_run[of "as_text B f" run] assms by (simp add: field_ok_def)
qed

lemma sim_insert_from:
  "field_ok f \<Longrightarrow> field_ok (insert_from B t i f) \<and>
     as_text B (insert_from B t i f) = insert_from text_input_model t i (as_text B f)"
proof (induction "length t - i" arbitrary: i f rule: less_induct)
  case (less i f)
  let ?run = "acceptable_input_run (drop i t)"
  have run: "utf8_text (take ?run (drop i t))" by (rule acceptable_run_text)
  show ?case
  proof (cases "i < length t \<and> ?run \<noteq> 0")
    case True
    then have "length t - skip_unacceptable t (i + ?run) < length t - i"
      using skip_ge[of "i + ?run" t] by linarith
    with True show ?thesis
      using less sim_insert_run[OF less(2) run] by (simp add: insert_from.simps[of _ t i] Let_def)
  next
    case False
    then show ?thesis using less(2) by (auto simp: insert_from.simps[of _ t i] Let_def)
  qed
qed

lemma sim_clear: "field_ok f \<Longrightarrow> field_ok (clear_field B f) \<and> as_text B (clear_field B f) = clear_field text_input_model (as_text B f)"
  using clear_law[of "ti_store f"] text_ok_clear[of "as_text B f"]
  by (simp add: field_ok_def) (simp add: clear_field_def reset_caret_def as_text_def text_input_model_def)

lemma sim_delete_selection:
  assumes "field_ok f"
  shows "ok (ti_store (delete_selection B f)) \<and> as_text B (delete_selection B f) = delete_selection text_input_model (as_text B f)"
  using sim_cut[OF assms selection_bounds(1,2)[OF assms]] assms by (simp add: delete_selection_def Let_def field_ok_def)

text \<open>Every edit of a backend is the edit of the ordinary field.\<close>

lemma sim_edit:
  assumes ok: "field_ok f"
  shows "field_ok (apply_edit B e f) \<and> as_text B (apply_edit B e f) = apply_edit text_input_model e (as_text B f)"
proof -
  have "ok (ti_store (apply_edit B e f)) \<and> as_text B (apply_edit B e f) = apply_edit text_input_model e (as_text B f)"
  proof (cases e)
    case Backspace
    let ?p = "utf8_prev_boundary (field_bytes B f) (ti_caret f)"
    have "?p \<le> ti_caret f" using prev_boundary_less[of "ti_caret f" "field_bytes B f"] by (cases "ti_caret f = 0") (auto simp: utf8_prev_boundary_def)
    from sim_cut[OF ok this selection_bounds(3)[OF ok]] show ?thesis
      using sim_delete_selection[OF ok] ok by (simp add: Backspace backspace_def Let_def field_ok_def)
  next
    case Delete
    let ?p = "utf8_next_boundary (field_bytes B f) (ti_caret f)"
    have p: "?p \<le> field_size B f" using next_boundary_le[of "field_bytes B f"] by simp
    have "ti_caret f \<le> ?p" using next_boundary_greater[of "ti_caret f" "field_bytes B f"] selection_bounds(3)[OF ok]
      by (cases "ti_caret f < field_size B f") (simp_all add: utf8_next_boundary_def)
    note sim = sim_cut[OF ok this p]
    have a: "as_text B (g\<lparr>ti_anchor := x\<rparr>) = (as_text B g)\<lparr>ti_anchor := x\<rparr>" for g x by (simp add: as_text_def)
    from sim show ?thesis
      using sim_delete_selection[OF ok] ok by (simp add: Delete del_char_def Let_def field_ok_def a)
  next
    case SelectAll
    then show ?thesis using ok by (simp add: select_everything_def field_ok_def) (simp add: as_text_def field_size_def field_bytes_def)
  qed (use ok sim_insert_from[OF ok] sim_clear[OF ok] sim_insert_from[of "clear_field B f"] sim_delete_selection[OF ok] in
      \<open>simp_all add: field_ok_def insert_text_def set_text_def move_left_def move_right_def move_home_def move_end_def text_ok_clear\<close>)
  moreover have "text_ok (apply_edit text_input_model e (as_text B f))"
    using text_ok_apply ok by (simp add: field_ok_def)
  ultimately show ?thesis by (simp add: field_ok_def)
qed

lemma sim_edits:
  "field_ok f \<Longrightarrow> field_ok (apply_edits B es f) \<and> as_text B (apply_edits B es f) = apply_edits text_input_model es (as_text B f)"
  by (induction es arbitrary: f) (simp_all add: apply_edits_def sim_edit)

lemma new_field_ok: "ok m \<Longrightarrow> be_bytes B m = [] \<Longrightarrow> field_ok (new_field m)"
  by (simp add: field_ok_def as_text_def new_field_def text_ok_def)

end

interpretation plain: text_storage text_input_model "\<lambda>m. True"
  by unfold_locales (auto simp: text_input_model_def text_model_splice_def)

subsection \<open>The locked buffer\<close>

text \<open>Past its text, the buffer of a password field is zero.\<close>

definition wiped :: "secure_model \<Rightarrow> bool" where
  "wiped m \<longleftrightarrow> sm_len m \<le> length (sm_buf m) \<and> drop (sm_len m) (sm_buf m) = replicate (length (sm_buf m) - sm_len m) 0"

lemma store_at_nil [simp]: "store_at off [] m = m"
  by (simp add: store_at_def)

lemma length_store_at [simp]: "off + length xs \<le> length m \<Longrightarrow> length (store_at off xs m) = length m"
  by (simp add: store_at_def)

lemma store_at_adjacent:
  "off + length xs + length ys \<le> length m \<Longrightarrow> store_at off xs (store_at (off + length xs) ys m) = store_at off (xs @ ys) m"
  by (simp add: store_at_def min_def add.assoc)

lemma secure_splice_law:
  assumes w: "wiped m" and "s \<le> e" "e \<le> sm_len m" "sm_len m - (e - s) + length ins \<le> length (sm_buf m)"
  shows "wiped (secure_splice m s e ins) \<and> length (sm_buf (secure_splice m s e ins)) = length (sm_buf m) \<and>
     take (sm_len (secure_splice m s e ins)) (sm_buf (secure_splice m s e ins)) =
       take s (take (sm_len m) (sm_buf m)) @ ins @ drop e (take (sm_len m) (sm_buf m))"
proof (cases "sm_buf m = []")
  case True
  then show ?thesis using assms by (simp add: secure_splice_def wiped_def)
next
  case False
  define n where "n = sm_len m"
  define t where "t = drop e (take n (sm_buf m))"
  define k where "k = n - (e - s) + length ins"
  define q where "q = store_at s (ins @ t) (sm_buf m)"
  have n: "n \<le> length (sm_buf m)" "drop n (sm_buf m) = replicate (length (sm_buf m) - n) 0" using w by (auto simp: wiped_def n_def)
  have t: "t = take (n - e) (drop e (sm_buf m))" "length t = n - e" using n(1) assms(3) by (auto simp: t_def n_def take_drop)
  have k: "k = s + length ins + length t" "k \<le> length (sm_buf m)" using assms t by (auto simp: k_def n_def)
  have q: "(if ins \<noteq> [] then store_at s ins (if 0 < n - e then store_at (s + length ins) t (sm_buf m) else sm_buf m)
      else if 0 < n - e then store_at (s + length ins) t (sm_buf m) else sm_buf m) = q"
    using store_at_adjacent[of s ins t "sm_buf m"] k t by (auto simp: q_def)
  have r: "secure_splice m s e ins = \<lparr>sm_buf = (if k < n then store_at k (replicate (n - k) 0) q else q), sm_len = k\<rparr>"
    using False q unfolding secure_splice_def Let_def n_def[symmetric] k_def[symmetric] t(1)[symmetric] by simp
  have qk: "take k q = take s (sm_buf m) @ ins @ t" "drop k q = drop k (sm_buf m)" "length q = length (sm_buf m)"
    using k by (simp_all add: q_def store_at_def add.assoc)
  have z: "drop j (sm_buf m) = replicate (length (sm_buf m) - j) 0" if "n \<le> j" for j
    using n(2) that drop_drop[of "j - n" n "sm_buf m"] by simp
  have kn: "take k (store_at k (replicate (n - k) 0) q) = take k q"
    "drop k (store_at k (replicate (n - k) 0) q) = replicate (length (sm_buf m) - k) 0"
    "length (store_at k (replicate (n - k) 0) q) = length (sm_buf m)" if "k < n"
  proof -
    have "drop n q = replicate (length (sm_buf m) - n) 0"
      using drop_drop[of "n - k" k q] drop_drop[of "n - k" k "sm_buf m"] qk(2) n(2) that by simp
    then show "take k (store_at k (replicate (n - k) 0) q) = take k q"
      and "drop k (store_at k (replicate (n - k) 0) q) = replicate (length (sm_buf m) - k) 0"
      and "length (store_at k (replicate (n - k) 0) q) = length (sm_buf m)"
      using that n(1) k(2) qk(3) by (simp_all add: store_at_def replicate_add[symmetric])
  qed
  show ?thesis
    using kn qk z[of k] k assms(2,3) by (simp add: r wiped_def n_def[symmetric] t_def[symmetric] min_absorb1)
qed

interpretation secure: text_storage secure_text_input wiped
proof
  fix m s e and ins :: bytes
  assume "wiped m" "s \<le> e" "e \<le> length (be_bytes secure_text_input m)"
    "length (be_bytes secure_text_input m) - (e - s) + length ins \<le> be_byte_cap secure_text_input m"
  then show "wiped (be_splice secure_text_input m s e ins) \<and>
      be_byte_cap secure_text_input (be_splice secure_text_input m s e ins) = be_byte_cap secure_text_input m \<and>
      be_bytes secure_text_input (be_splice secure_text_input m s e ins) =
        take s (be_bytes secure_text_input m) @ ins @ drop e (be_bytes secure_text_input m)"
    using secure_splice_law[of m s e ins] by (auto simp: secure_text_input_def wiped_def min_absorb1)
qed (simp add: secure_text_input_def wiped_def)

section \<open>Fields from their construction on\<close>

definition new_text :: "nat \<Rightarrow> text_model" where
  "new_text cap = \<lparr>tm_buf = [], tm_cap = cap\<rparr>"

lemma insert_from_cap: "tm_cap (ti_store (insert_from text_input_model t i f)) = tm_cap (ti_store f)"
proof (induction text_input_model t i f rule: insert_from.induct)
  case (1 t i f)
  then show ?case by (subst insert_from.simps) (simp add: Let_def insert_run_alt)
qed

lemma apply_edit_cap: "tm_cap (ti_store (apply_edit text_input_model e f)) = tm_cap (ti_store f)"
  by (cases e) (simp_all add: insert_text_def insert_from_cap backspace_def del_char_def delete_selection_def Let_def
      move_left_def move_right_def move_home_def move_end_def select_everything_def set_text_def clear_field_def reset_caret_def)

lemma apply_edits_text:
  "text_ok f \<Longrightarrow> text_ok (apply_edits text_input_model es f) \<and>
     tm_cap (ti_store (apply_edits text_input_model es f)) = tm_cap (ti_store f)"
  by (induction es arbitrary: f) (simp_all add: apply_edits_def text_ok_apply apply_edit_cap)

text \<open>
     Property C1. Whatever is typed, pasted, selected or deleted, the content of a text field stays the
     UTF-8 encoding of printable Unicode scalar values, within the capacity of the field, and the caret and
     the selection's other end stand between characters.
\<close>
theorem text_field_stays_text:
  fixes es cap
  defines "f \<equiv> apply_edits text_input_model es (new_field (new_text cap))"
  shows "utf8_text (field_bytes text_input_model f) \<and> field_size text_input_model f \<le> cap \<and>
     at_boundary (field_bytes text_input_model f) (ti_caret f) \<and> at_boundary (field_bytes text_input_model f) (ti_anchor f)"
proof -
  have "text_ok (new_field (new_text cap))" by (simp add: text_ok_def new_field_def new_text_def)
  from apply_edits_text[OF this, of es] show ?thesis
    by (auto simp: f_def text_ok_def Let_def new_field_def new_text_def)
qed

lemma new_secure_ok: "secure.field_ok (new_field (new_secure cap allocated))"
  by (rule secure.new_field_ok) (simp_all add: new_secure_def wiped_def secure_text_input_def)

text \<open>
     Property C2. A password field behaves as an ordinary field of the capacity of its locked buffer: after
     any edits the caret, the selection and the revision are those of the ordinary field, and the whole
     buffer is the text of the ordinary field followed by zeros, so no deleted byte survives in it.
\<close>
theorem password_field_refines_text_field:
  fixes es cap allocated
  defines "f \<equiv> apply_edits secure_text_input es (new_field (new_secure cap allocated))"
    and "g \<equiv> apply_edits text_input_model es (new_field (new_text (if allocated then cap else 0)))"
  shows "sm_buf (ti_store f) = field_bytes text_input_model g @
        replicate ((if allocated then cap else 0) - field_size text_input_model g) 0 \<and>
     ti_caret f = ti_caret g \<and> ti_anchor f = ti_anchor g \<and> ti_revision f = ti_revision g"
proof -
  have 0: "as_text secure_text_input (new_field (new_secure cap allocated)) = new_field (new_text (if allocated then cap else 0))"
    by (simp add: as_text_def new_field_def new_secure_def new_text_def secure_text_input_def)
  have ok: "secure.field_ok f" and sim: "as_text secure_text_input f = g"
    using secure.sim_edits[OF new_secure_ok, of es cap allocated] by (simp_all add: f_def g_def 0)
  have "text_ok (new_field (new_text (if allocated then cap else 0)))" by (simp add: text_ok_def new_field_def new_text_def)
  then have c: "tm_cap (ti_store g) = (if allocated then cap else 0)"
    using apply_edits_text[of _ es] by (simp add: g_def new_field_def new_text_def)
  have w: "wiped (ti_store f)" using ok by (simp add: secure.field_ok_def)
  have b: "tm_buf (ti_store g) = take (sm_len (ti_store f)) (sm_buf (ti_store f))"
    "tm_cap (ti_store g) = length (sm_buf (ti_store f))"
    using arg_cong[OF sim, of "\<lambda>x. tm_buf (ti_store x)"] arg_cong[OF sim, of "\<lambda>x. tm_cap (ti_store x)"]
    by (simp_all add: field_bytes_def secure_text_input_def)
  have "sm_buf (ti_store f) = take (sm_len (ti_store f)) (sm_buf (ti_store f)) @ drop (sm_len (ti_store f)) (sm_buf (ti_store f))"
    by simp
  also have "\<dots> = tm_buf (ti_store g) @ replicate (tm_cap (ti_store g) - length (tm_buf (ti_store g))) 0"
    using w by (simp add: b wiped_def)
  finally show ?thesis using c sim by (auto simp: as_text_def)
qed

section \<open>What an insertion puts into the field\<close>

text \<open>The acceptable characters of a text, in order: what is left when every other byte is dropped.\<close>

function kept_from :: "bytes \<Rightarrow> nat \<Rightarrow> bytes" where
  "kept_from t i =
     (if i < length t
      then if acceptable_at t i = 0 then kept_from t (i + 1)
           else take (acceptable_at t i) (drop i t) @ kept_from t (i + acceptable_at t i)
      else [])"
  by pat_completeness auto
termination by (relation "measure (\<lambda>(t, i). length t - i)") auto

declare kept_from.simps [simp del]

lemma skip_idem: "skip_unacceptable t (skip_unacceptable t i) = skip_unacceptable t i"
proof (induction t i rule: skip_unacceptable.induct)
  case (1 t i)
  show ?case
  proof (cases "i < length t \<and> acceptable_at t i = 0")
    case True
    then have "skip_unacceptable t i = skip_unacceptable t (i + 1)" by (subst skip_unacceptable.simps) simp
    then show ?thesis using 1 True by simp
  next
    case False
    then have "skip_unacceptable t i = i" by (subst skip_unacceptable.simps) auto
    then show ?thesis by simp
  qed
qed

lemma kept_skip: "kept_from t (skip_unacceptable t i) = kept_from t i"
proof (induction t i rule: skip_unacceptable.induct)
  case (1 t i)
  then show ?case by (subst skip_unacceptable.simps) (simp add: kept_from.simps[of t i])
qed

lemma kept_run:
  "i \<le> length t \<Longrightarrow> kept_from t i = take (run_from t i - i) (drop i t) @ kept_from t (run_from t i)"
proof (induction t i rule: run_from.induct)
  case (1 t i)
  show ?case
  proof (cases "i < length t \<and> acceptable_at t i \<noteq> 0")
    case True
    define n where "n = acceptable_at t i"
    have n: "i + n \<le> length t" using True acceptable_le[of t i] unfolding n_def by linarith
    have IH: "kept_from t (i + n) = take (run_from t (i + n) - (i + n)) (drop (i + n) t) @ kept_from t (run_from t (i + n))"
      using 1(1) True n by (simp add: n_def)
    have "take (run_from t (i + n) - i) (drop i t) = take n (drop i t) @ take (run_from t (i + n) - (i + n)) (drop (i + n) t)"
      using take_add[of n "run_from t (i + n) - (i + n)" "drop i t"] run_from_text[OF n] by (simp add: add.commute)
    then show ?thesis
      using True IH by (simp add: kept_from.simps[of t i] run_from.simps[of t i] n_def[symmetric])
  next
    case False
    then show ?thesis using 1(2) by (auto simp: run_from.simps[of t i])
  qed
qed

lemma run_from_shift: "run_from (drop i t) j = run_from t (i + j) - i"
proof (induction "length t - (i + j)" arbitrary: j rule: less_induct)
  case less
  show ?case
  proof (cases "i + j < length t")
    case True
    then have a: "acceptable_at (drop i t) j = acceptable_at t (i + j)"
      using acceptable_drop[of j "drop i t"] acceptable_drop[of "i + j" t] by (simp add: add.commute)
    have "j < length t - i" using True by linarith
    then show ?thesis
      using True less[of "j + acceptable_at t (i + j)"]
      by (simp add: run_from.simps[of "drop i t" j] run_from.simps[of t "i + j"] a add.assoc)
  next
    case False
    then have "\<not> j < length t - i" by linarith
    with False show ?thesis by (simp add: run_from.simps[of "drop i t" j] run_from.simps[of t "i + j"])
  qed
qed

lemma kept_length: "length (kept_from t i) \<le> length t - i"
proof (induction t i rule: kept_from.induct)
  case (1 t i)
  then show ?case using acceptable_le[of t i] by (subst kept_from.simps) auto
qed

lemma insert_run_fits:
  assumes "text_ok f" "run \<noteq> []" "length (tm_buf (ti_store f)) - (sel_end f - sel_begin f) + length run \<le> tm_cap (ti_store f)"
  shows "insert_run text_input_model run f =
     set_caret (sel_begin f + length run) (apply_splice text_input_model (sel_begin f) (sel_end f) run f)"
proof -
  have "length run \<le> room_for text_input_model f" using assms(3) by (simp add: room_for_def)
  then have "run_taken run (room_for text_input_model f) = length run" by (simp add: run_taken_def)
  then show ?thesis using assms(2) by (simp add: insert_run_alt)
qed

lemma insert_from_stop:
  assumes "kept_from t j = []"
  shows "insert_from B t j g = g"
proof (cases "j < length t")
  case True
  then have "acceptable_at t j = 0" using assms by (subst (asm) kept_from.simps) (auto split: if_splits)
  then have "acceptable_input_run (drop j t) = 0"
    using True acceptable_drop[OF True] by (simp add: acceptable_input_run_def run_from.simps[of "drop j t" 0])
  then show ?thesis using True by (subst insert_from.simps) (simp add: Let_def)
qed (simp add: insert_from.simps[of _ t j])

lemma insert_from_kept:
  assumes "text_ok f" "i = skip_unacceptable t i" "kept_from t i \<noteq> []"
    "length (tm_buf (ti_store f)) - (sel_end f - sel_begin f) + length (kept_from t i) \<le> tm_cap (ti_store f)"
  shows "tm_buf (ti_store (insert_from text_input_model t i f)) =
       take (sel_begin f) (tm_buf (ti_store f)) @ kept_from t i @ drop (sel_end f) (tm_buf (ti_store f)) \<and>
     ti_caret (insert_from text_input_model t i f) = sel_begin f + length (kept_from t i) \<and>
     ti_anchor (insert_from text_input_model t i f) = sel_begin f + length (kept_from t i)"
  using assms
proof (induction "length t - i" arbitrary: i f rule: less_induct)
  case (less i f)
  let ?n = "acceptable_input_run (drop i t)"
  let ?run = "take ?n (drop i t)"
  let ?j = "skip_unacceptable t (i + ?n)"
  have i: "i < length t" using less(4) by (subst (asm) kept_from.simps) (auto split: if_splits)
  have a: "acceptable_at t i \<noteq> 0" using less(3) i skip_ge[of "i + 1" t] by (subst (asm) skip_unacceptable.simps) (auto split: if_splits)
  have n: "?n = run_from t i - i" "i \<le> run_from t i" "run_from t i \<le> length t"
    using run_from_shift[of i t 0] run_from_text[of i t] i by (simp_all add: acceptable_input_run_def)
  have "i + acceptable_at t i \<le> length t" using acceptable_le[of t i] i by linarith
  then have "run_from t i \<ge> i + acceptable_at t i"
    using run_from_text[of "i + acceptable_at t i" t] a i by (subst run_from.simps) simp
  then have n0: "?n \<noteq> 0" using a n by linarith
  have k: "kept_from t i = ?run @ kept_from t ?j"
    using kept_run[of i t] i n kept_skip[of t "i + ?n"] by simp
  have run: "?run \<noteq> []" "utf8_text ?run" using n0 i acceptable_run_text by auto
  let ?g = "insert_run text_input_model ?run f"
  have g: "?g = set_caret (sel_begin f + length ?run) (apply_splice text_input_model (sel_begin f) (sel_end f) ?run f)"
    using insert_run_fits[OF less(2) run(1)] less(5) unfolding k by simp
  have gok: "text_ok ?g" using text_ok_insert_run[OF less(2) run(2)] .
  have step: "insert_from text_input_model t i f = insert_from text_input_model t ?j ?g"
    using i n0 by (subst insert_from.simps) (simp add: Let_def)
  note sel = text_ok_selection[OF less(2)]
  have gb: "tm_buf (ti_store ?g) = take (sel_begin f) (tm_buf (ti_store f)) @ ?run @ drop (sel_end f) (tm_buf (ti_store f))"
    "sel_begin ?g = sel_begin f + length ?run" "sel_end ?g = sel_begin f + length ?run" "tm_cap (ti_store ?g) = tm_cap (ti_store f)"
    unfolding g by (simp_all add: sel_begin_def sel_end_def)
  have lb: "length (take (sel_begin f) (tm_buf (ti_store f))) = sel_begin f" using sel by simp
  show ?case
  proof (cases "kept_from t ?j = []")
    case True
    have "insert_from text_input_model t ?j ?g = ?g" using True by (rule insert_from_stop)
    then show ?thesis using True gb by (simp add: step k g)
  next
    case False
    have m: "length t - ?j < length t - i" using skip_ge[of "i + ?n" t] n0 i by linarith
    have ss: "?j = skip_unacceptable t ?j" by (simp add: skip_idem)
    have fits: "length (tm_buf (ti_store ?g)) - (sel_end ?g - sel_begin ?g) + length (kept_from t ?j) \<le> tm_cap (ti_store ?g)"
      using less(5) sel lb unfolding gb k by simp
    from less(1)[OF m gok ss False fits] show ?thesis
      unfolding step k gb using lb sel(3,4) acceptable_run_text(2)[of "drop i t"] by (simp add: min_absorb2)
  qed
qed

definition kept_text :: "bytes \<Rightarrow> bytes" where
  "kept_text t = kept_from t 0"

lemma kept_text_utf8: "utf8_text t \<Longrightarrow> kept_text t = t"
proof -
  have "kept_from (p @ t) (length p) = t" if "utf8_text t" for p
    using that
  proof (induction t arbitrary: p rule: utf8_text_induct)
    case (Char ch rest)
    obtain c where c: "printable c" "ch = utf8_encode c" using Char(1) by (auto simp: utf8_char_def)
    have a: "acceptable_at (p @ ch @ rest) (length p) = length ch"
      using encode_accepted[OF c(1), of rest] c(2) acceptable_drop[of "length p" "p @ ch @ rest"] length_encode[of c]
      by (simp split: if_splits)
    have "ch \<noteq> []" using c(2) length_encode[of c] by (auto split: if_splits)
    then show ?case
      using Char(3)[of "p @ ch"] a by (subst kept_from.simps) simp
  qed (simp add: kept_from.simps)
  from this[of "[]"] show "utf8_text t \<Longrightarrow> kept_text t = t" by (simp add: kept_text_def)
qed

lemma insertion:
  assumes "text_ok f" "kept_text t \<noteq> []"
    and "field_size text_input_model f - (sel_end f - sel_begin f) + length (kept_text t) \<le> be_byte_cap text_input_model (ti_store f)"
  shows "field_bytes text_input_model (insert_text text_input_model t f) =
       take (sel_begin f) (field_bytes text_input_model f) @ kept_text t @ drop (sel_end f) (field_bytes text_input_model f) \<and>
     ti_caret (insert_text text_input_model t f) = sel_begin f + length (kept_text t) \<and>
     \<not> has_selection (insert_text text_input_model t f)"
proof -
  have s: "skip_unacceptable t 0 = skip_unacceptable t (skip_unacceptable t 0)"
    using skip_idem by simp
  show ?thesis
    using insert_from_kept[OF assms(1) s] assms(2,3)
    by (simp add: kept_text_def kept_skip insert_text_def has_selection_def sel_begin_def sel_end_def)
qed

text \<open>
     Property C3. Typing or pasting a text replaces the selection by exactly the acceptable characters of the
     text, in order, with the caret behind them, whenever they fit; control characters and malformed bytes
     are left out wherever they stand.
\<close>
theorem insertion_keeps_acceptable:
  assumes "text_ok f" "kept_text t \<noteq> []"
    and "field_size text_input_model f - (sel_end f - sel_begin f) + length (kept_text t) \<le> be_byte_cap text_input_model (ti_store f)"
  shows "field_bytes text_input_model (insert_text text_input_model t f) =
       take (sel_begin f) (field_bytes text_input_model f) @ kept_text t @ drop (sel_end f) (field_bytes text_input_model f) \<and>
     ti_caret (insert_text text_input_model t f) = sel_begin f + length (kept_text t) \<and>
     \<not> has_selection (insert_text text_input_model t f)"
  by (rule insertion[OF assms])

lemma prev_from_lead:
  "\<not> is_continuation (buf ! s) \<Longrightarrow> (\<forall>j < k. is_continuation (buf ! (s + Suc j))) \<Longrightarrow> prev_from buf (s + k) = s"
  by (induction k) (cases s; simp)+

text \<open>
     Property C4. Backspace takes back what was typed: after inserting one printable character that fits,
     with nothing selected, Backspace restores the bytes and the caret.
\<close>
theorem backspace_undoes_typing:
  assumes "text_ok f" "\<not> has_selection f" "printable c"
    and "field_size text_input_model f + length (utf8_encode c) \<le> be_byte_cap text_input_model (ti_store f)"
  shows "field_bytes text_input_model (backspace text_input_model (insert_text text_input_model (utf8_encode c) f)) =
       field_bytes text_input_model f \<and>
     ti_caret (backspace text_input_model (insert_text text_input_model (utf8_encode c) f)) = ti_caret f"
proof -
  let ?ch = "utf8_encode c"
  have ch: "utf8_char ?ch" using assms(3) by (auto simp: utf8_char_def)
  then have k: "kept_text ?ch = ?ch" by (simp add: kept_text_utf8 utf8_char_text)
  obtain b cs where bc: "?ch = b # cs" "\<not> is_continuation b" "list_all is_continuation cs" using utf8_char_shape[OF ch] by blast
  have sel: "sel_begin f = ti_caret f" "sel_end f = ti_caret f"
    using assms(2) by (auto simp: has_selection_def sel_begin_def sel_end_def)
  define g where "g = insert_text text_input_model ?ch f"
  let ?buf = "tm_buf (ti_store f)"
  have c: "ti_caret f \<le> length ?buf" using text_okD(3)[OF assms(1)] .
  have g: "tm_buf (ti_store g) = take (ti_caret f) ?buf @ ?ch @ drop (ti_caret f) ?buf"
    "ti_caret g = ti_caret f + length ?ch" "\<not> has_selection g"
    using insertion[OF assms(1), of ?ch, unfolded k] assms(4) by (simp_all add: g_def sel bc(1))
  have "prev_from (tm_buf (ti_store g)) (ti_caret f + length cs) = ti_caret f"
  proof (rule prev_from_lead)
    show "\<not> is_continuation (tm_buf (ti_store g) ! ti_caret f)" using c bc by (simp add: g nth_append)
    show "\<forall>j < length cs. is_continuation (tm_buf (ti_store g) ! (ti_caret f + Suc j))"
      using c bc by (simp add: g nth_append list_all_length)
  qed
  then have "utf8_prev_boundary (tm_buf (ti_store g)) (ti_caret g) = ti_caret f"
    using c bc(1) by (simp add: utf8_prev_boundary_def g min_absorb1)
  then show ?thesis
    using g c bc(1) unfolding g_def[symmetric] by (simp add: backspace_def Let_def)
qed

text \<open>The comment on the two word walks calls them inverses of each other; they are not.\<close>

lemma word_boundaries_not_inverse:
  "word_boundary_right (ascii ''foo bar'') 3 = 7" "word_boundary_left (ascii ''foo bar'') 7 = 4"
  by code_simp+

section \<open>Witnesses\<close>

lemma new_text_ok: "text_ok (new_field (new_text cap))"
  by (simp add: text_ok_def new_field_def new_text_def)

theorem insertion_keeps_acceptable_witness:
  "field_bytes text_input_model (insert_text text_input_model [0x61, 0x0A, 0x62] (new_field (new_text 8))) = [0x61, 0x62]"
proof -
  have "kept_text [0x61, 0x0A, 0x62] = [0x61, 0x62]" by code_simp
  then show ?thesis
    using insertion_keeps_acceptable[OF new_text_ok[of 8], of "[0x61, 0x0A, 0x62]"]
    by (simp add: new_field_def new_text_def sel_begin_def sel_end_def)
qed

theorem backspace_undoes_typing_witness:
  "field_bytes text_input_model (backspace text_input_model (insert_text text_input_model (utf8_encode 0x20AC) (new_field (new_text 8)))) = []"
proof -
  have "printable 0x20AC" by (simp add: printable_def scalar_value_def)
  then show ?thesis
    using backspace_undoes_typing[OF new_text_ok[of 8], of "0x20AC"] length_encode[of "0x20AC"]
    by (simp add: new_field_def new_text_def has_selection_def sel_begin_def sel_end_def)
qed

end
