(* ===== verification/Text_Clipboard.thy ===== *)
theory Text_Clipboard
  imports Text_Field_Proofs
begin

text \<open>
  Keyboard events of a focused text field and its clipboard (\<open>src/ui/text_input_event.cpp\<close>,
  \<open>src/ui/clipboard.cpp\<close>, \<open>src/ui/clipboard_gate.cpp\<close>).  The process-global slots of the gate, the text on
  the system's clipboard and the field form the state; a cut waiting for confirmation refers to this
  field.  What the clipboard backend and the allocator answer is given with each event.
\<close>

section \<open>The gate\<close>

datatype clipboard_mode = Allow | Warn | Disable
datatype gate_action = Copy | Confirm | Refuse

fun clipboard_gate_action :: "clipboard_mode \<Rightarrow> gate_action" where
  "clipboard_gate_action Allow = Copy"
| "clipboard_gate_action Warn = Confirm"
| "clipboard_gate_action Disable = Refuse"

text \<open>\<open>Pending\<close> while active; the cut target with the revision and selection it had.\<close>

record pending_copy =
  pc_text :: bytes
  pc_sensitive :: bool
  pc_cut :: "(u64 \<times> nat \<times> nat) option"

record 'm clipboard_state =
  cb_mode :: clipboard_mode
  cb_pending :: "pending_copy option"
  cb_confirmed :: "bytes option"
  cb_system :: bytes
  cb_field :: "'m text_input"

text \<open>What the environment answers: whether \<open>set_text\<close> works and whether locked memory can be had.\<close>

record answers =
  an_set_text :: bool
  an_alloc :: bool

definition set_text_system :: "answers \<Rightarrow> bytes \<Rightarrow> 'm clipboard_state \<Rightarrow> bool \<times> 'm clipboard_state" where
  "set_text_system a t s = (if an_set_text a then (True, s\<lparr>cb_system := t\<rparr>) else (False, s))"

definition request_clipboard_confirm ::
  "answers \<Rightarrow> bytes \<Rightarrow> bool \<Rightarrow> 'm text_input option \<Rightarrow> 'm clipboard_state \<Rightarrow> bool \<times> 'm clipboard_state" where
  "request_clipboard_confirm a t sensitive cut_target s =
     (if t = [] then (True, s)
      else if \<not> an_alloc a then (False, s\<lparr>cb_pending := None\<rparr>)
      else (True, s\<lparr>cb_pending := Some \<lparr>pc_text = t, pc_sensitive = sensitive,
             pc_cut = map_option (\<lambda>f. (ti_revision f, sel_begin f, sel_end f)) cut_target\<rparr>\<rparr>))"

definition confirm_clipboard_copy :: "answers \<Rightarrow> 'm backend \<Rightarrow> 'm clipboard_state \<Rightarrow> bool \<times> 'm clipboard_state" where
  "confirm_clipboard_copy a B s =
     (case cb_pending s of
        None \<Rightarrow> (False, s)
      | Some p \<Rightarrow>
          (let (ok, s) = set_text_system a (pc_text p) s;
               s = (if ok then s\<lparr>cb_confirmed := if pc_sensitive p then Some (pc_text p) else None\<rparr> else s);
               f = cb_field s;
               s = (case pc_cut p of
                      Some (rv, b, e) \<Rightarrow>
                        if ok \<and> ti_revision f = rv \<and> sel_begin f = b \<and> sel_end f = e
                        then s\<lparr>cb_field := delete_selection B f\<rparr> else s
                    | None \<Rightarrow> s)
           in (ok, s\<lparr>cb_pending := None\<rparr>)))"

definition cancel_clipboard_copy :: "'m clipboard_state \<Rightarrow> 'm clipboard_state" where
  "cancel_clipboard_copy s = s\<lparr>cb_pending := None\<rparr>"

definition take_confirmed_copy :: "'m clipboard_state \<Rightarrow> bytes option \<times> 'm clipboard_state" where
  "take_confirmed_copy s = (cb_confirmed s, s\<lparr>cb_confirmed := None\<rparr>)"

definition reset_clipboard_gate :: "'m clipboard_state \<Rightarrow> 'm clipboard_state" where
  "reset_clipboard_gate s = s\<lparr>cb_mode := Allow, cb_pending := None, cb_confirmed := None\<rparr>"

section \<open>Copy, cut and paste\<close>

definition selection_text :: "'m backend \<Rightarrow> 'm text_input \<Rightarrow> bytes" where
  "selection_text B f = (if be_secure B then [] else take (sel_end f - sel_begin f) (drop (sel_begin f) (field_bytes B f)))"

definition gate_selection ::
  "answers \<Rightarrow> bytes \<Rightarrow> 'm text_input option \<Rightarrow> 'm clipboard_state \<Rightarrow> bytes option \<times> 'm clipboard_state" where
  "gate_selection a sel cut_target s =
     (case clipboard_gate_action (cb_mode s) of
        Refuse \<Rightarrow> (None, s)
      | Confirm \<Rightarrow> (None, snd (request_clipboard_confirm a sel False cut_target s))
      | Copy \<Rightarrow> (Some sel, s))"

definition copy_selection_to_clipboard :: "answers \<Rightarrow> 'm backend \<Rightarrow> 'm clipboard_state \<Rightarrow> bool \<times> 'm clipboard_state" where
  "copy_selection_to_clipboard a B s =
     (if be_secure B then (False, s)
      else if \<not> has_selection (cb_field s) then (False, s)
      else case gate_selection a (selection_text B (cb_field s)) None s of
          (None, s) \<Rightarrow> (False, s)
        | (Some sel, s) \<Rightarrow> set_text_system a sel s)"

definition cut_selection_to_clipboard :: "answers \<Rightarrow> 'm backend \<Rightarrow> 'm clipboard_state \<Rightarrow> bool \<times> 'm clipboard_state" where
  "cut_selection_to_clipboard a B s =
     (if be_secure B then (False, s)
      else if \<not> has_selection (cb_field s) then (False, s)
      else case gate_selection a (selection_text B (cb_field s)) (Some (cb_field s)) s of
          (None, s) \<Rightarrow> (False, s)
        | (Some sel, s) \<Rightarrow>
            (case set_text_system a sel s of
               (False, s) \<Rightarrow> (False, s)
             | (True, s) \<Rightarrow> (True, s\<lparr>cb_field := delete_selection B (cb_field s)\<rparr>)))"

definition CLIPBOARD_MAX_BYTES :: nat where "CLIPBOARD_MAX_BYTES = 2 ^ 20"

definition bounded_view :: "bytes \<Rightarrow> bytes" where
  "bounded_view p = takeWhile (\<lambda>c. c \<noteq> 0) (take CLIPBOARD_MAX_BYTES p)"

text \<open>\<open>raw\<close> is what \<open>get_text\<close> returns, \<open>None\<close> for a null pointer.\<close>

definition paste_from_clipboard :: "bytes option \<Rightarrow> 'm backend \<Rightarrow> 'm clipboard_state \<Rightarrow> bool \<times> 'm clipboard_state" where
  "paste_from_clipboard raw B s =
     (case raw of
        None \<Rightarrow> (False, s)
      | Some p \<Rightarrow> (let t = bounded_view p in
          if t = [] then (False, s) else (True, s\<lparr>cb_field := insert_text B t (cb_field s)\<rparr>)))"

section \<open>Events\<close>

datatype key = KUp | KDown | KLeft | KRight | KHome | KEnd | KBackspace | KDelete | KInsert | KeyA | KeyC | KeyX | KeyV | OtherKey

definition on_field :: "('m text_input \<Rightarrow> 'm text_input) \<Rightarrow> 'm clipboard_state \<Rightarrow> 'm clipboard_state" where
  "on_field g s = s\<lparr>cb_field := g (cb_field s)\<rparr>"

definition handle_key ::
  "answers \<Rightarrow> bytes option \<Rightarrow> 'm backend \<Rightarrow> key \<Rightarrow> bool \<Rightarrow> bool \<Rightarrow> 'm clipboard_state \<Rightarrow> bool \<times> 'm clipboard_state" where
  "handle_key a raw B k ctrl shift s =
     (if ctrl \<and> (k = KUp \<or> k = KDown) then (False, s) else
      case k of
        KLeft \<Rightarrow> (True, on_field (move_left B ctrl shift) s)
      | KRight \<Rightarrow> (True, on_field (move_right B ctrl shift) s)
      | KHome \<Rightarrow> (True, on_field (move_home B shift) s)
      | KEnd \<Rightarrow> (True, on_field (move_end B shift) s)
      | KBackspace \<Rightarrow> (True, on_field (backspace B) s)
      | KDelete \<Rightarrow> (True, on_field (del_char B) s)
      | KInsert \<Rightarrow> if \<not> shift then (False, s) else (True, snd (paste_from_clipboard raw B s))
      | KeyA \<Rightarrow> if \<not> ctrl then (False, s) else (True, on_field (select_everything B) s)
      | KeyC \<Rightarrow> if \<not> ctrl then (False, s) else (True, snd (copy_selection_to_clipboard a B s))
      | KeyX \<Rightarrow> if \<not> ctrl then (False, s) else (True, snd (cut_selection_to_clipboard a B s))
      | KeyV \<Rightarrow> if \<not> ctrl then (False, s) else (True, snd (paste_from_clipboard raw B s))
      | _ \<Rightarrow> (False, s))"

datatype sdl_event = TextInputEvent bytes | KeyDown key bool bool | OtherEvent

definition field_owns_event :: "'m backend \<Rightarrow> 'm text_input \<Rightarrow> sdl_event \<Rightarrow> bool" where
  "field_owns_event B f e =
     (case e of
        TextInputEvent t \<Rightarrow> True
      | OtherEvent \<Rightarrow> False
      | KeyDown k ctrl shift \<Rightarrow> field_bytes B f \<noteq> [] \<or> ctrl \<and> k = KeyV \<or> shift \<and> k = KInsert)"

definition handle_text_input_event ::
  "answers \<Rightarrow> bytes option \<Rightarrow> 'm backend \<Rightarrow> sdl_event \<Rightarrow> 'm clipboard_state \<Rightarrow> bool \<times> 'm clipboard_state" where
  "handle_text_input_event a raw B e s =
     (case e of
        TextInputEvent t \<Rightarrow> (True, on_field (insert_text B t) s)
      | OtherEvent \<Rightarrow> (False, s)
      | KeyDown k ctrl shift \<Rightarrow> handle_key a raw B k ctrl shift s)"

text \<open>The events of the field, and the answers of the confirmation dialog and of the settings.\<close>

datatype ui_event = Field sdl_event | ConfirmCopy | CancelCopy | SetMode clipboard_mode

definition ui_step :: "answers \<Rightarrow> bytes option \<Rightarrow> 'm backend \<Rightarrow> ui_event \<Rightarrow> 'm clipboard_state \<Rightarrow> 'm clipboard_state" where
  "ui_step a raw B e s =
     (case e of
        Field ev \<Rightarrow> snd (handle_text_input_event a raw B ev s)
      | ConfirmCopy \<Rightarrow> snd (confirm_clipboard_copy a B s)
      | CancelCopy \<Rightarrow> cancel_clipboard_copy s
      | SetMode m \<Rightarrow> s\<lparr>cb_mode := m\<rparr>)"

fun ui_run :: "'m backend \<Rightarrow> (answers \<times> bytes option \<times> ui_event) list \<Rightarrow> 'm clipboard_state \<Rightarrow> 'm clipboard_state" where
  "ui_run B [] s = s"
| "ui_run B ((a, raw, e) # es) s = ui_run B es (ui_step a raw B e s)"

section \<open>What may leave the program\<close>

lemma on_field_simps [simp]:
  "cb_system (on_field g s) = cb_system s" "cb_pending (on_field g s) = cb_pending s" "cb_mode (on_field g s) = cb_mode s"
  "cb_confirmed (on_field g s) = cb_confirmed s" "cb_field (on_field g s) = g (cb_field s)"
  by (simp_all add: on_field_def)

lemma paste_simps [simp]:
  "cb_system (snd (paste_from_clipboard raw B s)) = cb_system s"
  "cb_pending (snd (paste_from_clipboard raw B s)) = cb_pending s"
  "cb_mode (snd (paste_from_clipboard raw B s)) = cb_mode s"
  by (simp_all add: paste_from_clipboard_def Let_def split: option.splits)

lemmas gate_defs = copy_selection_to_clipboard_def cut_selection_to_clipboard_def gate_selection_def
  request_clipboard_confirm_def set_text_system_def

lemma gate_action_Copy [simp]: "clipboard_gate_action m = Copy \<longleftrightarrow> m = Allow"
  by (cases m) simp_all

text \<open>What an event may do to the system clipboard and to the parked copy.\<close>

definition gated :: "'m backend \<Rightarrow> 'm clipboard_state \<Rightarrow> 'm clipboard_state \<Rightarrow> bool" where
  "gated B s t \<longleftrightarrow>
     (cb_system t = cb_system s \<or>
        \<not> be_secure B \<and> has_selection (cb_field s) \<and> cb_mode s = Allow \<and> cb_system t = selection_text B (cb_field s)) \<and>
     (cb_pending t = cb_pending s \<or> \<not> be_secure B \<and> has_selection (cb_field s) \<and> cb_mode s = Warn \<and>
        (cb_pending t = None \<or> (\<exists>p. cb_pending t = Some p \<and> pc_text p = selection_text B (cb_field s))))"

lemma gated_refl: "cb_system t = cb_system s \<Longrightarrow> cb_pending t = cb_pending s \<Longrightarrow> gated B s t"
  by (simp add: gated_def)

lemma gated_copy: "gated B s (snd (copy_selection_to_clipboard a B s))"
  by (cases "cb_mode s") (auto simp: gated_def gate_defs split: if_splits)

lemma gated_cut: "gated B s (snd (cut_selection_to_clipboard a B s))"
  by (cases "cb_mode s") (auto simp: gated_def gate_defs split: if_splits)

lemma gated_key: "gated B s (snd (handle_key a raw B k ctrl shift s))"
  by (cases k) (auto simp: handle_key_def gated_copy gated_cut intro: gated_refl)

lemma gated_field: "gated B s (snd (handle_text_input_event a raw B ev s))"
  by (cases ev) (auto simp: handle_text_input_event_def gated_key intro: gated_refl)

lemma confirm_effect:
  "cb_pending (snd (confirm_clipboard_copy a B s)) = None"
  "cb_system (snd (confirm_clipboard_copy a B s)) = cb_system s \<or>
     (\<exists>p. cb_pending s = Some p \<and> cb_system (snd (confirm_clipboard_copy a B s)) = pc_text p)"
  by (auto simp: confirm_clipboard_copy_def set_text_system_def Let_def split: option.splits prod.splits)

text \<open>
     Property C5. Nothing a text field shows reaches the system clipboard past the gate: an event changes
     the clipboard only by writing the selection of an ordinary field while the mode is Allow, or by
     confirming a copy that was parked; and a copy is parked only from an ordinary field while the mode is
     Warn, with the selection of that moment.
\<close>
theorem clipboard_gate_respected:
  fixes a raw B e s
  defines "t \<equiv> ui_step a raw B e s"
  shows "(cb_system t = cb_system s \<or>
          \<not> be_secure B \<and> has_selection (cb_field s) \<and> cb_mode s = Allow \<and> cb_system t = selection_text B (cb_field s) \<or>
          e = ConfirmCopy \<and> (\<exists>p. cb_pending s = Some p \<and> cb_system t = pc_text p)) \<and>
     (cb_pending t = cb_pending s \<or> cb_pending t = None \<or>
          \<not> be_secure B \<and> has_selection (cb_field s) \<and> cb_mode s = Warn \<and>
          (\<exists>p. cb_pending t = Some p \<and> pc_text p = selection_text B (cb_field s)))"
proof (cases e)
  case (Field ev)
  then show ?thesis using gated_field[of B s a raw ev] unfolding t_def ui_step_def gated_def by auto
next
  case ConfirmCopy
  then show ?thesis using confirm_effect[of a B s] unfolding t_def ui_step_def by auto
qed (simp_all add: t_def ui_step_def cancel_clipboard_copy_def)

text \<open>
     Property C6. A password field never gives up its text: whatever the keys, the mode and the environment,
     the system clipboard and the parked copy stay as they were, unless the user confirms a copy that was
     parked before.
\<close>
theorem password_never_copied:
  assumes "be_secure B" "cb_pending s = None"
  shows "cb_system (ui_run B es s) = cb_system s \<and> cb_pending (ui_run B es s) = None"
  using assms(2)
proof (induction es arbitrary: s)
  case (Cons x es)
  obtain a raw e where x: "x = (a, raw, e)" by (cases x)
  have "cb_system (ui_step a raw B e s) = cb_system s \<and> cb_pending (ui_step a raw B e s) = None"
  proof (cases e)
    case (Field ev)
    then show ?thesis using gated_field[of B s a raw ev] assms(1) Cons(2) by (auto simp: ui_step_def gated_def)
  next
    case ConfirmCopy
    then show ?thesis using Cons(2) by (simp add: ui_step_def confirm_clipboard_copy_def)
  qed (use Cons(2) in \<open>simp_all add: ui_step_def cancel_clipboard_copy_def\<close>)
  then show ?case using Cons(1) x by simp
qed simp

text \<open>
  A cut deletes nothing that was not written: when the keys or the confirmation change the
     bytes of the field through the clipboard, the bytes they took out are on the system clipboard.
\<close>
theorem cut_deletes_only_what_was_written:
  fixes a B s
  assumes "cb_field (snd (cut_selection_to_clipboard a B s)) \<noteq> cb_field s"
  shows "cb_system (snd (cut_selection_to_clipboard a B s)) = selection_text B (cb_field s) \<and>
     cb_field (snd (cut_selection_to_clipboard a B s)) = delete_selection B (cb_field s) \<and> cb_mode s = Allow"
  using assms by (auto simp: gate_defs split: if_splits option.splits prod.splits bool.splits gate_action.splits)

definition sample_clipboard :: "secure_model clipboard_state" where
  "sample_clipboard = \<lparr>cb_mode = Allow, cb_pending = None, cb_confirmed = None, cb_system = [],
     cb_field = new_field (new_secure 8 True)\<rparr>"

theorem password_never_copied_witness:
  "cb_system (ui_run secure_text_input
     [(\<lparr>an_set_text = True, an_alloc = True\<rparr>, None, Field (TextInputEvent [0x61, 0x62])),
      (\<lparr>an_set_text = True, an_alloc = True\<rparr>, None, Field (KeyDown KeyA True False)),
      (\<lparr>an_set_text = True, an_alloc = True\<rparr>, None, Field (KeyDown KeyX True False))] sample_clipboard) = []"
proof -
  have "be_secure secure_text_input" "cb_pending sample_clipboard = None"
    by (simp_all add: secure_text_input_def sample_clipboard_def)
  from password_never_copied[OF this] show ?thesis by (simp add: sample_clipboard_def del: ui_run.simps)
qed

end
