(* ===== verification/Natural_Sort.thy ===== *)
theory Natural_Sort
  imports Index_Format "HOL-Library.List_Lexorder" "HOL-Library.Product_Lexorder" "HOL-Library.Multiset"
begin

text \<open>
  The order in which a gallery is displayed (\<open>src/ui/natural_sort.cpp\<close>, \<open>src/ui/gallery_sort.cpp\<close>): the
  comparison of names that reads digit runs as numbers, the sort keys, and the stable sort of a gallery's
  children with sub-galleries first.  The locale \<open>weak_order\<close> is what \<open>std::stable_sort\<close> asks of a
  comparison; every comparison of the program interprets it.
\<close>

section \<open>Natural comparison\<close>

definition is_digit_byte :: "byte \<Rightarrow> bool" where
  "is_digit_byte c \<longleftrightarrow> 0x30 \<le> c \<and> c \<le> 0x39"

text \<open>The maximal digit run at the start of the rest of a name.\<close>

definition digit_run :: "bytes \<Rightarrow> nat" where
  "digit_run s = length (takeWhile is_digit_byte s)"

fun strip_zeros :: "bytes \<Rightarrow> bytes" where
  "strip_zeros (c # d # s) = (if c = 0x30 then strip_zeros (d # s) else c # d # s)"
| "strip_zeros s = s"

definition compare_numeric :: "bytes \<Rightarrow> bytes \<Rightarrow> int" where
  "compare_numeric ra rb =
     (let sa = strip_zeros ra; sb = strip_zeros rb in
      if length sa \<noteq> length sb then if length sa < length sb then -1 else 1
      else if sa \<noteq> sb then if sa < sb then -1 else 1
      else if length ra \<noteq> length rb then if length ra < length rb then -1 else 1
      else 0)"

text \<open>The two positions \<open>i\<close> and \<open>j\<close> of the loop are the rests of the names.\<close>

function natural_compare :: "bytes \<Rightarrow> bytes \<Rightarrow> int" where
  "natural_compare (x # xs) (y # ys) =
     (if is_digit_byte x \<and> is_digit_byte y
      then let la = digit_run (x # xs); lb = digit_run (y # ys);
               c = compare_numeric (take la (x # xs)) (take lb (y # ys))
           in if c \<noteq> 0 then c else natural_compare (drop la (x # xs)) (drop lb (y # ys))
      else if lower x \<noteq> lower y then if lower x < lower y then -1 else 1
      else natural_compare xs ys)"
| "natural_compare (x # xs) [] = 1"
| "natural_compare [] (y # ys) = -1"
| "natural_compare [] [] = 0"
  by pat_completeness auto
termination
  by (relation "measure (\<lambda>(a, b). length a + length b)") (auto simp: digit_run_def)

definition natural_less :: "bytes \<Rightarrow> bytes \<Rightarrow> bool" where
  "natural_less a b \<longleftrightarrow> natural_compare a b < 0"

subsection \<open>The order it decides\<close>

text \<open>
  A name as a list of tokens: a run of digits counts by its value and then its length, any other byte by
  its folded code, in the place of the digits among the bytes.
\<close>

definition digits_value :: "bytes \<Rightarrow> nat" where
  "digits_value s = foldl (\<lambda>v c. 10 * v + (unat c - 0x30)) 0 s"

function natural_tokens :: "bytes \<Rightarrow> (nat \<times> nat \<times> nat) list" where
  "natural_tokens [] = []"
| "natural_tokens (c # s) =
     (if is_digit_byte c
      then let r = takeWhile is_digit_byte (c # s)
           in (0x30, digits_value r, length r) # natural_tokens (dropWhile is_digit_byte (c # s))
      else (unat (lower c), 0, 0) # natural_tokens s)"
  by pat_completeness auto
termination
  by (relation "measure length") (auto simp: le_imp_less_Suc length_dropWhile_le)

definition all_digits :: "bytes \<Rightarrow> bool" where
  "all_digits s \<longleftrightarrow> list_all is_digit_byte s"

lemma digits_value_Nil [simp]: "digits_value [] = 0"
  by (simp add: digits_value_def)

lemma foldl_digits: "foldl (\<lambda>v c. 10 * v + (unat c - 0x30)) v s = v * 10 ^ length s + digits_value s"
proof (induction s arbitrary: v)
  case (Cons c s)
  show ?case
    using Cons[of "10 * v + (unat c - 0x30)"] Cons[of "unat c - 0x30"]
    by (simp add: digits_value_def algebra_simps)
qed (simp add: digits_value_def)

lemma digits_value_Cons: "digits_value (c # s) = (unat c - 0x30) * 10 ^ length s + digits_value s"
  using foldl_digits[of "unat c - 0x30" s] by (simp add: digits_value_def)

lemma digit_unat: "is_digit_byte c \<longleftrightarrow> 0x30 \<le> unat c \<and> unat c \<le> 0x39"
  by (simp add: is_digit_byte_def word_le_nat_alt)

lemma digits_value_less: "all_digits s \<Longrightarrow> digits_value s < 10 ^ length s"
proof (induction s)
  case (Cons c s)
  then have "unat c - 0x30 \<le> 9" by (auto simp: all_digits_def digit_unat)
  then have "(unat c - 0x30) * 10 ^ length s \<le> 9 * 10 ^ length s" by (rule mult_le_mono1)
  moreover have "digits_value s < 10 ^ length s" using Cons by (simp add: all_digits_def)
  ultimately have "(unat c - 0x30) * 10 ^ length s + digits_value s < 10 * 10 ^ length s" by linarith
  then show ?case by (simp only: digits_value_Cons list.size power_Suc add_0_right add_Suc_right One_nat_def)
qed simp

lemma strip_value [simp]: "digits_value (strip_zeros s) = digits_value s"
  by (induction s rule: strip_zeros.induct) (auto simp: digits_value_Cons)

lemma strip_digits: "all_digits s \<Longrightarrow> all_digits (strip_zeros s)"
  by (induction s rule: strip_zeros.induct) (auto simp: all_digits_def)

lemma strip_shape: "length (strip_zeros s) \<le> 1 \<or> hd (strip_zeros s) \<noteq> 0x30"
  by (induction s rule: strip_zeros.induct) auto

lemma strip_empty [simp]: "strip_zeros s = [] \<longleftrightarrow> s = []"
  by (induction s rule: strip_zeros.induct) auto

lemma stripped_value_ge:
  assumes "all_digits s" "hd s \<noteq> 0x30" "s \<noteq> []"
  shows "10 ^ (length s - 1) \<le> digits_value s"
proof -
  obtain c t where s: "s = c # t" using assms(3) by (cases s) auto
  have "0x30 \<le> unat c" using assms(1) s by (simp add: all_digits_def digit_unat)
  moreover have "unat c \<noteq> 0x30" using assms(2) s by (auto simp: word_unat_eq_iff)
  ultimately have "1 \<le> unat c - 0x30" by simp
  then have "1 * 10 ^ length t \<le> (unat c - 0x30) * 10 ^ length t" by (rule mult_le_mono1)
  then have "10 ^ length t \<le> digits_value s" unfolding s digits_value_Cons by linarith
  then show ?thesis by (simp add: s)
qed

lemma positional_less:
  assumes "v < P" "w < (P :: nat)"
  shows "x * P + v < y * P + w \<longleftrightarrow> x < y \<or> x = y \<and> v < w"
proof -
  have "x * P + v < y * P + w" if "x < y"
    using assms mult_le_mono1[of "Suc x" y P] that by simp
  moreover have "y * P + w < x * P + v" if "y < x"
    using assms mult_le_mono1[of "Suc y" x P] that by simp
  ultimately show ?thesis by (cases x y rule: linorder_cases) force+
qed

lemma digit_less: "is_digit_byte c \<Longrightarrow> is_digit_byte d \<Longrightarrow> c < d \<longleftrightarrow> unat c - 0x30 < unat d - 0x30"
  by (auto simp: digit_unat word_less_nat_alt)

lemma digit_eq: "is_digit_byte c \<Longrightarrow> is_digit_byte d \<Longrightarrow> c = d \<longleftrightarrow> unat c - 0x30 = unat d - 0x30"
  by (auto simp: digit_unat word_unat_eq_iff)

lemma same_length_less:
  "length a = length b \<Longrightarrow> all_digits a \<Longrightarrow> all_digits b \<Longrightarrow> a < b \<longleftrightarrow> digits_value a < digits_value b"
proof (induction a b rule: list_induct2)
  case (Cons c s d t)
  then have ds: "is_digit_byte c" "is_digit_byte d" "all_digits s" "all_digits t" by (simp_all add: all_digits_def)
  have "digits_value s < 10 ^ length s" "digits_value t < 10 ^ length s"
    using digits_value_less ds(3,4) Cons(1) by metis+
  from positional_less[OF this] show ?case
    using Cons(1,2) ds by (simp add: digits_value_Cons digit_less digit_eq)
qed simp

lemma same_length_eq:
  "length a = length b \<Longrightarrow> all_digits a \<Longrightarrow> all_digits b \<Longrightarrow> a = b \<longleftrightarrow> digits_value a = digits_value b"
  using same_length_less[of a b] same_length_less[of b a] by force

lemma strip_length_less:
  assumes "all_digits a" "all_digits b" "a \<noteq> []" "b \<noteq> []" "length (strip_zeros a) < length (strip_zeros b)"
  shows "digits_value a < digits_value b"
proof -
  have "digits_value (strip_zeros a) < 10 ^ length (strip_zeros a)"
    using digits_value_less[OF strip_digits[OF assms(1)]] .
  also have "\<dots> \<le> 10 ^ (length (strip_zeros b) - 1)"
    using assms(5) by (intro power_increasing) simp_all
  also have "\<dots> \<le> digits_value (strip_zeros b)"
  proof (rule stripped_value_ge)
    have "0 < length (strip_zeros a)" using assms(3) by simp
    then show "hd (strip_zeros b) \<noteq> 0x30" using strip_shape[of b] assms(5) by linarith
  qed (use assms strip_digits in auto)
  finally show ?thesis by simp
qed

text \<open>The three-way result of comparing two elements of a linear order.\<close>

definition three_way :: "'a :: linorder \<Rightarrow> 'a \<Rightarrow> int" where
  "three_way x y = (if x < y then -1 else if x = y then 0 else 1)"

lemma compare_numeric_value:
  assumes "all_digits a" "all_digits b" "a \<noteq> []" "b \<noteq> []"
  shows "compare_numeric a b = three_way (digits_value a, length a) (digits_value b, length b)"
proof (cases "length (strip_zeros a)" "length (strip_zeros b)" rule: linorder_cases)
  case less
  then show ?thesis using strip_length_less[OF assms less] by (simp add: compare_numeric_def Let_def three_way_def)
next
  case greater
  then show ?thesis
    using strip_length_less[OF assms(2,1,4,3) greater] by (simp add: compare_numeric_def Let_def three_way_def)
next
  case equal
  have "strip_zeros a < strip_zeros b \<longleftrightarrow> digits_value a < digits_value b"
    "strip_zeros a = strip_zeros b \<longleftrightarrow> digits_value a = digits_value b"
    using same_length_less[OF equal] same_length_eq[OF equal] strip_digits assms(1,2) by simp_all
  then show ?thesis
    using equal by (auto simp: compare_numeric_def Let_def three_way_def)
qed

lemma three_way_Cons: "three_way (x # xs) (y # ys) = (if three_way x y \<noteq> 0 then three_way x y else three_way xs ys)"
  by (auto simp: three_way_def)

lemma three_way_Nil [simp]:
  "three_way [] (y # ys) = -1" "three_way (x # xs) [] = 1" "three_way ([] :: 'a :: linorder list) [] = 0"
  by (simp_all add: three_way_def)

lemma three_way_Pair: "three_way (a, x) (b, y) = (if a = b then three_way x y else three_way a b)"
  by (auto simp: three_way_def)

lemma lower_nondigit: "\<not> is_digit_byte c \<Longrightarrow> \<not> is_digit_byte (lower c)"
  by (auto simp: lower_def digit_unat word_le_nat_alt unat_word_ariths)

lemma lower_digit: "is_digit_byte c \<Longrightarrow> lower c = c"
  by (auto simp: lower_def digit_unat word_le_nat_alt)

lemma take_digit_run: "take (digit_run s) s = takeWhile is_digit_byte s" "drop (digit_run s) s = dropWhile is_digit_byte s"
  by (simp_all add: digit_run_def takeWhile_eq_take[symmetric] dropWhile_eq_drop[symmetric])

lemma takeWhile_digits: "all_digits (takeWhile is_digit_byte s)"
  by (auto simp: all_digits_def list_all_iff dest: set_takeWhileD)

lemma lower_unat_eq: "lower x = lower y \<longleftrightarrow> unat (lower x) = unat (lower y)"
  by (simp add: word_unat_eq_iff)

text \<open>The head tokens of two names that do not both start with a digit compare as their folded bytes.\<close>

lemma mixed_tokens:
  assumes "is_digit_byte x" "\<not> is_digit_byte y"
  shows "0x30 < unat (lower y) \<longleftrightarrow> unat (lower x) < unat (lower y)" "unat (lower y) < 0x30 \<longleftrightarrow> unat (lower y) < unat (lower x)"
    "unat (lower y) \<noteq> 0x30" "lower x \<noteq> lower y"
  using lower_nondigit[OF assms(2)] lower_digit[OF assms(1)] assms(1) by (auto simp: digit_unat)

lemma natural_compare_tokens: "natural_compare a b = three_way (natural_tokens a) (natural_tokens b)"
proof (induction a b rule: natural_compare.induct)
  case (1 x xs y ys)
  consider "is_digit_byte x" "is_digit_byte y" | "is_digit_byte x \<noteq> is_digit_byte y"
    | "\<not> is_digit_byte x" "\<not> is_digit_byte y" by blast
  then show ?case
  proof cases
    case 1
    let ?ra = "takeWhile is_digit_byte (x # xs)" and ?rb = "takeWhile is_digit_byte (y # ys)"
    have "compare_numeric ?ra ?rb = three_way (digits_value ?ra, length ?ra) (digits_value ?rb, length ?rb)"
      using 1 by (intro compare_numeric_value takeWhile_digits) simp_all
    then show ?thesis
      using "1.IH"(1) 1 by (simp add: take_digit_run three_way_Cons three_way_Pair Let_def del: takeWhile.simps dropWhile.simps)
  next
    case 2
    then show ?thesis
      using mixed_tokens[of x y] mixed_tokens[of y x]
      by (cases "is_digit_byte x") (auto simp: three_way_Cons three_way_def Let_def word_less_nat_alt)
  next
    case 3
    then show ?thesis
      using "1.IH"(2) by (auto simp: three_way_Cons lower_unat_eq word_less_nat_alt three_way_def[of "(_, _)"] three_way_def[of "_ :: nat"])
  qed
qed (simp_all add: Let_def)

lemma natural_less_tokens: "natural_less a b \<longleftrightarrow> natural_tokens a < natural_tokens b"
  by (simp add: natural_less_def natural_compare_tokens three_way_def)

section \<open>Sort keys\<close>

fun effective_sort_key :: "sort_key \<Rightarrow> sort_key \<Rightarrow> sort_key" where
  "effective_sort_key gallery_key vault_default =
     (if gallery_key \<noteq> SortDefault then gallery_key
      else if vault_default = SortDefault then Insertion else vault_default)"

fun next_sort_key :: "sort_key \<Rightarrow> sort_key" where
  "next_sort_key SortDefault = NameAsc" | "next_sort_key NameAsc = NameDesc" | "next_sort_key NameDesc = DateAsc"
| "next_sort_key DateAsc = DateDesc" | "next_sort_key DateDesc = SizeAsc" | "next_sort_key SizeAsc = SizeDesc"
| "next_sort_key SizeDesc = Insertion" | "next_sort_key Insertion = SortDefault"

fun prev_sort_key :: "sort_key \<Rightarrow> sort_key" where
  "prev_sort_key NameAsc = SortDefault" | "prev_sort_key NameDesc = NameAsc" | "prev_sort_key DateAsc = NameDesc"
| "prev_sort_key DateDesc = DateAsc" | "prev_sort_key SizeAsc = DateDesc" | "prev_sort_key SizeDesc = SizeAsc"
| "prev_sort_key Insertion = SizeDesc" | "prev_sort_key SortDefault = Insertion"

definition sort_key_label :: "sort_key \<Rightarrow> sort_key \<Rightarrow> bytes" where
  "sort_key_label key vault_default =
     (if key = SortDefault \<and> vault_default = Insertion then []
      else case effective_sort_key key vault_default of
        NameAsc \<Rightarrow> ascii ''Name asc'' | NameDesc \<Rightarrow> ascii ''Name desc''
      | DateAsc \<Rightarrow> ascii ''Date asc'' | DateDesc \<Rightarrow> ascii ''Date desc''
      | SizeAsc \<Rightarrow> ascii ''Size asc'' | SizeDesc \<Rightarrow> ascii ''Size desc''
      | Insertion \<Rightarrow> ascii ''Insertion'' | SortDefault \<Rightarrow> [])"

section \<open>Sorting the children of a gallery\<close>

definition created_ts_of :: "index_node \<Rightarrow> u64" where
  "created_ts_of n = (if is_image n then im_created_ts (nd_meta (ndata n))
     else if is_video n then vm_created_ts (nd_vmeta (ndata n)) else 0)"

definition orig_size_of :: "index_node \<Rightarrow> u64" where
  "orig_size_of n = (if is_image n then im_orig_size (nd_meta (ndata n))
     else if is_video n then vm_orig_size (nd_vmeta (ndata n)) else 0)"

fun child_less :: "sort_key \<Rightarrow> index_node \<Rightarrow> index_node \<Rightarrow> bool" where
  "child_less NameAsc a b = natural_less (n_name a) (n_name b)"
| "child_less NameDesc a b = natural_less (n_name b) (n_name a)"
| "child_less DateAsc a b = (created_ts_of a < created_ts_of b)"
| "child_less DateDesc a b = (created_ts_of b < created_ts_of a)"
| "child_less SizeAsc a b = (orig_size_of a < orig_size_of b)"
| "child_less SizeDesc a b = (orig_size_of b < orig_size_of a)"
| "child_less _ a b = False"

text \<open>\<open>std::stable_sort\<close> of the standard library.\<close>

fun insert_stable :: "('a \<Rightarrow> 'a \<Rightarrow> bool) \<Rightarrow> 'a \<Rightarrow> 'a list \<Rightarrow> 'a list" where
  "insert_stable lt x [] = [x]"
| "insert_stable lt x (y # ys) = (if lt y x then y # insert_stable lt x ys else x # y # ys)"

definition stable_sort :: "('a \<Rightarrow> 'a \<Rightarrow> bool) \<Rightarrow> 'a list \<Rightarrow> 'a list" where
  "stable_sort lt xs = foldr (insert_stable lt) xs []"

definition stable_partition :: "('a \<Rightarrow> bool) \<Rightarrow> 'a list \<Rightarrow> 'a list" where
  "stable_partition P xs = filter P xs @ filter (\<lambda>x. \<not> P x) xs"

definition sort_children :: "index_node list \<Rightarrow> sort_key \<Rightarrow> index_node list" where
  "sort_children nodes key =
     (let out = stable_partition is_gallery nodes in
      if key = SortDefault \<or> key = Insertion then out
      else let galleries_end = length (takeWhile is_gallery out)
           in stable_sort (child_less key) (take galleries_end out) @ stable_sort (child_less key) (drop galleries_end out))"

section \<open>What a stable sort needs and gives\<close>

locale weak_order =
  fixes lt :: "'a \<Rightarrow> 'a \<Rightarrow> bool"
  assumes asym: "lt a b \<Longrightarrow> \<not> lt b a"
    and cotrans: "lt a c \<Longrightarrow> lt a b \<or> lt b c"
begin

definition equiv :: "'a \<Rightarrow> 'a \<Rightarrow> bool" where
  "equiv a b \<longleftrightarrow> \<not> lt a b \<and> \<not> lt b a"

lemma lt_trans: "lt a b \<Longrightarrow> lt b c \<Longrightarrow> lt a c"
  using asym cotrans by blast

lemma equiv_trans: "equiv a b \<Longrightarrow> equiv b c \<Longrightarrow> equiv a c"
  using cotrans unfolding equiv_def by blast

lemma mset_insert_stable [simp]: "mset (insert_stable lt x ys) = add_mset x (mset ys)"
  by (induction ys) simp_all

lemma mset_stable_sort [simp]: "mset (stable_sort lt xs) = mset xs"
  by (induction xs) (simp_all add: stable_sort_def)

lemma set_stable_sort [simp]: "set (stable_sort lt xs) = set xs"
  using mset_stable_sort[of xs] by (metis set_mset_mset)

lemma sorted_insert_stable:
  "sorted_wrt (\<lambda>a b. \<not> lt b a) ys \<Longrightarrow> sorted_wrt (\<lambda>a b. \<not> lt b a) (insert_stable lt x ys)"
proof (induction ys)
  case (Cons y ys)
  have s: "set (insert_stable lt x ys) = insert x (set ys)"
    by (metis list.set(2) mset.simps(2) mset_insert_stable set_mset_mset)
  show ?case
  proof (cases "lt y x")
    case True
    then show ?thesis using Cons asym by (auto simp: s)
  next
    case False
    then show ?thesis using Cons cotrans by (auto)
  qed
qed simp

lemma sorted_stable_sort: "sorted_wrt (\<lambda>a b. \<not> lt b a) (stable_sort lt xs)"
  by (induction xs) (simp_all add: stable_sort_def sorted_insert_stable)

lemma filter_insert_stable: "\<lbrakk>\<forall>a b. P a \<longrightarrow> P b \<longrightarrow> equiv a b\<rbrakk> \<Longrightarrow>
    filter P (insert_stable lt x ys) = (if P x then x # filter P ys else filter P ys)"
  by (induction ys) (auto simp: equiv_def)

text \<open>Elements that the order does not tell apart keep their order.\<close>

lemma stable: "filter (equiv z) (stable_sort lt xs) = filter (equiv z) xs"
proof (induction xs)
  case (Cons x xs)
  have "\<forall>a b. equiv z a \<longrightarrow> equiv z b \<longrightarrow> equiv a b"
    using equiv_trans unfolding equiv_def by blast
  from filter_insert_stable[OF this] show ?case using Cons by (simp add: stable_sort_def)
qed (simp add: stable_sort_def)

end

interpretation names: weak_order natural_less
  by unfold_locales (auto simp: natural_less_tokens)

interpretation children: weak_order "child_less key" for key
proof
  fix a b c
  show "child_less key a b \<Longrightarrow> \<not> child_less key b a"
    by (cases key) (auto dest: names.asym)
  show "child_less key a c \<Longrightarrow> child_less key a b \<or> child_less key b c"
    by (cases key) (auto dest: names.cotrans)
qed

definition indistinct :: "sort_key \<Rightarrow> index_node \<Rightarrow> index_node \<Rightarrow> bool" where
  "indistinct key a b \<longleftrightarrow> is_gallery a = is_gallery b \<and> \<not> child_less key a b \<and> \<not> child_less key b a"

lemma takeWhile_filter: "takeWhile P (filter P xs @ ys) = filter P xs @ takeWhile P ys" "dropWhile P (filter P xs @ ys) = dropWhile P ys"
  by (induction xs) simp_all

lemma takeWhile_filter_not: "takeWhile P (filter (\<lambda>x. \<not> P x) xs) = []" "dropWhile P (filter (\<lambda>x. \<not> P x) xs) = filter (\<lambda>x. \<not> P x) xs"
  by (induction xs) simp_all

lemma takeWhile_partition:
  "takeWhile P (stable_partition P xs) = filter P xs" "dropWhile P (stable_partition P xs) = filter (\<lambda>x. \<not> P x) xs"
  by (simp_all only: stable_partition_def takeWhile_filter takeWhile_filter_not append_Nil2)

lemma stable_sort_False: "(\<And>a b. \<not> lt a b) \<Longrightarrow> stable_sort lt xs = xs"
proof -
  assume n: "\<And>a b. \<not> lt a b"
  then have "insert_stable lt x ys = x # ys" for x ys by (cases ys) simp_all
  then show ?thesis by (induction xs) (simp_all add: stable_sort_def)
qed

lemma sort_children_alt:
  "sort_children nodes key = stable_sort (child_less key) (filter is_gallery nodes) @
     stable_sort (child_less key) (filter (\<lambda>n. \<not> is_gallery n) nodes)"
proof (cases "key = SortDefault \<or> key = Insertion")
  case True
  then show ?thesis using stable_sort_False[of "child_less key"] by (auto simp: sort_children_def Let_def stable_partition_def)
next
  case False
  then show ?thesis
    by (simp add: sort_children_def Let_def takeWhile_eq_take[symmetric] dropWhile_eq_drop[symmetric] takeWhile_partition)
qed

lemma filter_all_in: "\<forall>x. Q x \<longrightarrow> P x \<Longrightarrow> filter Q (filter P xs) = filter Q xs"
  by (induction xs) auto

lemma filter_none_in: "\<forall>x. Q x \<longrightarrow> P x \<Longrightarrow> filter Q (filter (\<lambda>x. \<not> P x) xs) = []"
  by (induction xs) auto

lemma filter_indistinct_sort:
  assumes "\<forall>x \<in> set xs. is_gallery x = g"
  shows "filter (indistinct key n) (stable_sort (child_less key) xs) = filter (indistinct key n) xs"
proof -
  have f: "filter (indistinct key n) ys = (if g = is_gallery n then filter (children.equiv key n) ys else [])"
    if "\<forall>x \<in> set ys. is_gallery x = g" for ys
    using that by (induction ys) (auto simp: indistinct_def children.equiv_def)
  have "\<forall>x \<in> set (stable_sort (child_less key) xs). is_gallery x = g" using assms by simp
  from f[OF this] f[OF assms] show ?thesis using children.stable[of key n xs] by simp
qed

lemma filter_indistinct_groups:
  "filter (indistinct key n) (filter is_gallery xs) @ filter (indistinct key n) (filter (\<lambda>x. \<not> is_gallery x) xs) =
     filter (indistinct key n) xs"
proof (cases "is_gallery n")
  case True
  then have "\<forall>x. indistinct key n x \<longrightarrow> is_gallery x" by (simp add: indistinct_def)
  then show ?thesis by (simp add: filter_all_in filter_none_in del: filter_filter)
next
  case False
  then have "\<forall>x. indistinct key n x \<longrightarrow> \<not> is_gallery x" by (simp add: indistinct_def)
  from filter_all_in[OF this] filter_none_in[OF this] show ?thesis by (simp del: filter_filter)
qed

text \<open>
     Property C1. The children of a gallery are displayed as a stable sort of them: the list is a
     permutation of the children, no medium stands before a sub-gallery, within each group no child stands
     before one that the key puts first, and children the key does not tell apart keep their order.
\<close>
theorem sort_children_stable:
  fixes nodes key
  defines "out \<equiv> sort_children nodes key"
  shows "mset out = mset nodes \<and>
     out = filter is_gallery out @ filter (\<lambda>n. \<not> is_gallery n) out \<and>
     sorted_wrt (\<lambda>a b. \<not> child_less key b a) (filter is_gallery out) \<and>
     sorted_wrt (\<lambda>a b. \<not> child_less key b a) (filter (\<lambda>n. \<not> is_gallery n) out) \<and>
     filter (indistinct key n) out = filter (indistinct key n) nodes"
proof -
  let ?lt = "child_less key"
  let ?g = "stable_sort ?lt (filter is_gallery nodes)" and ?m = "stable_sort ?lt (filter (\<lambda>n. \<not> is_gallery n) nodes)"
  note out = out_def[unfolded sort_children_alt]
  have "\<forall>x \<in> set ?g. is_gallery x" "\<forall>x \<in> set ?m. \<not> is_gallery x" by simp_all
  then have "filter is_gallery ?g = ?g" "filter is_gallery ?m = []" "filter (\<lambda>n. \<not> is_gallery n) ?g = []"
    "filter (\<lambda>n. \<not> is_gallery n) ?m = ?m"
    by (simp_all only: filter_id_conv filter_empty_conv not_not ball_simps)
  then have f: "filter is_gallery out = ?g" "filter (\<lambda>n. \<not> is_gallery n) out = ?m"
    by (simp_all add: out)
  have "mset out = mset nodes" by (simp add: out mset_filter multiset_partition[symmetric])
  moreover have "filter (indistinct key n) out = filter (indistinct key n) nodes"
    using filter_indistinct_sort[of "filter is_gallery nodes" True key n]
      filter_indistinct_sort[of "filter (\<lambda>n. \<not> is_gallery n) nodes" False key n] filter_indistinct_groups[of key n nodes]
    by (simp add: out)
  ultimately show ?thesis using children.sorted_stable_sort unfolding f by (simp add: out)
qed

text \<open>
     Property C2. The comparison of names is the comparison of what a reader sees: the sign it returns is that
     of the lexicographic order on tokens, where a run of digits counts by its numeric value and then by its
     length and any other byte by its folded code; so it is a strict weak order and sorting with it is
     well defined.
\<close>
theorem natural_compare_reads_numbers:
  "natural_compare a b = three_way (natural_tokens a) (natural_tokens b)"
  by (rule natural_compare_tokens)

text \<open>The two cycles of the settings row undo each other, and a resolved key is never the default.\<close>

lemma sort_key_cycles: "prev_sort_key (next_sort_key k) = k" "next_sort_key (prev_sort_key k) = k"
  by (cases k; simp)+

lemma effective_not_default: "effective_sort_key k d \<noteq> SortDefault"
  by simp

lemma sort_key_label_empty: "sort_key_label k d = [] \<longleftrightarrow> k = SortDefault \<and> d = Insertion"
  by (cases k; cases d) (simp_all add: sort_key_label_def ascii_def)

end
