(* ===== verification/Dup_Model.thy ===== *)
theory Dup_Model
  imports Aead Natural_Sort "HOL-Library.Monad_Syntax"
begin

text \<open>
  The duplicate finder (\<open>src/ui/dup_model.cpp\<close>): perceptual hashes of images, signatures of videos, their
  clusters by union-find with path halving, and the review in which the user marks copies for removal.
\<close>

section \<open>Hashes\<close>

text \<open>The pixels of the code are a span of bytes, three to a pixel; the indices are \<open>int\<close>s that do not overflow.\<close>

definition pixel_luma :: "bytes \<Rightarrow> nat \<Rightarrow> nat" where
  "pixel_luma rgb p = (2 * unat (rgb ! p) + 5 * unat (rgb ! (p + 1)) + unat (rgb ! (p + 2))) div 8"

definition cell_luma :: "bytes \<Rightarrow> nat \<Rightarrow> nat \<Rightarrow> nat \<Rightarrow> nat \<Rightarrow> nat \<Rightarrow> nat \<Rightarrow> nat" where
  "cell_luma rgb w h cx cy gw gh =
     (let x0 = cx * w div gw; x1 = max (x0 + 1) ((cx + 1) * w div gw);
          y0 = cy * h div gh; y1 = max (y0 + 1) ((cy + 1) * h div gh);
          values = concat (map (\<lambda>y. map (\<lambda>x. pixel_luma rgb ((y * w + x) * 3)) [x0..<min x1 w]) [y0..<min y1 h])
      in if values = [] then 0 else sum_list values div length values)"

definition dhash64 :: "bytes \<Rightarrow> nat \<Rightarrow> nat \<Rightarrow> u64" where
  "dhash64 rgb w h =
     (if w < 1 \<or> h < 1 \<or> length rgb < w * h * 3 then 0
      else let grid = (\<lambda>y x. cell_luma rgb w h x y 9 8)
           in foldl (\<lambda>bits (y, x). if grid y x < grid y (x + 1) then bits OR push_bit (y * 8 + x) 1 else bits) 0
                (List.product [0..<8] [0..<8]))"

definition hamming64 :: "u64 \<Rightarrow> u64 \<Rightarrow> nat" where
  "hamming64 a b = length (filter (bit (a XOR b)) [0..<64])"

section \<open>Union-find\<close>

text \<open>\<open>find\<close> halves the path it walks, so it returns the parents too; \<open>None\<close> would be a walk that does not end.\<close>

partial_function (option) uf_find :: "nat list \<Rightarrow> nat \<Rightarrow> (nat list \<times> nat) option" where
  [code]: "uf_find parent i =
     (if parent ! i = i then Some (parent, i)
      else let parent = parent[i := parent ! (parent ! i)] in uf_find parent (parent ! i))"

text \<open>\<open>parent[find(i)] = find(j)\<close>: the right side of an assignment is evaluated first.\<close>

definition uf_union :: "nat \<Rightarrow> nat \<Rightarrow> nat list \<Rightarrow> nat list option" where
  "uf_union i j parent = do {
     (parent, rj) \<leftarrow> uf_find parent j;
     (parent, ri) \<leftarrow> uf_find parent i;
     Some (parent[ri := rj]) }"

fun uf_join :: "(nat \<Rightarrow> nat \<Rightarrow> bool) \<Rightarrow> (nat \<times> nat) list \<Rightarrow> nat list \<Rightarrow> nat list option" where
  "uf_join similar [] parent = Some parent"
| "uf_join similar ((i, j) # ps) parent =
     (if similar i j then do { parent \<leftarrow> uf_union i j parent; uf_join similar ps parent }
      else uf_join similar ps parent)"

fun uf_collect :: "nat list \<Rightarrow> nat list \<Rightarrow> nat list list \<Rightarrow> nat list list option" where
  "uf_collect [] parent by_root = Some by_root"
| "uf_collect (i # is') parent by_root = do {
     (parent, r) \<leftarrow> uf_find parent i;
     uf_collect is' parent (by_root[r := by_root ! r @ [i]]) }"

definition pair_scan :: "nat \<Rightarrow> (nat \<times> nat) list" where
  "pair_scan n = concat (map (\<lambda>i. map (Pair i) [Suc i..<n]) [0..<n])"

text \<open>The shape that the two clustering functions share.\<close>

definition cluster_by :: "(nat \<Rightarrow> nat \<Rightarrow> bool) \<Rightarrow> nat \<Rightarrow> nat list list option" where
  "cluster_by similar n = do {
     parent \<leftarrow> uf_join similar (pair_scan n) [0..<n];
     by_root \<leftarrow> uf_collect [0..<n] parent (replicate n []);
     Some (map sort (filter (\<lambda>c. 2 \<le> length c) by_root)) }"

definition cluster_similar :: "u64 list \<Rightarrow> nat \<Rightarrow> nat list list option" where
  "cluster_similar hashes max_bits =
     cluster_by (\<lambda>i j. hamming64 (hashes ! i) (hashes ! j) \<le> max_bits) (length hashes)"

subsection \<open>Video signatures\<close>

text \<open>
  A \<open>double\<close> has 53 significant bits; \<open>round53\<close> rounds a natural to the nearest double, ties to even.  The
  constant \<open>0.02f\<close> is the float \<open>10737418 / 2^29\<close>.
\<close>

definition bit_length :: "nat \<Rightarrow> nat" where
  "bit_length n = length (takeWhile (\<lambda>k. 2 ^ k \<le> n) [0..<256])"

definition round53 :: "nat \<Rightarrow> nat" where
  "round53 n =
     (if n < 2 ^ 53 then n
      else let e = bit_length n - 53; q = n div 2 ^ e; r = n mod 2 ^ e; half = 2 ^ (e - 1);
               q' = (if r > half \<or> r = half \<and> odd q then q + 1 else q)
           in q' * 2 ^ e)"

definition duration_tolerance :: "nat \<Rightarrow> nat" where
  "duration_tolerance hi = round53 (round53 hi * 10737418) div 2 ^ 29"

definition duration_close :: "u64 \<Rightarrow> u64 \<Rightarrow> bool" where
  "duration_close a_us b_us =
     (let hi = max a_us b_us; lo = min a_us b_us; tol = max (duration_tolerance (unat hi)) 500000
      in unat (hi - lo) \<le> tol)"

record video_sig =
  vg_poster_hash :: u64
  vg_poster_ok :: bool
  vg_frame_hash :: "u64 list"
  vg_frame_valid :: u32

definition DUP_VID_FRAME_MAX_BITS :: nat where "DUP_VID_FRAME_MAX_BITS = 7"
definition DUP_VID_MIN_MATCHED :: nat where "DUP_VID_MIN_MATCHED = 4"
definition DUP_VID_POSTER_MAX_BITS :: nat where "DUP_VID_POSTER_MAX_BITS = 10"

definition video_sig_match :: "video_sig \<Rightarrow> video_sig \<Rightarrow> bool" where
  "video_sig_match a b =
     (let common = vg_frame_valid a AND vg_frame_valid b;
          shared = filter (bit common) [0..<5];
          matched = filter (\<lambda>i. hamming64 (vg_frame_hash a ! i) (vg_frame_hash b ! i) \<le> DUP_VID_FRAME_MAX_BITS) shared
      in if DUP_VID_MIN_MATCHED \<le> length shared then DUP_VID_MIN_MATCHED \<le> length matched
         else vg_poster_ok a \<and> vg_poster_ok b \<and>
           hamming64 (vg_poster_hash a) (vg_poster_hash b) \<le> DUP_VID_POSTER_MAX_BITS)"

definition cluster_video_sigs :: "video_sig list \<Rightarrow> u64 list \<Rightarrow> nat list list option" where
  "cluster_video_sigs sigs duration_us =
     cluster_by (\<lambda>i j. duration_close (duration_us ! i) (duration_us ! j) \<and> video_sig_match (sigs ! i) (sigs ! j))
       (length sigs)"

section \<open>Correctness of the clusters\<close>

text \<open>\<open>rep p k i r\<close>: walking up from \<open>i\<close> reaches the root \<open>r\<close> in \<open>k\<close> steps.\<close>

inductive rep :: "nat list \<Rightarrow> nat \<Rightarrow> nat \<Rightarrow> nat \<Rightarrow> bool" for p where
  root: "i < length p \<Longrightarrow> p ! i = i \<Longrightarrow> rep p 0 i i"
| up: "i < length p \<Longrightarrow> p ! i \<noteq> i \<Longrightarrow> rep p k (p ! i) r \<Longrightarrow> rep p (Suc k) i r"

inductive_cases repE: "rep p k i r"

lemma rep_root: "rep p k i r \<Longrightarrow> r < length p \<and> p ! r = r"
  by (induction rule: rep.induct) auto

lemma rep_less: "rep p k i r \<Longrightarrow> i < length p"
  by (erule repE) simp_all

lemma rep_step: "rep p k i r \<Longrightarrow> p ! i \<noteq> i \<Longrightarrow> \<exists>l. k = Suc l \<and> rep p l (p ! i) r"
  by (erule repE) auto

lemma rep_stop: "rep p k i r \<Longrightarrow> p ! i = i \<Longrightarrow> r = i \<and> k = 0"
  by (erule repE) simp_all

lemma rep_fun: "rep p k i r \<Longrightarrow> rep p l i s \<Longrightarrow> r = s \<and> k = l"
proof (induction arbitrary: l s rule: rep.induct)
  case (root i)
  then show ?case using rep_stop by blast
next
  case (up i k r)
  from rep_step[OF up(5,2)] obtain l' where "l = Suc l'" "rep p l' (p ! i) s" by blast
  then show ?case using up(4) by blast
qed

lemma rep_halved:
  assumes "p ! i \<noteq> i"
  shows "rep p k j r \<Longrightarrow> \<exists>l \<le> k. rep (p[i := p ! (p ! i)]) l j r"
proof (induction rule: rep.induct)
  case (root j)
  then have "rep (p[i := p ! (p ! i)]) 0 j j" using assms by (cases "j = i") (auto intro: rep.root)
  then show ?case by blast
next
  case (up j k r)
  let ?q = "p[i := p ! (p ! i)]" and ?g = "p ! (p ! i)"
  from up(4) obtain l where l: "l \<le> k" "rep ?q l (p ! j) r" by blast
  show ?case
  proof (cases "j = i")
    case False
    then have "rep ?q (Suc l) j r" using up(1,2) l(2) by (intro rep.up) simp_all
    then show ?thesis using l(1) by (meson Suc_le_mono)
  next
    case True
    obtain m where m: "m \<le> k" "rep ?q m ?g r"
    proof (cases "?g = p ! i")
      case True
      then show thesis using that[of l] l \<open>j = i\<close> by simp
    next
      case False
      then have "?q ! (p ! i) = ?g" using assms by simp
      then obtain m where "l = Suc m" "rep ?q m ?g r" using rep_step[of ?q l "p ! i" r] l(2) False \<open>j = i\<close> by auto
      then show thesis using that[of m] l(1) by simp
    qed
    show ?thesis
    proof (cases "?g = i")
      case True
      then show ?thesis using m \<open>j = i\<close> by (intro exI[of _ m]) simp
    next
      case False
      have "rep ?q (Suc m) i r" using up(1) m(2) False \<open>j = i\<close> by (intro rep.up) simp_all
      then show ?thesis using m(1) \<open>j = i\<close> by (intro exI[of _ "Suc m"]) simp
    qed
  qed
qed

lemma find_rep:
  "rep p k i r \<Longrightarrow> \<exists>q. uf_find p i = Some (q, r) \<and> length q = length p \<and> (\<forall>k j s. rep p k j s \<longrightarrow> (\<exists>l. rep q l j s))"
proof (induction k arbitrary: p i rule: less_induct)
  case (less k p i)
  show ?case
  proof (cases "p ! i = i")
    case True
    then have "r = i" using less(2) rep.root[of i p] rep_fun rep_less by blast
    then show ?thesis using True by (subst uf_find.simps) auto
  next
    case False
    let ?q = "p[i := p ! (p ! i)]" and ?g = "p ! (p ! i)"
    obtain l where l: "k = Suc l" "rep p l (p ! i) r" using rep_step[OF less(2) False] by blast
    then obtain l' where l': "l' \<le> l" "rep ?q l' (p ! i) r" using rep_halved[OF False] by blast
    have qi: "?q ! i = ?g" using rep_less[OF less(2)] by simp
    have "\<exists>m < k. rep ?q m ?g r"
    proof (cases "?g = p ! i")
      case True
      then show ?thesis using l l' by (intro exI[of _ l']) simp
    next
      case False
      then have "?q ! (p ! i) = ?g" using \<open>p ! i \<noteq> i\<close> by simp
      then obtain m where "l' = Suc m" "rep ?q m ?g r" using rep_step[of ?q l' "p ! i" r] l'(2) False by auto
      then show ?thesis using l(1) l'(1) by (intro exI[of _ m]) simp
    qed
    then obtain m where "m < k" "rep ?q m ?g r" by blast
    from less(1)[OF this] obtain q where q: "uf_find ?q ?g = Some (q, r)" "length q = length ?q"
      "\<forall>k j s. rep ?q k j s \<longrightarrow> (\<exists>l. rep q l j s)" by blast
    have "uf_find p i = uf_find ?q ?g" using False qi by (subst uf_find.simps) (simp add: Let_def)
    moreover have "\<exists>l. rep q l j s" if "rep p k j s" for k j s
      using rep_halved[OF False that] q(3) by blast
    ultimately show ?thesis using q by auto
  qed
qed

lemma rep_linked:
  assumes "rep p a ri ri" "rep p b rj rj"
  shows "rep p k j r \<Longrightarrow> \<exists>l. rep (p[ri := rj]) l j (if r = ri then rj else r)"
proof (induction rule: rep.induct)
  case (root j)
  have lt: "ri < length p" "rj < length p" "p ! ri = ri" "p ! rj = rj" using rep_root[OF assms(1)] rep_root[OF assms(2)] by auto
  let ?q = "p[ri := rj]"
  have rj: "rep ?q 0 rj rj" using lt by (intro rep.root) (auto simp: nth_list_update)
  show ?case
  proof (cases "j = ri")
    case True
    show ?thesis
    proof (cases "ri = rj")
      case False
      have "rep ?q (Suc 0) ri rj" using lt False rj by (intro rep.up) simp_all
      then show ?thesis using True by auto
    qed (use rj True in auto)
  next
    case False
    then show ?thesis using root by (intro exI[of _ 0]) (auto intro: rep.root)
  qed
next
  case (up j k r)
  then obtain l where l: "rep (p[ri := rj]) l (p ! j) (if r = ri then rj else r)" by blast
  have "j \<noteq> ri" using rep_root[OF assms(1)] up(2) by auto
  then have "rep (p[ri := rj]) (Suc l) j (if r = ri then rj else r)" using up(1,2) l by (intro rep.up) simp_all
  then show ?case by blast
qed

subsection \<open>The partition a forest stands for\<close>

definition root_of_index :: "nat list \<Rightarrow> nat \<Rightarrow> nat" where
  "root_of_index p i = (THE r. \<exists>k. rep p k i r)"

definition uf_ok :: "nat list \<Rightarrow> bool" where
  "uf_ok p \<longleftrightarrow> (\<forall>i < length p. \<exists>k r. rep p k i r)"

lemma root_of_index: "rep p k i r \<Longrightarrow> root_of_index p i = r"
  unfolding root_of_index_def by (rule the_equality) (auto dest: rep_fun)

lemma uf_okD: "uf_ok p \<Longrightarrow> i < length p \<Longrightarrow> \<exists>k. rep p k i (root_of_index p i)"
  unfolding uf_ok_def using root_of_index by metis

lemma find_correct:
  assumes "uf_ok p" "i < length p"
  obtains q where "uf_find p i = Some (q, root_of_index p i)" "uf_ok q" "length q = length p"
    "\<forall>j < length p. root_of_index q j = root_of_index p j"
proof -
  obtain k where "rep p k i (root_of_index p i)" using uf_okD[OF assms] by blast
  from find_rep[OF this] obtain q where q: "uf_find p i = Some (q, root_of_index p i)" "length q = length p"
    "\<forall>k j s. rep p k j s \<longrightarrow> (\<exists>l. rep q l j s)" by blast
  have "root_of_index q j = root_of_index p j" "\<exists>k r. rep q k j r" if "j < length p" for j
    using uf_okD[OF assms(1) that] q(3) root_of_index by metis+
  then show thesis using that[of q] q by (simp add: uf_ok_def)
qed

lemma union_correct:
  assumes "uf_ok p" "i < length p" "j < length p"
  obtains q where "uf_union i j p = Some q" "uf_ok q" "length q = length p"
    "\<forall>x < length p. root_of_index q x =
       (if root_of_index p x = root_of_index p i then root_of_index p j else root_of_index p x)"
proof -
  obtain p1 where p1: "uf_find p j = Some (p1, root_of_index p j)" "uf_ok p1" "length p1 = length p"
    "\<forall>x < length p. root_of_index p1 x = root_of_index p x" using find_correct[OF assms(1,3)] .
  have "i < length p1" using assms(2) p1(3) by simp
  from find_correct[OF p1(2) this] obtain p2 where p2: "uf_find p1 i = Some (p2, root_of_index p1 i)" "uf_ok p2" "length p2 = length p1"
    "\<forall>x < length p1. root_of_index p2 x = root_of_index p1 x" .
  let ?ri = "root_of_index p i" and ?rj = "root_of_index p j" and ?q = "p2[root_of_index p i := root_of_index p j]"
  have roots: "root_of_index p2 x = root_of_index p x" if "x < length p" for x using that p1 p2 by simp
  have r: "\<exists>k. rep p2 k x (root_of_index p x)" if "x < length p" for x
    using uf_okD[OF p2(2), of x] roots[OF that] that p1(3) p2(3) by simp
  have rr: "\<exists>k. rep p2 k (root_of_index p x) (root_of_index p x)" if "x < length p" for x
    using r[OF that] rep_root rep.root by blast
  obtain a b where ab: "rep p2 a ?ri ?ri" "rep p2 b ?rj ?rj" using rr assms(2,3) by blast
  have q: "\<exists>l. rep ?q l x (if root_of_index p x = ?ri then ?rj else root_of_index p x)" if "x < length p" for x
    using r[OF that] rep_linked[OF ab] by blast
  have "uf_union i j p = Some ?q" using p1 p2 assms(2) by (simp add: uf_union_def)
  moreover have "uf_ok ?q" unfolding uf_ok_def using q p1(3) p2(3) by (metis length_list_update)
  moreover have "\<forall>x < length p. root_of_index ?q x = (if root_of_index p x = ?ri then ?rj else root_of_index p x)"
    using q root_of_index by blast
  ultimately show thesis using that p1(3) p2(3) by simp
qed

subsection \<open>Connected indices\<close>

definition linked :: "(nat \<times> nat) set \<Rightarrow> nat \<Rightarrow> nat \<Rightarrow> bool" where
  "linked E i j \<longleftrightarrow> (i, j) \<in> (E \<union> E\<inverse>)\<^sup>*"

lemma linked_refl [simp]: "linked E i i"
  by (simp add: linked_def)

lemma linked_sym: "linked E i j \<Longrightarrow> linked E j i"
proof -
  have "sym ((E \<union> E\<inverse>)\<^sup>*)" by (rule sym_rtrancl) (rule sym_Un_converse)
  then show "linked E i j \<Longrightarrow> linked E j i" unfolding linked_def by (rule symD)
qed

lemma linked_trans: "linked E i j \<Longrightarrow> linked E j k \<Longrightarrow> linked E i k"
  unfolding linked_def by (rule rtrancl_trans)

lemma linked_insert:
  "linked (insert (a, b) E) i j \<longleftrightarrow> linked E i j \<or> linked E i a \<and> linked E b j \<or> linked E i b \<and> linked E a j"
    (is "?L \<longleftrightarrow> ?R")
proof
  assume ?L
  then show ?R
    unfolding linked_def
  proof (induction rule: rtrancl_induct)
    case (step y z)
    then have R: "linked E i y \<or> linked E i a \<and> linked E b y \<or> linked E i b \<and> linked E a y" by (simp add: linked_def)
    have "linked E y z \<or> y = a \<and> z = b \<or> y = b \<and> z = a" using step(2) by (auto simp: linked_def)
    then have "linked E i z \<or> linked E i a \<and> linked E b z \<or> linked E i b \<and> linked E a z"
      using R linked_trans linked_sym linked_refl by metis
    then show ?case by (simp add: linked_def)
  qed simp
next
  have m: "linked E x y \<Longrightarrow> linked (insert (a, b) E) x y" for x y
    unfolding linked_def by (erule rtrancl_mono[THEN subsetD, rotated]) auto
  have "linked (insert (a, b) E) a b" by (auto simp: linked_def)
  then show "?R \<Longrightarrow> ?L" using m linked_trans linked_sym by metis
qed

definition edges :: "(nat \<Rightarrow> nat \<Rightarrow> bool) \<Rightarrow> (nat \<times> nat) list \<Rightarrow> (nat \<times> nat) set" where
  "edges similar ps = {(i, j) \<in> set ps. similar i j}"

definition represents :: "nat list \<Rightarrow> nat \<Rightarrow> (nat \<times> nat) set \<Rightarrow> bool" where
  "represents p n E \<longleftrightarrow> uf_ok p \<and> length p = n \<and>
     (\<forall>i < n. \<forall>j < n. root_of_index p i = root_of_index p j \<longleftrightarrow> linked E i j)"

lemma represents_union:
  assumes "represents p n E" "i < n" "j < n"
  obtains q where "uf_union i j p = Some q" "represents q n (insert (i, j) E)"
proof -
  have p: "uf_ok p" "i < length p" "j < length p" "length p = n" using assms by (auto simp: represents_def)
  from union_correct[OF p(1-3)] obtain q where q: "uf_union i j p = Some q" "uf_ok q" "length q = length p"
    "\<forall>x < length p. root_of_index q x =
       (if root_of_index p x = root_of_index p i then root_of_index p j else root_of_index p x)" .
  have "root_of_index q x = root_of_index q y \<longleftrightarrow> linked (insert (i, j) E) x y" if "x < n" "y < n" for x y
  proof -
    have same: "root_of_index p u = root_of_index p v \<longleftrightarrow> linked E u v" if "u < n" "v < n" for u v
      using assms(1) that by (simp add: represents_def)
    have qx: "root_of_index q x = (if linked E x i then root_of_index p j else root_of_index p x)"
      and qy: "root_of_index q y = (if linked E y i then root_of_index p j else root_of_index p y)"
      using q(4) that p(4) same assms(2) by simp_all
    show ?thesis
    proof (cases "linked E x i"; cases "linked E y i")
      assume "linked E x i" "linked E y i"
      then have "linked E x y" using linked_sym linked_trans by blast
      then show ?thesis using qx qy \<open>linked E x i\<close> \<open>linked E y i\<close> by (simp add: linked_insert)
    next
      assume xi: "linked E x i" and yi: "\<not> linked E y i"
      then have "\<not> linked E x y" "\<not> linked E i y" using linked_sym linked_trans by blast+
      then show ?thesis using qx qy xi yi same[OF assms(3) that(2)] by (simp add: linked_insert)
    next
      assume xi: "\<not> linked E x i" and yi: "linked E y i"
      then have "\<not> linked E x y" "linked E i y" using linked_sym linked_trans by blast+
      then show ?thesis using qx qy xi yi same[OF that(1) assms(3)] by (simp add: linked_insert)
    next
      assume xi: "\<not> linked E x i" and yi: "\<not> linked E y i"
      then have "\<not> linked E i y" using linked_sym by blast
      then show ?thesis using qx qy xi yi same[OF that] by (simp add: linked_insert)
    qed
  qed
  then show thesis using that q p(4) by (simp add: represents_def)
qed

lemma join_represents:
  "represents p n E \<Longrightarrow> \<forall>(i, j) \<in> set ps. i < n \<and> j < n \<Longrightarrow>
     \<exists>q. uf_join similar ps p = Some q \<and> represents q n (E \<union> edges similar ps)"
proof (induction similar ps p arbitrary: E rule: uf_join.induct)
  case (1 similar p)
  then show ?case by (simp add: edges_def)
next
  case (2 similar i j ps p)
  show ?case
  proof (cases "similar i j")
    case True
    obtain q where q: "uf_union i j p = Some q" "represents q n (insert (i, j) E)"
      using represents_union[OF 2(3), of i j] 2(4) by auto
    have "insert (i, j) E \<union> edges similar ps = E \<union> edges similar ((i, j) # ps)" using True by (auto simp: edges_def)
    then show ?thesis using 2(1)[OF True _ q(2)] q True 2(4) by simp
  next
    case False
    then have "edges similar ((i, j) # ps) = edges similar ps" by (auto simp: edges_def)
    then show ?thesis using 2(2)[OF False 2(3)] 2(4) False by simp
  qed
qed

lemma represents_init: "represents [0..<n] n {}"
proof -
  have r: "rep [0..<n] 0 i i" if "i < n" for i using that by (intro rep.root) simp_all
  then have "root_of_index [0..<n] i = i" if "i < n" for i using that root_of_index by blast
  moreover have "linked {} i j \<longleftrightarrow> i = j" for i j by (auto simp: linked_def)
  moreover have "uf_ok [0..<n]" using r by (auto simp: uf_ok_def)
  ultimately show ?thesis by (simp add: represents_def)
qed

lemma collect_groups:
  "uf_ok p \<Longrightarrow> length b = length p \<Longrightarrow> \<forall>i \<in> set xs. i < length p \<Longrightarrow>
     \<exists>b'. uf_collect xs p b = Some b' \<and> length b' = length p \<and>
       (\<forall>r < length p. b' ! r = b ! r @ filter (\<lambda>i. root_of_index p i = r) xs)"
proof (induction xs p b rule: uf_collect.induct)
  case (2 i xs p b)
  have "i < length p" using 2(4) by simp
  from find_correct[OF 2(2) this] obtain q where q: "uf_find p i = Some (q, root_of_index p i)" "uf_ok q" "length q = length p"
    "\<forall>j < length p. root_of_index q j = root_of_index p j" .
  let ?r = "root_of_index p i"
  have r: "?r < length p" using uf_okD[OF 2(2) \<open>i < length p\<close>] rep_root by blast
  let ?b = "b[?r := b ! ?r @ [i]]"
  obtain b' where b': "uf_collect xs q ?b = Some b'" "length b' = length p"
    "\<forall>r < length p. b' ! r = ?b ! r @ filter (\<lambda>i. root_of_index q i = r) xs"
    using 2(1)[OF q(1), of q ?r] q 2(3,4) by auto
  have "filter (\<lambda>i. root_of_index q i = r) xs = filter (\<lambda>i. root_of_index p i = r) xs" for r
    using q(4) 2(4) by (auto intro!: filter_cong)
  then have "\<forall>r < length p. b' ! r = b ! r @ filter (\<lambda>i. root_of_index p i = r) (i # xs)"
    using b'(3) 2(3) r by (auto simp: nth_list_update)
  then show ?case using b' q(1) by simp
qed simp

lemma set_pair_scan: "set (pair_scan n) = {(i, j). i < j \<and> j < n}"
  by (force simp: pair_scan_def)

definition similar_pairs :: "(nat \<Rightarrow> nat \<Rightarrow> bool) \<Rightarrow> nat \<Rightarrow> (nat \<times> nat) set" where
  "similar_pairs similar n = {(i, j). i < j \<and> j < n \<and> similar i j}"

lemma cluster_by_correct:
  "\<exists>out. cluster_by similar n = Some out \<and>
     (\<forall>c \<in> set out. 2 \<le> length c \<and> sorted c \<and> distinct c \<and> set c \<subseteq> {..<n} \<and>
        (\<forall>i \<in> set c. \<forall>j < n. j \<in> set c \<longleftrightarrow> linked (similar_pairs similar n) i j)) \<and>
     (\<forall>i < n. \<forall>j < n. i \<noteq> j \<longrightarrow> linked (similar_pairs similar n) i j \<longrightarrow> (\<exists>c \<in> set out. i \<in> set c \<and> j \<in> set c))"
proof -
  have "\<forall>(i, j) \<in> set (pair_scan n). i < n \<and> j < n" by (auto simp: set_pair_scan)
  from join_represents[OF represents_init this] obtain p where p: "uf_join similar (pair_scan n) [0..<n] = Some p"
    "represents p n (similar_pairs similar n)"
    by (auto simp: edges_def set_pair_scan similar_pairs_def)
  then have ok: "uf_ok p" "length p = n" by (auto simp: represents_def)
  obtain b where b: "uf_collect [0..<n] p (replicate n []) = Some b" "length b = n"
    "\<forall>r < n. b ! r = filter (\<lambda>i. root_of_index p i = r) [0..<n]"
    using collect_groups[OF ok(1), of "replicate n []" "[0..<n]"] ok(2) by auto
  let ?out = "map sort (filter (\<lambda>c. 2 \<le> length c) b)"
  have s: "sort (filter P [0..<n]) = filter P [0..<n]" for P by (rule sorted_sort_id) (simp add: sorted_wrt_filter)
  have out: "cluster_by similar n = Some ?out" using p(1) b(1) by (simp add: cluster_by_def)
  have out_set: "c \<in> set ?out \<longleftrightarrow> (\<exists>r < n. c = filter (\<lambda>i. root_of_index p i = r) [0..<n] \<and> 2 \<le> length c)" for c
  proof -
    have "c \<in> set ?out \<longleftrightarrow> (\<exists>d \<in> set b. 2 \<le> length d \<and> c = sort d)" by auto
    also have "\<dots> \<longleftrightarrow> (\<exists>r < n. 2 \<le> length (b ! r) \<and> c = sort (b ! r))" using b(2) by (metis in_set_conv_nth)
    also have "\<dots> \<longleftrightarrow> (\<exists>r < n. c = filter (\<lambda>i. root_of_index p i = r) [0..<n] \<and> 2 \<le> length c)"
      using b(3) s by (metis (no_types, lifting))
    finally show ?thesis .
  qed
  have same: "root_of_index p i = root_of_index p j \<longleftrightarrow> linked (similar_pairs similar n) i j" if "i < n" "j < n" for i j
    using p(2) that by (simp add: represents_def)
  have 1: "2 \<le> length c \<and> sorted c \<and> distinct c \<and> set c \<subseteq> {..<n} \<and>
      (\<forall>i \<in> set c. \<forall>j < n. j \<in> set c \<longleftrightarrow> linked (similar_pairs similar n) i j)" if "c \<in> set ?out" for c
    using that same unfolding out_set by (fastforce simp: sorted_wrt_filter)
  have 2: "\<exists>c \<in> set ?out. i \<in> set c \<and> j \<in> set c"
    if "i < n" "j < n" "i \<noteq> j" "linked (similar_pairs similar n) i j" for i j
  proof -
    let ?c = "filter (\<lambda>x. root_of_index p x = root_of_index p i) [0..<n]"
    have m: "i \<in> set ?c" "j \<in> set ?c" using same[OF that(1,2)] that by auto
    have "2 \<le> length ?c"
    proof -
      have "card {i, j} \<le> card (set ?c)" using m by (intro card_mono) auto
      then show ?thesis using that(3) distinct_card[of ?c] by simp
    qed
    moreover have "root_of_index p i < n" using uf_okD[OF ok(1)] ok(2) that(1) rep_root by metis
    ultimately show ?thesis using m out_set by blast
  qed
  show ?thesis using out 1 2 by blast
qed

definition components :: "(nat \<Rightarrow> nat \<Rightarrow> bool) \<Rightarrow> nat \<Rightarrow> nat set set" where
  "components similar n = (\<lambda>i. {j. j < n \<and> linked (similar_pairs similar n) i j}) ` {..<n}"

lemma cluster_by_components:
  "\<exists>out. cluster_by similar n = Some out \<and> set ` set out = {C \<in> components similar n. 2 \<le> card C} \<and>
     list_all (\<lambda>c. sorted c \<and> distinct c) out"
proof -
  let ?l = "linked (similar_pairs similar n)"
  obtain out where out: "cluster_by similar n = Some out"
    and clusters: "\<forall>c \<in> set out. 2 \<le> length c \<and> sorted c \<and> distinct c \<and> set c \<subseteq> {..<n} \<and>
        (\<forall>i \<in> set c. \<forall>j < n. j \<in> set c \<longleftrightarrow> ?l i j)"
    and pairs: "\<forall>i < n. \<forall>j < n. i \<noteq> j \<longrightarrow> ?l i j \<longrightarrow> (\<exists>c \<in> set out. i \<in> set c \<and> j \<in> set c)"
    using cluster_by_correct[of similar n] by (elim exE conjE)
  have comp: "set c = {j. j < n \<and> ?l i j}" if "c \<in> set out" "i \<in> set c" for c i
  proof -
    have "set c \<subseteq> {..<n}" "\<forall>j < n. j \<in> set c \<longleftrightarrow> ?l i j" using bspec[OF clusters that(1)] that(2) by blast+
    then show ?thesis by auto
  qed
  have "set c \<in> {C \<in> components similar n. 2 \<le> card C}" if "c \<in> set out" for c
  proof -
    have "2 \<le> length c" "distinct c" "set c \<subseteq> {..<n}" using bspec[OF clusters that] by blast+
    then have "c \<noteq> []" by auto
    then obtain i where i: "i \<in> set c" by (cases c) auto
    then have "set c \<in> components similar n"
      using comp[OF that i] \<open>set c \<subseteq> {..<n}\<close> unfolding components_def by blast
    then show ?thesis using \<open>2 \<le> length c\<close> distinct_card[OF \<open>distinct c\<close>] by simp
  qed
  moreover have "\<exists>c \<in> set out. C = set c" if C: "C \<in> components similar n" "2 \<le> card C" for C
  proof -
    obtain i where i: "i < n" "C = {j. j < n \<and> ?l i j}" using C(1) unfolding components_def by blast
    have "\<not> C \<subseteq> {i}" using C(2) card_mono[of "{i}" C] by auto
    then obtain j where "j < n" "?l i j" "j \<noteq> i" using i(2) by blast
    then obtain c where "c \<in> set out" "i \<in> set c" using pairs i(1) by blast
    then show ?thesis using comp i(2) by blast
  qed
  ultimately have "set ` set out = {C \<in> components similar n. 2 \<le> card C}" by blast
  moreover have "list_all (\<lambda>c. sorted c \<and> distinct c) out" using clusters unfolding list_all_iff by blast
  ultimately show ?thesis using out by blast
qed

text \<open>
     Property C1. Both duplicate scans return, and their clusters are exactly the connected components with
     at least two members of the graph whose edges are the similar pairs: near-identical images by the
     Hamming distance of their hashes, videos by duration and signature.  Every cluster lists its members
     once, in ascending order.
\<close>
theorem clusters_are_components:
  "(\<exists>out. cluster_similar hashes max_bits = Some out \<and>
      set ` set out = {C \<in> components (\<lambda>i j. hamming64 (hashes ! i) (hashes ! j) \<le> max_bits) (length hashes). 2 \<le> card C} \<and>
      list_all (\<lambda>c. sorted c \<and> distinct c) out) \<and>
   (\<exists>out. cluster_video_sigs sigs durations = Some out \<and>
      set ` set out = {C \<in> components (\<lambda>i j. duration_close (durations ! i) (durations ! j) \<and>
        video_sig_match (sigs ! i) (sigs ! j)) (length sigs). 2 \<le> card C} \<and>
      list_all (\<lambda>c. sorted c \<and> distinct c) out)"
  unfolding cluster_similar_def cluster_video_sigs_def by (intro conjI cluster_by_components)

text \<open>
  The clusters come in the order of their roots, which are their last indices when no path joins them;
  the comment on \<open>cluster_video_sigs\<close> promises the order of their first indices.
\<close>

definition poster_sig :: "u64 \<Rightarrow> video_sig" where
  "poster_sig h = \<lparr>vg_poster_hash = h, vg_poster_ok = True, vg_frame_hash = [0, 0, 0, 0, 0], vg_frame_valid = 0\<rparr>"

lemma clusters_not_by_first_index:
  "cluster_video_sigs [poster_sig 0, poster_sig 0xFFFF, poster_sig 0xFFFF, poster_sig 0] [0, 0, 0, 0] = Some [[1, 2], [0, 3]]"
proof -
  have h: "hamming64 0 0xFFFF = 16" "hamming64 0xFFFF 0 = 16" "hamming64 0 0 = 0" "hamming64 0xFFFF 0xFFFF = 0"
    by code_simp+
  have d: "duration_close 0 0" by (simp add: duration_close_def)
  have m: "video_sig_match (poster_sig x) (poster_sig y) = (hamming64 x y \<le> 10)" for x y
    by (simp add: video_sig_match_def poster_sig_def DUP_VID_MIN_MATCHED_def DUP_VID_POSTER_MAX_BITS_def)
  have f: "p ! i = i \<Longrightarrow> uf_find p i = Some (p, i)"
    "p ! i \<noteq> i \<Longrightarrow> uf_find p i = uf_find (p[i := p ! (p ! i)]) (p[i := p ! (p ! i)] ! i)" for p i
    by (subst uf_find.simps; simp add: Let_def)+
  have s: "pair_scan 4 = [(0, 1), (0, 2), (0, 3), (1, 2), (1, 3), (2, 3)]" by code_simp
  have l: "[0..<4] = [0, 1, 2, 3]" "replicate 4 ([] :: nat list) = [[], [], [], []]" by code_simp+
  have n: "length [poster_sig 0, poster_sig 0xFFFF, poster_sig 0xFFFF, poster_sig 0] = 4" by simp
  show ?thesis
    unfolding cluster_video_sigs_def n cluster_by_def s l by (simp add: d m h uf_union_def f)
qed

section \<open>The review\<close>

record chunk_ref =
  cr_offset :: u64
  cr_length :: u64
  cr_domain :: chunk_domain
  cr_node_id :: bytes
  cr_record :: bytes
  cr_sequence :: u32
  cr_context_bound :: bool

record dup_member =
  dm_node_path :: bytes
  dm_name :: bytes
  dm_parent_path :: bytes
  dm_is_video :: bool
  dm_bytes :: u64
  dm_width :: u32
  dm_height :: u32
  dm_thumb :: chunk_ref
  dm_data :: "chunk_ref list"
  dm_keep :: bool

datatype dup_kind = Identical | Similar | SimilarVideo

record dup_group =
  dg_kind :: dup_kind
  dg_distance_bits :: nat
  dg_members :: "dup_member list"

definition group_reclaimable :: "dup_group \<Rightarrow> u64" where
  "group_reclaimable g = foldl (\<lambda>sum m. sum + dm_bytes m) 0 (dg_members g) -
     foldl (\<lambda>biggest m. max biggest (dm_bytes m)) 0 (dg_members g)"

definition path_within :: "bytes \<Rightarrow> bytes \<Rightarrow> bool" where
  "path_within gallery_path path \<longleftrightarrow> length gallery_path + 1 < length path \<and>
     path ! length gallery_path = 0x2F \<and> take (length gallery_path) path = gallery_path"

definition scope_filter_groups :: "dup_group list \<Rightarrow> bytes \<Rightarrow> nat \<times> dup_group list" where
  "scope_filter_groups groups gallery_path =
     (if gallery_path = [] then (0, groups)
      else let kept = filter (\<lambda>g. list_ex (\<lambda>m. path_within gallery_path (dm_node_path m)) (dg_members g)) groups
           in (length groups - length kept, kept))"

record dup_review =
  dr_groups :: "dup_group list"
  dr_touched :: bool
  dr_waves_done :: nat

definition DUP_WAVE_GROUPS :: nat where "DUP_WAVE_GROUPS = 20"

text \<open>Default marks: the first member stays, the others go.\<close>

definition default_marks :: "dup_group \<Rightarrow> dup_group" where
  "default_marks g = g\<lparr>dg_members := map (\<lambda>(i, m). m\<lparr>dm_keep := (i = 0)\<rparr>) (enumerate 0 (dg_members g))\<rparr>"

definition new_review :: "dup_group list \<Rightarrow> dup_review" where
  "new_review groups = \<lparr>dr_groups = map default_marks (stable_sort (\<lambda>a b. group_reclaimable b < group_reclaimable a) groups),
     dr_touched = False, dr_waves_done = 0\<rparr>"

definition wave_size :: "dup_review \<Rightarrow> nat" where
  "wave_size r = min DUP_WAVE_GROUPS (length (dr_groups r))"

definition wave_count :: "dup_review \<Rightarrow> nat" where
  "wave_count r = dr_waves_done r + (length (dr_groups r) + DUP_WAVE_GROUPS - 1) div DUP_WAVE_GROUPS"

definition set_members :: "nat \<Rightarrow> dup_member list \<Rightarrow> dup_review \<Rightarrow> dup_review" where
  "set_members g ms r = r\<lparr>dr_groups := (dr_groups r)[g := (dr_groups r ! g)\<lparr>dg_members := ms\<rparr>], dr_touched := True\<rparr>"

definition review_toggle :: "nat \<Rightarrow> nat \<Rightarrow> dup_review \<Rightarrow> bool \<times> dup_review" where
  "review_toggle g m r =
     (let ms = dg_members (dr_groups r ! g) in
      if wave_size r \<le> g \<or> length ms \<le> m then (False, r)
      else if dm_keep (ms ! m) \<and> length (filter dm_keep ms) \<le> 1 then (False, r)
      else (True, set_members g (ms[m := (ms ! m)\<lparr>dm_keep := \<not> dm_keep (ms ! m)\<rparr>]) r))"

definition keep_only :: "nat \<Rightarrow> nat \<Rightarrow> dup_review \<Rightarrow> dup_review" where
  "keep_only g m r =
     (let ms = dg_members (dr_groups r ! g) in
      if wave_size r \<le> g \<or> length ms \<le> m then r
      else set_members g (map (\<lambda>(i, x). x\<lparr>dm_keep := (i = m)\<rparr>) (enumerate 0 ms)) r)"

definition group_all_removed :: "dup_review \<Rightarrow> nat \<Rightarrow> bool" where
  "group_all_removed r g =
     (if length (dr_groups r) \<le> g then False else \<not> list_ex dm_keep (dg_members (dr_groups r ! g)))"

definition wave_members :: "dup_review \<Rightarrow> dup_member list" where
  "wave_members r = concat (map dg_members (take (wave_size r) (dr_groups r)))"

definition any_marked :: "dup_review \<Rightarrow> bool" where
  "any_marked r = list_ex (\<lambda>m. \<not> dm_keep m) (wave_members r)"

definition can_apply :: "dup_review \<Rightarrow> bool" where
  "can_apply r = (if \<not> any_marked r then False else \<not> list_ex (group_all_removed r) [0..<wave_size r])"

definition marked_count :: "dup_review \<Rightarrow> nat" where
  "marked_count r = length (filter (\<lambda>m. \<not> dm_keep m) (wave_members r))"

definition marked_bytes :: "dup_review \<Rightarrow> u64" where
  "marked_bytes r = foldl (\<lambda>n m. if dm_keep m then n else n + dm_bytes m) 0 (wave_members r)"

definition marked_paths :: "dup_review \<Rightarrow> bytes list" where
  "marked_paths r = map dm_node_path (filter (\<lambda>m. \<not> dm_keep m) (wave_members r))"

definition finish_wave :: "dup_review \<Rightarrow> dup_review" where
  "finish_wave r =
     (if dr_groups r = [] then r
      else \<lparr>dr_groups = drop (wave_size r) (dr_groups r), dr_touched = False, dr_waves_done = dr_waves_done r + 1\<rparr>)"

text \<open>\<open>fn\<close> refreshes a member in place; \<open>None\<close> when it returns false.\<close>

definition refresh_members :: "(dup_member \<Rightarrow> dup_member option) \<Rightarrow> dup_review \<Rightarrow> dup_review" where
  "refresh_members fn r = r\<lparr>dr_groups := map default_marks (filter (\<lambda>g. 2 \<le> length (dg_members g))
     (map (\<lambda>g. g\<lparr>dg_members := List.map_filter fn (dg_members g)\<rparr>) (dr_groups r)))\<rparr>"

section \<open>No group loses its last copy\<close>

datatype review_step = Toggle nat nat | KeepOnly nat nat | FinishWave | Refresh "dup_member \<Rightarrow> dup_member option"

fun review_apply :: "review_step \<Rightarrow> dup_review \<Rightarrow> dup_review" where
  "review_apply (Toggle g m) r = snd (review_toggle g m r)"
| "review_apply (KeepOnly g m) r = keep_only g m r"
| "review_apply FinishWave r = finish_wave r"
| "review_apply (Refresh fn) r = refresh_members fn r"

definition keeps_one :: "dup_group \<Rightarrow> bool" where
  "keeps_one g \<longleftrightarrow> list_ex dm_keep (dg_members g)"

lemma default_marks_keeps: "dg_members g \<noteq> [] \<Longrightarrow> keeps_one (default_marks g)"
  by (cases "dg_members g") (simp_all add: default_marks_def keeps_one_def)

lemma list_all_update: "list_all P xs \<Longrightarrow> P x \<Longrightarrow> list_all P (xs[i := x])"
  by (auto simp: list_all_iff dest: set_update_subset_insert[THEN subsetD])

lemma toggle_keeps:
  assumes "list_ex dm_keep ms" "m < length ms" "\<not> (dm_keep (ms ! m) \<and> length (filter dm_keep ms) \<le> 1)"
  shows "list_ex dm_keep (ms[m := (ms ! m)\<lparr>dm_keep := \<not> dm_keep (ms ! m)\<rparr>])"
proof (cases "dm_keep (ms ! m)")
  case False
  have "(ms ! m)\<lparr>dm_keep := True\<rparr> \<in> set (ms[m := (ms ! m)\<lparr>dm_keep := True\<rparr>])" using assms(2) by (rule set_update_memI)
  then show ?thesis using False by (force simp: list_ex_iff)
next
  case True
  have "\<exists>k < length ms. k \<noteq> m \<and> dm_keep (ms ! k)"
  proof (rule ccontr)
    assume "\<not> (\<exists>k < length ms. k \<noteq> m \<and> dm_keep (ms ! k))"
    then have "{i. i < length ms \<and> dm_keep (ms ! i)} \<subseteq> {m}" by blast
    then have "length (filter dm_keep ms) \<le> card {m}" unfolding length_filter_conv_card by (intro card_mono) auto
    then show False using assms(3) True by simp
  qed
  then obtain k where "k < length ms" "k \<noteq> m" "dm_keep (ms ! k)" by blast
  then have "ms ! k \<in> set (ms[m := (ms ! m)\<lparr>dm_keep := \<not> dm_keep (ms ! m)\<rparr>])"
    by (metis length_list_update nth_list_update_neq nth_mem)
  then show ?thesis using \<open>dm_keep (ms ! k)\<close> by (auto simp: list_ex_iff)
qed

lemma keep_only_keeps: "m < length ms \<Longrightarrow> list_ex dm_keep (map (\<lambda>(i, x). x\<lparr>dm_keep := (i = m)\<rparr>) (enumerate 0 ms))"
  by (auto simp: list_ex_iff in_set_enumerate_eq intro!: bexI[of _ "(m, ms ! m)"])

definition review_ok :: "dup_review \<Rightarrow> bool" where
  "review_ok r \<longleftrightarrow> list_all keeps_one (dr_groups r)"

lemma set_members_ok: "review_ok r \<Longrightarrow> list_ex dm_keep ms \<Longrightarrow> review_ok (set_members g ms r)"
  by (simp add: review_ok_def set_members_def list_all_update keeps_one_def)

lemma review_apply_ok: "review_ok r \<Longrightarrow> review_ok (review_apply e r)"
proof (cases e)
  case (Toggle g m)
  assume ok: "review_ok r"
  show ?thesis
  proof (cases "wave_size r \<le> g \<or> length (dg_members (dr_groups r ! g)) \<le> m")
    case False
    then have "g < length (dr_groups r)" by (simp add: wave_size_def not_le)
    then have "keeps_one (dr_groups r ! g)" using ok by (simp add: review_ok_def list_all_length)
    then show ?thesis using ok False toggle_keeps
      by (auto simp: Toggle review_toggle_def Let_def keeps_one_def not_le intro!: set_members_ok)
  qed (use ok in \<open>simp add: Toggle review_toggle_def Let_def\<close>)
next
  case (KeepOnly g m)
  assume "review_ok r"
  then show ?thesis by (auto simp: KeepOnly keep_only_def Let_def not_le intro!: set_members_ok keep_only_keeps)
next
  case FinishWave
  assume "review_ok r"
  then show ?thesis by (auto simp: FinishWave finish_wave_def review_ok_def list_all_iff dest: in_set_dropD)
next
  case (Refresh fn)
  show ?thesis by (auto simp: Refresh refresh_members_def review_ok_def list_all_iff intro!: default_marks_keeps)
qed

text \<open>
     Property C2. Whatever the user marks and however far the review has gone, no group of duplicates loses
     all its copies: starting from groups that have members, after any toggles, choices, finished waves and
     refreshed members, no group of the review is entirely marked for removal.
\<close>
theorem no_group_loses_all_copies:
  assumes "list_all (\<lambda>g. dg_members g \<noteq> []) groups"
  shows "\<not> group_all_removed (foldl (\<lambda>r e. review_apply e r) (new_review groups) steps) g"
proof -
  have "set (stable_sort lt groups) = set groups" for lt :: "dup_group \<Rightarrow> dup_group \<Rightarrow> bool"
  proof -
    have "mset (stable_sort lt xs) = mset xs" for xs
    proof (induction xs)
      case (Cons x xs)
      have "mset (insert_stable lt x ys) = add_mset x (mset ys)" for ys by (induction ys) simp_all
      then show ?case using Cons by (simp add: stable_sort_def)
    qed (simp add: stable_sort_def)
    then show ?thesis by (metis set_mset_mset)
  qed
  then have "review_ok (new_review groups)"
    using assms by (auto simp: review_ok_def new_review_def list_all_iff intro!: default_marks_keeps)
  then have "review_ok (foldl (\<lambda>r e. review_apply e r) (new_review groups) steps)"
    by (induction steps rule: rev_induct) (simp_all add: review_apply_ok)
  then show ?thesis by (auto simp: review_ok_def group_all_removed_def list_all_length keeps_one_def)
qed

lemma can_apply_iff:
  assumes "review_ok r"
  shows "can_apply r = any_marked r"
  using assms by (auto simp: can_apply_def list_ex_iff group_all_removed_def review_ok_def list_all_length keeps_one_def)

lemma pixel_in_range:
  fixes w h :: nat
  assumes "x < w" "y < h" "w * h * 3 \<le> size_rgb"
  shows "(y * w + x) * 3 + 2 < size_rgb"
proof -
  have "y * w + x < w * h"
  proof -
    have "y * w + x < (y + 1) * w" using assms(1) by simp
    also have "\<dots> \<le> h * w" using assms(2) by (intro mult_le_mono1) simp
    finally show ?thesis by (simp add: mult.commute)
  qed
  then have "y * w + x + 1 \<le> w * h" by simp
  then have "(y * w + x + 1) * 3 \<le> w * h * 3" by (rule mult_le_mono1)
  moreover have "a * 3 + 2 < s" if "(a + 1) * 3 \<le> b" "b \<le> s" for a b s :: nat using that by presburger
  ultimately show ?thesis using assms(3) by blast
qed

lemma scope_filter_keeps_members:
  "gallery_path \<noteq> [] \<Longrightarrow> g \<in> set (snd (scope_filter_groups groups gallery_path)) \<longleftrightarrow>
     g \<in> set groups \<and> (\<exists>m \<in> set (dg_members g). \<exists>rest. rest \<noteq> [] \<and> dm_node_path m = gallery_path @ 0x2F # rest)"
proof -
  have "path_within q p \<longleftrightarrow> (\<exists>rest. rest \<noteq> [] \<and> p = q @ 0x2F # rest)" for q p
  proof
    assume w: "path_within q p"
    then have "p = take (length q) p @ p ! length q # drop (Suc (length q)) p"
      by (intro id_take_nth_drop) (simp add: path_within_def)
    then show "\<exists>rest. rest \<noteq> [] \<and> p = q @ 0x2F # rest"
      using w by (intro exI[of _ "drop (Suc (length q)) p"]) (simp add: path_within_def)
  qed (auto simp: path_within_def neq_Nil_conv)
  then show "gallery_path \<noteq> [] \<Longrightarrow> ?thesis" by (auto simp: scope_filter_groups_def Let_def list_ex_iff)
qed

definition sample_ref :: chunk_ref where
  "sample_ref = \<lparr>cr_offset = 0, cr_length = 0, cr_domain = ThumbDomain, cr_node_id = zero_id, cr_record = zero_id,
     cr_sequence = 0, cr_context_bound = False\<rparr>"

definition sample_member :: "bytes \<Rightarrow> dup_member" where
  "sample_member path = \<lparr>dm_node_path = path, dm_name = path, dm_parent_path = [], dm_is_video = False, dm_bytes = 10,
     dm_width = 1, dm_height = 1, dm_thumb = sample_ref, dm_data = [], dm_keep = True\<rparr>"

theorem no_group_loses_all_copies_witness:
  "\<not> group_all_removed (foldl (\<lambda>r e. review_apply e r)
     (new_review [\<lparr>dg_kind = Identical, dg_distance_bits = 0, dg_members = [sample_member [0x61], sample_member [0x62]]\<rparr>])
     [Toggle 0 0, KeepOnly 0 1, Toggle 0 1]) 0"
proof -
  have "list_all (\<lambda>g. dg_members g \<noteq> [])
      [\<lparr>dg_kind = Identical, dg_distance_bits = 0, dg_members = [sample_member [0x61], sample_member [0x62]]\<rparr>]" by simp
  from no_group_loses_all_copies[OF this, of "[Toggle 0 0, KeepOnly 0 1, Toggle 0 1]" 0] show ?thesis .
qed

end
