(* ===== verification/Rename_Batch.thy ===== *)
theory Rename_Batch
  imports Vault_Edit "HOL-Library.List_Lexorder"
begin

text \<open>
  Renaming many nodes at once (\<open>src/vault/rename_batch.cpp\<close>): the preview of a regular-expression rename,
  the check of the complete final namespace, and the transaction that swaps all names and commits once.
  PCRE2 is a parameter: \<open>compiles\<close> says whether it accepts the options, \<open>substitute\<close> is the result of one
  \<open>pcre2_substitute\<close> call under its limits and deadline, \<open>None\<close> for an error.  \<open>cancel k\<close> is the flag that the
  \<open>k\<close>-th check of the operation reads.
\<close>

section \<open>Data\<close>

record rename_options =
  ro_pattern :: bytes
  ro_replacement :: bytes
  ro_preserve_extensions :: bool
  ro_recursive :: bool
  ro_case_sensitive :: bool
  ro_all_matches :: bool

datatype rename_state = Changed | Unchanged | Unmatched | Invalid | Collision

record rename_row =
  rr_id :: bytes
  rr_parent :: bytes
  rr_before :: bytes
  rr_after :: bytes
  rr_state :: rename_state

record rename_preview =
  rp_rows :: "rename_row list"
  rp_error :: bytes

definition preview_valid :: "rename_preview \<Rightarrow> bool" where
  "preview_valid p \<longleftrightarrow> rp_error p = [] \<and> rp_rows p \<noteq> [] \<and>
     \<not> list_ex (\<lambda>r. rr_state r = Invalid \<or> rr_state r = Collision) (rp_rows p)"

text \<open>An entry of the \<open>std::map\<close>: the node pointer is an address, kept with the node it points to.\<close>

record rename_entry =
  en_addr :: addr
  en_node :: index_node
  en_parent :: bytes
  en_selected :: bool

type_synonym rename_tree = "(bytes \<times> rename_entry) list"

abbreviation node_id :: "index_node \<Rightarrow> bytes" where "node_id n \<equiv> nd_node_id (ndata n)"

fun tree_emplace :: "bytes \<Rightarrow> rename_entry \<Rightarrow> rename_tree \<Rightarrow> rename_tree option" where
  "tree_emplace i e [] = Some [(i, e)]"
| "tree_emplace i e ((j, f) # t) =
     (if i = j then None else if i < j then Some ((i, e) # (j, f) # t)
      else map_option (Cons (j, f)) (tree_emplace i e t))"

section \<open>Scanning the tree\<close>

fun node_count :: "index_node \<Rightarrow> nat" where
  "node_count (Node d cs) = Suc (sum_list (map node_count cs))"

text \<open>The stack \<open>pending\<close>, its top first.\<close>

definition push_children :: "rename_entry \<Rightarrow> bool \<Rightarrow> rename_entry list" where
  "push_children e chosen = rev (map (\<lambda>(k, c). \<lparr>en_addr = en_addr e @ [k], en_node = c,
     en_parent = node_id (en_node e), en_selected = chosen\<rparr>) (enumerate 0 (nchildren (en_node e))))"

lemma push_children_nodes: "map en_node (push_children e chosen) = rev (nchildren (en_node e))"
proof -
  have "en_node \<circ> (\<lambda>(k, c). \<lparr>en_addr = en_addr e @ [k], en_node = c, en_parent = node_id (en_node e), en_selected = chosen\<rparr>) = snd"
    by auto
  then show ?thesis by (simp add: push_children_def rev_map[symmetric])
qed

lemma push_children_count: "sum_list (map (\<lambda>e. node_count (en_node e)) (push_children e chosen)) < node_count (en_node e)"
proof -
  have "map (\<lambda>e. node_count (en_node e)) (push_children e chosen) = map node_count (map en_node (push_children e chosen))"
    by simp
  also have "\<dots> = rev (map node_count (nchildren (en_node e)))" by (simp only: push_children_nodes rev_map)
  finally show ?thesis by (cases "en_node e") (simp add: sum_list_rev)
qed

function scan_loop ::
  "(nat \<Rightarrow> bool) \<Rightarrow> nat \<Rightarrow> bytes list \<Rightarrow> bool \<Rightarrow> rename_entry list \<Rightarrow> rename_tree \<Rightarrow> rename_tree option" where
  "scan_loop cancel k wanted recursive [] tree = Some tree"
| "scan_loop cancel k wanted recursive (e # pending) tree =
     (if cancel k then None
      else let chosen = (node_id (en_node e) \<in> set wanted \<or> recursive \<and> en_selected e);
               tree' = (if en_addr e \<noteq> [] then tree_emplace (node_id (en_node e)) (e\<lparr>en_selected := chosen\<rparr>) tree else Some tree)
           in case tree' of
                None \<Rightarrow> None
              | Some tree \<Rightarrow> scan_loop cancel (Suc k) wanted recursive (push_children e chosen @ pending) tree)"
  by pat_completeness auto
termination
  by (relation "measure (\<lambda>(cancel, k, wanted, recursive, pending, tree). sum_list (map (\<lambda>e. node_count (en_node e)) pending))")
     (auto simp: push_children_count)

definition scan :: "(nat \<Rightarrow> bool) \<Rightarrow> bytes list \<Rightarrow> bool \<Rightarrow> index_node \<Rightarrow> rename_tree option" where
  "scan cancel ids recursive root =
     (case scan_loop cancel 0 ids recursive [\<lparr>en_addr = [], en_node = root, en_parent = zero_id, en_selected = False\<rparr>] [] of
        None \<Rightarrow> None
      | Some tree \<Rightarrow> if list_all (\<lambda>i. map_of tree i \<noteq> None) ids then Some tree else None)"

section \<open>Collisions in the final namespace\<close>

definition row_of :: "rename_row list \<Rightarrow> bytes \<Rightarrow> nat option" where
  "row_of rows i = find_index (\<lambda>r. rr_id r = i) rows"

definition set_state :: "rename_state \<Rightarrow> nat option \<Rightarrow> rename_row list \<Rightarrow> rename_row list" where
  "set_state s k rows = (case k of None \<Rightarrow> rows | Some k \<Rightarrow> rows[k := (rows ! k)\<lparr>rr_state := s\<rparr>])"

definition final_name :: "rename_row list \<Rightarrow> bytes \<Rightarrow> rename_entry \<Rightarrow> bytes" where
  "final_name rows i e = (case row_of rows i of None \<Rightarrow> n_name (en_node e) | Some k \<Rightarrow> rr_after (rows ! k))"

fun collision_loop ::
  "rename_tree \<Rightarrow> ((bytes \<times> bytes) \<Rightarrow> bytes option) \<Rightarrow> rename_row list \<Rightarrow> bool \<Rightarrow> bool \<times> rename_row list" where
  "collision_loop [] names rows ok = (ok, rows)"
| "collision_loop ((i, e) # tree) names rows ok =
     (let row = row_of rows i; key = (en_parent e, final_name rows i e) in
      case names key of
        None \<Rightarrow> collision_loop tree (names(key \<mapsto> i)) rows ok
      | Some at \<Rightarrow>
          if row = None \<and> row_of rows at = None then collision_loop tree names rows ok
          else collision_loop tree names (set_state Collision (row_of rows at) (set_state Collision row rows)) False)"

definition collisions :: "rename_tree \<Rightarrow> rename_preview \<Rightarrow> bool \<times> rename_preview" where
  "collisions tree p = (let (ok, rows) = collision_loop tree Map.empty (rp_rows p) True in (ok, p\<lparr>rp_rows := rows\<rparr>))"

section \<open>The regular expression\<close>

definition regex_init :: "(rename_options \<Rightarrow> bool) \<Rightarrow> rename_options \<Rightarrow> bool" where
  "regex_init compiles opt =
     (if ro_pattern opt = [] \<or> 4096 < length (ro_pattern opt) \<or> 4096 < length (ro_replacement opt) then False else compiles opt)"

text \<open>\<open>rfind('.')\<close>: the stem and the extension from the last dot that is not the first byte.\<close>

definition split_extension :: "bytes \<Rightarrow> bytes \<times> bytes" where
  "split_extension s =
     (let ext = takeWhile (\<lambda>c. c \<noteq> 0x2E) (rev s); dot = length s - length ext - 1 in
      if 0x2E \<in> set s \<and> dot \<noteq> 0 then (take dot s, drop dot s) else (s, []))"

definition regex_replace ::
  "(rename_options \<Rightarrow> bytes \<Rightarrow> (nat \<times> bytes) option) \<Rightarrow> rename_options \<Rightarrow> bool \<Rightarrow> rename_row \<Rightarrow> rename_row" where
  "regex_replace substitute opt media row =
     (if MAX_NODE_NAME_BYTES < length (rr_before row) then row\<lparr>rr_state := Invalid\<rparr>
      else let (subject, extension) = (if media \<and> ro_preserve_extensions opt then split_extension (rr_before row) else (rr_before row, []))
           in case substitute opt subject of
                None \<Rightarrow> row\<lparr>rr_state := Invalid\<rparr>
              | Some (rc, output) \<Rightarrow>
                  if MAX_NODE_NAME_BYTES < length output + length extension then row\<lparr>rr_state := Invalid\<rparr>
                  else let row = row\<lparr>rr_after := output @ extension\<rparr> in
                    if \<not> is_safe_node_name (rr_after row) then row\<lparr>rr_state := Invalid\<rparr>
                    else if rc = 0 then row\<lparr>rr_state := Unmatched\<rparr>
                    else row\<lparr>rr_state := (if rr_before row = rr_after row then Unchanged else Changed)\<rparr>)"

section \<open>Preview\<close>

definition rename_error :: "string \<Rightarrow> rename_preview" where
  "rename_error s = \<lparr>rp_rows = [], rp_error = ascii s\<rparr>"

fun preview_loop ::
  "(nat \<Rightarrow> bool) \<Rightarrow> nat \<Rightarrow> (rename_options \<Rightarrow> bytes \<Rightarrow> (nat \<times> bytes) option) \<Rightarrow> rename_options \<Rightarrow> rename_tree \<Rightarrow>
     rename_row list \<Rightarrow> bool \<times> rename_row list" where
  "preview_loop cancel k substitute opt [] rows = (True, rows)"
| "preview_loop cancel k substitute opt ((i, e) # tree) rows =
     (if cancel k then (False, rows)
      else preview_loop cancel (Suc k) substitute opt tree
        (if en_selected e
         then rows @ [regex_replace substitute opt (\<not> is_gallery (en_node e))
           \<lparr>rr_id = i, rr_parent = en_parent e, rr_before = n_name (en_node e), rr_after = n_name (en_node e), rr_state = Unmatched\<rparr>]
         else rows))"

definition preview_rename ::
  "(rename_options \<Rightarrow> bool) \<Rightarrow> (rename_options \<Rightarrow> bytes \<Rightarrow> (nat \<times> bytes) option) \<Rightarrow> (nat \<Rightarrow> bool) \<Rightarrow> (nat \<Rightarrow> bool) \<Rightarrow>
     bytes list \<Rightarrow> rename_options \<Rightarrow> vault \<Rightarrow> rename_preview" where
  "preview_rename compiles substitute cancel cancel' selected opt v =
     (if \<not> vt_unlocked v \<or> vt_read_only v then rename_error ''Vault is not writable.''
      else if \<not> regex_init compiles opt then rename_error ''Invalid expression or regex compile limit exceeded.''
      else case scan cancel selected (ro_recursive opt) (vt_root v) of
          None \<Rightarrow> rename_error ''Selection is stale or cancelled.''
        | Some tree \<Rightarrow>
            (case preview_loop cancel' 0 substitute opt tree [] of
               (False, rows) \<Rightarrow> \<lparr>rp_rows = rows, rp_error = ascii ''Cancelled.''\<rparr>
             | (True, rows) \<Rightarrow> snd (collisions tree \<lparr>rp_rows = rows, rp_error = []\<rparr>)))"

section \<open>Applying a preview\<close>

text \<open>The check of every row against the tree; \<open>seen\<close> are the ids of the rows before.\<close>

fun rows_current :: "rename_tree \<Rightarrow> bytes list \<Rightarrow> rename_row list \<Rightarrow> bool" where
  "rows_current tree seen [] = True"
| "rows_current tree seen (r # rows) =
     (case map_of tree (rr_id r) of
        None \<Rightarrow> False
      | Some e \<Rightarrow>
          if rr_id r \<in> set seen \<or> en_parent e \<noteq> rr_parent r \<or> n_name (en_node e) \<noteq> rr_before r \<or> \<not> is_safe_node_name (rr_after r)
          then False else rows_current tree (rr_id r # seen) rows)"

definition name_changes :: "rename_tree \<Rightarrow> rename_row list \<Rightarrow> (addr \<times> bytes) list" where
  "name_changes tree rows =
     map (\<lambda>r. (en_addr (the (map_of tree (rr_id r))), rr_after r)) (filter (\<lambda>r. rr_before r \<noteq> rr_after r) rows)"

text \<open>The loop of \<open>std::swap(node->name, name)\<close>: the pairs then hold the old names.\<close>

fun swap_names :: "(addr \<times> bytes) list \<Rightarrow> index_node \<Rightarrow> (addr \<times> bytes) list \<times> index_node" where
  "swap_names [] root = ([], root)"
| "swap_names ((a, nm) # cs) root =
     (case swap_names cs (update_at a (set_name nm) root) of
        (cs', root') \<Rightarrow> ((a, n_name (node_at a root)) # cs', root'))"

definition commit_staged :: "bool \<Rightarrow> (vault \<Rightarrow> vault_result) \<Rightarrow> vault \<Rightarrow> vault_result" where
  "commit_staged synced commit v =
     (if \<not> vt_unlocked v then ResLocked
      else if vt_v3 v then vault_commit_index commit v
      else if \<not> synced then ResIoError
      else vault_commit_index commit v)"

definition apply_rename ::
  "bool \<Rightarrow> (vault \<Rightarrow> vault_result) \<Rightarrow> (nat \<Rightarrow> bool) \<Rightarrow> bool \<Rightarrow> bool \<Rightarrow> rename_preview \<Rightarrow> vault \<Rightarrow> vault_result \<times> vault" where
  "apply_rename synced commit cancel cancel_checked cancel_changes preview v =
     (if \<not> vt_unlocked v then (ResLocked, v)
      else if vt_read_only v \<or> \<not> preview_valid preview then (ResInvalidArg, v)
      else case scan cancel [] False (vt_root v) of
          None \<Rightarrow> (ResInvalidArg, v)
        | Some tree \<Rightarrow>
            if \<not> rows_current tree [] (rp_rows preview) then (ResInvalidArg, v)
            else if \<not> fst (collisions tree preview) \<or> cancel_checked then (ResInvalidArg, v)
            else let changes = name_changes tree (rp_rows preview) in
              if cancel_changes then (ResInvalidArg, v)
              else if changes = [] then (ResOk, v)
              else case swap_names changes (vt_root v) of
                  (old, root) \<Rightarrow>
                    (let v' = v\<lparr>vt_root := root\<rparr>; result = commit_staged synced commit v' in
                     if result = ResOk then (result, v')
                     else (result, v'\<lparr>vt_root := snd (swap_names old root)\<rparr>)))"

section \<open>What a scan finds\<close>

definition keys_sorted :: "rename_tree \<Rightarrow> bool" where
  "keys_sorted t \<longleftrightarrow> sorted_wrt (<) (map fst t)"

lemma keys_sorted_distinct: "keys_sorted t \<Longrightarrow> distinct (map fst t)"
  by (simp add: keys_sorted_def strict_sorted_iff)

lemma keys_sorted_map_of: "keys_sorted t \<Longrightarrow> map_of t i = Some e \<longleftrightarrow> (i, e) \<in> set t"
  by (simp add: keys_sorted_distinct)

lemma tree_emplace_set: "tree_emplace i e t = Some t' \<Longrightarrow> set t' = insert (i, e) (set t)"
  by (induction i e t arbitrary: t' rule: tree_emplace.induct) (auto split: if_splits)

lemma tree_emplace_sorted: "tree_emplace i e t = Some t' \<Longrightarrow> keys_sorted t \<Longrightarrow> keys_sorted t'"
proof (induction i e t arbitrary: t' rule: tree_emplace.induct)
  case (2 i e j f t)
  show ?case
  proof (cases i j rule: linorder_cases)
    case less
    then show ?thesis using 2(2,3) less_imp_neq[OF less] by (force simp: keys_sorted_def intro: less_trans)
  next
    case equal
    then show ?thesis using 2(2) by simp
  next
    case greater
    then obtain t'' where t: "tree_emplace i e t = Some t''" "t' = (j, f) # t''" using 2(2) greater less_imp_neq[OF greater] by (auto split: if_splits)
    have "keys_sorted t''" using 2(1)[OF _ _ t(1)] 2(3) greater by (auto simp: keys_sorted_def)
    moreover have "\<forall>x \<in> fst ` set t''. j < x" using 2(3) greater tree_emplace_set[OF t(1)] by (auto simp: keys_sorted_def)
    ultimately show ?thesis by (simp add: t(2) keys_sorted_def)
  qed
qed (simp add: keys_sorted_def)

text \<open>\<open>e\<close> is the entry of the node at \<open>b\<close> below \<open>p\<close>.\<close>

definition at_item :: "rename_entry \<Rightarrow> addr \<Rightarrow> rename_entry \<Rightarrow> bool" where
  "at_item p b e \<longleftrightarrow> valid_addr b (en_node p) \<and> en_addr e = en_addr p @ b \<and> en_node e = node_at b (en_node p) \<and>
     en_parent e = (if b = [] then en_parent p else node_id (node_at (butlast b) (en_node p)))"

lemma set_push_children:
  "c \<in> set (push_children e ch) \<longleftrightarrow> (\<exists>k < length (nchildren (en_node e)). c = \<lparr>en_addr = en_addr e @ [k],
     en_node = nchildren (en_node e) ! k, en_parent = node_id (en_node e), en_selected = ch\<rparr>)"
  by (force simp: push_children_def in_set_enumerate_eq)

lemma at_item_child:
  "k < length (nchildren (en_node p)) \<Longrightarrow>
     at_item p (k # b) e \<longleftrightarrow> at_item \<lparr>en_addr = en_addr p @ [k], en_node = nchildren (en_node p) ! k,
       en_parent = node_id (en_node p), en_selected = ch\<rparr> b e"
  by (auto simp: at_item_def)

lemma scan_loop_items:
  "scan_loop cancel k wanted recursive pending tree = Some T \<Longrightarrow> keys_sorted tree \<Longrightarrow>
     keys_sorted T \<and> set tree \<subseteq> set T \<and>
     (\<forall>i e. (i, e) \<in> set T \<longrightarrow> (i, e) \<in> set tree \<or>
        (\<exists>p \<in> set pending. \<exists>b. at_item p b e \<and> i = node_id (en_node e) \<and> en_addr e \<noteq> [])) \<and>
     (\<forall>p \<in> set pending. \<forall>b. valid_addr b (en_node p) \<and> en_addr p @ b \<noteq> [] \<longrightarrow>
        (\<exists>e. (node_id (node_at b (en_node p)), e) \<in> set T \<and> at_item p b e))"
proof (induction cancel k wanted recursive pending tree rule: scan_loop.induct)
  case (2 cancel k wanted recursive p pending tree)
  define ch where "ch = (node_id (en_node p) \<in> set wanted \<or> recursive \<and> en_selected p)"
  let ?kids = "push_children p ch"
  have nc: "\<not> cancel k" using 2(2) by auto
  obtain tree' where t': "(if en_addr p \<noteq> [] then tree_emplace (node_id (en_node p)) (p\<lparr>en_selected := ch\<rparr>) tree else Some tree) = Some tree'"
    and rec: "scan_loop cancel (Suc k) wanted recursive (?kids @ pending) tree' = Some T"
    using 2(2) nc by (auto simp: ch_def Let_def split: option.splits if_splits)
  have sorted': "keys_sorted tree'" using t' 2(3) tree_emplace_sorted by (auto split: if_splits)
  have set': "set tree' = (if en_addr p \<noteq> [] then insert (node_id (en_node p), p\<lparr>en_selected := ch\<rparr>) (set tree) else set tree)"
    using t' tree_emplace_set by (auto split: if_splits)
  have self: "at_item p [] (p\<lparr>en_selected := ch\<rparr>)" by (simp add: at_item_def)
  note IH = 2(1)[OF nc ch_def t'[symmetric, unfolded ch_def[symmetric]] , unfolded ch_def[symmetric], OF refl rec sorted']
  have T: "keys_sorted T" "set tree' \<subseteq> set T" using IH by blast+
  have kid: "\<exists>c \<in> set ?kids. at_item c b e" if "at_item p (j # b) e" for j b e
  proof -
    have j: "j < length (nchildren (en_node p))" using that by (simp add: at_item_def)
    then have "\<lparr>en_addr = en_addr p @ [j], en_node = nchildren (en_node p) ! j, en_parent = node_id (en_node p),
        en_selected = ch\<rparr> \<in> set ?kids" by (auto simp: set_push_children)
    then show ?thesis using that at_item_child[OF j] by blast
  qed
  have up: "\<exists>j. at_item p (j # b) e" if "c \<in> set ?kids" "at_item c b e" for c b e
    using that at_item_child unfolding set_push_children by metis
  have a: "(i, e) \<in> set tree \<or> (\<exists>q \<in> set (p # pending). \<exists>b. at_item q b e \<and> i = node_id (en_node e) \<and> en_addr e \<noteq> [])"
    if "(i, e) \<in> set T" for i e
  proof -
    have "(i, e) \<in> set tree' \<or> (\<exists>q \<in> set (?kids @ pending). \<exists>b. at_item q b e \<and> i = node_id (en_node e) \<and> en_addr e \<noteq> [])"
      using IH that by blast
    then show ?thesis
    proof
      assume "(i, e) \<in> set tree'"
      then show ?thesis using set' self by (auto split: if_splits)
    next
      assume "\<exists>q \<in> set (?kids @ pending). \<exists>b. at_item q b e \<and> i = node_id (en_node e) \<and> en_addr e \<noteq> []"
      then show ?thesis using up by (metis Un_iff list.set_intros(1,2) set_append)
    qed
  qed
  have b: "\<exists>e. (node_id (node_at b (en_node q)), e) \<in> set T \<and> at_item q b e"
    if "q \<in> set (p # pending)" "valid_addr b (en_node q)" "en_addr q @ b \<noteq> []" for q b
  proof (cases "q \<in> set pending")
    case True
    then show ?thesis using IH that by (metis Un_iff set_append)
  next
    case False
    then have q: "q = p" using that(1) by simp
    show ?thesis
    proof (cases b)
      case Nil
      then have "(node_id (en_node p), p\<lparr>en_selected := ch\<rparr>) \<in> set T" using that(3) q set' T(2) by auto
      then show ?thesis using self Nil q by auto
    next
      case (Cons j b')
      have "at_item p (j # b') \<lparr>en_addr = en_addr p @ j # b', en_node = node_at (j # b') (en_node p),
          en_parent = node_id (node_at (butlast (j # b')) (en_node p)), en_selected = False\<rparr>"
        using that(2) q Cons by (simp add: at_item_def)
      let ?c = "\<lparr>en_addr = en_addr p @ [j], en_node = nchildren (en_node p) ! j, en_parent = node_id (en_node p), en_selected = ch\<rparr>"
      have j: "j < length (nchildren (en_node p))" using that(2) q Cons by simp
      then have c: "?c \<in> set ?kids" by (auto simp: set_push_children)
      have "valid_addr b' (en_node ?c)" "en_addr ?c @ b' \<noteq> []" using that(2) q Cons by simp_all
      then obtain e where "(node_id (node_at b' (en_node ?c)), e) \<in> set T" "at_item ?c b' e"
        using IH c by (metis Un_iff set_append)
      then show ?thesis using at_item_child[OF j, of b' e ch] q Cons by auto
    qed
  qed
  show ?case using T set' a b by (auto split: if_splits)
qed (auto simp: at_item_def)

definition scanned :: "index_node \<Rightarrow> rename_tree \<Rightarrow> bool" where
  "scanned root T \<longleftrightarrow> keys_sorted T \<and>
     (\<forall>i e. (i, e) \<in> set T \<longrightarrow> valid_addr (en_addr e) root \<and> en_addr e \<noteq> [] \<and> en_node e = node_at (en_addr e) root \<and>
        i = node_id (en_node e) \<and> en_parent e = node_id (node_at (butlast (en_addr e)) root)) \<and>
     (\<forall>a. valid_addr a root \<and> a \<noteq> [] \<longrightarrow> (\<exists>e. map_of T (node_id (node_at a root)) = Some e \<and> en_addr e = a))"

lemma scan_scanned:
  assumes "scan cancel ids recursive root = Some T"
  shows "scanned root T"
proof -
  let ?r = "\<lparr>en_addr = [], en_node = root, en_parent = zero_id, en_selected = False\<rparr>"
  have "scan_loop cancel 0 ids recursive [?r] [] = Some T" using assms by (auto simp: scan_def split: option.splits if_splits)
  from scan_loop_items[OF this] have T: "keys_sorted T"
    "\<And>i e. (i, e) \<in> set T \<Longrightarrow> \<exists>b. at_item ?r b e \<and> i = node_id (en_node e) \<and> en_addr e \<noteq> []"
    "\<And>b. valid_addr b root \<Longrightarrow> b \<noteq> [] \<Longrightarrow> \<exists>e. (node_id (node_at b root), e) \<in> set T \<and> at_item ?r b e"
    by (auto simp: keys_sorted_def)
  have "\<exists>e. map_of T (node_id (node_at a root)) = Some e \<and> en_addr e = a" if "valid_addr a root" "a \<noteq> []" for a
    using T(3)[OF that] T(1) by (auto simp: keys_sorted_map_of at_item_def)
  moreover have "valid_addr (en_addr e) root \<and> en_addr e \<noteq> [] \<and> en_node e = node_at (en_addr e) root \<and>
        i = node_id (en_node e) \<and> en_parent e = node_id (node_at (butlast (en_addr e)) root)" if "(i, e) \<in> set T" for i e
    using T(2)[OF that] by (auto simp: at_item_def)
  ultimately show ?thesis using T(1) unfolding scanned_def by blast
qed

section \<open>What the collision check decides\<close>

lemma row_of_set_state [simp]: "row_of (set_state s k rows) i = row_of rows i"
proof -
  have f: "find_index (\<lambda>r. rr_id r = i) rs = find_index (\<lambda>x. x = i) (map rr_id rs)" for rs
    by (induction rs) simp_all
  have "map rr_id (set_state s k rows) = map rr_id rows"
    by (auto simp: set_state_def map_update split: option.splits) (metis list_update_beyond list_update_id map_update not_le nth_map length_map)
  then show ?thesis by (simp add: row_of_def f)
qed

lemma row_of_Some: "row_of rows i = Some k \<Longrightarrow> k < length rows \<and> rr_id (rows ! k) = i"
  by (simp add: row_of_def find_index_Some)

lemma set_state_after: "k < length rows \<Longrightarrow> rr_after (set_state s j rows ! k) = rr_after (rows ! k)"
  by (cases j) (auto simp: set_state_def, metis list_update_beyond not_le nth_list_update_eq nth_list_update_neq rename_row.select_convs(4) rename_row.surjective rename_row.update_convs(5))

lemma length_set_state [simp]: "length (set_state s j rows) = length rows"
  by (simp add: set_state_def split: option.splits)

lemma final_name_set_state [simp]: "final_name (set_state s j rows) i e = final_name rows i e"
  by (auto simp: final_name_def set_state_after dest: row_of_Some split: option.splits)

lemma collision_loop_False: "fst (collision_loop tree names rows False) = False"
  by (induction tree names rows False rule: collision_loop.induct) (auto simp: Let_def split: option.splits)

abbreviation entry_key :: "rename_row list \<Rightarrow> bytes \<Rightarrow> rename_entry \<Rightarrow> bytes \<times> bytes" where
  "entry_key rows i e \<equiv> (en_parent e, final_name rows i e)"

definition clear_names :: "rename_row list \<Rightarrow> ((bytes \<times> bytes) \<Rightarrow> bytes option) \<Rightarrow> rename_tree \<Rightarrow> bool" where
  "clear_names rows names tree \<longleftrightarrow> (\<forall>i e f. (i, e) \<in> set tree \<longrightarrow> names (entry_key rows i e) = Some f \<longrightarrow>
     row_of rows i = None \<and> row_of rows f = None)"

text \<open>Two entries with the same place and name in the final namespace are both outside the selection.\<close>

definition clear_pairs :: "rename_row list \<Rightarrow> rename_tree \<Rightarrow> bool" where
  "clear_pairs rows tree \<longleftrightarrow> (\<forall>i e j g. (i, e) \<in> set tree \<longrightarrow> (j, g) \<in> set tree \<longrightarrow> (i, e) \<noteq> (j, g) \<longrightarrow>
     entry_key rows i e = entry_key rows j g \<longrightarrow> row_of rows i = None \<and> row_of rows j = None)"

lemma clear_pairs_Cons:
  assumes "clear_pairs rows tree"
    and "\<And>j g. (j, g) \<in> set tree \<Longrightarrow> entry_key rows j g = entry_key rows i e \<Longrightarrow> row_of rows i = None \<and> row_of rows j = None"
  shows "clear_pairs rows ((i, e) # tree)"
  unfolding clear_pairs_def
proof (intro allI impI)
  fix i1 e1 j1 g1
  assume a: "(i1, e1) \<in> set ((i, e) # tree)" "(j1, g1) \<in> set ((i, e) # tree)" "(i1, e1) \<noteq> (j1, g1)"
    and k: "entry_key rows i1 e1 = entry_key rows j1 g1"
  consider "(i1, e1) = (i, e)" "(j1, g1) \<in> set tree" | "(j1, g1) = (i, e)" "(i1, e1) \<in> set tree"
    | "(i1, e1) \<in> set tree" "(j1, g1) \<in> set tree" using a by auto
  then show "row_of rows i1 = None \<and> row_of rows j1 = None"
  proof cases
    case 1
    then show ?thesis using assms(2)[OF 1(2)] k by simp
  next
    case 2
    then show ?thesis using assms(2)[OF 2(2)] k by simp
  next
    case 3
    then show ?thesis using assms(1) a(3) k unfolding clear_pairs_def by blast
  qed
qed

lemma collision_loop_ok:
  "fst (collision_loop tree names rows ok) \<Longrightarrow> ok \<and> clear_names rows names tree \<and> clear_pairs rows tree"
proof (induction tree names rows ok rule: collision_loop.induct)
  case (2 i e tree names rows ok)
  show ?case
  proof (cases "names (entry_key rows i e)")
    case None
    then have "fst (collision_loop tree (names(entry_key rows i e \<mapsto> i)) rows ok)" using 2(4) by (simp add: Let_def)
    note IH = 2(1)[OF refl refl None this]
    have "clear_names rows names ((i, e) # tree)"
      using IH None unfolding clear_names_def by (metis fun_upd_apply option.distinct(1) prod.inject set_ConsD)
    moreover have "clear_pairs rows ((i, e) # tree)"
    proof (rule clear_pairs_Cons)
      fix j g assume "(j, g) \<in> set tree" "entry_key rows j g = entry_key rows i e"
      then show "row_of rows i = None \<and> row_of rows j = None"
        using IH unfolding clear_names_def by (metis fun_upd_same)
    qed (use IH in blast)
    ultimately show ?thesis using IH by blast
  next
    case (Some f)
    show ?thesis
    proof (cases "row_of rows i = None \<and> row_of rows f = None")
      case True
      then have "fst (collision_loop tree names rows ok)" using 2(4) Some by (simp add: Let_def)
      note IH = 2(2)[OF refl refl Some True this]
      have "clear_names rows names ((i, e) # tree)"
        using IH Some True unfolding clear_names_def by (metis option.inject prod.inject set_ConsD)
      moreover have "clear_pairs rows ((i, e) # tree)"
      proof (rule clear_pairs_Cons)
        fix j g assume "(j, g) \<in> set tree" "entry_key rows j g = entry_key rows i e"
        then show "row_of rows i = None \<and> row_of rows j = None"
          using IH Some True unfolding clear_names_def by metis
      qed (use IH in blast)
      ultimately show ?thesis using IH by blast
    next
      case False
      then have "fst (collision_loop tree names
          (set_state Collision (row_of rows f) (set_state Collision (row_of rows i) rows)) False)"
        using 2(4) Some by (auto simp: Let_def)
      then show ?thesis by (simp add: collision_loop_False)
    qed
  qed
qed (simp add: clear_names_def clear_pairs_def)

text \<open>A failed check marks a row.\<close>

lemma set_state_marks:
  "k < length rows \<Longrightarrow> list_ex (\<lambda>r. rr_state r = s) (set_state s (Some k) rows)"
  by (auto simp: set_state_def list_ex_iff set_update_memI intro!: bexI[of _ "(rows ! k)\<lparr>rr_state := s\<rparr>"])

lemma set_state_keeps: "list_ex (\<lambda>r. rr_state r = s) rows \<Longrightarrow> list_ex (\<lambda>r. rr_state r = s) (set_state s k rows)"
proof (cases k)
  case (Some j)
  assume "list_ex (\<lambda>r. rr_state r = s) rows"
  then obtain m where m: "m < length rows" "rr_state (rows ! m) = s" by (auto simp: list_ex_length)
  show ?thesis
  proof (cases "j = m")
    case True
    then show ?thesis using m set_state_marks[of m rows s] Some by simp
  next
    case False
    then show ?thesis using m by (auto simp: Some set_state_def list_ex_length intro!: exI[of _ m])
  qed
qed (simp add: set_state_def)

lemma collision_loop_marks:
  "collision_loop tree names rows ok = (False, rows') \<Longrightarrow> ok \<or> list_ex (\<lambda>r. rr_state r = Collision) rows \<Longrightarrow>
     list_ex (\<lambda>r. rr_state r = Collision) rows'"
proof (induction tree names rows ok rule: collision_loop.induct)
  case (2 i e tree names rows ok)
  show ?case
  proof (cases "names (entry_key rows i e)")
    case None
    then have "collision_loop tree (names(entry_key rows i e \<mapsto> i)) rows ok = (False, rows')" using 2(4) by (simp add: Let_def)
    from 2(1)[OF refl refl None this 2(5)] show ?thesis .
  next
    case (Some f)
    show ?thesis
    proof (cases "row_of rows i = None \<and> row_of rows f = None")
      case True
      then show ?thesis using 2 Some by (simp add: Let_def)
    next
      case False
      let ?rows = "set_state Collision (row_of rows f) (set_state Collision (row_of rows i) rows)"
      have "list_ex (\<lambda>r. rr_state r = Collision) ?rows"
      proof (cases "row_of rows f")
        case None
        then obtain k where "row_of rows i = Some k" using False by auto
        then show ?thesis using None row_of_Some set_state_marks set_state_keeps by metis
      next
        case (Some k)
        then show ?thesis using row_of_Some[OF Some] set_state_marks by (metis length_set_state)
      qed
      moreover have "collision_loop tree names ?rows False = (False, rows')" using 2(4) Some False by (auto simp: Let_def)
      ultimately show ?thesis using 2(3)[OF refl refl Some False] by blast
    qed
  qed
qed simp

section \<open>What the swaps do to the tree\<close>

lemma set_name_simps [simp]:
  "ndata (set_name nm n) = (ndata n)\<lparr>nd_name := nm\<rparr>" "nchildren (set_name nm n) = nchildren n"
  by (cases n; simp add: set_name_def map_data_def)+

lemma valid_update [simp]: "valid_addr b (update_at a (set_name nm) n) = valid_addr b n"
proof (induction a arbitrary: b n)
  case Nil
  then show ?case by (cases b) simp_all
next
  case (Cons k a)
  show ?case
  proof (cases n)
    case (Node d cs)
    then show ?thesis
    proof (cases b)
      case b: (Cons j b')
      show ?thesis using Cons by (cases "j = k") (auto simp: Node b nth_list_update)
    qed simp
  qed
qed

lemma data_update:
  "valid_addr a n \<Longrightarrow> valid_addr b n \<Longrightarrow>
     ndata (node_at b (update_at a (set_name nm) n)) = (if b = a then (ndata (node_at b n))\<lparr>nd_name := nm\<rparr> else ndata (node_at b n))"
proof (induction a arbitrary: b n)
  case Nil
  then show ?case by (cases b) simp_all
next
  case (Cons k a)
  obtain d cs where n: "n = Node d cs" by (cases n)
  show ?case
  proof (cases b)
    case b: (Cons j b')
    show ?thesis using Cons by (cases "j = k") (auto simp: n b)
  qed (simp add: n)
qed

lemma kids_length_update: "valid_addr b n \<Longrightarrow> length (nchildren (node_at b (update_at a (set_name nm) n))) = length (nchildren (node_at b n))"
proof (induction a arbitrary: b n)
  case Nil
  then show ?case by (cases b) simp_all
next
  case (Cons k a)
  obtain d cs where n: "n = Node d cs" by (cases n)
  show ?case
  proof (cases b)
    case b: (Cons j b')
    show ?thesis using Cons by (cases "j = k") (auto simp: n b nth_list_update)
  qed (simp add: n)
qed

lemma swap_shape:
  "valid_addr b (snd (swap_names cs n)) = valid_addr b n"
  "valid_addr b n \<Longrightarrow> length (nchildren (node_at b (snd (swap_names cs n)))) = length (nchildren (node_at b n))"
proof (induction cs n rule: swap_names.induct)
  case (2 a nm cs n)
  { case 1 show ?case using 2(1) by (simp add: case_prod_beta) }
  { case 2 then show ?case using "2.IH"(2) kids_length_update by (simp add: case_prod_beta) }
qed simp_all

lemma swap_data:
  assumes "distinct (map fst cs)" "\<forall>(a, nm) \<in> set cs. valid_addr a n" "valid_addr b n"
  shows "ndata (node_at b (snd (swap_names cs n))) =
     (case map_of cs b of None \<Rightarrow> ndata (node_at b n) | Some nm \<Rightarrow> (ndata (node_at b n))\<lparr>nd_name := nm\<rparr>)"
  using assms
proof (induction cs n rule: swap_names.induct)
  case (2 a nm cs n)
  have "a \<notin> fst ` set cs" "valid_addr a n" using 2(2,3) by auto
  then have "map_of cs a = None" by (simp add: map_of_eq_None_iff)
  then show ?case using 2 data_update[OF \<open>valid_addr a n\<close> 2(4)]
    by (auto simp: case_prod_beta split: option.splits)
qed simp

lemma swap_old:
  assumes "distinct (map fst cs)" "\<forall>(a, nm) \<in> set cs. valid_addr a n"
  shows "fst (swap_names cs n) = map (\<lambda>(a, nm). (a, n_name (node_at a n))) cs"
  using assms
proof (induction cs n rule: swap_names.induct)
  case (2 a nm cs n)
  have "n_name (node_at b (update_at a (set_name nm) n)) = n_name (node_at b n)" if "(b, x) \<in> set cs" for b x
    using data_update[of a n b nm] 2(2,3) that by force
  then show ?case using 2 by (auto simp: case_prod_beta)
qed simp

text \<open>Trees with the same addresses and the same data are the same.\<close>

lemma tree_ext: "(\<And>b. valid_addr b n = valid_addr b m) \<Longrightarrow> (\<And>b. valid_addr b n \<Longrightarrow> ndata (node_at b n) = ndata (node_at b m)) \<Longrightarrow> n = m"
proof (induction n arbitrary: m)
  case (Node d cs)
  obtain d' cs' where m: "m = Node d' cs'" by (cases m)
  have "d = d'" using Node(3)[of "[]"] by (simp add: m)
  have len: "k < length cs \<longleftrightarrow> k < length cs'" for k using Node(2)[of "[k]"] by (simp add: m)
  then have l: "length cs = length cs'" by (metis linorder_neqE_nat less_irrefl)
  have "cs ! k = cs' ! k" if "k < length cs" for k
  proof (rule Node(1))
    show "cs ! k \<in> set cs" using that by simp
    show "valid_addr b (cs ! k) = valid_addr b (cs' ! k)" for b using Node(2)[of "k # b"] that len by (simp add: m)
    show "ndata (node_at b (cs ! k)) = ndata (node_at b (cs' ! k))" if "valid_addr b (cs ! k)" for b
      using Node(3)[of "k # b"] that \<open>k < length cs\<close> by (simp add: m)
  qed
  then show ?case using \<open>d = d'\<close> l by (auto simp: m intro: nth_equalityI)
qed

lemma swap_back:
  assumes "distinct (map fst cs)" "\<forall>(a, nm) \<in> set cs. valid_addr a n"
  shows "snd (swap_names (fst (swap_names cs n)) (snd (swap_names cs n))) = n"
proof -
  let ?m = "snd (swap_names cs n)"
  let ?old = "map (\<lambda>(a, nm). (a, n_name (node_at a n))) cs"
  have d: "distinct (map fst ?old)" using assms(1) by (simp add: case_prod_beta o_def)
  have v: "\<forall>(a, nm) \<in> set ?old. valid_addr a ?m" using assms(2) by (auto simp: swap_shape(1))
  have mo: "map_of ?old b = map_option (\<lambda>_. n_name (node_at b n)) (map_of cs b)" for b
    by (induction cs) auto
  have "snd (swap_names ?old ?m) = n"
  proof (rule tree_ext)
    show "valid_addr b (snd (swap_names ?old ?m)) = valid_addr b n" for b by (simp add: swap_shape(1))
    fix b assume "valid_addr b (snd (swap_names ?old ?m))"
    then have b: "valid_addr b ?m" "valid_addr b n" by (simp_all add: swap_shape(1))
    show "ndata (node_at b (snd (swap_names ?old ?m))) = ndata (node_at b n)"
      unfolding swap_data[OF d v b(1)] swap_data[OF assms b(2)] mo by (simp split: option.splits)
  qed
  then show ?thesis by (simp add: swap_old[OF assms])
qed

text \<open>Well-formedness, address by address.\<close>

lemma tree_wf_addresses:
  "tree_wf n \<longleftrightarrow> (\<forall>a. valid_addr a n \<longrightarrow>
     (n_type (node_at a n) \<noteq> Gallery \<longrightarrow> nchildren (node_at a n) = []) \<and>
     distinct (map n_name (nchildren (node_at a n))) \<and>
     (\<forall>c \<in> set (nchildren (node_at a n)). is_safe_node_name (n_name c)))" (is "?L = ?R n")
proof (induction n)
  case (Node d cs)
  have "?R (Node d cs) \<longleftrightarrow> (d = d \<and> (nd_type d \<noteq> Gallery \<longrightarrow> cs = []) \<and> distinct (map n_name cs) \<and>
      (\<forall>c \<in> set cs. is_safe_node_name (n_name c))) \<and> (\<forall>k < length cs. ?R (cs ! k))"
    (is "?R' \<longleftrightarrow> ?top \<and> ?below")
  proof
    assume r: ?R'
    have ?top using r[rule_format, of "[]"] by simp
    moreover have ?below using r[rule_format, of "k # a" for k a] by (metis node_at.simps(2) valid_addr.simps(2) index_node.sel(2))
    ultimately show "?top \<and> ?below" by blast
  next
    assume tb: "?top \<and> ?below"
    show ?R'
    proof (intro allI impI)
      fix a assume v: "valid_addr a (Node d cs)"
      show "(n_type (node_at a (Node d cs)) \<noteq> Gallery \<longrightarrow> nchildren (node_at a (Node d cs)) = []) \<and>
          distinct (map n_name (nchildren (node_at a (Node d cs)))) \<and>
          (\<forall>c \<in> set (nchildren (node_at a (Node d cs))). is_safe_node_name (n_name c))"
      proof (cases a)
        case Nil
        then show ?thesis using tb by simp
      next
        case (Cons k b)
        have "k < length cs" "valid_addr b (cs ! k)" using v by (simp_all add: Cons)
        from tb[THEN conjunct2, rule_format, OF this] show ?thesis by (simp add: Cons)
      qed
    qed
  qed
  then show ?case using Node by (auto simp: all_set_conv_all_nth)
qed

section \<open>Renaming is a transaction\<close>

lemma rows_current_row:
  "rows_current T seen rows \<Longrightarrow> r \<in> set rows \<Longrightarrow>
     \<exists>e. map_of T (rr_id r) = Some e \<and> en_parent e = rr_parent r \<and> n_name (en_node e) = rr_before r \<and> is_safe_node_name (rr_after r)"
  by (induction T seen rows rule: rows_current.induct) (auto split: option.splits if_splits)

lemma rows_current_distinct: "rows_current T seen rows \<Longrightarrow> distinct (map rr_id rows) \<and> set (map rr_id rows) \<inter> set seen = {}"
proof (induction T seen rows rule: rows_current.induct)
  case (2 T seen r rows)
  then obtain e where "map_of T (rr_id r) = Some e" by (auto split: option.splits)
  with 2 show ?case by (auto split: if_splits)
qed simp

text \<open>A preview that passed the checks of \<open>apply_rename\<close>, on the tree it scanned.\<close>

definition checked :: "index_node \<Rightarrow> rename_tree \<Rightarrow> rename_row list \<Rightarrow> bool" where
  "checked root T rows \<longleftrightarrow> scanned root T \<and> rows_current T [] rows \<and> clear_pairs rows T"

lemma entry_at: "scanned root T \<Longrightarrow> map_of T i = Some e \<Longrightarrow> valid_addr (en_addr e) root \<and> en_addr e \<noteq> [] \<and> en_node e = node_at (en_addr e) root \<and>
    i = node_id (en_node e) \<and> en_parent e = node_id (node_at (butlast (en_addr e)) root)"
  unfolding scanned_def by (metis map_of_SomeD)

lemma row_entry:
  assumes "rows_current T [] rows" "r \<in> set rows"
  obtains e where "map_of T (rr_id r) = Some e" "en_addr (the (map_of T (rr_id r))) = en_addr e" "n_name (en_node e) = rr_before r"
    "is_safe_node_name (rr_after r)"
  using rows_current_row[OF assms] by auto

lemma changes_valid:
  assumes "checked root T rows"
  shows "\<forall>(a, nm) \<in> set (name_changes T rows). valid_addr a root"
proof -
  note c = assms[unfolded checked_def]
  have "valid_addr (en_addr (the (map_of T (rr_id r)))) root" if "r \<in> set rows" for r
    using row_entry[OF _ that] entry_at c by metis
  then show ?thesis by (auto simp: name_changes_def)
qed

lemma changes_distinct:
  assumes "checked root T rows"
  shows "distinct (map fst (name_changes T rows))"
proof -
  note c = assms[unfolded checked_def]
  then have current: "rows_current T [] rows" by blast
  have i: "inj_on (\<lambda>r. en_addr (the (map_of T (rr_id r)))) (set rows)"
  proof (rule inj_onI)
    fix r s assume r: "r \<in> set rows" "s \<in> set rows" "en_addr (the (map_of T (rr_id r))) = en_addr (the (map_of T (rr_id s)))"
    then have "rr_id r = rr_id s" using row_entry[OF current] entry_at c by metis
    then show "r = s" using r rows_current_distinct[OF current] by (simp add: distinct_map inj_on_def)
  qed
  have "distinct rows" using rows_current_distinct[OF current] by (simp add: distinct_map)
  then show ?thesis
    using i by (auto simp: name_changes_def distinct_map o_def inj_on_def)
qed

text \<open>The name that the node at \<open>a\<close> has in the final namespace.\<close>

definition new_name :: "index_node \<Rightarrow> rename_row list \<Rightarrow> addr \<Rightarrow> bytes" where
  "new_name root rows a = final_name rows (node_id (node_at a root)) \<lparr>en_addr = a, en_node = node_at a root, en_parent = [], en_selected = False\<rparr>"

lemma new_name_row: "new_name root rows a = (case row_of rows (node_id (node_at a root)) of
    None \<Rightarrow> n_name (node_at a root) | Some k \<Rightarrow> rr_after (rows ! k))"
  by (simp add: new_name_def final_name_def split: option.splits)

lemma final_name_at: "en_node e = node_at a root \<Longrightarrow> final_name rows (node_id (node_at a root)) e = new_name root rows a"
  by (auto simp: new_name_def final_name_def split: option.splits)

lemma row_of_unique: "rows_current T [] rows \<Longrightarrow> r \<in> set rows \<Longrightarrow> \<exists>k. row_of rows (rr_id r) = Some k \<and> rows ! k = r"
proof -
  assume current: "rows_current T [] rows" and r: "r \<in> set rows"
  have "row_of rows (rr_id r) \<noteq> None" using r by (auto simp: row_of_def find_index_None)
  then obtain k where k: "row_of rows (rr_id r) = Some k" by blast
  have "rows ! k = r"
    using row_of_Some[OF k] r rows_current_distinct[OF current] by (simp add: distinct_map inj_on_def)
  then show ?thesis using k by blast
qed

lemma names_after:
  assumes c: "checked root T rows" and a: "valid_addr a root" "a \<noteq> []"
  shows "ndata (node_at a (snd (swap_names (name_changes T rows) root))) = (ndata (node_at a root))\<lparr>nd_name := new_name root rows a\<rparr>"
proof -
  have current: "rows_current T [] rows" and scanned: "scanned root T" using c by (simp_all add: checked_def)
  note sd = swap_data[OF changes_distinct[OF c] changes_valid[OF c] a(1)]
  have same: "(ndata (node_at a root))\<lparr>nd_name := n_name (node_at a root)\<rparr> = ndata (node_at a root)" by simp
  show ?thesis
  proof (cases "map_of (name_changes T rows) a")
    case (Some nm)
    then obtain r where r: "r \<in> set rows" "a = en_addr (the (map_of T (rr_id r)))" "nm = rr_after r"
      by (auto simp: name_changes_def dest!: map_of_SomeD)
    obtain e where "map_of T (rr_id r) = Some e" "en_addr e = a" using row_entry[OF current r(1)] r(2) by metis
    then have "rr_id r = node_id (node_at a root)" using entry_at[OF scanned] by metis
    then have "new_name root rows a = nm" using row_of_unique[OF current r(1)] r(3) by (auto simp: new_name_def final_name_def)
    then show ?thesis using sd Some by simp
  next
    case None
    have "new_name root rows a = n_name (node_at a root)"
    proof (cases "row_of rows (node_id (node_at a root))")
      case (Some k)
      then have k: "rows ! k \<in> set rows" "rr_id (rows ! k) = node_id (node_at a root)" using row_of_Some by force+
      obtain e where e: "map_of T (node_id (node_at a root)) = Some e" "en_addr e = a" using scanned a unfolding scanned_def by blast
      have "(a, rr_after (rows ! k)) \<in> set (name_changes T rows)" if "rr_before (rows ! k) \<noteq> rr_after (rows ! k)"
        using that k e by (auto simp: name_changes_def intro!: image_eqI[of _ _ "rows ! k"])
      then have "rr_before (rows ! k) = rr_after (rows ! k)" using None by (force simp: map_of_eq_None_iff)
      moreover have "n_name (node_at a root) = rr_before (rows ! k)"
        using row_entry[OF current k(1)] k(2) e entry_at[OF scanned] by (metis option.inject)
      ultimately show ?thesis using Some by (simp add: new_name_def final_name_def)
    qed (simp add: new_name_def final_name_def)
    then show ?thesis using sd None same by simp
  qed
qed

lemma root_after:
  assumes c: "checked root T rows"
  shows "ndata (snd (swap_names (name_changes T rows) root)) = ndata root"
proof -
  have current: "rows_current T [] rows" and scanned: "scanned root T" using c by (simp_all add: checked_def)
  have "map_of (name_changes T rows) [] = None"
  proof (rule ccontr)
    assume "map_of (name_changes T rows) [] \<noteq> None"
    then obtain nm where "([], nm) \<in> set (name_changes T rows)" by (auto dest: map_of_SomeD)
    then obtain r where "r \<in> set rows" "[] = en_addr (the (map_of T (rr_id r)))" by (auto simp: name_changes_def)
    then show False using row_entry[OF current] entry_at[OF scanned] by metis
  qed
  then show ?thesis using swap_data[OF changes_distinct[OF c] changes_valid[OF c], of "[]"] by simp
qed

lemma entry_for: "scanned root T \<Longrightarrow> valid_addr a root \<Longrightarrow> a \<noteq> [] \<Longrightarrow>
    \<exists>e. map_of T (node_id (node_at a root)) = Some e \<and> en_addr e = a"
  unfolding scanned_def by blast

lemma new_names_distinct:
  assumes c: "checked root T rows"
    and w: "tree_wf root" "valid_addr (a @ [k]) root" "valid_addr (a @ [l]) root" "new_name root rows (a @ [k]) = new_name root rows (a @ [l])"
  shows "k = l"
proof (rule ccontr)
  assume "k \<noteq> l"
  have scanned: "scanned root T" and clear: "clear_pairs rows T" using c by (simp_all add: checked_def)
  obtain e f where e: "map_of T (node_id (node_at (a @ [k]) root)) = Some e" "en_addr e = a @ [k]"
    and f: "map_of T (node_id (node_at (a @ [l]) root)) = Some f" "en_addr f = a @ [l]"
    using entry_for[OF scanned w(2)] entry_for[OF scanned w(3)] by auto
  have ee: "en_node e = node_at (a @ [k]) root" "en_parent e = node_id (node_at a root)" using entry_at[OF scanned e(1)] e(2) by simp_all
  have ff: "en_node f = node_at (a @ [l]) root" "en_parent f = node_id (node_at a root)" using entry_at[OF scanned f(1)] f(2) by simp_all
  have ne: "e \<noteq> f" using e(2) f(2) \<open>k \<noteq> l\<close> by auto
  have "entry_key rows (node_id (node_at (a @ [k]) root)) e = entry_key rows (node_id (node_at (a @ [l]) root)) f"
    using w(4) ee ff by (simp add: final_name_at)
  then have "row_of rows (node_id (node_at (a @ [k]) root)) = None" "row_of rows (node_id (node_at (a @ [l]) root)) = None"
    using clear map_of_SomeD[OF e(1)] map_of_SomeD[OF f(1)] ne unfolding clear_pairs_def by blast+
  then have "n_name (node_at (a @ [k]) root) = n_name (node_at (a @ [l]) root)"
    using w(4) by (simp add: new_name_def final_name_def)
  moreover have "valid_addr a root" "k < length (nchildren (node_at a root))" "l < length (nchildren (node_at a root))"
    using w(2,3) by (simp_all add: valid_addr_snoc)
  moreover have "node_at (a @ [j]) n = nchildren (node_at a n) ! j" for j n by (induction a arbitrary: n) simp_all
  moreover have "distinct (map n_name (nchildren (node_at a root)))"
    using tree_wf_distinct tree_wf_at[OF \<open>valid_addr a root\<close> w(1)] by blast
  ultimately show False using \<open>k \<noteq> l\<close> by (simp add: distinct_conv_nth)
qed



lemma kids_at: "j < length (nchildren (node_at a n)) \<Longrightarrow> valid_addr a n \<Longrightarrow> valid_addr (a @ [j]) n \<and> node_at (a @ [j]) n = nchildren (node_at a n) ! j"
  by (induction a arbitrary: n) auto

lemma tree_wf_after:
  assumes c: "checked root T rows" and wf: "tree_wf root"
  shows "tree_wf (snd (swap_names (name_changes T rows) root))"
proof -
  let ?m = "snd (swap_names (name_changes T rows) root)"
  have scanned: "scanned root T" and current: "rows_current T [] rows" using c by (simp_all add: checked_def)
  have safe: "is_safe_node_name (new_name root rows (a @ [k]))" if "valid_addr (a @ [k]) root" for a k
  proof (cases "row_of rows (node_id (node_at (a @ [k]) root))")
    case None
    have "valid_addr a root" "k < length (nchildren (node_at a root))" using that by (simp_all add: valid_addr_snoc)
    then have "is_safe_node_name (n_name (node_at (a @ [k]) root))"
      using wf kids_at tree_wf_addresses[of root] by (metis nth_mem)
    then show ?thesis using None by (simp add: new_name_def final_name_def)
  next
    case (Some j)
    then have "rows ! j \<in> set rows" using row_of_Some by force
    then show ?thesis using row_entry[OF current] Some by (force simp: new_name_def final_name_def)
  qed
  show ?thesis unfolding tree_wf_addresses[of ?m]
  proof (intro allI impI)
    fix a assume "valid_addr a ?m"
    then have a: "valid_addr a root" by (simp add: swap_shape(1))
    let ?cs = "nchildren (node_at a ?m)"
    have len: "length ?cs = length (nchildren (node_at a root))" using swap_shape(2)[OF a] .
    have nm: "valid_addr (a @ [k]) root \<and> n_name (?cs ! k) = new_name root rows (a @ [k])" if "k < length ?cs" for k
    proof -
      have v: "valid_addr (a @ [k]) root" using kids_at[OF _ a] that len by simp
      then show ?thesis using names_after[OF c v] kids_at[OF that \<open>valid_addr a ?m\<close>] by simp
    qed
    have "n_type (node_at a ?m) = n_type (node_at a root)"
      using names_after[OF c a] root_after[OF c] by (cases "a = []") simp_all
    then have "n_type (node_at a ?m) \<noteq> Gallery \<longrightarrow> ?cs = []" using tree_wf_addresses[of root] wf a len by auto
    moreover have "distinct (map n_name ?cs)"
      unfolding distinct_conv_nth using nm new_names_distinct[OF c wf] by auto metis
    moreover have "\<forall>c \<in> set ?cs. is_safe_node_name (n_name c)" using nm safe by (auto simp: all_set_conv_all_nth)
    ultimately show "(n_type (node_at a ?m) \<noteq> Gallery \<longrightarrow> ?cs = []) \<and> distinct (map n_name ?cs) \<and>
        (\<forall>c \<in> set ?cs. is_safe_node_name (n_name c))" by blast
  qed
qed


lemma apply_rename_checked:
  assumes "apply_rename synced commit cancel c1 c2 p v = (r, v')" "r = ResOk"
  obtains T where "checked (vt_root v) T (rp_rows p)"
    "v' = v\<lparr>vt_root := snd (swap_names (name_changes T (rp_rows p)) (vt_root v))\<rparr>"
proof -
  obtain T where T: "scan cancel [] False (vt_root v) = Some T" "rows_current T [] (rp_rows p)" "fst (collisions T p)"
    using assms by (auto simp: apply_rename_def split: if_splits option.splits)
  then have "fst (collision_loop T Map.empty (rp_rows p) True)" by (simp add: collisions_def case_prod_beta)
  then have "clear_pairs (rp_rows p) T" using collision_loop_ok by blast
  then have "checked (vt_root v) T (rp_rows p)" using T scan_scanned by (simp add: checked_def)
  moreover have "v' = v\<lparr>vt_root := snd (swap_names (name_changes T (rp_rows p)) (vt_root v))\<rparr>"
    using assms T by (auto simp: apply_rename_def Let_def case_prod_beta split: if_splits option.splits)
  ultimately show ?thesis using that by blast
qed

lemma apply_rename_failed:
  assumes "apply_rename synced commit cancel c1 c2 p v = (r, v')" "r \<noteq> ResOk"
  shows "v' = v"
proof (cases "v' = v")
  case False
  then obtain T where T: "scan cancel [] False (vt_root v) = Some T" "rows_current T [] (rp_rows p)" "fst (collisions T p)"
    and v': "v' = v\<lparr>vt_root := snd (swap_names (fst (swap_names (name_changes T (rp_rows p)) (vt_root v)))
      (snd (swap_names (name_changes T (rp_rows p)) (vt_root v))))\<rparr>"
    using assms by (auto simp: apply_rename_def Let_def case_prod_beta split: if_splits option.splits)
  have "fst (collision_loop T Map.empty (rp_rows p) True)" using T(3) by (simp add: collisions_def case_prod_beta)
  then have "clear_pairs (rp_rows p) T" using collision_loop_ok by blast
  then have "checked (vt_root v) T (rp_rows p)" using T scan_scanned by (simp add: checked_def)
  then show ?thesis using v' swap_back[OF changes_distinct changes_valid] by simp
qed

section \<open>A valid preview applies\<close>

abbreviation unselect :: "rename_entry \<Rightarrow> rename_entry" where "unselect \<equiv> en_selected_update (\<lambda>_. False)"

abbreviation same_tree :: "rename_tree \<Rightarrow> rename_tree \<Rightarrow> bool" where
  "same_tree \<equiv> list_all2 (\<lambda>x y. fst x = fst y \<and> unselect (snd x) = unselect (snd y))"

lemma unselect_eq: "unselect e = unselect f \<longleftrightarrow> en_addr e = en_addr f \<and> en_node e = en_node f \<and> en_parent e = en_parent f"
  by (cases e; cases f) auto

lemma tree_emplace_same:
  "tree_emplace i e t = Some u \<Longrightarrow> unselect e = unselect f \<Longrightarrow> same_tree t t' \<Longrightarrow>
     \<exists>u'. tree_emplace i f t' = Some u' \<and> same_tree u u'"
proof (induction i e t arbitrary: t' u rule: tree_emplace.induct)
  case (2 i e j g t)
  then obtain g' s where s: "t' = (j, g') # s" "unselect g = unselect g'" "same_tree t s" by (auto simp: list_all2_Cons1)
  with 2 show ?case by (fastforce split: if_splits)
qed simp

lemma push_children_same:
  "unselect e = unselect f \<Longrightarrow> list_all2 (\<lambda>e f. unselect e = unselect f) (push_children e c) (push_children f d)"
  by (auto simp: unselect_eq push_children_def list_all2_conv_all_nth rev_nth split: prod.splits)

lemma scan_loop_same:
  "scan_loop cancel k wanted recursive pending t = Some T \<Longrightarrow> list_all2 (\<lambda>e f. unselect e = unselect f) pending pending' \<Longrightarrow>
     same_tree t t' \<Longrightarrow> \<exists>T'. scan_loop (\<lambda>_. False) k' [] False pending' t' = Some T' \<and> same_tree T T'"
proof (induction cancel k wanted recursive pending t arbitrary: pending' t' k' rule: scan_loop.induct)
  case (2 cancel k wanted recursive e pending t)
  obtain f rest where f: "pending' = f # rest" "unselect e = unselect f" "list_all2 (\<lambda>e f. unselect e = unselect f) pending rest"
    using 2(3) by (auto simp: list_all2_Cons1)
  let ?ch = "node_id (en_node e) \<in> set wanted \<or> recursive \<and> en_selected e"
  let ?u = "if en_addr e \<noteq> [] then tree_emplace (node_id (en_node e)) (e\<lparr>en_selected := ?ch\<rparr>) t else Some t"
  have c: "\<not> cancel k" using 2(2) by auto
  obtain u where u: "?u = Some u" "scan_loop cancel (Suc k) wanted recursive (push_children e ?ch @ pending) u = Some T"
    using 2(2) c by (auto simp: Let_def split: option.splits)
  obtain u' where u': "(if en_addr f \<noteq> [] then tree_emplace (node_id (en_node f)) (f\<lparr>en_selected := False\<rparr>) t' else Some t') = Some u'"
      "same_tree u u'"
    using u(1) f(2) 2(4) tree_emplace_same[of "node_id (en_node e)" "e\<lparr>en_selected := ?ch\<rparr>" t u "f\<lparr>en_selected := False\<rparr>" t']
    by (auto simp: unselect_eq split: if_splits)
  have "list_all2 (\<lambda>e f. unselect e = unselect f) (push_children e ?ch @ pending) (push_children f False @ rest)"
    using push_children_same[OF f(2)] f(3) by (rule list_all2_appendI)
  from 2(1)[OF c refl refl u(1) u(2) this u'(2)] show ?case using u'(1) f(1) by (simp add: Let_def)
qed simp

lemma collision_loop_same: "same_tree T T' \<Longrightarrow> collision_loop T names rows ok = collision_loop T' names rows ok"
proof (induction T names rows ok arbitrary: T' rule: collision_loop.induct)
  case (2 i e T names rows ok)
  then obtain f U where f: "T' = (i, f) # U" "unselect e = unselect f" "same_tree T U" by (auto simp: list_all2_Cons1)
  have k: "entry_key rows i f = entry_key rows i e" using f(2) by (auto simp: final_name_def unselect_eq split: option.splits)
  show ?case
  proof (cases "names (entry_key rows i e)")
    case None
    show ?thesis unfolding f(1) collision_loop.simps Let_def k None option.case by (rule "2.IH"(1)[OF refl refl None f(3)])
  next
    case (Some a)
    show ?thesis
    proof (cases "row_of rows i = None \<and> row_of rows a = None")
      case True
      then show ?thesis unfolding f(1) collision_loop.simps Let_def k Some option.case
        using "2.IH"(2)[OF refl refl Some True f(3)] by simp
    next
      case False
      show ?thesis unfolding f(1) collision_loop.simps Let_def k Some option.case if_not_P[OF False]
        by (rule "2.IH"(3)[OF refl refl Some False f(3)])
    qed
  qed
qed simp


lemma regex_replace_row:
  "rr_id (regex_replace substitute opt m r) = rr_id r" "rr_parent (regex_replace substitute opt m r) = rr_parent r"
  "rr_before (regex_replace substitute opt m r) = rr_before r"
  "rr_state r \<noteq> Invalid \<Longrightarrow> rr_state (regex_replace substitute opt m r) = Invalid \<or> is_safe_node_name (rr_after (regex_replace substitute opt m r))"
  by (auto simp: regex_replace_def Let_def split: prod.splits option.splits)

definition preview_row ::
  "(rename_options \<Rightarrow> bytes \<Rightarrow> (nat \<times> bytes) option) \<Rightarrow> rename_options \<Rightarrow> bytes \<times> rename_entry \<Rightarrow> rename_row" where
  "preview_row substitute opt = (\<lambda>(i, e). regex_replace substitute opt (\<not> is_gallery (en_node e))
     \<lparr>rr_id = i, rr_parent = en_parent e, rr_before = n_name (en_node e), rr_after = n_name (en_node e), rr_state = Unmatched\<rparr>)"

lemma preview_loop_rows:
  "preview_loop cancel k substitute opt T rows = (True, rows') \<Longrightarrow>
     rows' = rows @ map (preview_row substitute opt) (filter (en_selected \<circ> snd) T)"
  by (induction cancel k substitute opt T rows rule: preview_loop.induct) (auto simp: preview_row_def split: if_splits)

lemma rows_currentI:
  "distinct (map rr_id rows) \<Longrightarrow> set (map rr_id rows) \<inter> set seen = {} \<Longrightarrow>
     (\<And>r. r \<in> set rows \<Longrightarrow> \<exists>e. map_of T (rr_id r) = Some e \<and> en_parent e = rr_parent r \<and> n_name (en_node e) = rr_before r \<and>
        is_safe_node_name (rr_after r)) \<Longrightarrow>
     rows_current T seen rows"
proof (induction rows arbitrary: seen)
  case (Cons r rows)
  obtain e where "map_of T (rr_id r) = Some e" "en_parent e = rr_parent r" "n_name (en_node e) = rr_before r" "is_safe_node_name (rr_after r)"
    using Cons.prems(3)[of r] by auto
  then show ?case using Cons.IH[of "rr_id r # seen"] Cons.prems by auto
qed simp

lemma collision_loop_True: "fst (collision_loop T names rows ok) \<Longrightarrow> snd (collision_loop T names rows ok) = rows"
  by (induction T names rows ok rule: collision_loop.induct) (auto simp: Let_def collision_loop_False split: option.splits if_splits)

lemma same_tree_map_of:
  "same_tree T T' \<Longrightarrow> map_of T i = Some e \<Longrightarrow> \<exists>f. map_of T' i = Some f \<and> unselect f = unselect e"
proof (induction T arbitrary: T')
  case (Cons x T)
  then obtain y U where "T' = y # U" "fst x = fst y" "unselect (snd x) = unselect (snd y)" "same_tree T U" by (auto simp: list_all2_Cons1)
  then show ?case using Cons by (cases x; cases y) auto
qed simp

lemma preview_rename_valid:
  assumes "preview_rename compiles substitute cancel cancel' ids opt v = p" "preview_valid p"
  obtains T where "scan cancel ids (ro_recursive opt) (vt_root v) = Some T" "vt_unlocked v" "\<not> vt_read_only v"
    "rp_rows p = map (preview_row substitute opt) (filter (en_selected \<circ> snd) T)"
    "fst (collision_loop T Map.empty (rp_rows p) True)"
proof -
  have guards: "vt_unlocked v" "\<not> vt_read_only v" "regex_init compiles opt"
    using assms by (auto simp: preview_rename_def rename_error_def preview_valid_def split: if_splits)
  then obtain T where T: "scan cancel ids (ro_recursive opt) (vt_root v) = Some T"
    using assms by (auto simp: preview_rename_def rename_error_def preview_valid_def split: option.splits)
  then obtain rows where rows: "preview_loop cancel' 0 substitute opt T [] = (True, rows)"
    using assms guards
    by (cases "preview_loop cancel' 0 substitute opt T []") (auto simp: preview_rename_def preview_valid_def ascii_def split: bool.splits)
  have p: "p = snd (collisions T \<lparr>rp_rows = rows, rp_error = []\<rparr>)" using assms(1) guards T rows by (simp add: preview_rename_def)
  obtain ok rows' where c: "collision_loop T Map.empty rows True = (ok, rows')" by force
  then have pr: "rp_rows p = rows'" by (simp add: p collisions_def)
  have ok: ok
  proof (rule ccontr)
    assume "\<not> ok"
    then have "list_ex (\<lambda>r. rr_state r = Collision) rows'" using c collision_loop_marks[of T Map.empty rows True rows'] by simp
    then show False using assms(2) pr by (auto simp: preview_valid_def list_ex_iff)
  qed
  then have "rows' = rows" using collision_loop_True[of T Map.empty rows True] c by simp
  then show ?thesis using that[OF T guards(1,2)] preview_loop_rows[OF rows] pr c ok by simp
qed


lemma scan_same:
  assumes "scan cancel ids recursive root = Some T"
  obtains T' where "scan (\<lambda>_. False) [] False root = Some T'" "same_tree T T'"
proof -
  let ?r = "\<lparr>en_addr = [], en_node = root, en_parent = zero_id, en_selected = False\<rparr>"
  have "scan_loop cancel 0 ids recursive [?r] [] = Some T" using assms by (auto simp: scan_def split: option.splits if_splits)
  then obtain T' where "scan_loop (\<lambda>_. False) 0 [] False [?r] [] = Some T'" "same_tree T T'"
    using scan_loop_same[of cancel 0 ids recursive "[?r]" "[]" T "[?r]" "[]" 0] by auto
  then show ?thesis using that by (simp add: scan_def)
qed

lemma preview_rows_current:
  assumes "keys_sorted T" "same_tree T T'" "rows = map (preview_row substitute opt) (filter (en_selected \<circ> snd) T)"
    "\<not> list_ex (\<lambda>r. rr_state r = Invalid) rows"
  shows "rows_current T' [] rows"
proof (rule rows_currentI)
  have "map rr_id rows = map fst (filter (en_selected \<circ> snd) T)"
    by (auto simp: assms(3) preview_row_def regex_replace_row split: prod.splits)
  then show "distinct (map rr_id rows)" using distinct_map_filter[OF keys_sorted_distinct[OF assms(1)]] by simp
  fix r assume r: "r \<in> set rows"
  then obtain i e where e: "(i, e) \<in> set T" "r = preview_row substitute opt (i, e)" by (auto simp: assms(3))
  then have "map_of T i = Some e" using keys_sorted_map_of[OF assms(1)] by simp
  then obtain f where f: "map_of T' i = Some f" "unselect f = unselect e" using same_tree_map_of[OF assms(2)] by blast
  have "rr_state r \<noteq> Invalid" using assms(4) r by (auto simp: list_ex_iff)
  moreover have "rr_state r = Invalid \<or> is_safe_node_name (rr_after r)"
    unfolding e(2) preview_row_def split_conv by (rule regex_replace_row(4)) simp
  ultimately have "is_safe_node_name (rr_after r)" by simp
  then show "\<exists>e. map_of T' (rr_id r) = Some e \<and> en_parent e = rr_parent r \<and> n_name (en_node e) = rr_before r \<and>
      is_safe_node_name (rr_after r)"
    using f e(2) by (auto simp: unselect_eq preview_row_def regex_replace_row)
qed simp

section \<open>Properties\<close>

text \<open>
     Property C1. A batch rename is all or nothing.  If it reports success, every selected node has exactly the name
     that its preview row shows and every other node keeps its own, no node moves, appears or loses other data, and no
     two siblings share a name, swaps and cycles of names included; if it reports anything else, commit failures
     included, the vault is as it was.
\<close>
theorem batch_rename_is_a_transaction:
  assumes "tree_wf (vt_root v)" "apply_rename synced commit cancel cancel_checked cancel_changes p v = (r, v')"
  shows "if r = ResOk
    then tree_wf (vt_root v') \<and> v' = v\<lparr>vt_root := vt_root v'\<rparr> \<and> ndata (vt_root v') = ndata (vt_root v) \<and>
      (\<forall>a. valid_addr a (vt_root v') = valid_addr a (vt_root v)) \<and>
      (\<forall>a \<in> {a. valid_addr a (vt_root v) \<and> a \<noteq> []}. ndata (node_at a (vt_root v')) =
         (ndata (node_at a (vt_root v)))\<lparr>nd_name :=
            (case row_of (rp_rows p) (node_id (node_at a (vt_root v))) of
               None \<Rightarrow> n_name (node_at a (vt_root v)) | Some k \<Rightarrow> rr_after (rp_rows p ! k))\<rparr>)
    else v' = v"
proof (cases "r = ResOk")
  case True
  obtain T where T: "checked (vt_root v) T (rp_rows p)"
      "v' = v\<lparr>vt_root := snd (swap_names (name_changes T (rp_rows p)) (vt_root v))\<rparr>"
    using apply_rename_checked[OF assms(2) True] .
  show ?thesis using True T(2) tree_wf_after[OF T(1) assms(1)] root_after[OF T(1)] names_after[OF T(1)]
    by (simp add: swap_shape(1) new_name_row)
next
  case False
  then show ?thesis using apply_rename_failed[OF assms(2)] by simp
qed

text \<open>
     Property C2. What the preview shows is what applying it does: a preview that reports itself valid is accepted by
     the later check on the unchanged vault, whatever expression produced it, so the rename succeeds once nobody
     cancels and the commit goes through.
\<close>
theorem valid_preview_applies:
  assumes "preview_rename compiles substitute cancel cancel' ids opt v = p" "preview_valid p"
  shows "fst (apply_rename True (\<lambda>_. ResOk) (\<lambda>_. False) False False p v) = ResOk"
proof -
  obtain T where T: "scan cancel ids (ro_recursive opt) (vt_root v) = Some T" "vt_unlocked v" "\<not> vt_read_only v"
    and rows: "rp_rows p = map (preview_row substitute opt) (filter (en_selected \<circ> snd) T)"
      "fst (collision_loop T Map.empty (rp_rows p) True)"
    using preview_rename_valid[OF assms] .
  obtain T' where T': "scan (\<lambda>_. False) [] False (vt_root v) = Some T'" "same_tree T T'" using scan_same[OF T(1)] .
  have "keys_sorted T" using scan_scanned[OF T(1)] by (simp add: scanned_def)
  moreover have "\<not> list_ex (\<lambda>r. rr_state r = Invalid) (rp_rows p)" using assms(2) by (auto simp: preview_valid_def list_ex_iff)
  ultimately have "rows_current T' [] (rp_rows p)" using preview_rows_current[OF _ T'(2) rows(1)] by blast
  moreover have "fst (collisions T' p)"
    using rows(2) collision_loop_same[OF T'(2)] by (simp add: collisions_def case_prod_beta)
  ultimately show ?thesis
    using T T'(1) assms(2) by (simp add: apply_rename_def Let_def case_prod_beta commit_staged_def vault_commit_index_def)
qed

text \<open>A vault with \<open>a.png\<close> and \<open>b.png\<close>, and an expression that swaps the two letters.\<close>

definition rename_vault :: vault where
  "rename_vault = \<lparr>vt_unlocked = True, vt_read_only = False, vt_v3 = True, vt_context = True,
     vt_root = Node (ndata (gallery [])) [Node ((ndata (image [0x61, 0x2E, 0x70]))\<lparr>nd_node_id := [1]\<rparr>) [],
       Node ((ndata (image [0x62, 0x2E, 0x70]))\<lparr>nd_node_id := [2]\<rparr>) []],
     vt_settings = default_settings, vt_searches = []\<rparr>"

definition swap_letters :: "rename_options \<Rightarrow> bytes \<Rightarrow> (nat \<times> bytes) option" where
  "swap_letters opt s = Some (if s = [0x61] then (1, [0x62]) else if s = [0x62] then (1, [0x61]) else (0, s))"

definition swap_options :: rename_options where
  "swap_options = \<lparr>ro_pattern = [0x2E], ro_replacement = [], ro_preserve_extensions = True, ro_recursive = False,
     ro_case_sensitive = True, ro_all_matches = False\<rparr>"

definition swap_preview :: rename_preview where
  "swap_preview = preview_rename (\<lambda>_. True) swap_letters (\<lambda>_. False) (\<lambda>_. False) [[1], [2]] swap_options rename_vault"


lemma swap_preview_valid: "preview_valid swap_preview"
  by code_simp

theorem valid_preview_applies_witness:
  "fst (apply_rename True (\<lambda>_. ResOk) (\<lambda>_. False) False False swap_preview rename_vault) = ResOk"
  using valid_preview_applies[OF _ swap_preview_valid] unfolding swap_preview_def by blast

lemma rename_vault_wf: "tree_wf (vt_root rename_vault)"
  by code_simp

theorem batch_rename_is_a_transaction_witness:
  "map n_name (nchildren (vt_root (snd (apply_rename True (\<lambda>_. ResOk) (\<lambda>_. False) False False swap_preview rename_vault)))) =
     [[0x62, 0x2E, 0x70], [0x61, 0x2E, 0x70]] \<and>
   tree_wf (vt_root (snd (apply_rename True (\<lambda>_. ResOk) (\<lambda>_. False) False False swap_preview rename_vault)))"
proof
  show "map n_name (nchildren (vt_root (snd (apply_rename True (\<lambda>_. ResOk) (\<lambda>_. False) False False swap_preview rename_vault)))) =
     [[0x62, 0x2E, 0x70], [0x61, 0x2E, 0x70]]" by code_simp
  have "fst (apply_rename True (\<lambda>_. ResOk) (\<lambda>_. False) False False swap_preview rename_vault) = ResOk" by code_simp
  then show "tree_wf (vt_root (snd (apply_rename True (\<lambda>_. ResOk) (\<lambda>_. False) False False swap_preview rename_vault)))"
    using batch_rename_is_a_transaction[OF rename_vault_wf surjective_pairing] by simp
qed

end
