(* ===== verification/Video_Source.thy ===== *)
theory Video_Source
  imports V3_Object_Proofs Chunk_Records
begin

unbundle bit_operations_syntax

text \<open>
  Playing a stored video: \<open>VideoObjectSource\<close> (\<open>src/media/video_object_source.cpp\<close>) decrypts the frames of a directory
  vault's object on demand, \<open>VideoSource\<close> (\<open>src/media/video_source.cpp\<close>) the chunks of a vault file, and the
  two AVIO adapters (\<open>src/media/chunk_avio.cpp\<close>, \<open>src/media/mem_avio.cpp\<close>) give FFmpeg a seekable stream.  The shared
  interface \<open>VideoByteSource\<close> is the locale \<open>byte_source\<close>; the adapter is its client.
\<close>

section \<open>The object source\<close>

text \<open>
  \<open>os_loads\<close> is what the loads of the atomic flag \<open>cancelled_\<close> give from here on: another thread may set it at
  any time.
\<close>

record cache_entry =
  ca_index :: nat
  ca_valid :: bool
  ca_stamp :: nat
  ca_bytes :: bytes

record object_source =
  os_reader :: object_reader
  os_cache :: "cache_entry \<times> cache_entry"
  os_stamp :: nat
  os_loads :: "nat \<Rightarrow> bool"
  os_status :: object_status
  os_error_frame :: nat
  os_reported :: bool

definition empty_cache_entry :: cache_entry where
  "empty_cache_entry = \<lparr>ca_index = 0, ca_valid = False, ca_stamp = 0, ca_bytes = []\<rparr>"

definition object_source_open ::
  "object_prims \<Rightarrow> (nat \<Rightarrow> bool) \<Rightarrow> bytes \<Rightarrow> object_info \<Rightarrow> bytes option \<Rightarrow> object_status + object_source" where
  "object_source_open P loads master_key expected opened =
     (if oi_role expected \<noteq> OriginalVideo then Inl OsInvalidArgument
      else case reader_open P master_key expected opened of
        Inl status \<Rightarrow> Inl status
      | Inr reader \<Rightarrow> Inr \<lparr>os_reader = reader, os_cache = (empty_cache_entry, empty_cache_entry), os_stamp = 0,
          os_loads = loads, os_status = OsOk, os_error_frame = 0, os_reported = False\<rparr>)"

definition object_size :: "object_source \<Rightarrow> nat" where
  "object_size s = unat (oi_plain (or_info (os_reader s)))"

definition wipe_entry :: "cache_entry \<Rightarrow> cache_entry" where
  "wipe_entry c = c\<lparr>ca_bytes := [], ca_valid := False\<rparr>"

definition clear_cache :: "object_source \<Rightarrow> object_source" where
  "clear_cache s = s\<lparr>os_cache := map_prod wipe_entry wipe_entry (os_cache s)\<rparr>"

definition load_cancelled :: "object_source \<Rightarrow> bool \<times> object_source" where
  "load_cancelled s = (os_loads s 0, s\<lparr>os_loads := \<lambda>k. os_loads s (Suc k)\<rparr>)"

definition cached_frame_count :: "object_source \<Rightarrow> nat" where
  "cached_frame_count s = length (filter ca_valid [fst (os_cache s), snd (os_cache s)])"

text \<open>\<open>None\<close> is the null pointer.  The older of two valid entries is the one replaced.\<close>

definition load_frame :: "object_prims \<Rightarrow> object_source \<Rightarrow> nat \<Rightarrow> bytes option \<times> object_source" where
  "load_frame P s index = (let (c0, c1) = os_cache s; stamp = Suc (os_stamp s) in
     if ca_valid c0 \<and> ca_index c0 = index then (Some (ca_bytes c0), s\<lparr>os_cache := (c0\<lparr>ca_stamp := stamp\<rparr>, c1), os_stamp := stamp\<rparr>)
     else if ca_valid c1 \<and> ca_index c1 = index then (Some (ca_bytes c1), s\<lparr>os_cache := (c0, c1\<lparr>ca_stamp := stamp\<rparr>), os_stamp := stamp\<rparr>)
     else let second = ca_valid c0 \<and> (\<not> ca_valid c1 \<or> ca_stamp c1 < ca_stamp c0);
              put = (\<lambda>c. if second then (c0, c) else (c, c1)) in
       case read_frame P (os_reader s) index of
         Inl status \<Rightarrow> (None, s\<lparr>os_cache := put (wipe_entry (if second then c1 else c0)), os_status := status,
                                os_error_frame := index, os_reported := True\<rparr>)
       | Inr bs \<Rightarrow> (Some bs, s\<lparr>os_cache := put \<lparr>ca_index = index, ca_valid = True, ca_stamp = stamp, ca_bytes = bs\<rparr>,
                                os_stamp := stamp, os_status := OsOk\<rparr>))"

text \<open>\<open>copied\<close> is what the buffer already holds; \<open>None\<close> is \<open>-1\<close>.\<close>

function object_read_loop ::
  "object_prims \<Rightarrow> nat \<Rightarrow> nat \<Rightarrow> bytes \<Rightarrow> object_source \<Rightarrow> bytes option \<times> object_source" where
  "object_read_loop P off wanted copied s =
     (if \<not> length copied < wanted then (Some copied, s\<lparr>os_status := OsOk\<rparr>)
      else case load_cancelled s of (cancelled, s) \<Rightarrow>
        if cancelled then (None, (clear_cache s)\<lparr>os_status := OsIoError\<rparr>)
        else let position = off + length copied; limit = unat (oi_limit (or_info (os_reader s))); frame = position div limit in
          if 0xFFFFFFFF < frame then (None, s)
          else case load_frame P s frame of
            (None, s) \<Rightarrow> (None, s)
          | (Some bs, s) \<Rightarrow>
              let within = position mod limit in
              if length bs \<le> within then (None, s)
              else let part = take (min (wanted - length copied) (length bs - within)) (drop within bs)
                   in object_read_loop P off wanted (copied @ part) s)"
  by pat_completeness auto
termination
  by (relation "measure (\<lambda>(P, off, wanted, copied, s). wanted - length copied)") auto

declare object_read_loop.simps [simp del]

definition object_read :: "object_prims \<Rightarrow> object_source \<Rightarrow> nat \<Rightarrow> nat \<Rightarrow> bytes option \<times> object_source" where
  "object_read P s off n = (case load_cancelled s of (cancelled, s) \<Rightarrow>
     if cancelled then (None, (clear_cache s)\<lparr>os_status := OsIoError\<rparr>)
     else let total = object_size s in
       if total \<le> off \<or> n = 0 then (Some [], s)
       else object_read_loop P off (min n (total - off)) [] s)"

section \<open>The video source\<close>

text \<open>The members of a \<open>ChunkStore\<close>.\<close>

record chunk_store =
  st_file :: disk
  st_key :: bytes
  st_framed :: bool

record video_source =
  vi_store :: "chunk_store option"
  vi_v3 :: "object_source option"
  vi_chunks :: "video_chunk list"
  vi_chunk_size :: u32
  vi_total :: u64
  vi_node :: bytes
  vi_bound :: bool
  vi_cache :: bytes
  vi_index :: int

text \<open>What \<open>open\<close> reads of the vault: a vault file's store, or a directory vault's session.\<close>

datatype video_storage =
  FileStorage chunk_store
| DirectoryStorage bytes "bytes \<Rightarrow> object_info option" "bytes \<Rightarrow> bytes option"

definition video_object_source :: "object_source option \<Rightarrow> u64 \<Rightarrow> video_source" where
  "video_object_source source total_size = \<lparr>vi_store = None, vi_v3 = source, vi_chunks = [], vi_chunk_size = 0, vi_total = total_size,
     vi_node = zero_id, vi_bound = False, vi_cache = [], vi_index = -1\<rparr>"

definition video_open :: "object_prims \<Rightarrow> (nat \<Rightarrow> bool) \<Rightarrow> video_storage \<Rightarrow> index_node \<Rightarrow> video_source" where
  "video_open P loads storage node = (case storage of
     DirectoryStorage master_key object_for file_of \<Rightarrow>
       (case object_for (nd_node_id (ndata node)) of
          None \<Rightarrow> video_object_source None 0
        | Some info \<Rightarrow>
            (case object_source_open P loads master_key info (file_of (oi_object info)) of
               Inl _ \<Rightarrow> video_object_source None 0
             | Inr source \<Rightarrow> video_object_source (Some source) (oi_plain info)))
   | FileStorage store \<Rightarrow>
       (let meta = nd_vmeta (ndata node) in
        \<lparr>vi_store = Some store, vi_v3 = None, vi_chunks = vm_chunks meta, vi_chunk_size = vm_chunk_size meta,
         vi_total = vm_orig_size meta, vi_node = nd_node_id (ndata node), vi_bound = vm_context_bound meta,
         vi_cache = [], vi_index = -1\<rparr>))"

definition video_size :: "video_source \<Rightarrow> nat" where
  "video_size s = unat (vi_total s)"

definition video_chunk_tag :: "video_source \<Rightarrow> nat \<Rightarrow> chunk_tag" where
  "video_chunk_tag s idx = \<lparr>ct_domain = VideoDomain, ct_owner = vi_node s, ct_record = vc_id (vi_chunks s ! idx),
     ct_sequence = vc_sequence (vi_chunks s ! idx), ct_context_bound = vi_bound s\<rparr>"

text \<open>\<open>fill_one\<close>: \<open>None\<close> is \<open>-1\<close>, \<open>Some []\<close> is \<open>0\<close>.\<close>

definition fill_one :: "object_prims \<Rightarrow> video_source \<Rightarrow> nat \<Rightarrow> nat \<Rightarrow> bytes option \<times> video_source" where
  "fill_one P s off n = (let idx = off div unat (vi_chunk_size s) in
     if length (vi_chunks s) \<le> idx then (Some [], s)
     else
       case (if vi_index s = int idx then Some s
             else case vi_store s of
               None \<Rightarrow> None
             | Some st \<Rightarrow>
                 (case read_chunk_secure (op_aead P) (op_miniz P) (st_framed st) (st_key st) (st_file st)
                         (unat (vc_offset (vi_chunks s ! idx)), unat (vc_length (vi_chunks s ! idx)))
                         (video_chunk_tag s idx) (vi_cache s) of
                    (False, _) \<Rightarrow> None
                  | (True, cache) \<Rightarrow> Some (s\<lparr>vi_cache := cache, vi_index := int idx\<rparr>))) of
         None \<Rightarrow> (None, s\<lparr>vi_cache := [], vi_index := -1\<rparr>)
       | Some s \<Rightarrow>
           let within = off mod unat (vi_chunk_size s) in
           if length (vi_cache s) \<le> within then (Some [], s)
           else (Some (take (min n (length (vi_cache s) - within)) (drop within (vi_cache s))), s))"


function video_read_loop :: "object_prims \<Rightarrow> nat \<Rightarrow> nat \<Rightarrow> bytes \<Rightarrow> video_source \<Rightarrow> bytes option \<times> video_source" where
  "video_read_loop P off want written s =
     (if \<not> length written < want then (Some written, s)
      else case fill_one P s (off + length written) (want - length written) of
        (None, s) \<Rightarrow> (None, s)
      | (Some bs, s) \<Rightarrow> if bs = [] then (Some written, s) else video_read_loop P off want (written @ bs) s)"
  by pat_completeness auto
termination
  by (relation "measure (\<lambda>(P, off, want, written, s). want - length written)") (auto intro!: diff_less_mono2)

declare video_read_loop.simps [simp del]

definition video_read :: "object_prims \<Rightarrow> video_source \<Rightarrow> nat \<Rightarrow> nat \<Rightarrow> bytes option \<times> video_source" where
  "video_read P s off n = (case vi_v3 s of
     Some v3 \<Rightarrow> (case object_read P v3 off n of (r, v3) \<Rightarrow> (r, s\<lparr>vi_v3 := Some v3\<rparr>))
   | None \<Rightarrow>
       if video_size s \<le> off \<or> vi_chunk_size s = 0 then (Some [], s)
       else video_read_loop P off (min n (video_size s - off)) [] s)"

section \<open>The AVIO adapters\<close>

text \<open>FFmpeg's and C's constants.\<close>

definition AVSEEK_SIZE :: "32 word" where "AVSEEK_SIZE = 0x10000"
definition AVSEEK_FORCE :: "32 word" where "AVSEEK_FORCE = 0x20000"
definition SEEK_SET :: "32 word" where "SEEK_SET = 0"
definition SEEK_CUR :: "32 word" where "SEEK_CUR = 1"
definition SEEK_END :: "32 word" where "SEEK_END = 2"

text \<open>
  What a callback returns: bytes, \<open>AVERROR_EOF\<close>, \<open>AVERROR(EIO)\<close>, a position or size, \<open>AVERROR(EINVAL)\<close>.
\<close>

datatype avio_result = AvBytes bytes | AvEof | AvIoError | AvPosition int | AvInvalid

text \<open>The new position of a seek, \<open>None\<close> for a negative one or an unknown origin.\<close>

definition seek_target :: "nat \<Rightarrow> nat \<Rightarrow> int \<Rightarrow> 32 word \<Rightarrow> nat option" where
  "seek_target len pos offset whence = (
     let whence = whence AND NOT AVSEEK_FORCE;
         new_pos = (if whence = SEEK_SET then Some offset else if whence = SEEK_CUR then Some (int pos + offset)
                    else if whence = SEEK_END then Some (int len + offset) else None)
     in case new_pos of None \<Rightarrow> None | Some p \<Rightarrow> if p < 0 then None else Some (nat p))"

definition seek_cb :: "nat \<Rightarrow> nat \<Rightarrow> int \<Rightarrow> 32 word \<Rightarrow> avio_result \<times> nat" where
  "seek_cb len pos offset whence =
     (if whence AND AVSEEK_SIZE = AVSEEK_SIZE then (AvPosition (int len), pos)
      else case seek_target len pos offset whence of None \<Rightarrow> (AvInvalid, pos) | Some p \<Rightarrow> (AvPosition (int p), p))"

record 's avio =
  av_source :: 's
  av_pos :: nat

text \<open>\<open>ChunkAvio\<close> over the \<open>size\<close> and \<open>read\<close> of its source.\<close>

definition chunk_read_cb :: "('s \<Rightarrow> nat \<Rightarrow> nat \<Rightarrow> bytes option \<times> 's) \<Rightarrow> int \<Rightarrow> 's avio \<Rightarrow> avio_result \<times> 's avio" where
  "chunk_read_cb rd buf_size a =
     (if buf_size \<le> 0 then (AvBytes [], a)
      else case rd (av_source a) (av_pos a) (nat buf_size) of (n, src) \<Rightarrow>
        case n of
          None \<Rightarrow> (AvIoError, a\<lparr>av_source := src\<rparr>)
        | Some bs \<Rightarrow> if bs = [] then (AvEof, a\<lparr>av_source := src\<rparr>)
                     else (AvBytes bs, a\<lparr>av_source := src, av_pos := av_pos a + length bs\<rparr>))"

definition chunk_seek_cb :: "('s \<Rightarrow> nat) \<Rightarrow> int \<Rightarrow> 32 word \<Rightarrow> 's avio \<Rightarrow> avio_result \<times> 's avio" where
  "chunk_seek_cb size_of offset whence a =
     (case seek_cb (size_of (av_source a)) (av_pos a) offset whence of (r, p) \<Rightarrow> (r, a\<lparr>av_pos := p\<rparr>))"

text \<open>\<open>MemAvio\<close>, whose source is the plain bytes.\<close>

definition mem_read_cb :: "int \<Rightarrow> bytes avio \<Rightarrow> avio_result \<times> bytes avio" where
  "mem_read_cb buf_size a =
     (if buf_size \<le> 0 then (AvBytes [], a)
      else let available = (if av_pos a < length (av_source a) then length (av_source a) - av_pos a else 0)
           in if available = 0 then (AvEof, a)
              else let to_copy = min (nat buf_size) available
                   in (AvBytes (take to_copy (drop (av_pos a) (av_source a))), a\<lparr>av_pos := av_pos a + to_copy\<rparr>))"

definition mem_seek_cb :: "int \<Rightarrow> 32 word \<Rightarrow> bytes avio \<Rightarrow> avio_result \<times> bytes avio" where
  "mem_seek_cb offset whence a =
     (case seek_cb (length (av_source a)) (av_pos a) offset whence of (r, p) \<Rightarrow> (r, a\<lparr>av_pos := p\<rparr>))"

text \<open>A session of the demuxer with an adapter.\<close>

datatype avio_op = AvRead int | AvSeek int "32 word"

fun avio_run :: "(avio_op \<Rightarrow> 'a \<Rightarrow> avio_result \<times> 'a) \<Rightarrow> avio_op list \<Rightarrow> 'a \<Rightarrow> avio_result list \<times> 'a" where
  "avio_run step [] a = ([], a)"
| "avio_run step (op # ops) a = (case step op a of (r, a) \<Rightarrow> case avio_run step ops a of (rs, a) \<Rightarrow> (r # rs, a))"

fun chunk_step :: "('s \<Rightarrow> nat) \<Rightarrow> ('s \<Rightarrow> nat \<Rightarrow> nat \<Rightarrow> bytes option \<times> 's) \<Rightarrow> avio_op \<Rightarrow> 's avio \<Rightarrow> avio_result \<times> 's avio" where
  "chunk_step size_of rd (AvRead n) a = chunk_read_cb rd n a"
| "chunk_step size_of rd (AvSeek offset whence) a = chunk_seek_cb size_of offset whence a"

fun mem_step :: "avio_op \<Rightarrow> bytes avio \<Rightarrow> avio_result \<times> bytes avio" where
  "mem_step (AvRead n) a = mem_read_cb n a"
| "mem_step (AvSeek offset whence) a = mem_seek_cb offset whence a"

section \<open>The stream they implement\<close>

text \<open>The plaintext with a position.\<close>

fun stream_step :: "bytes \<Rightarrow> avio_op \<Rightarrow> nat \<Rightarrow> avio_result \<times> nat" where
  "stream_step p (AvRead n) pos =
     (if n \<le> 0 then (AvBytes [], pos)
      else let bs = take (nat n) (drop pos p) in if bs = [] then (AvEof, pos) else (AvBytes bs, pos + length bs))"
| "stream_step p (AvSeek offset whence) pos = seek_cb (length p) pos offset whence"

text \<open>
  The answers that a stream may give: those of the plaintext, except that a read may fail, and then the position
  stays.
\<close>

fun stream_answers :: "bytes \<Rightarrow> avio_op list \<Rightarrow> nat \<Rightarrow> avio_result list \<Rightarrow> bool" where
  "stream_answers p [] pos rs \<longleftrightarrow> rs = []"
| "stream_answers p (op # ops) pos [] \<longleftrightarrow> False"
| "stream_answers p (op # ops) pos (r # rs) \<longleftrightarrow>
     (if r = AvIoError then stream_answers p ops pos rs
      else case stream_step p op pos of (r', pos') \<Rightarrow> r = r' \<and> stream_answers p ops pos' rs)"

lemma mem_step_stream:
  "mem_step op a = (case stream_step (av_source a) op (av_pos a) of (r, p) \<Rightarrow> (r, a\<lparr>av_pos := p\<rparr>))"
  by (cases op) (auto simp: mem_read_cb_def mem_seek_cb_def Let_def min_def not_less)

lemma seek_cb_answer: "fst (seek_cb len pos offset whence) \<noteq> AvIoError"
  by (auto simp: seek_cb_def split: option.splits)

section \<open>The interface\<close>

text \<open>
  \<open>VideoByteSource\<close>: while the source is sound for a plaintext, its size is that of the plaintext, and a read gives
  exactly the bytes asked for or fails.
\<close>

locale byte_source =
  fixes sound :: "'s \<Rightarrow> bytes \<Rightarrow> bool" and src_size :: "'s \<Rightarrow> nat"
    and src_read :: "'s \<Rightarrow> nat \<Rightarrow> nat \<Rightarrow> bytes option \<times> 's"
  assumes size_sound: "sound s p \<Longrightarrow> src_size s = length p"
    and read_sound: "sound s p \<Longrightarrow> sound (snd (src_read s off n)) p"
    and read_exact: "sound s p \<Longrightarrow> fst (src_read s off n) = Some bs \<Longrightarrow> bs = take n (drop off p)"
begin

lemma chunk_step_stream:
  assumes "sound (av_source a) p" "chunk_step src_size src_read op a = (r, a')"
  shows "sound (av_source a') p \<and>
     (r = AvIoError \<and> av_pos a' = av_pos a \<or> r \<noteq> AvIoError \<and> stream_step p op (av_pos a) = (r, av_pos a'))"
proof (cases op)
  case (AvRead n)
  show ?thesis
  proof (cases "n \<le> 0")
    case True
    then show ?thesis using assms by (auto simp: AvRead chunk_read_cb_def)
  next
    case False
    obtain o_n src where rd: "src_read (av_source a) (av_pos a) (nat n) = (o_n, src)" by force
    have s: "sound src p" using read_sound[OF assms(1), of "av_pos a" "nat n"] rd by simp
    show ?thesis
    proof (cases o_n)
      case None
      then show ?thesis using assms(2) False rd s by (auto simp: AvRead chunk_read_cb_def)
    next
      case (Some bs)
      then have "bs = take (nat n) (drop (av_pos a) p)" using read_exact[OF assms(1), of "av_pos a" "nat n"] rd by simp
      then show ?thesis using assms(2) False rd s Some by (auto simp: AvRead chunk_read_cb_def Let_def split: if_splits)
    qed
  qed
next
  case (AvSeek offset whence)
  then show ?thesis
    using assms seek_cb_answer[of "length p" "av_pos a" offset whence] size_sound[OF assms(1)]
    by (auto simp: chunk_seek_cb_def split: prod.splits)
qed

theorem run_stream:
  assumes "sound (av_source a) p" "avio_run (chunk_step src_size src_read) ops a = (rs, a')"
  shows "stream_answers p ops (av_pos a) rs \<and> sound (av_source a') p"
  using assms
proof (induction ops arbitrary: a rs)
  case (Cons op ops)
  obtain r b rs' where b: "chunk_step src_size src_read op a = (r, b)" "avio_run (chunk_step src_size src_read) ops b = (rs', a')" "rs = r # rs'"
    using Cons.prems(2) by (auto split: prod.splits)
  have "sound (av_source b) p"
    "r = AvIoError \<and> av_pos b = av_pos a \<or> r \<noteq> AvIoError \<and> stream_step p op (av_pos a) = (r, av_pos b)"
    using chunk_step_stream[OF Cons.prems(1) b(1)] by blast+
  then show ?case using Cons.IH[OF _ b(2)] b(3) by auto
qed simp

end

text \<open>A source that cannot fail is the stream of its plaintext.\<close>

locale live_source = byte_source +
  fixes live :: "bytes \<Rightarrow> 's \<Rightarrow> bool"
  assumes read_live: "sound s p \<Longrightarrow> live p s \<Longrightarrow> fst (src_read s off n) \<noteq> None \<and> live p (snd (src_read s off n))"
begin

lemma run_live:
  assumes "sound (av_source a) p" "live p (av_source a)"
  shows "AvIoError \<notin> set (fst (avio_run (chunk_step src_size src_read) ops a))"
  using assms
proof (induction ops arbitrary: a)
  case (Cons op ops)
  obtain r b where b: "chunk_step src_size src_read op a = (r, b)" by force
  have s: "sound (av_source b) p" using chunk_step_stream[OF Cons.prems(1) b] by blast
  have "live p (av_source b) \<and> r \<noteq> AvIoError"
  proof (cases op)
    case (AvRead n)
    then show ?thesis
      using b read_live[OF Cons.prems, of "av_pos a" "nat n"] Cons.prems(2)
      by (auto simp: chunk_read_cb_def split: if_splits prod.splits option.splits)
  next
    case (AvSeek offset whence)
    then show ?thesis using b Cons.prems(2) seek_cb_answer[of "src_size (av_source a)" "av_pos a" offset whence]
      by (auto simp: chunk_seek_cb_def split: prod.splits)
  qed
  then show ?case using Cons.IH[OF s] b by (auto split: prod.splits)
qed simp

end


section \<open>Directory vaults implement it\<close>

text \<open>What frame \<open>i\<close> of a plaintext is, and a reader whose frames are those of \<open>p\<close> whenever they can be read.\<close>

definition frame_of :: "nat \<Rightarrow> bytes \<Rightarrow> nat \<Rightarrow> bytes" where
  "frame_of limit p i = take limit (drop (i * limit) p)"

definition reader_serves :: "object_prims \<Rightarrow> object_reader \<Rightarrow> bytes \<Rightarrow> bool" where
  "reader_serves P r p \<longleftrightarrow> 0 < unat (oi_limit (or_info r)) \<and> unat (oi_plain (or_info r)) = length p \<and>
     (\<forall>i bs. read_frame P r i = Inr bs \<longrightarrow> bs = frame_of (unat (oi_limit (or_info r))) p i)"

definition entry_sound :: "object_reader \<Rightarrow> bytes \<Rightarrow> cache_entry \<Rightarrow> bool" where
  "entry_sound r p c \<longleftrightarrow> (ca_valid c \<longrightarrow> ca_bytes c = frame_of (unat (oi_limit (or_info r))) p (ca_index c))"

definition object_sound :: "object_prims \<Rightarrow> object_source \<Rightarrow> bytes \<Rightarrow> bool" where
  "object_sound P s p \<longleftrightarrow> reader_serves P (os_reader s) p \<and> entry_sound (os_reader s) p (fst (os_cache s)) \<and>
     entry_sound (os_reader s) p (snd (os_cache s))"

text \<open>Nobody cancels, and every frame can be read.\<close>

definition object_live :: "object_prims \<Rightarrow> bytes \<Rightarrow> object_source \<Rightarrow> bool" where
  "object_live P p s \<longleftrightarrow> os_loads s = (\<lambda>_. False) \<and>
     length p \<le> 0xFFFFFFFF * unat (oi_limit (or_info (os_reader s))) \<and>
     (\<forall>i. i * unat (oi_limit (or_info (os_reader s))) < length p \<longrightarrow> (\<exists>bs. read_frame P (os_reader s) i = Inr bs))"

lemma piece_at:
  assumes "0 < limit" "pos < length (p :: bytes)"
  shows "pos mod limit < length (frame_of limit p (pos div limit))"
    "take n (drop (pos mod limit) (frame_of limit p (pos div limit))) = take (min n (limit - pos mod limit)) (drop pos p)"
proof -
  have d: "pos div limit * limit + pos mod limit = pos" "pos mod limit + pos div limit * limit = pos" by simp_all
  have m: "pos mod limit < limit" using assms(1) by simp
  have "pos div limit * limit \<le> pos" using d(1) by linarith
  then have "pos mod limit < length p - pos div limit * limit" using assms(2) d(1) by linarith
  then show "pos mod limit < length (frame_of limit p (pos div limit))" using m by (simp add: frame_of_def)
  have "drop (pos mod limit) (drop (pos div limit * limit) p) = drop pos p" by (simp only: drop_drop d(2))
  then show "take n (drop (pos mod limit) (frame_of limit p (pos div limit))) = take (min n (limit - pos mod limit)) (drop pos p)"
    by (simp add: frame_of_def drop_take min.commute)
qed

lemma load_frame_sound:
  assumes "object_sound P s p" "load_frame P s i = (r, s')"
  shows "object_sound P s' p \<and> os_reader s' = os_reader s \<and> os_loads s' = os_loads s \<and>
    (\<forall>bs. r = Some bs \<longrightarrow> bs = frame_of (unat (oi_limit (or_info (os_reader s)))) p i) \<and>
    (r = None \<longrightarrow> (\<forall>bs. read_frame P (os_reader s) i \<noteq> Inr bs))"
proof -
  obtain c0 c1 where c: "os_cache s = (c0, c1)" by force
  note run = assms(2)[unfolded load_frame_def c Let_def prod.case]
  have ok: "reader_serves P (os_reader s) p" "entry_sound (os_reader s) p c0" "entry_sound (os_reader s) p c1"
    using assms(1) by (simp_all add: object_sound_def c)
  consider "ca_valid c0 \<and> ca_index c0 = i" | "\<not> (ca_valid c0 \<and> ca_index c0 = i)" "ca_valid c1 \<and> ca_index c1 = i"
    | "\<not> (ca_valid c0 \<and> ca_index c0 = i)" "\<not> (ca_valid c1 \<and> ca_index c1 = i)" by blast
  then show ?thesis
  proof cases
    case 3
    note miss = run[unfolded if_not_P[OF 3(1)] if_not_P[OF 3(2)]]
    let ?second = "ca_valid c0 \<and> (\<not> ca_valid c1 \<or> ca_stamp c1 < ca_stamp c0)"
    show ?thesis
    proof (cases "read_frame P (os_reader s) i")
      case (Inl st)
      then show ?thesis using miss ok by (cases ?second) (auto simp: object_sound_def entry_sound_def wipe_entry_def)
    next
      case (Inr bs)
      then have "bs = frame_of (unat (oi_limit (or_info (os_reader s)))) p i" using ok(1) by (simp add: reader_serves_def)
      then show ?thesis using miss ok Inr by (cases ?second) (auto simp: object_sound_def entry_sound_def)
    qed
  qed (use run ok in \<open>auto simp: object_sound_def entry_sound_def\<close>)
qed

lemma load_cancelled_sound: "object_sound P (snd (load_cancelled s)) p = object_sound P s p"
  by (simp add: load_cancelled_def object_sound_def)

lemma clear_cache_sound: "object_sound P s p \<Longrightarrow> object_sound P (clear_cache s\<lparr>os_status := st\<rparr>) p"
  by (cases "os_cache s") (simp add: clear_cache_def object_sound_def entry_sound_def wipe_entry_def)

lemma object_sound_status: "object_sound P (s\<lparr>os_status := st\<rparr>) p = object_sound P s p"
  by (simp add: object_sound_def)

lemma take_extend:
  assumes "c = take (length c) (drop off p)" "x = take (length x) (drop (off + length c) p)"
  shows "c @ x = take (length (c @ x)) (drop off p)"
proof -
  have "take (length (c @ x)) (drop off p) = take (length c) (drop off p) @ take (length x) (drop (off + length c) p)"
    by (simp add: take_add add.commute)
  then show ?thesis by (simp only: assms[symmetric])
qed

lemma take_prefix: "x = take k xs \<Longrightarrow> x = take (length x) xs"
  by (simp add: min_def)

lemma object_read_loop_sound:
  assumes "object_sound P s p" "copied = take (length copied) (drop off p)" "off + wanted \<le> length p"
    "object_read_loop P off wanted copied s = (r, s')" "length copied \<le> wanted"
  shows "object_sound P s' p \<and> (\<forall>bs. r = Some bs \<longrightarrow> bs = take wanted (drop off p)) \<and>
    (object_live P p s \<longrightarrow> r \<noteq> None \<and> object_live P p s')"
  using assms
proof (induction "wanted - length copied" arbitrary: copied s rule: less_induct)
  case less
  show ?case
  proof (cases "length copied < wanted")
    case False
    then have "r = Some copied" "s' = s\<lparr>os_status := OsOk\<rparr>" using less.prems(4) by (simp_all add: object_read_loop.simps)
    then show ?thesis using False less.prems by (auto simp: object_sound_def object_live_def)
  next
    case True
    obtain c t where t: "load_cancelled s = (c, t)" by force
    have ts: "object_sound P t p" using load_cancelled_sound[of P s p] t less.prems(1) by simp
    have tr: "os_reader t = os_reader s" "object_live P p s \<Longrightarrow> \<not> c \<and> object_live P p t"
      using t by (auto simp: load_cancelled_def object_live_def)
    let ?limit = "unat (oi_limit (or_info (os_reader s)))"
    let ?pos = "off + length copied"
    let ?frame = "?pos div ?limit"
    have limit: "0 < ?limit" using less.prems(1) by (simp add: object_sound_def reader_serves_def)
    have pos: "?pos < length p" using True less.prems(3) by simp
    note loop = less.prems(4)[unfolded object_read_loop.simps[of P off wanted copied s]]
    show ?thesis
    proof (cases c)
      case True
      then show ?thesis using loop t tr(2) clear_cache_sound[OF ts] \<open>length copied < wanted\<close> by auto
    next
      case nc: False
      show ?thesis
      proof (cases "0xFFFFFFFF < ?frame")
        case True
        then have "0xFFFFFFFF * ?limit < ?pos" using div_times_less_eq_dividend[of ?pos ?limit] limit
          by (meson less_le_trans mult_less_mono1)
        then have "\<not> object_live P p t" using pos tr(1) by (auto simp: object_live_def)
        then show ?thesis using loop t tr nc ts True \<open>length copied < wanted\<close> by auto
      next
        case ok: False
        obtain f u where f: "load_frame P t ?frame = (f, u)" by force
        have us: "object_sound P u p" "os_reader u = os_reader s" "os_loads u = os_loads t"
          "\<And>bs. f = Some bs \<Longrightarrow> bs = frame_of ?limit p ?frame"
          "f = None \<Longrightarrow> \<forall>bs. read_frame P (os_reader s) ?frame \<noteq> Inr bs"
          using load_frame_sound[OF ts f] tr(1) by simp_all
        have ul: "object_live P p s \<Longrightarrow> object_live P p u" using tr us by (auto simp: object_live_def)
        show ?thesis
        proof (cases f)
          case None
          have "?frame * ?limit < length p" using pos by (metis div_mult_mod_eq le_add1 le_less_trans)
          then have "\<not> object_live P p s" using us(5)[OF None] by (auto simp: object_live_def)
          then show ?thesis using loop t nc ok f None us(1) tr(1) \<open>length copied < wanted\<close> by auto
        next
          case (Some bs)
          have bs: "bs = frame_of ?limit p ?frame" using us(4) Some .
          let ?part = "take (min (wanted - length copied) (length bs - ?pos mod ?limit)) (drop (?pos mod ?limit) bs)"
          have within: "?pos mod ?limit < length bs" unfolding bs by (rule piece_at(1)[OF limit pos])
          have part: "?part = take (length ?part) (drop ?pos p)" "0 < length ?part" "length ?part \<le> wanted - length copied"
          proof -
            have "?part = take (wanted - length copied) (drop (?pos mod ?limit) bs)"
              by (cases "wanted - length copied \<le> length bs - ?pos mod ?limit") simp_all
            also have "\<dots> = take (min (wanted - length copied) (?limit - ?pos mod ?limit)) (drop ?pos p)"
              unfolding bs by (rule piece_at(2)[OF limit pos])
            finally show "?part = take (length ?part) (drop ?pos p)" by (rule take_prefix)
            show "0 < length ?part" using within True by simp
            show "length ?part \<le> wanted - length copied" by simp
          qed
          have next_round: "object_read_loop P off wanted (copied @ ?part) u = (r, s')"
            using loop t nc ok f Some within tr(1) \<open>length copied < wanted\<close> by (simp add: Let_def)
          have pre: "copied @ ?part = take (length (copied @ ?part)) (drop off p)"
            by (rule take_extend[OF less.prems(2) part(1)])
          have "wanted - length (copied @ ?part) < wanted - length copied" using part(2) True by simp
          from less.hyps[OF this us(1) pre less.prems(3) next_round] part(3) True
          have "object_sound P s' p \<and> (\<forall>bs. r = Some bs \<longrightarrow> bs = take wanted (drop off p)) \<and>
              (object_live P p u \<longrightarrow> r \<noteq> None \<and> object_live P p s')" by simp
          then show ?thesis using ul by blast
        qed
      qed
    qed
  qed
qed


lemma object_read_sound:
  assumes "object_sound P s p" "object_read P s off n = (r, s')"
  shows "object_sound P s' p \<and> (\<forall>bs. r = Some bs \<longrightarrow> bs = take n (drop off p)) \<and>
    (object_live P p s \<longrightarrow> r \<noteq> None \<and> object_live P p s')"
proof -
  obtain c t where t: "load_cancelled s = (c, t)" by force
  have ts: "object_sound P t p" using load_cancelled_sound[of P s p] t assms(1) by simp
  have tr: "object_live P p s \<Longrightarrow> \<not> c \<and> object_live P p t" using t by (auto simp: load_cancelled_def object_live_def)
  have total: "object_size t = length p" using ts by (simp add: object_size_def object_sound_def reader_serves_def)
  show ?thesis
  proof (cases "c \<or> length p \<le> off \<or> n = 0")
    case True
    then show ?thesis using assms(2) t tr clear_cache_sound[OF ts] ts total by (auto simp: object_read_def Let_def split: if_splits)
  next
    case False
    then have "object_read_loop P off (min n (length p - off)) [] t = (r, s')" using assms(2) t total by (simp add: object_read_def Let_def)
    moreover have "off + min n (length p - off) \<le> length p" using False by linarith
    moreover have "take (min n (length p - off)) (drop off p) = take n (drop off p)" by (simp add: min_def)
    ultimately have "object_sound P s' p \<and> (\<forall>bs. r = Some bs \<longrightarrow> bs = take n (drop off p)) \<and>
        (object_live P p t \<longrightarrow> r \<noteq> None \<and> object_live P p s')"
      using object_read_loop_sound[OF ts, of "[]" off "min n (length p - off)" r s'] by simp
    then show ?thesis using tr by blast
  qed
qed

interpretation object: live_source "object_sound P" object_size "object_read P" "object_live P"
  for P
proof
  fix s q off n bs
  assume a: "object_sound P s q"
  show "object_size s = length q" using a by (simp add: object_size_def object_sound_def reader_serves_def)
  obtain r s' where r: "object_read P s off n = (r, s')" by force
  show "object_sound P (snd (object_read P s off n)) q" using object_read_sound[OF a r] r by simp
  show "fst (object_read P s off n) = Some bs \<Longrightarrow> bs = take n (drop off q)" using object_read_sound[OF a r] r by simp
  show "object_live P q s \<Longrightarrow> fst (object_read P s off n) \<noteq> None \<and> object_live P q (snd (object_read P s off n))"
    using object_read_sound[OF a r] r by simp
qed


section \<open>Vault files implement it\<close>

text \<open>Chunk \<open>i\<close> of the video as the store reads it.\<close>

definition stored_chunk :: "object_prims \<Rightarrow> chunk_store \<Rightarrow> video_source \<Rightarrow> nat \<Rightarrow> bytes option" where
  "stored_chunk P st s i = read_chunk (op_aead P) (op_miniz P) (st_framed st) (st_key st) (st_file st)
     (unat (vc_offset (vi_chunks s ! i)), unat (vc_length (vi_chunks s ! i))) (video_chunk_tag s i)"

definition chunks_serve :: "object_prims \<Rightarrow> video_source \<Rightarrow> bytes \<Rightarrow> bool" where
  "chunks_serve P s p \<longleftrightarrow> 0 < unat (vi_chunk_size s) \<and> video_size s = length p \<and>
     length p \<le> length (vi_chunks s) * unat (vi_chunk_size s) \<and>
     (\<forall>st i b. vi_store s = Some st \<longrightarrow> i < length (vi_chunks s) \<longrightarrow> stored_chunk P st s i = Some b \<longrightarrow>
        b = frame_of (unat (vi_chunk_size s)) p i)"

definition video_sound :: "object_prims \<Rightarrow> video_source \<Rightarrow> bytes \<Rightarrow> bool" where
  "video_sound P s p = (case vi_v3 s of
     Some v3 \<Rightarrow> object_sound P v3 p \<and> video_size s = length p
   | None \<Rightarrow> chunks_serve P s p \<and>
       (vi_index s = -1 \<or> (\<exists>i. vi_index s = int i \<and> vi_cache s = frame_of (unat (vi_chunk_size s)) p i)))"

definition video_live :: "object_prims \<Rightarrow> bytes \<Rightarrow> video_source \<Rightarrow> bool" where
  "video_live P p s = (case vi_v3 s of
     Some v3 \<Rightarrow> object_live P p v3
   | None \<Rightarrow> (case vi_store s of None \<Rightarrow> False
              | Some st \<Rightarrow> list_all (\<lambda>i. stored_chunk P st s i \<noteq> None) [0..<length (vi_chunks s)]))"

lemma fill_one_sound:
  assumes "video_sound P s p" "vi_v3 s = None" "off < length p" "fill_one P s off n = (r, s')" "0 < n"
  shows "video_sound P s' p \<and> vi_v3 s' = None \<and>
    (\<forall>bs. r = Some bs \<longrightarrow> bs = take (length bs) (drop off p) \<and> 0 < length bs \<and> length bs \<le> n) \<and>
    (video_live P p s \<longrightarrow> r \<noteq> None \<and> video_live P p s')"
proof -
  let ?c = "unat (vi_chunk_size s)" and ?i = "off div unat (vi_chunk_size s)"
  have serve: "chunks_serve P s p" using assms(1,2) by (simp add: video_sound_def)
  then have c: "0 < ?c" "length p \<le> length (vi_chunks s) * ?c" by (simp_all add: chunks_serve_def)
  have i: "?i < length (vi_chunks s)" using assms(3) c by (metis less_mult_imp_div_less less_le_trans)
  have finish: "video_sound P t p \<and> vi_v3 t = None \<and>
      (\<forall>bs. r = Some bs \<longrightarrow> bs = take (length bs) (drop off p) \<and> 0 < length bs \<and> length bs \<le> n) \<and> r \<noteq> None"
    if "(r, t) = (if length (vi_cache t) \<le> off mod ?c then (Some [], t)
        else (Some (take (min n (length (vi_cache t) - off mod ?c)) (drop (off mod ?c) (vi_cache t))), t))"
      "video_sound P t p" "vi_v3 t = None" "vi_cache t = frame_of ?c p ?i" for t
  proof -
    note pc = piece_at[OF c(1) assms(3)]
    define bs where "bs = take (min n (length (vi_cache t) - off mod ?c)) (drop (off mod ?c) (vi_cache t))"
    have r: "r = Some bs" using that(1,4) pc(1) by (simp add: bs_def)
    have "bs = take n (drop (off mod ?c) (vi_cache t))" by (simp add: bs_def min_def)
    also have "\<dots> = take (min n (?c - off mod ?c)) (drop off p)" unfolding that(4) by (rule pc(2))
    finally have "bs = take (length bs) (drop off p)" by (rule take_prefix)
    moreover have "0 < length bs" "length bs \<le> n" using pc(1) that(4) assms(5) by (simp_all add: bs_def)
    ultimately show ?thesis using r that(2,3) by blast
  qed
  show ?thesis
  proof (cases "vi_index s = int ?i")
    case True
    have "vi_cache s = frame_of ?c p ?i" using assms(1,2) True by (auto simp: video_sound_def)
    moreover have run: "(r, s') = (if length (vi_cache s) \<le> off mod ?c then (Some [], s)
        else (Some (take (min n (length (vi_cache s) - off mod ?c)) (drop (off mod ?c) (vi_cache s))), s))"
      using assms(4) i True by (simp add: fill_one_def Let_def)
    moreover have "s' = s" using run by (simp split: if_splits)
    ultimately show ?thesis using finish[of s] assms(1,2) by simp
  next
    case False
    show ?thesis
    proof (cases "\<exists>st b. vi_store s = Some st \<and> stored_chunk P st s ?i = Some b")
      case True
      then obtain st b where st: "vi_store s = Some st" "stored_chunk P st s ?i = Some b" by blast
      let ?t = "s\<lparr>vi_cache := b, vi_index := int ?i\<rparr>"
      have b: "b = frame_of ?c p ?i" using serve st i by (simp add: chunks_serve_def)
      have t: "video_sound P ?t p" "vi_v3 ?t = None"
        using serve assms(2) b by (simp_all add: video_sound_def chunks_serve_def video_size_def stored_chunk_def video_chunk_tag_def)
      have run: "(r, s') = (if length (vi_cache ?t) \<le> off mod ?c then (Some [], ?t)
          else (Some (take (min n (length (vi_cache ?t) - off mod ?c)) (drop (off mod ?c) (vi_cache ?t))), ?t))"
        using assms(4) i False st by (simp add: fill_one_def Let_def stored_chunk_def read_chunk_secure_eq)
      have "s' = ?t" using run by (simp split: if_splits)
      moreover have "video_live P p s = video_live P p ?t"
        using assms(2) by (simp add: video_live_def stored_chunk_def video_chunk_tag_def split: option.splits)
      moreover have "vi_cache ?t = frame_of ?c p ?i" using b by simp
      ultimately show ?thesis using finish[of ?t] run t by metis
    next
      case none: False
      have "r = None \<and> s' = s\<lparr>vi_cache := [], vi_index := -1\<rparr>"
        using assms(4) i False none
        by (auto simp: fill_one_def Let_def stored_chunk_def read_chunk_secure_eq split: option.splits)
      moreover have "\<not> video_live P p s"
        using none i assms(2) by (auto simp: video_live_def list_all_iff split: option.splits)
      moreover have "video_sound P (s\<lparr>vi_cache := [], vi_index := -1\<rparr>) p"
        using serve assms(2) by (simp add: video_sound_def chunks_serve_def video_size_def stored_chunk_def video_chunk_tag_def)
      ultimately show ?thesis using assms(2) by simp
    qed
  qed
qed

lemma video_read_loop_sound:
  assumes "video_sound P s p" "vi_v3 s = None" "written = take (length written) (drop off p)" "off + want \<le> length p"
    "video_read_loop P off want written s = (r, s')" "length written \<le> want"
  shows "video_sound P s' p \<and> vi_v3 s' = None \<and> (\<forall>bs. r = Some bs \<longrightarrow> bs = take want (drop off p)) \<and>
    (video_live P p s \<longrightarrow> r \<noteq> None \<and> video_live P p s')"
  using assms
proof (induction "want - length written" arbitrary: written s rule: less_induct)
  case less
  show ?case
  proof (cases "length written < want")
    case False
    then show ?thesis using less.prems by (auto simp: video_read_loop.simps)
  next
    case True
    obtain f t where f: "fill_one P s (off + length written) (want - length written) = (f, t)" by force
    have ft: "video_sound P t p \<and> vi_v3 t = None \<and>
      (\<forall>bs. f = Some bs \<longrightarrow> bs = take (length bs) (drop (off + length written) p) \<and> 0 < length bs \<and> length bs \<le> want - length written) \<and>
      (video_live P p s \<longrightarrow> f \<noteq> None \<and> video_live P p t)"
      by (rule fill_one_sound[OF less.prems(1,2) _ f]) (use True less.prems(4) in simp_all)
    show ?thesis
    proof (cases f)
      case None
      then show ?thesis using ft f True less.prems(5) by (auto simp: video_read_loop.simps[of P off want written s])
    next
      case (Some bs)
      have bs: "bs = take (length bs) (drop (off + length written) p)" "0 < length bs" "length bs \<le> want - length written"
        using ft Some by blast+
      have next_round: "video_read_loop P off want (written @ bs) t = (r, s')"
        using less.prems(5) f Some True bs(2) by (simp add: video_read_loop.simps[of P off want written s])
      have "want - length (written @ bs) < want - length written" using bs(2) True by (simp add: diff_less_mono2)
      from less.hyps[OF this _ _ take_extend[OF less.prems(3) bs(1)] less.prems(4) next_round] ft bs(3) True
      show ?thesis by auto
    qed
  qed
qed

lemma video_read_sound:
  assumes "video_sound P s p" "video_read P s off n = (r, s')"
  shows "video_sound P s' p \<and> (\<forall>bs. r = Some bs \<longrightarrow> bs = take n (drop off p)) \<and>
    (video_live P p s \<longrightarrow> r \<noteq> None \<and> video_live P p s')"
proof (cases "vi_v3 s")
  case (Some v3)
  obtain q w where q: "object_read P v3 off n = (q, w)" by force
  have "r = q" "s' = s\<lparr>vi_v3 := Some w\<rparr>" using assms(2) Some q by (simp_all add: video_read_def)
  then show ?thesis
    using object_read_sound[OF _ q, of p] assms(1) Some by (auto simp: video_sound_def video_live_def video_size_def)
next
  case None
  then have serve: "0 < unat (vi_chunk_size s)" "video_size s = length p" using assms(1) by (simp_all add: video_sound_def chunks_serve_def)
  then have cs: "vi_chunk_size s \<noteq> 0" by auto
  show ?thesis
  proof (cases "length p \<le> off")
    case True
    then show ?thesis using assms None serve by (auto simp: video_read_def)
  next
    case False
    then have "video_read_loop P off (min n (length p - off)) [] s = (r, s')" using assms(2) None serve cs by (simp add: video_read_def)
    moreover have "off + min n (length p - off) \<le> length p" using False by linarith
    moreover have "take (min n (length p - off)) (drop off p) = take n (drop off p)" by (simp add: min_def)
    ultimately show ?thesis using video_read_loop_sound[OF assms(1) None, of "[]" off "min n (length p - off)" r s'] by auto
  qed
qed

interpretation video: live_source "video_sound P" video_size "video_read P" "video_live P"
  for P
proof
  fix s q off n bs
  assume a: "video_sound P s q"
  show "video_size s = length q" using a by (auto simp: video_sound_def chunks_serve_def split: option.splits)
  obtain r s' where r: "video_read P s off n = (r, s')" by force
  show "video_sound P (snd (video_read P s off n)) q" using video_read_sound[OF a r] r by simp
  show "fst (video_read P s off n) = Some bs \<Longrightarrow> bs = take n (drop off q)" using video_read_sound[OF a r] r by simp
  show "video_live P q s \<Longrightarrow> fst (video_read P s off n) \<noteq> None \<and> video_live P q (snd (video_read P s off n))"
    using video_read_sound[OF a r] r by simp
qed


end
