(* ===== verification/Video_Playback.thy ===== *)
theory Video_Playback
  imports Video_Source Vault_Edit
begin

text \<open>
  Importing a video and playing it: the chunk loop of \<open>stage_video\<close> (\<open>src/vault/staging.cpp\<close>) for a vault file, and the
  two end-to-end properties, from the imported bytes to what the demuxer reads.
\<close>

section \<open>Storing a video in a vault file\<close>

text \<open>
  The legacy branch of \<open>stage_video\<close> (\<open>src/vault/staging.cpp\<close>).  \<open>rids\<close> and \<open>nonces\<close> are what the random source gives for
  the chunks, in order.  The loop returns the file as it left it, the chunks stored so far and whether it reached the
  end.
\<close>

record staged_video_info =
  sv_container :: byte
  sv_codec :: byte
  sv_width :: u32
  sv_height :: u32
  sv_duration :: u64
  sv_poster :: bytes

definition video_tag :: "bytes \<Rightarrow> bool \<Rightarrow> nat \<Rightarrow> chunk_tag" where
  "video_tag owner bound k = \<lparr>ct_domain = VideoDomain, ct_owner = owner, ct_record = zero_id, ct_sequence = of_nat k, ct_context_bound = bound\<rparr>"

function stage_chunks ::
  "object_prims \<Rightarrow> bool \<Rightarrow> bytes \<Rightarrow> (nat \<Rightarrow> bytes option) \<Rightarrow> (nat \<Rightarrow> bytes option) \<Rightarrow> bytes \<Rightarrow> bool \<Rightarrow> nat \<Rightarrow> bytes \<Rightarrow>
   nat \<Rightarrow> video_chunk list \<Rightarrow> disk \<Rightarrow> bool \<times> video_chunk list \<times> disk" where
  "stage_chunks P framed key rids nonces owner bound chunk_size data off chunks file =
     (if off < length data \<and> 0 < chunk_size then
        let len = min chunk_size (length data - off); k = length chunks in
        case append_chunk (op_aead P) (op_miniz P) framed key (rids k) (nonces k) file (take len (drop off data)) (video_tag owner bound k) of
          None \<Rightarrow> (False, chunks, file)
        | Some (file, tag, (at, n)) \<Rightarrow>
            stage_chunks P framed key rids nonces owner bound chunk_size data (off + chunk_size)
              (chunks @ [\<lparr>vc_offset = of_nat at, vc_length = of_nat n, vc_sequence = ct_sequence tag, vc_id = ct_record tag\<rparr>]) file
      else (True, chunks, file))"
  by pat_completeness auto
termination
  by (relation "measure (\<lambda>(P, framed, key, rids, nonces, owner, bound, chunk_size, data, off, chunks, file). length data - off)") auto

declare stage_chunks.simps [simp del]

text \<open>The poster is chunk number \<open>length chunks\<close>.  \<open>probe\<close> is the demuxer's answer.\<close>

definition stage_video_file ::
  "object_prims \<Rightarrow> vault \<Rightarrow> chunk_store \<Rightarrow> bool \<Rightarrow> bytes option \<Rightarrow> (nat \<Rightarrow> bytes option) \<Rightarrow> (nat \<Rightarrow> bytes option) \<Rightarrow> u64 \<Rightarrow>
   (bytes \<Rightarrow> staged_video_info option) \<Rightarrow> bytes \<Rightarrow> bytes \<Rightarrow> u32 \<Rightarrow> staged_video_info option \<Rightarrow> vault_result \<times> index_node option \<times> disk" where
  "stage_video_file P v store bound node_id rids nonces now probe data filename chunk_size precomputed =
     (if \<not> vt_unlocked v then (ResLocked, None, st_file store)
      else if vt_read_only v \<or> \<not> is_safe_node_name filename \<or> chunk_size = 0 then (ResInvalidArg, None, st_file store)
      else case (case precomputed of Some info \<Rightarrow> Some info | None \<Rightarrow> probe data) of
        None \<Rightarrow> (ResInvalidArg, None, st_file store)
      | Some info \<Rightarrow>
          (case (if bound then node_id else Some zero_id) of
             None \<Rightarrow> (ResCryptoError, None, st_file store)
           | Some owner \<Rightarrow>
               (case stage_chunks P (st_framed store) (st_key store) rids nonces owner bound (unat chunk_size) data 0 [] (st_file store) of
                  (False, chunks, file) \<Rightarrow> (ResIoError, None, file)
                | (True, chunks, file) \<Rightarrow>
                    if chunks = [] then (ResInvalidArg, None, file)
                    else case (if sv_poster info = [] then Some (file, zero_id, 0, 0)
                               else map_option (\<lambda>(f, tag, at, n). (f, ct_record tag, at, n))
                                 (append_chunk (op_aead P) (op_miniz P) (st_framed store) (st_key store)
                                   (rids (length chunks)) (nonces (length chunks)) file (sv_poster info)
                                   \<lparr>ct_domain = PosterDomain, ct_owner = owner, ct_record = zero_id, ct_sequence = 0, ct_context_bound = bound\<rparr>)) of
                      None \<Rightarrow> (ResIoError, None, file)
                    | Some (file, poster_id, poster_offset, poster_length) \<Rightarrow>
                        (ResOk, Some (Node (default_node_data\<lparr>nd_type := Video, nd_name := filename, nd_node_id := owner,
                           nd_vmeta := \<lparr>vm_container = sv_container info, vm_codec = sv_codec info, vm_width = sv_width info,
                             vm_height = sv_height info, vm_duration_us = sv_duration info, vm_orig_size = of_nat (length data),
                             vm_created_ts = now, vm_chunk_size = chunk_size, vm_chunks = chunks,
                             vm_poster_offset = of_nat poster_offset, vm_poster_length = of_nat poster_length,
                             vm_poster_id = poster_id, vm_context_bound = bound\<rparr>\<rparr>) []), file))))"

text \<open>The chunks stored so far read back in this file and in every file that extends it.\<close>

definition stored :: "object_prims \<Rightarrow> bool \<Rightarrow> bytes \<Rightarrow> bytes \<Rightarrow> bool \<Rightarrow> nat \<Rightarrow> bytes \<Rightarrow> disk \<Rightarrow> video_chunk list \<Rightarrow> bool" where
  "stored P framed key owner bound chunk_size data file chunks \<longleftrightarrow>
     (\<forall>i < length chunks. \<forall>rest. read_chunk (op_aead P) (op_miniz P) framed key (file @ rest)
        (unat (vc_offset (chunks ! i)), unat (vc_length (chunks ! i)))
        \<lparr>ct_domain = VideoDomain, ct_owner = owner, ct_record = vc_id (chunks ! i), ct_sequence = vc_sequence (chunks ! i),
         ct_context_bound = bound\<rparr> = Some (frame_of chunk_size data i))"

lemma stored_append: "stored P framed key owner bound cs data file chunks \<Longrightarrow> stored P framed key owner bound cs data (file @ tail) chunks"
  unfolding stored_def by simp

lemma stage_chunks_extends: "stage_chunks P framed key rids nonces owner bound cs data off chunks d = (ok, chunks', file') \<Longrightarrow> \<exists>tail. file' = d @ tail"
proof (induction P framed key rids nonces owner bound cs data off chunks d rule: stage_chunks.induct)
  case (1 P framed key rids nonces owner bound cs data off chunks d)
  show ?case
  proof (cases "off < length data \<and> 0 < cs")
    case True
    show ?thesis
    proof (cases "append_chunk (op_aead P) (op_miniz P) framed key (rids (length chunks)) (nonces (length chunks)) d
        (take (min cs (length data - off)) (drop off data)) (video_tag owner bound (length chunks))")
      case None
      then show ?thesis using 1(2) True by (simp add: stage_chunks.simps[of P framed key rids nonces owner bound cs data off chunks d] Let_def)
    next
      case (Some x)
      obtain f tag at n where x: "x = (f, tag, (at, n))" by (cases x) auto
      have rec: "stage_chunks P framed key rids nonces owner bound cs data (off + cs)
          (chunks @ [\<lparr>vc_offset = of_nat at, vc_length = of_nat n, vc_sequence = ct_sequence tag, vc_id = ct_record tag\<rparr>]) f = (ok, chunks', file')"
        using 1(2) True Some x by (simp add: stage_chunks.simps[of P framed key rids nonces owner bound cs data off chunks d] Let_def)
      have "\<exists>c. f = d @ c" using append_chunk_SomeE[OF Some[unfolded x]] by metis
      then show ?thesis using 1(1)[OF True refl refl Some x[symmetric] refl refl rec] by auto
    qed
  next
    case False
    show ?thesis using 1(2)[unfolded stage_chunks.simps[of P framed key rids nonces owner bound cs data off chunks d] if_not_P[OF False]] by simp
  qed
qed


lemma append_chunk_stored:
  assumes L: "aead_laws (op_aead P)" "miniz_laws (op_miniz P)" "\<And>n. nonce = Some n \<Longrightarrow> length n = NONCE_SIZE"
    and a: "append_chunk (op_aead P) (op_miniz P) framed key rid nonce d piece (video_tag owner bound k) = Some (f, tag, (at, n))"
    and small: "length f < 2 ^ 64"
  shows "\<exists>c. f = d @ c"
    "read_chunk (op_aead P) (op_miniz P) framed key (f @ rest) (unat (of_nat at :: u64), unat (of_nat n :: u64))
       \<lparr>ct_domain = VideoDomain, ct_owner = owner, ct_record = ct_record tag, ct_sequence = ct_sequence tag, ct_context_bound = bound\<rparr> = Some piece"
proof -
  obtain c where c: "f = d @ c" "(at, n) = (length d, length c)"
    "ct_context_bound (video_tag owner bound k) \<longrightarrow> tag = (video_tag owner bound k)\<lparr>ct_record := ct_record tag\<rparr>"
    "\<not> ct_context_bound (video_tag owner bound k) \<longrightarrow> tag = video_tag owner bound k"
    using append_chunk_SomeE[OF a] by metis
  then show "\<exists>c. f = d @ c" by blast
  have t: "\<lparr>ct_domain = VideoDomain, ct_owner = owner, ct_record = ct_record tag, ct_sequence = ct_sequence tag, ct_context_bound = bound\<rparr> = tag"
    using c(3,4) by (cases tag; cases bound) (auto simp: video_tag_def)
  have n: "unat (of_nat at :: u64) = at" "unat (of_nat n :: u64) = n" using c(1,2) small by (simp_all add: unat_of_nat_small)
  have "in_file (f @ rest) (at, n)" "slice (f @ rest) (at, n) = slice f (at, n)"
    using c(1,2) by (simp_all add: slice_def)
  then show "read_chunk (op_aead P) (op_miniz P) framed key (f @ rest) (unat (of_nat at :: u64), unat (of_nat n :: u64))
       \<lparr>ct_domain = VideoDomain, ct_owner = owner, ct_record = ct_record tag, ct_sequence = ct_sequence tag, ct_context_bound = bound\<rparr> = Some piece"
    unfolding t n using read_appended_chunk[OF L a] by blast
qed

lemma stage_chunks_stored:
  assumes L: "aead_laws (op_aead P)" "miniz_laws (op_miniz P)" "\<And>k n. nonces k = Some n \<Longrightarrow> length n = NONCE_SIZE"
    and small: "length f' < 2 ^ 64" and cs: "0 < cs"
  shows "stage_chunks P framed key rids nonces owner bound cs data off chunks d = (True, chunks', f') \<Longrightarrow>
     off = length chunks * cs \<Longrightarrow> stored P framed key owner bound cs data d chunks \<Longrightarrow>
     stored P framed key owner bound cs data f' chunks' \<and> length data \<le> length chunks' * cs"
proof (induction "length data - off" arbitrary: off chunks d rule: less_induct)
  case less
  note simps = stage_chunks.simps[of P framed key rids nonces owner bound cs data off chunks d]
  show ?case
  proof (cases "off < length data")
    case True
    let ?piece = "take (min cs (length data - off)) (drop off data)"
    obtain f tag at n where x: "append_chunk (op_aead P) (op_miniz P) framed key (rids (length chunks)) (nonces (length chunks)) d
        ?piece (video_tag owner bound (length chunks)) = Some (f, tag, (at, n))"
      using less.prems(1) True cs by (auto simp: simps Let_def split: option.splits)
    let ?c = "\<lparr>vc_offset = of_nat at, vc_length = of_nat n, vc_sequence = ct_sequence tag, vc_id = ct_record tag\<rparr>"
    have rec: "stage_chunks P framed key rids nonces owner bound cs data (off + cs) (chunks @ [?c]) f = (True, chunks', f')"
      using less.prems(1) True cs x by (simp add: simps Let_def)
    have sf: "length f < 2 ^ 64" using stage_chunks_extends[OF rec] small by auto
    have nl: "\<And>n. nonces (length chunks) = Some n \<Longrightarrow> length n = NONCE_SIZE" by (rule L(3))
    note as = append_chunk_stored[OF L(1,2) nl x sf]
    have "?piece = frame_of cs data (length chunks)" by (simp add: frame_of_def less.prems(2) min_def)
    then have new: "read_chunk (op_aead P) (op_miniz P) framed key (f @ rest) (unat (vc_offset ?c), unat (vc_length ?c))
        \<lparr>ct_domain = VideoDomain, ct_owner = owner, ct_record = vc_id ?c, ct_sequence = vc_sequence ?c, ct_context_bound = bound\<rparr> =
        Some (frame_of cs data (length chunks))" for rest
      using as(2) by simp
    obtain c where "f = d @ c" using as(1) by blast
    then have "stored P framed key owner bound cs data f chunks" using stored_append[OF less.prems(3)] by simp
    then have "stored P framed key owner bound cs data f (chunks @ [?c])"
      using new by (simp add: stored_def nth_append less_Suc_eq)
    moreover have "length data - (off + cs) < length data - off" using True cs by simp
    ultimately show ?thesis using less.hyps[OF _ rec] less.prems(2) by simp
  next
    case False
    then have "chunks' = chunks" "f' = d" using less.prems(1)[unfolded simps] by simp_all
    then show ?thesis using less.prems(2,3) False by simp
  qed
qed


text \<open>A stored video opens as a sound and live source, in the file it was stored in and in every longer one.\<close>

lemma stored_video_sound:
  fixes rest :: disk and loads :: "nat \<Rightarrow> bool"
  assumes "aead_laws (op_aead P)" "miniz_laws (op_miniz P)" "\<And>k n. nonces k = Some n \<Longrightarrow> length n = NONCE_SIZE"
    and run: "stage_video_file P v store bound node_id rids nonces now probe data filename chunk_size precomputed = (ResOk, Some node, d)"
    and small: "length d < 2 ^ 64" "length data < 2 ^ 64"
  defines "s \<equiv> video_open P loads (FileStorage (store\<lparr>st_file := d @ rest\<rparr>)) node"
  shows "video_sound P s data \<and> video_live P data s"
proof -
  have cs: "0 < unat chunk_size" using run by (auto simp: stage_video_file_def unat_gt_0 split: if_splits)
  obtain owner info chunks f poster where o: "stage_chunks P (st_framed store) (st_key store) rids nonces owner bound (unat chunk_size) data 0 []
      (st_file store) = (True, chunks, f)" "d = f @ poster"
    "nd_node_id (ndata node) = owner" "vm_chunks (nd_vmeta (ndata node)) = chunks" "vm_chunk_size (nd_vmeta (ndata node)) = chunk_size"
    "vm_context_bound (nd_vmeta (ndata node)) = bound" "vm_orig_size (nd_vmeta (ndata node)) = of_nat (length data)"
    using run by (auto simp: stage_video_file_def append_chunk_def append_at_end_def Let_def split: if_splits option.splits prod.splits bool.splits)
  have "length f < 2 ^ 64" using small(1) o(2) by simp
  from stage_chunks_stored[OF assms(1,2,3) this cs o(1)]
  have st: "stored P (st_framed store) (st_key store) owner bound (unat chunk_size) data f chunks" "length data \<le> length chunks * unat chunk_size"
    by (auto simp: stored_def)
  have sz: "unat (of_nat (length data) :: u64) = length data" using small(2) by (simp add: unat_of_nat_small)
  have reads: "stored_chunk P (store\<lparr>st_file := d @ rest\<rparr>) s i = Some (frame_of (unat chunk_size) data i)" if "i < length chunks" for i
    using st(1) that o by (simp add: stored_def stored_chunk_def s_def video_open_def video_chunk_tag_def)
  have fields: "vi_store s = Some (store\<lparr>st_file := d @ rest\<rparr>)" "vi_v3 s = None" "vi_chunks s = chunks" "vi_chunk_size s = chunk_size"
    "vi_index s = -1" "video_size s = length data"
    using o sz by (simp_all add: s_def video_open_def video_size_def)
  show ?thesis using reads fields cs st(2)
    by (auto simp: video_sound_def chunks_serve_def video_live_def list_all_iff)
qed


text \<open>Answers without an error are those of \<open>MemAvio\<close> on the same bytes.\<close>

lemma answers_are_memory:
  "stream_answers p ops pos rs \<Longrightarrow> AvIoError \<notin> set rs \<Longrightarrow> rs = fst (avio_run mem_step ops \<lparr>av_source = p, av_pos = pos\<rparr>)"
proof (induction p ops pos rs rule: stream_answers.induct)
  case (3 p op ops pos r rs)
  obtain q pos' where q: "stream_step p op pos = (q, pos')" by force
  have "r = q" "stream_answers p ops pos' rs" using 3 q by auto
  then show ?case using 3 q by (auto simp: mem_step_stream split: prod.splits)
qed simp_all

section \<open>Properties\<close>

text \<open>
     Property C1. A video imported into a vault file plays back exactly: whatever sequence of reads and seeks the
     demuxer makes, it sees the imported bytes, every answer that of a plain in-memory stream and none an error, also
     after later imports have appended to the file.
\<close>
theorem imported_video_plays_back:
  assumes "aead_laws (op_aead P)" "miniz_laws (op_miniz P)" "\<forall>k n. nonces k = Some n \<longrightarrow> length n = NONCE_SIZE"
    and run: "stage_video_file P v store bound node_id rids nonces now probe data filename chunk_size precomputed = (ResOk, Some node, d)"
    and small: "length d < 2 ^ 64" "length data < 2 ^ 64"
  shows "fst (avio_run (chunk_step video_size (video_read P)) ops
        \<lparr>av_source = video_open P (\<lambda>_. False) (FileStorage (store\<lparr>st_file := d @ later\<rparr>)) node, av_pos = 0\<rparr>) =
     fst (avio_run mem_step ops \<lparr>av_source = data, av_pos = 0\<rparr>)"
proof -
  let ?a = "\<lparr>av_source = video_open P (\<lambda>_. False) (FileStorage (store\<lparr>st_file := d @ later\<rparr>)) node, av_pos = 0\<rparr>"
  have n: "\<And>k n. nonces k = Some n \<Longrightarrow> length n = NONCE_SIZE" using assms(3) by blast
  have s: "video_sound P (av_source ?a) data" "video_live P data (av_source ?a)"
    using stored_video_sound[OF assms(1,2) n run small] by simp_all
  obtain rs a' where r: "avio_run (chunk_step video_size (video_read P)) ops ?a = (rs, a')" by force
  have "stream_answers data ops 0 rs" using video.run_stream[of P ?a data ops rs a'] s(1) r by simp
  moreover have "AvIoError \<notin> set rs" using video.run_live[of P ?a data ops] s r by simp
  ultimately show ?thesis using answers_are_memory r by simp
qed

definition sample_info :: staged_video_info where
  "sample_info = \<lparr>sv_container = 1, sv_codec = 1, sv_width = 2, sv_height = 2, sv_duration = 5, sv_poster = [1]\<rparr>"

definition sample_store :: chunk_store where
  "sample_store = \<lparr>st_file = [0, 0], st_key = [1], st_framed = True\<rparr>"

definition sample_open_vault :: vault where
  "sample_open_vault = \<lparr>vt_unlocked = True, vt_read_only = False, vt_v3 = False, vt_context = True, vt_root = gallery [],
     vt_settings = default_settings, vt_searches = []\<rparr>"

lemma sample_name_safe: "is_safe_node_name [0x76]"
  by code_simp

lemma sample_frames: "length (encode_frame sample_miniz [10, 20]) < 100" "length (encode_frame sample_miniz [30]) < 100"
  "length (encode_frame sample_miniz [1]) < 100"
  using length_encode_frame[of sample_miniz "[10, 20]"] length_encode_frame[of sample_miniz "[30]"]
    length_encode_frame[of sample_miniz "[1]"] by simp_all

lemma sample_import:
  "\<exists>node d. stage_video_file sample_prims sample_open_vault sample_store False None (\<lambda>_. None) (\<lambda>k. Some (replicate 24 (of_nat k))) 7
     (\<lambda>_. None) [10, 20, 30] [0x76] 2 (Some sample_info) = (ResOk, Some node, d) \<and> length d < 2 ^ 64"
  using sample_frames by (simp add: TAG_SIZE_def stage_video_file_def sample_open_vault_def sample_store_def sample_info_def sample_name_safe sample_name_safe[simplified] stage_chunks.simps
      append_chunk_def encrypt_chunk_def sample_prims_def sample_aead_def sample_lock_def append_at_end_def Let_def video_tag_def)

theorem imported_video_plays_back_witness:
  "\<exists>node d. stage_video_file sample_prims sample_open_vault sample_store False None (\<lambda>_. None) (\<lambda>k. Some (replicate 24 (of_nat k))) 7
       (\<lambda>_. None) [10, 20, 30] [0x76] 2 (Some sample_info) = (ResOk, Some node, d) \<and>
     fst (avio_run (chunk_step video_size (video_read sample_prims)) [AvSeek 1 SEEK_SET, AvRead 9, AvRead 1]
        \<lparr>av_source = video_open sample_prims (\<lambda>_. False) (FileStorage (sample_store\<lparr>st_file := d @ [4, 5]\<rparr>)) node, av_pos = 0\<rparr>) =
     [AvPosition 1, AvBytes [20, 30], AvEof]"
proof -
  obtain node d where n: "stage_video_file sample_prims sample_open_vault sample_store False None (\<lambda>_. None) (\<lambda>k. Some (replicate 24 (of_nat k))) 7
     (\<lambda>_. None) [10, 20, 30] [0x76] 2 (Some sample_info) = (ResOk, Some node, d)" "length d < 2 ^ 64"
    using sample_import by blast
  have nonces: "\<forall>k n. Some (replicate 24 (of_nat k :: byte)) = Some n \<longrightarrow> length n = NONCE_SIZE" by (auto simp: NONCE_SIZE_def)
  have mem: "fst (avio_run mem_step [AvSeek 1 SEEK_SET, AvRead 9, AvRead 1] \<lparr>av_source = [10, 20, 30], av_pos = 0\<rparr>) =
      [AvPosition 1, AvBytes [20, 30], AvEof]" by code_simp
  show ?thesis
    using imported_video_plays_back[OF sample_calls(1,3) nonces n, of "[AvSeek 1 SEEK_SET, AvRead 9, AvRead 1]" "[4, 5]"] n(1)
    unfolding mem by auto
qed

lemma video_object_sound:
  assumes "reader_open P mk info (Some content) = Inr reader" "or_info reader = info" "frames_read P reader fs"
    "fs = map (chunk info plain) [0..<length fs]" "unat (oi_plain info) = length plain" "oi_limit info \<noteq> 0"
    "length plain \<le> 2 ^ 20 * unat (oi_limit info)" "concat fs = plain" "oi_role info = OriginalVideo"
  obtains s where "object_source_open P loads mk info (Some content) = Inr s" "object_sound P s plain"
    "loads = (\<lambda>_. False) \<longrightarrow> object_live P plain s"
proof -
  let ?s = "\<lparr>os_reader = reader, os_cache = (empty_cache_entry, empty_cache_entry), os_stamp = 0, os_loads = loads,
      os_status = OsOk, os_error_frame = 0, os_reported = False\<rparr>"
  let ?L = "unat (oi_limit info)"
  have len: "length fs = length (or_entries reader)" using assms(3) by (simp add: frames_read_def)
  have frames: "read_frame P reader i = Inr (frame_of ?L plain i)" if "i < length fs" for i
    using assms(3) that arg_cong[OF assms(4), of "\<lambda>x. x ! i"] by (simp add: frames_read_def chunk_def frame_of_def)
  have none: "read_frame P reader i = Inl OsInvalidArgument" if "\<not> i < length fs" for i
    using that len by (simp add: read_frame_def)
  have cover: "length plain \<le> length fs * ?L"
    using concat_chunks[of info plain "length fs"] assms(4,8) by (metis length_take min.cobounded2)
  have "reader_serves P reader plain"
    unfolding reader_serves_def using assms(2,5,6) frames none by (metis Inl_Inr_False sum.inject(2) unat_gt_0)
  then have "object_sound P ?s plain" by (simp add: object_sound_def entry_sound_def empty_cache_entry_def)
  moreover have "object_live P plain ?s" if "loads = (\<lambda>_. False)"
  proof -
    have "i < length fs" if "i * ?L < length plain" for i using that cover by (metis less_le_trans mult_less_cancel2)
    moreover have "length plain \<le> 0xFFFFFFFF * ?L" using assms(7) by (rule le_trans) simp
    ultimately show ?thesis using frames assms(2) that by (auto simp: object_live_def)
  qed
  ultimately show ?thesis using that[of ?s] assms(1,9) by (simp add: object_source_open_def)
qed

text \<open>
     Property C2. A video written as an object of a directory vault plays back exactly, frame by frame through the
     two-entry cache: every answer is that of the plaintext, or a read error when another thread cancels; when nobody
     cancels, the demuxer sees the plain in-memory stream.
\<close>
theorem video_object_plays_back:
  assumes A: "aead_laws (op_aead P)" "\<forall>k n. we_nonce e k = Some n \<longrightarrow> length n = NONCE_SIZE"
    and Z: "miniz_laws (op_miniz P)" and B: "\<forall>n k m. length (op_blake2b P n k m) = n"
    and ids: "length vault_id = NODE_ID_SIZE" "length owner = NODE_ID_SIZE" "\<forall>i. we_id e = Some i \<longrightarrow> length i = NODE_ID_SIZE"
    and read: "\<forall>off len bs. read off len = Some bs \<longrightarrow> bs = take len (drop off plain)" "length plain < 2 ^ 64"
    and run: "write_video_object_stream P e mk vault_id owner format (of_nat (length plain)) read root = (OsOk, Some info, roots)"
    and node: "object_for (nd_node_id (ndata node)) = Some info"
    and rs: "rs = fst (avio_run (chunk_step video_size (video_read P)) ops
      \<lparr>av_source = video_open P loads (DirectoryStorage mk object_for (\<lambda>i. open_object True i (last roots))) node, av_pos = 0\<rparr>)"
  shows "stream_answers plain ops 0 rs \<and>
    (loads = (\<lambda>_. False) \<longrightarrow> rs = fst (avio_run mem_step ops \<lparr>av_source = plain, av_pos = 0\<rparr>))"
proof -
  let ?req = "\<lparr>wr_vault = vault_id, wr_owner = owner, wr_role = OriginalVideo, wr_format = format, wr_limit = VIDEO_OBJECT_FRAME_PLAIN\<rparr>"
  have run': "write_object_stream P e mk ?req (of_nat (length plain)) read root = (OsOk, Some info, roots)"
    using run by (simp add: write_video_object_stream_def)
  have ids': "length (wr_vault ?req) = NODE_ID_SIZE" "length (wr_owner ?req) = NODE_ID_SIZE" using ids by simp_all
  have role: "oi_role info = OriginalVideo"
    using run' by (auto simp: write_object_stream_def Let_def split: if_splits option.splits sum.splits prod.splits bool.splits)
  obtain content reader fs where pub: "publish (we_publish e) (oi_object info) content root = (True, roots)"
    and o: "reader_open P mk info (Some content) = Inr reader" "or_info reader = info" "frames_read P reader fs" "concat fs = plain"
    and n: "unat (oi_plain info) = length plain" "valid_object_id (oi_object info)"
    and fs: "fs = map (chunk info plain) [0..<length fs]" "oi_limit info \<noteq> 0" "unat (oi_plain info) \<le> 2 ^ 20 * unat (oi_limit info)"
    using written_object_frames[OF A Z B ids' ids(3) read run'] by metis
  have "vr_visible (last roots) (oi_object info) = Some content" using publish_states(4)[OF pub] by simp
  then have opened: "open_object True (oi_object info) (last roots) = Some content"
    using n(2) by (auto simp: open_object_def valid_object_id_def list_ex_iff list_all_iff)
  obtain s where s: "object_source_open P loads mk info (Some content) = Inr s" "object_sound P s plain"
      "loads = (\<lambda>_. False) \<longrightarrow> object_live P plain s"
    using video_object_sound[OF o(1,2,3) fs(1) n(1) fs(2) fs(3)[unfolded n(1)] o(4) role] by metis
  let ?v = "video_open P loads (DirectoryStorage mk object_for (\<lambda>i. open_object True i (last roots))) node"
  let ?a = "\<lparr>av_source = ?v, av_pos = 0\<rparr>"
  have v: "?v = video_object_source (Some s) (oi_plain info)" using node opened s(1) by (simp add: video_open_def)
  have vs: "video_sound P ?v plain" "loads = (\<lambda>_. False) \<Longrightarrow> video_live P plain ?v"
    unfolding v using s n(1) by (simp_all add: video_sound_def video_live_def video_object_source_def video_size_def)
  obtain rs' a' where r: "avio_run (chunk_step video_size (video_read P)) ops ?a = (rs', a')" by force
  then have rs': "rs = rs'" by (simp add: rs)
  have "stream_answers plain ops 0 rs" using video.run_stream[of P ?a plain ops rs' a'] vs(1) r rs' by simp
  moreover have "AvIoError \<notin> set rs" if "loads = (\<lambda>_. False)" using video.run_live[of P ?a plain ops] vs(1) vs(2)[OF that] r rs' by simp
  ultimately show ?thesis using answers_are_memory by blast
qed


lemma sample_video_write:
  "\<exists>info roots. write_video_object_stream sample_prims sample_env [3] (replicate 16 1) (replicate 16 2) 1 (of_nat (length [10, 20, 30 :: byte]))
     (\<lambda>offset n. if offset > length [10, 20, 30 :: byte] \<or> n > length [10, 20, 30 :: byte] - offset then None
                    else Some (take n (drop offset [10, 20, 30]))) (root_of Map.empty) = (OsOk, Some info, roots)"
proof -
  let ?read = "\<lambda>offset n. if offset > length [10, 20, 30 :: byte] \<or> n > length [10, 20, 30 :: byte] - offset then None
                    else Some (take n (drop offset [10, 20, 30 :: byte]))"
  let ?req = "\<lparr>wr_vault = replicate 16 1, wr_owner = replicate 16 2, wr_role = OriginalVideo, wr_format = 1, wr_limit = VIDEO_OBJECT_FRAME_PLAIN\<rparr>"
  let ?info = "\<lparr>oi_object = replicate 16 9, oi_vault = replicate 16 1, oi_owner = replicate 16 2,
      oi_role = OriginalVideo, oi_format = 1, oi_plain = 3, oi_encrypted = 0,
      oi_limit = VIDEO_OBJECT_FRAME_PLAIN, oi_frames = 1\<rparr>"
  have v: "valid_write_request ?req" "valid_object_id (replicate 16 9)"
    by (simp_all add: valid_write_request_def valid_object_id_def list_ex_iff OBJECT_MAX_FRAME_PLAIN_def VIDEO_OBJECT_FRAME_PLAIN_def)
  have n: "object_frame_count 3 VIDEO_OBJECT_FRAME_PLAIN = Some 1"
    by (simp add: object_frame_count_def OBJECT_MAX_FRAME_PLAIN_def OBJECT_MAX_FRAMES_def VIDEO_OBJECT_FRAME_PLAIN_def Let_def) 
  have e: "env_works sample_env" by (simp add: env_works_def sample_env_def)
  have reads: "\<forall>f < unat (oi_frames ?info). \<exists>bs. ?read (f * unat (oi_limit ?info))
      (min (unat (oi_limit ?info)) (unat (oi_plain ?info) - f * unat (oi_limit ?info))) = Some bs"
    by (simp add: VIDEO_OBJECT_FRAME_PLAIN_def)
  obtain content where "write_staging sample_prims sample_env
      (derive_object_key (op_blake2b sample_prims) [3] (replicate 16 1) (replicate 16 9)) ?info ?read = Inr content"
    using write_staging_works[of sample_env ?info ?read, OF e reads] by blast
  then show ?thesis using v n
    by (auto simp: write_video_object_stream_def write_object_stream_def generate_object_id_def sample_env_def
        publish_def root_of_def Let_def)
qed

theorem video_object_plays_back_witness:
  "\<exists>info roots. fst (avio_run (chunk_step video_size (video_read sample_prims)) [AvSeek (-1) SEEK_END, AvRead 4]
      \<lparr>av_source = video_open sample_prims (\<lambda>_. False) (DirectoryStorage [3] (\<lambda>_. Some info) (\<lambda>i. open_object True i (last roots)))
         (video [0x76]), av_pos = 0\<rparr>) = [AvPosition 2, AvBytes [30]]"
proof -
  obtain info roots where w: "write_video_object_stream sample_prims sample_env [3] (replicate 16 1) (replicate 16 2) 1 (of_nat (length [10, 20, 30 :: byte]))
     (\<lambda>offset n. if offset > length [10, 20, 30 :: byte] \<or> n > length [10, 20, 30 :: byte] - offset then None
                    else Some (take n (drop offset [10, 20, 30]))) (root_of Map.empty) = (OsOk, Some info, roots)"
    using sample_video_write by blast
  have ids: "length (replicate 16 (1 :: byte)) = NODE_ID_SIZE" "length (replicate 16 (2 :: byte)) = NODE_ID_SIZE"
    "length [10, 20, 30 :: byte] < 2 ^ 64"
    by (simp_all add: NODE_ID_SIZE_def)
  have mem: "fst (avio_run mem_step [AvSeek (-1) SEEK_END, AvRead 4] \<lparr>av_source = [10, 20, 30], av_pos = 0\<rparr>) =
      [AvPosition 2, AvBytes [30]]" by code_simp
  have "fst (avio_run (chunk_step video_size (video_read sample_prims)) [AvSeek (-1) SEEK_END, AvRead 4]
      \<lparr>av_source = video_open sample_prims (\<lambda>_. False) (DirectoryStorage [3] (\<lambda>_. Some info) (\<lambda>i. open_object True i (last roots)))
         (video [0x76]), av_pos = 0\<rparr>) = [AvPosition 2, AvBytes [30]]"
    using trans[OF video_object_plays_back[OF sample_calls(1-4) ids(1,2) sample_calls(7) sample_read ids(3) w refl refl, THEN conjunct2,
        rule_format, OF refl] mem] .
  then show ?thesis by blast
qed

end
